(* ===== verification/C_Prelude.thy ===== *)
theory C_Prelude
  imports Main "HOL-Library.Word" "HOL-Library.Sublist" "HOL-Library.Code_Target_Nat"
    "HOL-Library.Code_Target_Int"
begin

text \<open>
  Shared by every component: the machine integers of the C sources (64-bit Apple targets, so
  \<^verbatim>\<open>size_t\<close> has 64 bits), the outcome of a C function that reports success or failure, and the
  sequencing of such functions over a state.

  The C functions modelled here return \<^verbatim>\<open>int\<close> or \<^verbatim>\<open>bool\<close> (1 / true for success) and write their
  results through pointers. The model returns an outcome: \<open>Ok r\<close> with the values written through the
  out-parameters, \<open>Fail\<close> where the source returns 0 / false, and \<open>Undef\<close> where the source would read
  or write outside an object, read a byte nobody wrote, or violate an \<^verbatim>\<open>assert\<close>. The state (stream,
  byte string, buffer) is returned in all three cases, since the sources leave it partly advanced
  when they fail.

  Two interfaces are stated as locales: \<open>byte_reader\<close> (an operation that consumes a prefix of the
  bytes in front of it) and \<open>codec\<close> (a writer and a reader that undo each other on a self-delimiting
  format). The components interpret them on their own definitions.
\<close>

unbundle bit_operations_syntax

subsection \<open>Machine integers\<close>

type_synonym u8 = "8 word"
type_synonym u16 = "16 word"
type_synonym u32 = "32 word"
type_synonym u64 = "64 word"
type_synonym bytes = "u8 list"

text \<open>\<^verbatim>\<open>size_t\<close> values are kept as natural numbers below \<open>2 ^ 64\<close>; additions and multiplications that
  the source performs on them wrap around.\<close>

definition size_add :: "nat \<Rightarrow> nat \<Rightarrow> nat" where
  "size_add a b = (a + b) mod 2 ^ 64"

definition size_mul :: "nat \<Rightarrow> nat \<Rightarrow> nat" where
  "size_mul a b = (a * b) mod 2 ^ 64"

lemma size_add_cases:
  assumes "a < 2 ^ 64" "b < 2 ^ 64"
  shows "size_add a b < a \<longleftrightarrow> 2 ^ 64 \<le> a + b" and "a + b < 2 ^ 64 \<Longrightarrow> size_add a b = a + b"
proof -
  show "a + b < 2 ^ 64 \<Longrightarrow> size_add a b = a + b" by (simp add: size_add_def)
  show "size_add a b < a \<longleftrightarrow> 2 ^ 64 \<le> a + b"
  proof (cases "a + b < 2 ^ 64")
    case False
    then have "size_add a b = a + b - 2 ^ 64"
      using assms unfolding size_add_def by (subst mod_if) (simp add: le_mod_geq)
    then show ?thesis using False assms by linarith
  qed (simp add: size_add_def)
qed

text \<open>Which bits the constants of the sources have; with \<open>bit_simps\<close> they decide masking by cases on
  bit positions.\<close>

named_theorems bit_consts \<open>bits of literal masks\<close>

lemma bit_mask_int: "(numeral k :: int) = mask n \<Longrightarrow> bit (numeral k :: int) i \<longleftrightarrow> i < n"
  by (simp only: bit_mask_iff) simp

lemma bit_exp_int: "(numeral k :: int) = push_bit n 1 \<Longrightarrow> bit (numeral k :: int) i \<longleftrightarrow> i = n"
  by (simp only: bit_push_bit_iff bit_1_iff) auto

lemma bit_masks_int [bit_consts]:
  "bit (127 :: int) i \<longleftrightarrow> i < 7" "bit (63 :: int) i \<longleftrightarrow> i < 6" "bit (31 :: int) i \<longleftrightarrow> i < 5"
  "bit (15 :: int) i \<longleftrightarrow> i < 4" "bit (7 :: int) i \<longleftrightarrow> i < 3" "bit (255 :: int) i \<longleftrightarrow> i < 8"
  "bit (128 :: int) i \<longleftrightarrow> i = 7"
  by (rule bit_mask_int bit_exp_int; simp add: mask_eq_exp_minus_1)+

lemma bit_224 [bit_consts]: "bit (224 :: int) i \<longleftrightarrow> 5 \<le> i \<and> i < 8"
proof -
  have "(224 :: int) = push_bit 5 (mask 3)" by (simp add: mask_eq_exp_minus_1)
  then show ?thesis by (simp only: bit_push_bit_iff bit_mask_iff) auto
qed

lemma and_7f: "x AND 0x7f = take_bit 7 (x :: u8)" "y AND 0x7f = take_bit 7 (y :: u64)"
  by (simp_all add: take_bit_eq_mask mask_eq_exp_minus_1)

lemma and_80: "x AND 0x80 = 0 \<longleftrightarrow> \<not> bit (x :: u8) 7"
proof -
  have "bit (x AND 0x80) n \<longleftrightarrow> n = 7 \<and> bit x 7" for n
    by (auto simp: bit_and_iff bit_consts)
  then show ?thesis by (metis bit_0_eq bit_word_eqI bot_apply bot_bool_def)
qed

text \<open>Shifts and disjoint sums, as numbers.\<close>

lemma unat_push_bit: "unat v * 2 ^ k < 2 ^ LENGTH('a) \<Longrightarrow> unat (push_bit k v) = unat v * 2 ^ k" for v :: "'a::len word"
  unfolding unsigned_push_bit_eq push_bit_eq_mult [of _ "unat v"] by (rule take_bit_nat_eq_self)

lemma unat_push_or:
  assumes "unat x < 2 ^ k" "unat v * 2 ^ k + unat x < 2 ^ LENGTH('a)"
  shows "unat (push_bit k v OR x) = unat v * 2 ^ k + unat (x :: 'a::len word)"
proof -
  have x: "take_bit k x = x"
    using assms(1) by (simp add: word_unat_eq_iff unsigned_take_bit_eq take_bit_nat_eq_self)
  have "bit x i \<Longrightarrow> i < k" for i using arg_cong [OF x, of "\<lambda>w. bit w i"] by (simp add: bit_take_bit_iff)
  then have "push_bit k v AND x = 0" by (intro bit_word_eqI) (auto simp: bit_simps dest: leD)
  then have "push_bit k v OR x = push_bit k v + x" by (rule disjunctive_add_eq_or [symmetric])
  with unat_push_bit [of v k] show ?thesis
    using assms(2) by (simp add: unat_word_ariths)
qed

lemma unat_byte: "n < 256 \<Longrightarrow> unat (of_nat n :: u8) = n"
  by (simp add: unsigned_of_nat take_bit_nat_eq_self)

lemma div_mod_iff: "x < k \<Longrightarrow> n = q * k + x \<longleftrightarrow> n div k = q \<and> n mod k = x" for n :: nat
proof
  show "x < k \<Longrightarrow> n = q * k + x \<Longrightarrow> n div k = q \<and> n mod k = x" by simp
  show "n div k = q \<and> n mod k = x \<Longrightarrow> n = q * k + x" by (metis div_mult_mod_eq)
qed

lemma unat_ucast_small: "unat v < 2 ^ LENGTH('b) \<Longrightarrow> unat (ucast (v :: 'a::len word) :: 'b::len word) = unat v"
  by (simp add: unsigned_ucast_eq take_bit_nat_eq_self)

text \<open>
  The C allocator: whether the k-th allocation, of n bytes, is granted, and what the fresh bytes hold.
  Definitions that allocate are for an arbitrary allocator.
\<close>

record allocator =
  grant :: "nat \<Rightarrow> nat \<Rightarrow> bool"
  garbage :: "nat \<Rightarrow> nat \<Rightarrow> u8"

definition c_malloc :: "allocator \<Rightarrow> nat \<Rightarrow> nat \<Rightarrow> bytes option" where
  "c_malloc A k n = (if grant A k n then Some (map (garbage A k) [0..<n]) else None)"

definition c_realloc :: "allocator \<Rightarrow> nat \<Rightarrow> bytes \<Rightarrow> nat \<Rightarrow> bytes option" where
  "c_realloc A k old n =
     (if grant A k n then Some (take n old @ map (garbage A k) [length (take n old)..<n]) else None)"

definition always_grants :: "allocator \<Rightarrow> bool" where
  "always_grants A \<longleftrightarrow> (\<forall>k n. grant A k n)"

text \<open>C character constants as bytes.\<close>

definition byte_of_char :: "char \<Rightarrow> u8" where
  "byte_of_char c = of_nat (of_char c)"

definition bytes_of_string :: "string \<Rightarrow> bytes" where
  "bytes_of_string s = map byte_of_char s"

subsection \<open>Outcomes and their sequencing\<close>

datatype 'a res = Ok 'a | Fail | Undef

type_synonym ('s, 'a) cfun = "'s \<Rightarrow> 'a res \<times> 's"

definition ret :: "'a \<Rightarrow> ('s, 'a) cfun" where
  "ret a s = (Ok a, s)"

definition fail :: "('s, 'a) cfun" where
  "fail s = (Fail, s)"

definition undef :: "('s, 'a) cfun" where
  "undef s = (Undef, s)"

text \<open>\<open>bnd m f\<close> is \<^verbatim>\<open>if (!m(&x)) return 0; ... f(x)\<close>.\<close>

definition bnd :: "('s, 'a) cfun \<Rightarrow> ('a \<Rightarrow> ('s, 'b) cfun) \<Rightarrow> ('s, 'b) cfun" where
  "bnd m f s = (case m s of (Ok a, s') \<Rightarrow> f a s' | (Fail, s') \<Rightarrow> (Fail, s') | (Undef, s') \<Rightarrow> (Undef, s'))"

text \<open>\<open>check b\<close> is \<^verbatim>\<open>if (!b) return 0;\<close>.\<close>

definition check :: "bool \<Rightarrow> ('s, unit) cfun" where
  "check b s = (if b then Ok () else Fail, s)"

text \<open>\<open>c_assert b\<close> is \<^verbatim>\<open>assert(b)\<close>.\<close>

definition c_assert :: "bool \<Rightarrow> ('s, unit) cfun" where
  "c_assert b s = (if b then Ok () else Undef, s)"

fun res_map :: "('a \<Rightarrow> 'b) \<Rightarrow> 'a res \<Rightarrow> 'b res" where
  "res_map f (Ok a) = Ok (f a)"
| "res_map f Fail = Fail"
| "res_map f Undef = Undef"

named_theorems seq_simps \<open>unfolding of sequenced C functions\<close>

lemma bnd_simps [seq_simps]:
  "m s = (Ok a, s') \<Longrightarrow> bnd m f s = f a s'"
  "m s = (Fail, s') \<Longrightarrow> bnd m f s = (Fail, s')"
  "m s = (Undef, s') \<Longrightarrow> bnd m f s = (Undef, s')"
  by (simp_all add: bnd_def)

lemma ret_simp [simp]: "ret a s = (Ok a, s)"
  by (simp add: ret_def)

lemma fail_simp [simp]: "fail s = (Fail, s)"
  by (simp add: fail_def)

lemma undef_simp [simp]: "undef s = (Undef, s)"
  by (simp add: undef_def)

lemma check_simps [simp]:
  "b \<Longrightarrow> check b s = (Ok (), s)"
  "\<not> b \<Longrightarrow> check b s = (Fail, s)"
  by (simp_all add: check_def)

lemma c_assert_simp [simp]: "b \<Longrightarrow> c_assert b s = (Ok (), s)"
  by (simp add: c_assert_def)

lemma bnd_Ok_iff:
  "bnd m f s = (Ok b, s'') \<longleftrightarrow> (\<exists>a s'. m s = (Ok a, s') \<and> f a s' = (Ok b, s''))"
  by (auto simp: bnd_def split: res.splits prod.splits)

lemma bnd_Undef_iff:
  "bnd m f s = (Undef, s'') \<longleftrightarrow>
     m s = (Undef, s'') \<or> (\<exists>a s'. m s = (Ok a, s') \<and> f a s' = (Undef, s''))"
  by (auto simp: bnd_def split: res.splits prod.splits)

lemma bnd_cases:
  assumes "bnd m f s = (r, s'')"
  obtains (ok) a s' where "m s = (Ok a, s')" "f a s' = (r, s'')"
  | (fail) "m s = (Fail, s'')" "r = Fail"
  | (undef) "m s = (Undef, s'')" "r = Undef"
  using assms by (auto simp: bnd_def split: res.splits prod.splits)

lemma bnd_check [simp]:
  "bnd (check b) f s = (if b then f () s else (Fail, s))"
  by (simp add: bnd_def check_def)

lemma bnd_check_simps [simp]: "bnd (check True) f = f ()" "bnd (check False) f = fail"
  by (rule ext, simp)+

lemma bnd_ret [simp]: "bnd (ret a) f = f a"
  by (rule ext) (simp add: bnd_def)

lemma bnd_assert [simp]:
  "bnd (c_assert b) f s = (if b then f () s else (Undef, s))"
  by (simp add: bnd_def c_assert_def)

subsection \<open>Readers: operations that consume a prefix\<close>

text \<open>
  A reader looks at the bytes in front of it, removes some of them from the front, and never leaves
  its object. This is the contract between the byte-string getters and everything built from them.
\<close>

locale byte_reader =
  fixes rd :: "bytes \<Rightarrow> 'a res \<times> bytes"
  assumes rd_suffix: "rd s = (r, s') \<Longrightarrow> suffix s' s"
    and rd_defined: "rd s = (r, s') \<Longrightarrow> r \<noteq> Undef"
begin

lemma rd_length: "rd s = (r, s') \<Longrightarrow> length s' \<le> length s"
  by (drule rd_suffix) (rule suffix_length_le)

lemma rd_consumed: "rd s = (r, s') \<Longrightarrow> \<exists>p. s = p @ s'"
  by (drule rd_suffix) (auto simp: suffix_def)

lemma rd_set: "rd s = (r, s') \<Longrightarrow> set s' \<subseteq> set s"
  by (drule rd_suffix) (auto simp: suffix_def)

end

text \<open>A reader that moves forward whenever it succeeds; loops over it terminate.\<close>

locale strict_reader = byte_reader +
  assumes rd_strict: "rd s = (Ok a, s') \<Longrightarrow> length s' < length s"
begin

lemma rd_Nil: "rd [] \<noteq> (Ok a, s')"
  using rd_strict [of "[]" a s'] by auto

end

lemma byte_reader_bnd:
  assumes "byte_reader m" and "\<And>a. byte_reader (f a)"
  shows "byte_reader (bnd m f)"
proof -
  have "suffix s' s \<and> r \<noteq> Undef" if "bnd m f s = (r, s')" for s r s'
    using that
  proof (cases rule: bnd_cases)
    case (ok a t)
    then show ?thesis
      using byte_reader.rd_suffix [OF assms(1)] byte_reader.rd_suffix [OF assms(2)]
        byte_reader.rd_defined [OF assms(2)] suffix_order.order_trans by blast
  qed (use that in \<open>auto dest: byte_reader.rd_suffix [OF assms(1)] byte_reader.rd_defined [OF assms(1)]\<close>)
  then show ?thesis by unfold_locales auto
qed

lemma byte_reader_ret: "byte_reader (ret a)"
  by unfold_locales (auto simp: ret_def)

lemma byte_reader_check: "byte_reader (check b)"
  by unfold_locales (auto simp: check_def split: if_splits)

lemma byte_reader_fail: "byte_reader fail"
  by unfold_locales (auto simp: fail_def)

lemma byte_reader_if: "(b \<Longrightarrow> byte_reader f) \<Longrightarrow> (\<not> b \<Longrightarrow> byte_reader g) \<Longrightarrow> byte_reader (if b then f else g)"
  by simp

named_theorems reader_intros \<open>an operation built from readers is a reader\<close>

declare byte_reader_bnd [reader_intros] byte_reader_ret [reader_intros] byte_reader_check [reader_intros]
  byte_reader_fail [reader_intros] byte_reader_if [reader_intros]

lemma strict_readerI:
  "byte_reader rd \<Longrightarrow> (\<And>s a s'. rd s = (Ok a, s') \<Longrightarrow> length s' < length s) \<Longrightarrow> strict_reader rd"
  by (simp add: strict_reader_def strict_reader_axioms_def)

lemma strict_reader_bnd:
  assumes "strict_reader m" and "\<And>a. byte_reader (f a)"
  shows "strict_reader (bnd m f)"
proof (rule strict_readerI)
  show "byte_reader (bnd m f)"
    using assms by (intro byte_reader_bnd) (auto simp: strict_reader_def)
  show "length s' < length s" if "bnd m f s = (Ok a, s')" for s a s'
    using that strict_reader.rd_strict [OF assms(1)] byte_reader.rd_length [OF assms(2)]
    by (fastforce simp: bnd_Ok_iff)
qed

subsection \<open>Codecs: a writer and the reader that undoes it\<close>

text \<open>
  \<open>enc\<close> gives the bytes written for a value of the domain \<open>dom\<close>, \<open>dec\<close> reads from a state and
  \<open>put bs s\<close> is the state \<open>s\<close> with the bytes \<open>bs\<close> put in front of what is left to read; \<open>inv\<close> says
  which states are legal. The one law is that the reader returns the value written and leaves exactly
  what followed it. The format is then unambiguous: no encoding is a proper prefix of another, and a
  sequence of encodings splits in one way only.
\<close>

locale codec =
  fixes put :: "bytes \<Rightarrow> 's \<Rightarrow> 's"
    and inv :: "'s \<Rightarrow> bool"
    and enc :: "'a \<Rightarrow> bytes"
    and dec :: "'s \<Rightarrow> 'a res \<times> 's"
    and dom :: "'a \<Rightarrow> bool"
    and start :: 's
  assumes put_append: "put (xs @ ys) s = put xs (put ys s)"
    and put_Nil: "put [] s = s"
    and inv_put: "inv s \<Longrightarrow> inv (put bs s)"
    and inv_start: "inv start"
    and dec_enc: "dom a \<Longrightarrow> inv s \<Longrightarrow> dec (put (enc a) s) = (Ok a, s)"
begin

lemma unambiguous:
  assumes "dom a" and "dom b" and "inv s" and "inv t" and "put (enc a) s = put (enc b) t"
  shows "a = b \<and> s = t"
proof -
  have "(Ok a, s) = (Ok b, t)"
    unfolding dec_enc [OF assms(1,3), symmetric] dec_enc [OF assms(2,4), symmetric] assms(5) ..
  then show ?thesis by simp
qed

lemma prefix_free:
  assumes "dom a" and "dom b" and eq: "enc a @ xs = enc b @ ys"
  shows "a = b"
proof -
  have "put (enc a) (put xs start) = put (enc b) (put ys start)"
    using arg_cong [OF eq, of "\<lambda>l. put l start"] by (simp add: put_append)
  then show ?thesis
    using unambiguous [OF assms(1,2)] inv_put inv_start by blast
qed

lemma enc_inj: "dom a \<Longrightarrow> dom b \<Longrightarrow> enc a = enc b \<Longrightarrow> a = b"
  using prefix_free [of a b "[]" "[]"] by simp

text \<open>Reading as many values as were written.\<close>

fun dec_n :: "nat \<Rightarrow> 's \<Rightarrow> 'a list res \<times> 's" where
  "dec_n 0 s = (Ok [], s)"
| "dec_n (Suc n) s = bnd dec (\<lambda>a. bnd (dec_n n) (\<lambda>as. ret (a # as))) s"

lemma dec_n_enc:
  "(\<forall>a\<in>set as. dom a) \<Longrightarrow> inv s \<Longrightarrow> dec_n (length as) (put (concat (map enc as)) s) = (Ok as, s)"
proof (induction as)
  case Nil
  then show ?case by (simp add: put_Nil)
next
  case (Cons a as)
  then show ?case
    by (simp add: put_append bnd_def dec_enc inv_put)
qed

lemma concat_inj:
  assumes "\<forall>a\<in>set as. dom a" and "\<forall>b\<in>set bs. dom b" and "length as = length bs"
    and "concat (map enc as) = concat (map enc bs)"
  shows "as = bs"
proof -
  have "(Ok as, start) = (Ok bs, start)"
    unfolding dec_n_enc [OF assms(1) inv_start, symmetric] dec_n_enc [OF assms(2) inv_start, symmetric]
      assms(3,4) ..
  then show ?thesis by simp
qed

end

text \<open>Byte strings themselves are such a state: bytes are put in front with append.\<close>

locale bytes_codec =
  fixes enc :: "'a \<Rightarrow> bytes"
    and dec :: "bytes \<Rightarrow> 'a res \<times> bytes"
    and dom :: "'a \<Rightarrow> bool"
  assumes dec_enc_bytes: "dom a \<Longrightarrow> dec (enc a @ rest) = (Ok a, rest)"

sublocale bytes_codec \<subseteq> codec "(@)" "\<lambda>_. True" enc dec dom "[]"
  by unfold_locales (simp_all add: dec_enc_bytes)

end
