(* ===== verification/Posix_Time.thy ===== *)
theory Posix_Time
  imports C_Prelude "HOL-Library.Signed_Division"
begin

text \<open>
  \<^verbatim>\<open>BoringSSL-GRPC/src/crypto/asn1/posix_time.c\<close>: conversion between POSIX seconds and the broken-down
  UTC time of a certificate. Signed 64-bit values are integers; \<open>sdiv\<close> and \<open>smod\<close> are C's truncating
  \<^verbatim>\<open>/\<close> and \<^verbatim>\<open>%\<close>. Every value is bounded by the checks of the code except in \<open>OPENSSL_gmtime_adj\<close>,
  where the arithmetic is guarded by \<open>c_int64\<close>, which is \<open>Undef\<close> on signed overflow.
\<close>

subsection \<open>Definitions\<close>

definition INT_MIN :: int where "INT_MIN = - (2 ^ 31)"
definition INT_MAX :: int where "INT_MAX = 2 ^ 31 - 1"
definition INT64_MIN :: int where "INT64_MIN = - (2 ^ 63)"
definition INT64_MAX :: int where "INT64_MAX = 2 ^ 63 - 1"

definition c_int64 :: "int \<Rightarrow> int res" where
  "c_int64 x = (if INT64_MIN \<le> x \<and> x \<le> INT64_MAX then Ok x else Undef)"

definition SECS_PER_HOUR :: int where "SECS_PER_HOUR = 60 * 60"
definition SECS_PER_DAY :: int where "SECS_PER_DAY = 24 * SECS_PER_HOUR"

text \<open>The fields of \<^verbatim>\<open>struct tm\<close> that the code uses; the others are zero.\<close>

record tm =
  tm_sec :: int
  tm_min :: int
  tm_hour :: int
  tm_mday :: int
  tm_mon :: int
  tm_year :: int

definition is_leap :: "int \<Rightarrow> bool" where
  "is_leap year \<longleftrightarrow> (year smod 4 = 0 \<and> year smod 100 \<noteq> 0) \<or> year smod 400 = 0"

definition is_valid_date :: "int \<Rightarrow> int \<Rightarrow> int \<Rightarrow> bool" where
  "is_valid_date year month day =
     (if day < 1 \<or> month < 1 \<or> year < 0 \<or> year > 9999 then False
      else if month \<in> {1, 3, 5, 7, 8, 10, 12} then day > 0 \<and> day \<le> 31
      else if month \<in> {4, 6, 9, 11} then day > 0 \<and> day \<le> 30
      else if month = 2 then
        (if is_leap year then day > 0 \<and> day \<le> 29 else day > 0 \<and> day \<le> 28)
      else False)"

definition is_valid_time :: "int \<Rightarrow> int \<Rightarrow> int \<Rightarrow> bool" where
  "is_valid_time hours minutes seconds =
     (if hours < 0 \<or> minutes < 0 \<or> seconds < 0 \<or> hours > 23 \<or> minutes > 59 \<or> seconds > 59
      then False else True)"

definition MIN_POSIX_TIME :: int where "MIN_POSIX_TIME = -62167219200"
definition MAX_POSIX_TIME :: int where "MAX_POSIX_TIME = 253402300799"

definition is_valid_posix_time :: "int \<Rightarrow> bool" where
  "is_valid_posix_time time \<longleftrightarrow> MIN_POSIX_TIME \<le> time \<and> time \<le> MAX_POSIX_TIME"

text \<open>The day number that \<open>posix_time_from_utc\<close> computes, with years that start on March 1.
  The failure of its \<^verbatim>\<open>assert\<close> is the outcome \<open>Undef\<close>.\<close>

definition posix_days_from_civil :: "int \<Rightarrow> int \<Rightarrow> int \<Rightarrow> int" where
  "posix_days_from_civil year month day =
     (let era = (if year \<ge> 0 then year else year - 399) sdiv 400;
          year_of_era = year - era * 400;
          day_of_year = (153 * (if month > 2 then month - 3 else month + 9) + 2) sdiv 5 + day - 1;
          day_of_era = year_of_era * 365 + year_of_era sdiv 4 - year_of_era sdiv 100 + day_of_year
      in era * 146097 + day_of_era - 719468)"

definition posix_time_from_utc :: "int \<Rightarrow> int \<Rightarrow> int \<Rightarrow> int \<Rightarrow> int \<Rightarrow> int \<Rightarrow> int res" where
  "posix_time_from_utc year month day hours minutes seconds =
     (if \<not> is_valid_date year month day \<or> \<not> is_valid_time hours minutes seconds then Fail
      else let year' = (if month \<le> 2 then year - 1 else year) in
        if \<not> (-1 \<le> year' \<and> year' \<le> 9999) then Undef
        else Ok (posix_days_from_civil year' month day * SECS_PER_DAY + hours * SECS_PER_HOUR
                 + minutes * 60 + seconds))"

text \<open>Year, month and day of a day number counted from March 1 of year 0 (the part of
  \<open>utc_from_posix_time\<close> after the \<^verbatim>\<open>assert\<close>).\<close>

definition civil_from_posix_days :: "int \<Rightarrow> int \<times> int \<times> int" where
  "civil_from_posix_days days =
     (let era = (if days > 0 then days else days - 146096) sdiv 146097;
          day_of_era = days - era * 146097;
          year_of_era = (day_of_era - day_of_era sdiv 1460 + day_of_era sdiv 36524
                         - day_of_era sdiv 146096) sdiv 365;
          year = year_of_era + era * 400;
          day_of_year = day_of_era - (365 * year_of_era + year_of_era sdiv 4 - year_of_era sdiv 100);
          month_of_year = (5 * day_of_year + 2) sdiv 153;
          month = (if month_of_year < 10 then month_of_year + 3 else month_of_year - 9);
          year' = (if month \<le> 2 then year + 1 else year);
          day = day_of_year - (153 * month_of_year + 2) sdiv 5 + 1
      in (year', month, day))"

definition utc_from_posix_time :: "int \<Rightarrow> (int \<times> int \<times> int \<times> int \<times> int \<times> int) res" where
  "utc_from_posix_time time =
     (if \<not> is_valid_posix_time time then Fail
      else let days0 = time sdiv SECS_PER_DAY;
               leftover0 = time smod SECS_PER_DAY;
               days1 = (if leftover0 < 0 then days0 - 1 else days0);
               leftover = (if leftover0 < 0 then leftover0 + SECS_PER_DAY else leftover0);
               days = days1 + 719468
           in if \<not> (-61 \<le> days \<and> days \<le> 3652364) then Undef
              else let (year, month, day) = civil_from_posix_days days;
                       hours = leftover sdiv SECS_PER_HOUR;
                       leftover' = leftover smod SECS_PER_HOUR;
                       minutes = leftover' sdiv 60;
                       seconds = leftover' smod 60
                   in Ok (year, month, day, hours, minutes, seconds))"

definition OPENSSL_tm_to_posix :: "tm \<Rightarrow> int res" where
  "OPENSSL_tm_to_posix t =
     posix_time_from_utc (tm_year t + 1900) (tm_mon t + 1) (tm_mday t) (tm_hour t) (tm_min t) (tm_sec t)"

definition OPENSSL_posix_to_tm :: "int \<Rightarrow> tm res" where
  "OPENSSL_posix_to_tm time =
     (case utc_from_posix_time time of
        Ok (year, month, day, hours, minutes, seconds) \<Rightarrow>
          Ok \<lparr>tm_sec = seconds, tm_min = minutes, tm_hour = hours, tm_mday = day,
              tm_mon = month - 1, tm_year = year - 1900\<rparr>
      | Fail \<Rightarrow> Fail | Undef \<Rightarrow> Undef)"

text \<open>\<^verbatim>\<open>time_t\<close> has 64 bits on the target, so its 32-bit range check is dead.\<close>

definition OPENSSL_timegm :: "tm \<Rightarrow> int res" where
  "OPENSSL_timegm t = OPENSSL_tm_to_posix t"

definition OPENSSL_gmtime :: "int \<Rightarrow> tm res" where
  "OPENSSL_gmtime time = OPENSSL_posix_to_tm time"

definition OPENSSL_gmtime_adj :: "tm \<Rightarrow> int \<Rightarrow> int \<Rightarrow> tm res" where
  "OPENSSL_gmtime_adj t offset_day offset_sec =
     (case OPENSSL_tm_to_posix t of
        Ok posix_time0 \<Rightarrow>
          (case c_int64 (offset_day * SECS_PER_DAY) of
             Ok day_secs \<Rightarrow>
               (case c_int64 (posix_time0 + day_secs) of
                  Ok posix_time \<Rightarrow>
                    if posix_time > 0 \<and> offset_sec > INT64_MAX - posix_time then Fail
                    else if posix_time < 0 \<and> offset_sec < INT64_MIN - posix_time then Fail
                    else (case c_int64 (posix_time + offset_sec) of
                            Ok posix_time' \<Rightarrow> OPENSSL_posix_to_tm posix_time'
                          | Fail \<Rightarrow> Fail | Undef \<Rightarrow> Undef)
                | Fail \<Rightarrow> Fail | Undef \<Rightarrow> Undef)
           | Fail \<Rightarrow> Fail | Undef \<Rightarrow> Undef)
      | Fail \<Rightarrow> Fail | Undef \<Rightarrow> Undef)"

definition OPENSSL_gmtime_diff :: "tm \<Rightarrow> tm \<Rightarrow> (int \<times> int) res" where
  "OPENSSL_gmtime_diff from_tm to_tm =
     (case OPENSSL_tm_to_posix to_tm of
        Ok time_to \<Rightarrow>
          (case OPENSSL_tm_to_posix from_tm of
             Ok time_from \<Rightarrow>
               (let timediff = time_to - time_from
                in Ok (timediff sdiv SECS_PER_DAY, timediff smod SECS_PER_DAY))
           | Fail \<Rightarrow> Fail | Undef \<Rightarrow> Undef)
      | Fail \<Rightarrow> Fail | Undef \<Rightarrow> Undef)"

subsection \<open>The calendar arithmetic\<close>

text \<open>
  A day of the 400-year era is split as \<open>36524 c + 1461 q + 365 r + doy\<close> (centuries, four-year
  groups, years, day of a year that starts on March 1). \<open>day_ok\<close> says which splits occur: the
  366th day only exists in the last year of a group that ends in a leap year.
\<close>

lemma sdiv_nonneg: "0 \<le> a \<Longrightarrow> 0 < b \<Longrightarrow> a sdiv b = a div (b::int)"
  by (cases "a = 0") (simp_all add: signed_divide_int_def)

lemma div_eqI: "b * d \<le> a \<Longrightarrow> a < b * (d + 1) \<Longrightarrow> a div b = (d::int)"
  by (rule int_div_pos_eq [of a b d "a - b * d"]) (simp_all add: algebra_simps)

definition day_ok :: "int \<Rightarrow> int \<Rightarrow> int \<Rightarrow> int \<Rightarrow> bool" where
  "day_ok c q r doy \<longleftrightarrow> 0 \<le> c \<and> c \<le> 3 \<and> 0 \<le> q \<and> q \<le> 24 \<and> 0 \<le> r \<and> r \<le> 3 \<and> 0 \<le> doy \<and> doy \<le> 365 \<and>
     (doy = 365 \<longrightarrow> r = 3 \<and> (q < 24 \<or> c = 3))"

lemma year_parts:
  assumes "day_ok c q r doy"
  defines "yoe \<equiv> 100 * c + 4 * q + r"
  shows "yoe div 4 = 25 * c + q" and "yoe div 100 = c" 
  using assms unfolding day_ok_def yoe_def by (auto intro!: div_eqI)

lemma year_of_era_formula:
  assumes ok: "day_ok c q r doy"
  defines "yoe \<equiv> 100 * c + 4 * q + r"
    and "doe \<equiv> 36524 * c + 1461 * q + 365 * r + doy"
  shows "(doe - doe div 1460 + doe div 36524 - doe div 146096) div 365 = yoe"
proof -
  have b: "0 \<le> c" "c \<le> 3" "0 \<le> q" "q \<le> 24" "0 \<le> r" "r \<le> 3" "0 \<le> doy" "doy \<le> 365"
    and l: "doy = 365 \<longrightarrow> r = 3 \<and> (q < 24 \<or> c = 3)"
    using ok by (auto simp: day_ok_def)
  define e where "e = doe div 1460"
  define f where "f = doe div 36524"
  define g where "g = doe div 146096"
  have e: "1460 * e \<le> doe" "doe < 1460 * e + 1460" by (auto simp: e_def)
  have f: "36524 * f \<le> doe" "doe < 36524 * f + 36524" by (auto simp: f_def)
  have g: "146096 * g \<le> doe" "doe < 146096 * g + 146096" by (auto simp: g_def)
  have fg: "f - g = c"
  proof (cases "doe = 146096")
    case True
    then have "c = 3" using b unfolding doe_def by linarith
    with True show ?thesis by (simp add: f_def g_def)
  next
    case False
    have "f = c" "g = 0"
      unfolding f_def g_def
    proof (rule div_eqI)
      show "doe < 36524 * (c + 1)"
      proof (cases "doy = 365")
        case True
        with l False b have "q < 24 \<or> c = 3 \<and> q = 24 \<and> r = 3" by auto
        with True False b show ?thesis unfolding doe_def by (elim disjE conjE) simp_all
      qed (use b in \<open>simp add: doe_def\<close>)
      show "doe div 146096 = 0"
      proof (rule div_eqI)
        have "doe \<le> 146096" using b unfolding doe_def by linarith
        with False show "doe < 146096 * (0 + 1)" by simp
      qed (use b in \<open>simp add: doe_def\<close>)
    qed (use b in \<open>simp add: doe_def\<close>)
    then show ?thesis by simp
  qed
  define k where "k = e - 25 * c - q"
  have k: "1460 * k \<le> 24 * c + q + 365 * r + doy" "24 * c + q + 365 * r + doy < 1460 * k + 1460"
    using e unfolding doe_def k_def by (simp_all add: algebra_simps)
  then have "k = 0 \<or> k = 1" using b by linarith
  then have "365 * yoe \<le> doe - e + c \<and> doe - e + c < 365 * yoe + 365"
  proof
    assume "k = 0"
    then have "doy < 365" using k l b by (cases "doy = 365") auto
    with \<open>k = 0\<close> b show ?thesis by (simp add: doe_def yoe_def k_def)
  next
    assume "k = 1"
    then have "0 < doy" using k b by linarith
    with \<open>k = 1\<close> b show ?thesis by (simp add: doe_def yoe_def k_def)
  qed
  then show ?thesis
    using fg by (intro div_eqI) (simp_all add: e_def f_def g_def)
qed

lemma month_cases:
  "0 \<le> mp \<Longrightarrow> mp \<le> 11 \<Longrightarrow> (mp::int) = 0 \<or> mp = 1 \<or> mp = 2 \<or> mp = 3 \<or> mp = 4 \<or> mp = 5 \<or> mp = 6 \<or>
     mp = 7 \<or> mp = 8 \<or> mp = 9 \<or> mp = 10 \<or> mp = 11"
  by presburger

lemma month_formula:
  fixes mp d :: int
  assumes "0 \<le> mp" and "mp \<le> 11" and "1 \<le> d"
    and "d \<le> (if mp = 11 then 29 else if mp \<in> {1, 3, 6, 8} then 30 else 31)"
  defines "doy \<equiv> (153 * mp + 2) div 5 + d - 1"
  shows "(5 * doy + 2) div 153 = mp"
proof -
  note c = month_cases [OF assms(1,2)]
  show ?thesis
    using c assms(3,4) unfolding doy_def by (elim disjE) (auto intro!: div_eqI)
qed

lemma day_of_year_split:
  fixes doy :: int
  assumes "0 \<le> doy" and "doy \<le> 365"
  obtains mp d where "0 \<le> mp" "mp \<le> 11" "1 \<le> d"
    "d \<le> (if mp = 11 then 29 else if mp \<in> {1, 3, 6, 8} then 30 else 31)"
    "doy = (153 * mp + 2) div 5 + d - 1"
proof -
  define mp where "mp = (5 * doy + 2) div 153"
  have mp: "153 * mp \<le> 5 * doy + 2" "5 * doy + 2 < 153 * mp + 153" by (auto simp: mp_def)
  have r: "0 \<le> mp" "mp \<le> 11" using mp assms by linarith+
  note c = month_cases [OF r]
  show thesis
  proof (rule that [OF r])
    show "doy = (153 * mp + 2) div 5 + (doy - (153 * mp + 2) div 5 + 1) - 1" by simp
    show "1 \<le> doy - (153 * mp + 2) div 5 + 1"
      using c mp by (elim disjE) simp_all
    show "doy - (153 * mp + 2) div 5 + 1 \<le> (if mp = 11 then 29 else if mp \<in> {1, 3, 6, 8} then 30 else 31)"
      using c mp assms by (elim disjE) simp_all
  qed
qed

lemma era_day_split:
  fixes doe :: int
  assumes "0 \<le> doe" and "doe \<le> 146096"
  obtains c q r doy where "day_ok c q r doy" "doe = 36524 * c + 1461 * q + 365 * r + doy"
proof -
  define c where "c = min 3 (doe div 36524)"
  define x where "x = doe - 36524 * c"
  define q where "q = min 24 (x div 1461)"
  define y where "y = x - 1461 * q"
  define r where "r = min 3 (y div 365)"
  define doy where "doy = y - 365 * r"
  have c: "0 \<le> c" "c \<le> 3" "0 \<le> x" "x \<le> 36524" "c < 3 \<longrightarrow> x < 36524"
    using assms unfolding c_def x_def min_def by auto
  have q: "0 \<le> q" "q \<le> 24" "0 \<le> y" "q < 24 \<longrightarrow> y < 1461" "y \<le> 1460"  "q = 24 \<and> c < 3 \<longrightarrow> y < 1460"
    using c unfolding q_def y_def min_def by auto
  have r: "0 \<le> r" "r \<le> 3" "0 \<le> doy" "r < 3 \<longrightarrow> doy < 365" "doy \<le> 365"
    using q unfolding r_def doy_def min_def by auto
  show thesis
  proof
    show "day_ok c q r doy"
      using c q r unfolding day_ok_def doy_def by (auto simp: not_less)
    show "doe = 36524 * c + 1461 * q + 365 * r + doy"
      by (simp add: doy_def y_def x_def)
  qed
qed

lemma floor_sdiv:
  assumes "0 < (b::int)"
  shows "(if x \<ge> 0 then x else x - (b - 1)) sdiv b = x div b"
    and "(if x > 0 then x else x - (b - 1)) sdiv b = x div b"
proof -
  have m: "b * (x div b) \<le> x" "x < b * (x div b) + b"
    using assms by (simp_all add: mult_div_mod_eq [symmetric] flip: minus_mod_eq_mult_div)
  have neg: "(x - (b - 1)) sdiv b = x div b" if "x \<le> 0"
  proof (cases "x - (b - 1) = 0")
    case True
    then show ?thesis using that assms by simp
  next
    case False
    then have "x - (b - 1) < 0" using that assms by linarith
    moreover have "(b - 1 - x) div b = - (x div b)"
      by (rule div_eqI) (use m in \<open>simp_all add: algebra_simps\<close>)
    ultimately show ?thesis using assms by (simp add: signed_divide_int_def algebra_simps)
  qed
  show "(if x \<ge> 0 then x else x - (b - 1)) sdiv b = x div b"
    and "(if x > 0 then x else x - (b - 1)) sdiv b = x div b"
    using neg assms sdiv_nonneg [of x b] by auto
qed

lemma civil_of_parts:
  fixes era c q r mp d :: int
  assumes ok: "day_ok c q r ((153 * mp + 2) div 5 + d - 1)" and mp: "0 \<le> mp" "mp \<le> 11" "1 \<le> d"
    and d: "d \<le> (if mp = 11 then 29 else if mp \<in> {1, 3, 6, 8} then 30 else 31)"
  defines "year \<equiv> 400 * era + 100 * c + 4 * q + r"
    and "days \<equiv> 146097 * era + 36524 * c + 1461 * q + 365 * r + ((153 * mp + 2) div 5 + d - 1)"
  shows "civil_from_posix_days days =
           (if mp < 10 then year else year + 1, if mp < 10 then mp + 3 else mp - 9, d)"
    and "posix_days_from_civil year (if mp < 10 then mp + 3 else mp - 9) d + 719468 = days"
proof -
  define doy where "doy = (153 * mp + 2) div 5 + d - 1"
  define yoe where "yoe = 100 * c + 4 * q + r"
  define doe where "doe = 36524 * c + 1461 * q + 365 * r + doy"
  have b: "0 \<le> c" "c \<le> 3" "0 \<le> q" "q \<le> 24" "0 \<le> r" "r \<le> 3" "0 \<le> doy" "doy \<le> 365"
    and l: "doy = 365 \<longrightarrow> r = 3 \<and> (q < 24 \<or> c = 3)"
    using ok by (auto simp: day_ok_def doy_def)
  have ok': "day_ok c q r doy" using ok by (simp add: doy_def)
  have y4: "yoe div 4 = 25 * c + q" and y100: "yoe div 100 = c"
    using year_parts [OF ok'] by (simp_all add: yoe_def)
  have yb: "0 \<le> yoe" "yoe \<le> 399" using b by (simp_all add: yoe_def)
  have db: "0 \<le> doe" "doe \<le> 146096"
  proof -
    show "0 \<le> doe" using b by (simp add: doe_def)
    show "doe \<le> 146096" using b unfolding doe_def by linarith
  qed
  have days: "days = era * 146097 + doe" by (simp add: days_def doe_def doy_def)
  have year: "year = era * 400 + yoe" by (simp add: year_def yoe_def)
  have era1: "(if days > 0 then days else days - 146096) sdiv 146097 = era"
  proof -
    have "days div 146097 = era" using db by (simp add: days)
    then show ?thesis using floor_sdiv(2) [of 146097 days] by (simp split: if_splits)
  qed
  have era2: "(if year \<ge> 0 then year else year - 399) sdiv 400 = era"
  proof -
    have "year div 400 = era" using yb by (simp add: year)
    then show ?thesis using floor_sdiv(1) [of 400 year] by (simp split: if_splits)
  qed
  define num where "num = doe - doe div 1460 + doe div 36524 - doe div 146096"
  have num: "num div 365 = yoe"
    unfolding num_def doe_def yoe_def by (rule year_of_era_formula [OF ok'])
  then have "0 \<le> num" using yb by (simp flip: pos_imp_zdiv_nonneg_iff [of 365 num])
  then have yoe: "(doe - doe sdiv 1460 + doe sdiv 36524 - doe sdiv 146096) sdiv 365 = yoe"
    using num db by (simp add: sdiv_nonneg num_def)
  have doy: "doe - (365 * yoe + yoe sdiv 4 - yoe sdiv 100) = doy"
    using yb by (simp add: sdiv_nonneg y4 y100) (simp add: doe_def yoe_def)
  have mon: "(5 * doy + 2) sdiv 153 = mp"
    using month_formula [OF mp d] b by (simp add: sdiv_nonneg doy_def)
  have day: "(153 * mp + 2) sdiv 5 = (153 * mp + 2) div 5"
    using mp by (simp add: sdiv_nonneg)
  show "civil_from_posix_days days =
           (if mp < 10 then year else year + 1, if mp < 10 then mp + 3 else mp - 9, d)"
    unfolding civil_from_posix_days_def Let_def era1
    using mp by (simp add: days yoe doy mon day) (simp add: doy_def year)
  have yoe': "year - era * 400 = yoe" by (simp add: year)
  have m: "(if (if mp < 10 then mp + 3 else mp - 9) > 2 then (if mp < 10 then mp + 3 else mp - 9) - 3
            else (if mp < 10 then mp + 3 else mp - 9) + 9) = mp"
    using mp by auto
  show "posix_days_from_civil year (if mp < 10 then mp + 3 else mp - 9) d + 719468 = days"
    unfolding posix_days_from_civil_def Let_def era2 yoe' m day
    using yb by (simp add: sdiv_nonneg y4 y100 days) (simp add: doe_def doy_def yoe_def)
qed

lemma smod_nonneg: "0 \<le> a \<Longrightarrow> 0 < b \<Longrightarrow> a smod b = a mod (b::int)"
  by (cases "a = 0") (simp_all add: signed_modulo_int_def)

lemma is_leap_parts:
  assumes "0 \<le> era * 400 + 100 * c + 4 * q + r + 1" and "0 \<le> c" "c \<le> 3" "0 \<le> q" "q \<le> 24" "0 \<le> r" "r \<le> 3"
  shows "is_leap (400 * era + 100 * c + 4 * q + r + 1) \<longleftrightarrow> r = 3 \<and> (q < 24 \<or> c = 3)"
proof -
  let ?y = "400 * era + 100 * c + 4 * q + r + 1"
  have y4: "?y mod 4 = (r + 1) mod 4"
    using mod_mult_self4 [of 4 "100 * era + 25 * c + q" "r + 1"] by (simp add: algebra_simps)
  have y100: "?y mod 100 = (4 * q + r + 1) mod 100"
    using mod_mult_self4 [of 100 "4 * era + c" "4 * q + r + 1"] by (simp add: algebra_simps)
  have y400: "?y mod 400 = (100 * c + 4 * q + r + 1) mod 400"
    using mod_mult_self4 [of 400 era "100 * c + 4 * q + r + 1"] by (simp add: algebra_simps)
  have "r = 0 \<or> r = 1 \<or> r = 2 \<or> r = 3" using assms(6,7) by linarith
  then have a: "(r + 1) mod 4 = 0 \<longleftrightarrow> r = 3" by auto
  have b: "(4 * q + r + 1) mod 100 = 0 \<longleftrightarrow> q = 24 \<and> r = 3"
  proof (cases "q = 24 \<and> r = 3")
    case False
    then have "4 * q + r + 1 < 100" using assms by linarith
    then show ?thesis using False assms by simp
  qed simp
  have c: "(100 * c + 4 * q + r + 1) mod 400 = 0 \<longleftrightarrow> c = 3 \<and> q = 24 \<and> r = 3"
  proof (cases "c = 3 \<and> q = 24 \<and> r = 3")
    case False
    then have "100 * c + 4 * q + r + 1 < 400" using assms by linarith
    then show ?thesis using False assms by simp
  qed simp
  have pos: "0 \<le> ?y" using assms(1) by (simp add: algebra_simps)
  show ?thesis
    unfolding is_leap_def using pos assms
    by (simp only: smod_nonneg y4 y100 y400 a b c) auto
qed

definition march_year :: "int \<Rightarrow> int \<Rightarrow> int" where
  "march_year year month = (if month \<le> 2 then year - 1 else year)"

lemma valid_date_bounds:
  assumes "is_valid_date year month day"
  shows "0 \<le> year" "year \<le> 9999" "1 \<le> month" "month \<le> 12" "1 \<le> day"
    and "day \<le> (if month \<in> {4, 6, 9, 11} then 30 else if month = 2 then 29 else 31)"
    and "month = 2 \<Longrightarrow> day = 29 \<Longrightarrow> is_leap year"
  using assms by (auto simp: is_valid_date_def split: if_splits)

lemma valid_date_parts:
  assumes v: "is_valid_date year month day"
  obtains era c q r mp where
    "march_year year month = 400 * era + 100 * c + 4 * q + r"
    "month = (if mp < 10 then mp + 3 else mp - 9)" "0 \<le> mp" "mp \<le> 11" "1 \<le> day"
    "year = (if mp < 10 then march_year year month else march_year year month + 1)"
    "day \<le> (if mp = 11 then 29 else if mp \<in> {1, 3, 6, 8} then 30 else 31)"
    "day_ok c q r ((153 * mp + 2) div 5 + day - 1)"
proof -
  define y where "y = march_year year month"
  define mp where "mp = (if month > 2 then month - 3 else month + 9)"
  define era where "era = y div 400"
  define c where "c = y mod 400 div 100"
  define q where "q = y mod 100 div 4"
  define r where "r = y mod 4"
  have cq: "0 \<le> c" "c \<le> 3" "0 \<le> q" "q \<le> 24" "0 \<le> r" "r \<le> 3"
    unfolding c_def q_def r_def by (auto simp: div_le_dividend)
  have y: "y = 400 * era + 100 * c + 4 * q + r"
  proof -
    have "y mod 400 mod 100 = y mod 100" "y mod 100 mod 4 = y mod 4"
      by (simp_all add: mod_mod_cancel)
    then show ?thesis unfolding era_def c_def q_def r_def
      using mult_div_mod_eq [of 400 y] mult_div_mod_eq [of 100 "y mod 400"] mult_div_mod_eq [of 4 "y mod 100"]
      by linarith
  qed
  have m: "1 \<le> month" "month \<le> 12" "1 \<le> day" "0 \<le> year"
    using valid_date_bounds [OF v] by simp_all
  then have mp: "0 \<le> mp" "mp \<le> 11" "month = (if mp < 10 then mp + 3 else mp - 9)"
    "year = (if mp < 10 then y else y + 1)"
    by (auto simp: mp_def y_def march_year_def)
  have month: "month = 1 \<and> mp = 10 \<or> month = 2 \<and> mp = 11 \<or> month = 3 \<and> mp = 0 \<or> month = 4 \<and> mp = 1
    \<or> month = 5 \<and> mp = 2 \<or> month = 6 \<and> mp = 3 \<or> month = 7 \<and> mp = 4 \<or> month = 8 \<and> mp = 5
    \<or> month = 9 \<and> mp = 6 \<or> month = 10 \<and> mp = 7 \<or> month = 11 \<and> mp = 8 \<or> month = 12 \<and> mp = 9"
  proof -
    have "month = 1 \<or> month = 2 \<or> month = 3 \<or> month = 4 \<or> month = 5 \<or> month = 6 \<or> month = 7 \<or>
      month = 8 \<or> month = 9 \<or> month = 10 \<or> month = 11 \<or> month = 12"
      using m by presburger
    then show ?thesis unfolding mp_def by (elim disjE) simp_all
  qed
  have d: "day \<le> (if mp = 11 then 29 else if mp \<in> {1, 3, 6, 8} then 30 else 31)"
    using valid_date_bounds(6) [OF v] month by (elim disjE conjE) simp_all
  have leap: "day = 29 \<and> mp = 11 \<longrightarrow> r = 3 \<and> (q < 24 \<or> c = 3)"
  proof
    assume h: "day = 29 \<and> mp = 11"
    then have "is_leap year" using valid_date_bounds(7) [OF v] mp by simp
    then show "r = 3 \<and> (q < 24 \<or> c = 3)"
      using is_leap_parts [of era c q r] cq h mp m y by simp
  qed
  define doy where "doy = (153 * mp + 2) div 5 + day - 1"
  have "0 \<le> doy \<and> doy \<le> 365 \<and> (doy = 365 \<longrightarrow> day = 29 \<and> mp = 11)"
    using month_cases [OF mp(1,2)] d m(3) unfolding doy_def by (elim disjE) simp_all
  then have "day_ok c q r ((153 * mp + 2) div 5 + day - 1)"
    using cq leap by (simp add: day_ok_def doy_def)
  note ok = this
  show thesis
    by (rule that [OF y [unfolded y_def] mp(3) mp(1,2) m(3) mp(4) [unfolded y_def] d ok])
qed

lemma civil_round_trip:
  assumes v: "is_valid_date year month day"
  shows "civil_from_posix_days (posix_days_from_civil (march_year year month) month day + 719468) =
     (year, month, day)"
  using v
proof (rule valid_date_parts)
  fix era c q r mp
  assume y: "march_year year month = 400 * era + 100 * c + 4 * q + r"
    and m: "month = (if mp < 10 then mp + 3 else mp - 9)" and r: "0 \<le> mp" "mp \<le> 11" "1 \<le> day"
    and year: "year = (if mp < 10 then march_year year month else march_year year month + 1)"
    and d: "day \<le> (if mp = 11 then 29 else if mp \<in> {1, 3, 6, 8} then 30 else 31)"
    and ok: "day_ok c q r ((153 * mp + 2) div 5 + day - 1)"
  note c = civil_of_parts [OF ok r d, of era]
  have year': "year = (if mp < 10 then 400 * era + 100 * c + 4 * q + r else 400 * era + 100 * c + 4 * q + r + 1)"
    using year unfolding y .
  have "posix_days_from_civil (march_year year month) month day + 719468 =
      146097 * era + 36524 * c + 1461 * q + 365 * r + ((153 * mp + 2) div 5 + day - 1)"
    unfolding y unfolding m by (rule c(2))
  then show ?thesis by (simp only: c(1) m [symmetric] year' [symmetric])
qed

lemma valid_of_parts:
  fixes era c q r mp d :: int
  assumes ok: "day_ok c q r ((153 * mp + 2) div 5 + d - 1)" and mp: "0 \<le> mp" "mp \<le> 11" "1 \<le> d"
    and d: "d \<le> (if mp = 11 then 29 else if mp \<in> {1, 3, 6, 8} then 30 else 31)"
    and yr: "0 \<le> (if mp < 10 then 400 * era + 100 * c + 4 * q + r else 400 * era + 100 * c + 4 * q + r + 1)"
      "(if mp < 10 then 400 * era + 100 * c + 4 * q + r else 400 * era + 100 * c + 4 * q + r + 1) \<le> 9999"
  shows "is_valid_date (if mp < 10 then 400 * era + 100 * c + 4 * q + r else 400 * era + 100 * c + 4 * q + r + 1)
           (if mp < 10 then mp + 3 else mp - 9) d"
proof -
  have leap: "is_leap (400 * era + 100 * c + 4 * q + r + 1)" if "mp = 11" "d = 29"
  proof -
    have cq: "0 \<le> c" "c \<le> 3" "0 \<le> q" "q \<le> 24" "0 \<le> r" "r \<le> 3" "r = 3 \<and> (q < 24 \<or> c = 3)"
      using ok that by (auto simp: day_ok_def)
    have "0 \<le> era * 400 + 100 * c + 4 * q + r + 1" using yr(1) that by (simp add: algebra_simps)
    from is_leap_parts [OF this cq(1-6)] show ?thesis using cq(7) by blast
  qed
  have "mp = 11 \<and> d = 29 \<or> mp = 11 \<and> d \<le> 28 \<or> mp < 11" using mp d by auto
  then show ?thesis
  proof (elim disjE conjE)
    assume "mp = 11" "d = 29"
    then show ?thesis using leap yr by (simp add: is_valid_date_def)
  next
    assume "mp = 11" "d \<le> 28"
    then show ?thesis using yr mp by (simp add: is_valid_date_def)
  next
    assume "mp < 11"
    then show ?thesis
      using month_cases [OF mp(1,2)] d yr mp(3) by (elim disjE) (simp_all add: is_valid_date_def)
  qed
qed

lemma days_parts:
  fixes days :: int
  obtains era c q r mp d where
    "days = 146097 * era + 36524 * c + 1461 * q + 365 * r + ((153 * mp + 2) div 5 + d - 1)"
    "0 \<le> mp" "mp \<le> 11" "1 \<le> d" "d \<le> (if mp = 11 then 29 else if mp \<in> {1, 3, 6, 8} then 30 else 31)"
    "day_ok c q r ((153 * mp + 2) div 5 + d - 1)"
proof -
  have "0 \<le> days mod 146097" "days mod 146097 \<le> 146096" by simp_all
  then obtain c q r doy where ok: "day_ok c q r doy"
    and doe: "days mod 146097 = 36524 * c + 1461 * q + 365 * r + doy"
    by (rule era_day_split)
  have "0 \<le> doy" "doy \<le> 365" using ok by (auto simp: day_ok_def)
  then obtain mp d where mp: "0 \<le> mp" "mp \<le> 11" "1 \<le> d"
    "d \<le> (if mp = 11 then 29 else if mp \<in> {1, 3, 6, 8} then 30 else 31)"
    and doy: "doy = (153 * mp + 2) div 5 + d - 1"
    by (rule day_of_year_split)
  have "days = 146097 * (days div 146097) + (36524 * c + 1461 * q + 365 * r + doy)"
    unfolding doe [symmetric] by simp
  then show thesis
    using that [of "days div 146097" c q r mp d] mp ok by (simp add: doy algebra_simps)
qed

lemma days_round_trip:
  assumes "civil_from_posix_days days = (year, month, day)"
  shows "posix_days_from_civil (march_year year month) month day + 719468 = days"
    and "0 \<le> year \<Longrightarrow> year \<le> 9999 \<Longrightarrow> is_valid_date year month day"
proof -
  obtain era c q r mp d where days:
    "days = 146097 * era + 36524 * c + 1461 * q + 365 * r + ((153 * mp + 2) div 5 + d - 1)"
    and mp: "0 \<le> mp" "mp \<le> 11" "1 \<le> d"
    and d: "d \<le> (if mp = 11 then 29 else if mp \<in> {1, 3, 6, 8} then 30 else 31)"
    and ok: "day_ok c q r ((153 * mp + 2) div 5 + d - 1)"
    by (rule days_parts)
  note c = civil_of_parts [OF ok mp d, of era]
  have eqs: "day = d" "month = (if mp < 10 then mp + 3 else mp - 9)"
    "year = (if mp < 10 then 400 * era + 100 * c + 4 * q + r else 400 * era + 100 * c + 4 * q + r + 1)"
    using c(1) assms days by simp_all
  have my: "march_year year month = 400 * era + 100 * c + 4 * q + r"
    using mp by (auto simp: eqs march_year_def)
  show "posix_days_from_civil (march_year year month) month day + 719468 = days"
    unfolding my using c(2) days by (simp add: eqs)
  show "is_valid_date year month day" if "0 \<le> year" "year \<le> 9999"
    using valid_of_parts [OF ok mp d, of era] that by (simp add: eqs)
qed

lemma year_range_aux:
  fixes e y d doy :: int
  assumes m: "b \<and> doy \<le> 305 \<or> \<not> b \<and> 306 \<le> doy" and doy: "0 \<le> doy" "doy \<le> 365"
    and p: "400 * e \<le> y \<and> y \<le> 400 * e + 398 \<and> 0 \<le> d \<and> d \<le> 145731 \<or>
      y = 400 * e + 399 \<and> d = 145731 + doy"
  shows "0 \<le> (if b then y else y + 1) \<longleftrightarrow> -60 \<le> 146097 * e + d"
    and "(if b then y else y + 1) \<le> 9999 \<longleftrightarrow> 146097 * e + d \<le> 3652364"
proof -
  consider "e \<le> -2" | "e = -1" | "0 \<le> e" by linarith
  then show "0 \<le> (if b then y else y + 1) \<longleftrightarrow> -60 \<le> 146097 * e + d"
    by cases (use m doy p in \<open>cases b; simp; linarith\<close>)+
  consider "e \<le> 23" | "e = 24" | "25 \<le> e" by linarith
  then show "(if b then y else y + 1) \<le> 9999 \<longleftrightarrow> 146097 * e + d \<le> 3652364"
    by cases (use m doy p in \<open>cases b; simp; linarith\<close>)+
qed

lemma year_range:
  fixes era c q r mp d :: int
  assumes ok: "day_ok c q r ((153 * mp + 2) div 5 + d - 1)" and mp: "0 \<le> mp" "mp \<le> 11" "1 \<le> d"
    and d: "d \<le> (if mp = 11 then 29 else if mp \<in> {1, 3, 6, 8} then 30 else 31)"
  defines "year \<equiv> 400 * era + 100 * c + 4 * q + r"
    and "days \<equiv> 146097 * era + 36524 * c + 1461 * q + 365 * r + ((153 * mp + 2) div 5 + d - 1)"
  shows "0 \<le> (if mp < 10 then year else year + 1) \<longleftrightarrow> -60 \<le> days"
    and "(if mp < 10 then year else year + 1) \<le> 9999 \<longleftrightarrow> days \<le> 3652364"
proof -
  define doy where "doy = (153 * mp + 2) div 5 + d - 1"
  have b: "0 \<le> c" "c \<le> 3" "0 \<le> q" "q \<le> 24" "0 \<le> r" "r \<le> 3" "0 \<le> doy" "doy \<le> 365"
    using ok by (auto simp: day_ok_def doy_def)
  have m: "mp < 10 \<and> doy \<le> 305 \<or> \<not> mp < 10 \<and> 306 \<le> doy"
    using month_cases [OF mp(1,2)] d mp(3) unfolding doy_def by (elim disjE) simp_all
  have p: "400 * era \<le> year \<and> year \<le> 400 * era + 398 \<and>
        0 \<le> 36524 * c + 1461 * q + 365 * r + doy \<and> 36524 * c + 1461 * q + 365 * r + doy \<le> 145731 \<or>
      year = 400 * era + 399 \<and> 36524 * c + 1461 * q + 365 * r + doy = 145731 + doy"
  proof (cases "c = 3 \<and> q = 24 \<and> r = 3")
    case True
    then show ?thesis by (simp add: year_def)
  next
    case False
    then have "c \<le> 2 \<or> q \<le> 23 \<or> r \<le> 2 \<and> doy \<le> 364"
      using b ok unfolding day_ok_def doy_def by linarith
    then have "year \<le> 400 * era + 398 \<and> 36524 * c + 1461 * q + 365 * r + doy \<le> 145731"
      using b unfolding year_def by (elim disjE conjE; intro conjI; linarith)
    then show ?thesis using b by (simp add: year_def)
  qed
  have days: "days = 146097 * era + (36524 * c + 1461 * q + 365 * r + doy)"
    by (simp add: days_def doy_def)
  show "0 \<le> (if mp < 10 then year else year + 1) \<longleftrightarrow> -60 \<le> days"
    and "(if mp < 10 then year else year + 1) \<le> 9999 \<longleftrightarrow> days \<le> 3652364"
    unfolding days by (rule year_range_aux [OF m b(7,8) p])+
qed


lemma trunc_to_floor:
  assumes "0 < (b::int)"
  shows "(if t smod b < 0 then t sdiv b - 1 else t sdiv b) = t div b"
    and "(if t smod b < 0 then t smod b + b else t smod b) = t mod b"
proof -
  have e: "t = b * (t sdiv b) + t smod b" by (simp add: mult_sdiv_smod_eq)
  have r: "- b < t smod b" "t smod b < b"
    using smod_int_range [of b t] assms by auto
  show d: "(if t smod b < 0 then t sdiv b - 1 else t sdiv b) = t div b"
    by (rule sym, rule div_eqI) (use e r in \<open>auto simp: algebra_simps\<close>)
  show "(if t smod b < 0 then t smod b + b else t smod b) = t mod b"
    unfolding minus_mult_div_eq_mod [symmetric] d [symmetric]
    using e by (auto simp: algebra_simps)
qed

lemma civil_year_range:
  assumes "civil_from_posix_days days = (year, month, day)"
  shows "0 \<le> year \<longleftrightarrow> -60 \<le> days" and "year \<le> 9999 \<longleftrightarrow> days \<le> 3652364"
proof -
  obtain era c q r mp d where days:
    "days = 146097 * era + 36524 * c + 1461 * q + 365 * r + ((153 * mp + 2) div 5 + d - 1)"
    and mp: "0 \<le> mp" "mp \<le> 11" "1 \<le> d"
    and d: "d \<le> (if mp = 11 then 29 else if mp \<in> {1, 3, 6, 8} then 30 else 31)"
    and ok: "day_ok c q r ((153 * mp + 2) div 5 + d - 1)"
    by (rule days_parts)
  have year: "year = (if mp < 10 then 400 * era + 100 * c + 4 * q + r else 400 * era + 100 * c + 4 * q + r + 1)"
    using civil_of_parts(1) [OF ok mp d, of era] assms days by simp
  show "0 \<le> year \<longleftrightarrow> -60 \<le> days" and "year \<le> 9999 \<longleftrightarrow> days \<le> 3652364"
    unfolding year days by (rule year_range [OF ok mp d])+
qed

lemma civil_days_range:
  assumes "is_valid_date year month day"
  shows "-60 \<le> posix_days_from_civil (march_year year month) month day + 719468"
    and "posix_days_from_civil (march_year year month) month day + 719468 \<le> 3652364"
  using civil_year_range [OF civil_round_trip [OF assms]] valid_date_bounds(1,2) [OF assms]
  by (simp_all only: simp_thms)

lemma civil_days_valid:
  assumes "-60 \<le> days" and "days \<le> 3652364" and "civil_from_posix_days days = (year, month, day)"
  shows "is_valid_date year month day"
  using days_round_trip(2) [OF assms(3)] civil_year_range [OF assms(3)] assms(1,2) by blast

lemma posix_time_from_utc_valid:
  assumes "is_valid_date year month day" and "is_valid_time hours minutes seconds"
  shows "posix_time_from_utc year month day hours minutes seconds =
     Ok (posix_days_from_civil (march_year year month) month day * 86400 + hours * 3600 + minutes * 60 + seconds)"
  using assms valid_date_bounds [OF assms(1)]
  by (simp add: posix_time_from_utc_def march_year_def SECS_PER_DAY_def SECS_PER_HOUR_def)

lemma posix_time_from_utc_Ok:
  assumes "posix_time_from_utc year month day hours minutes seconds = Ok t"
  shows "is_valid_date year month day" "is_valid_time hours minutes seconds"
    and "t = posix_days_from_civil (march_year year month) month day * 86400 + hours * 3600 + minutes * 60 + seconds"
proof -
  show v: "is_valid_date year month day" "is_valid_time hours minutes seconds"
    using assms by (auto simp: posix_time_from_utc_def split: if_splits)
  show "t = posix_days_from_civil (march_year year month) month day * 86400 + hours * 3600 + minutes * 60 + seconds"
    using assms posix_time_from_utc_valid [OF v] by simp
qed

lemma is_valid_time_iff:
  "is_valid_time h m s \<longleftrightarrow> 0 \<le> h \<and> h \<le> 23 \<and> 0 \<le> m \<and> m \<le> 59 \<and> 0 \<le> s \<and> s \<le> 59"
  by (auto simp: is_valid_time_def)

lemma secs: "SECS_PER_DAY = 86400" "SECS_PER_HOUR = 3600"
  by (simp_all add: SECS_PER_DAY_def SECS_PER_HOUR_def)

lemma utc_from_posix_time_valid:
  assumes "is_valid_posix_time t"
  shows "utc_from_posix_time t =
    (let (year, month, day) = civil_from_posix_days (t div 86400 + 719468)
     in Ok (year, month, day, t mod 86400 div 3600, t mod 3600 div 60, t mod 60))"
    and "-60 \<le> t div 86400 + 719468" "t div 86400 + 719468 \<le> 3652364"
proof -
  have "-62167219200 \<le> t" "t \<le> 253402300799"
    using assms by (simp_all add: is_valid_posix_time_def MIN_POSIX_TIME_def MAX_POSIX_TIME_def)
  then show r: "-60 \<le> t div 86400 + 719468" "t div 86400 + 719468 \<le> 3652364"
    by linarith+
  have m: "t mod 86400 mod 3600 = t mod 3600" "t mod 3600 mod 60 = t mod 60"
    by (simp_all add: mod_mod_cancel)
  show "utc_from_posix_time t =
    (let (year, month, day) = civil_from_posix_days (t div 86400 + 719468)
     in Ok (year, month, day, t mod 86400 div 3600, t mod 3600 div 60, t mod 60))"
    unfolding utc_from_posix_time_def secs Let_def trunc_to_floor [of 86400 t, simplified]
    using assms r by (simp add: sdiv_nonneg smod_nonneg m)
qed

lemma time_parts:
  fixes D h m s t :: int
  assumes "t = D * 86400 + h * 3600 + m * 60 + s" and "is_valid_time h m s"
  shows "t div 86400 = D" "t mod 86400 div 3600 = h" "t mod 3600 div 60 = m" "t mod 60 = s"
proof -
  have b: "0 \<le> h" "h \<le> 23" "0 \<le> m" "m \<le> 59" "0 \<le> s" "s \<le> 59"
    using assms(2) by (simp_all add: is_valid_time_iff)
  show d: "t div 86400 = D" by (rule div_eqI) (use assms(1) b in simp)+
  show "t mod 86400 div 3600 = h"
    unfolding minus_mult_div_eq_mod [symmetric] d by (rule div_eqI) (use assms(1) b in simp)+
  have d: "t div 3600 = D * 24 + h" by (rule div_eqI) (use assms(1) b in simp)+
  show "t mod 3600 div 60 = m"
    unfolding minus_mult_div_eq_mod [symmetric] d by (rule div_eqI) (use assms(1) b in simp)+
  have d: "t div 60 = D * 1440 + h * 60 + m" by (rule div_eqI) (use assms(1) b in simp)+
  show "t mod 60 = s"
    unfolding minus_mult_div_eq_mod [symmetric] d using assms(1) by simp
qed

lemma time_parts_valid:
  fixes t :: int
  shows "is_valid_time (t mod 86400 div 3600) (t mod 3600 div 60) (t mod 60)"
    and "t = t div 86400 * 86400 + t mod 86400 div 3600 * 3600 + t mod 3600 div 60 * 60 + t mod 60"
proof -
  have m: "t mod 3600 = t mod 86400 mod 3600" "t mod 60 = t mod 3600 mod 60"
    by (simp_all add: mod_mod_cancel)
  define x where "x = t mod 86400"
  define y where "y = t mod 3600"
  have x: "0 \<le> x" "x < 86400" and y: "0 \<le> y" "y < 3600" by (simp_all add: x_def y_def)
  have "0 \<le> x div 3600" "x div 3600 \<le> 23" "0 \<le> y div 60" "y div 60 \<le> 59"
    using x y by linarith+
  then show "is_valid_time (t mod 86400 div 3600) (t mod 3600 div 60) (t mod 60)"
    by (simp add: is_valid_time_iff x_def y_def)
  have "t = 86400 * (t div 86400) + x" "x = 3600 * (x div 3600) + y" "y = 60 * (y div 60) + t mod 60"
    unfolding x_def y_def m(1) m(2) by (simp_all only: mult_div_mod_eq mod_mod_trivial)
  then show "t = t div 86400 * 86400 + t mod 86400 div 3600 * 3600 + t mod 3600 div 60 * 60 + t mod 60"
    by (simp add: x_def [symmetric] y_def [symmetric])
qed

lemma utc_of_posix_of_utc:
  assumes "posix_time_from_utc year month day hours minutes seconds = Ok t"
  shows "utc_from_posix_time t = Ok (year, month, day, hours, minutes, seconds)"
proof -
  note v = posix_time_from_utc_Ok [OF assms]
  note p = time_parts [OF v(3,2)]
  have "is_valid_posix_time t"
    using civil_days_range [OF v(1)] v(2,3)
    unfolding is_valid_posix_time_def MIN_POSIX_TIME_def MAX_POSIX_TIME_def is_valid_time_iff
    by linarith
  then show ?thesis
    using civil_round_trip [OF v(1)] by (simp add: utc_from_posix_time_valid p)
qed

lemma posix_of_utc_of_posix:
  assumes "utc_from_posix_time t = Ok (year, month, day, hours, minutes, seconds)"
  shows "posix_time_from_utc year month day hours minutes seconds = Ok t"
proof -
  have v: "is_valid_posix_time t" using assms by (simp add: utc_from_posix_time_def split: if_splits)
  note u = utc_from_posix_time_valid [OF v]
  have c: "civil_from_posix_days (t div 86400 + 719468) = (year, month, day)"
    and hms: "hours = t mod 86400 div 3600" "minutes = t mod 3600 div 60" "seconds = t mod 60"
    using assms u(1) by (auto split: prod.splits)
  have vd: "is_valid_date year month day" by (rule civil_days_valid [OF u(2,3) c])
  have vt: "is_valid_time hours minutes seconds" unfolding hms by (rule time_parts_valid)
  have d: "posix_days_from_civil (march_year year month) month day = t div 86400"
    using days_round_trip(1) [OF c] by simp
  show ?thesis
    unfolding posix_time_from_utc_valid [OF vd vt] d unfolding hms
    by (simp only: time_parts_valid(2) [of t, symmetric])
qed

subsection \<open>The calendar and the API on top of it\<close>

lemma march_year_start:
  fixes y :: int
  shows "posix_days_from_civil y month day =
     365 * y + y div 4 - y div 100 + y div 400
     + ((153 * (if month > 2 then month - 3 else month + 9) + 2) sdiv 5 + day - 1) - 719468"
proof -
  have era: "(if y \<ge> 0 then y else y - 399) sdiv 400 = y div 400"
    using floor_sdiv(1) [of 400 y] by (simp split: if_splits)
  have yoe: "y - y div 400 * 400 = y mod 400"
    using minus_mult_div_eq_mod [of y 400] by (simp add: mult.commute)
  have "y mod 400 = y - 400 * (y div 400)" by (rule minus_mult_div_eq_mod [symmetric])
  moreover have "y mod 400 div 4 = y div 4 - 100 * (y div 400)"
    "y mod 400 div 100 = y div 100 - 4 * (y div 400)"
    unfolding calculation using div_mult_self3 [of 4 "- 100 * (y div 400)" y] div_mult_self3 [of 100 "- 4 * (y div 400)" y]
    by (simp_all add: algebra_simps)
  moreover have "y mod 400 sdiv 4 = y mod 400 div 4" "y mod 400 sdiv 100 = y mod 400 div 100"
    by (simp_all add: sdiv_nonneg)
  ultimately show ?thesis
    unfolding posix_days_from_civil_def Let_def era yoe
    by linarith
qed

text \<open>The Gregorian calendar, day by day (an abstract specification).\<close>

definition month_length :: "int \<Rightarrow> int \<Rightarrow> int" where
  "month_length year month =
     (if month \<in> {4, 6, 9, 11} then 30 else if month = 2 then (if is_leap year then 29 else 28) else 31)"

definition next_day :: "int \<times> int \<times> int \<Rightarrow> int \<times> int \<times> int" where
  "next_day = (\<lambda>(year, month, day).
     if day < month_length year month then (year, month, day + 1)
     else if month < 12 then (year, month + 1, 1) else (year + 1, 1, 1))"

lemma is_leap_div:
  "0 \<le> y \<Longrightarrow> y div 4 - (y - 1) div 4 - (y div 100 - (y - 1) div 100) + (y div 400 - (y - 1) div 400) =
     (if is_leap y then 1 else (0::int))"
proof -
  have step: "y div b - (y - 1) div b = (if y mod b = 0 then 1 else 0)" if "0 < b" for b :: int
  proof (cases "y mod b = 0")
    case True
    then have "y = b * (y div b)" by auto
    then have "(y - 1) div b = y div b - 1" using that by (intro div_eqI) (auto simp: algebra_simps)
    then show ?thesis using True by simp
  next
    case False
    have r: "0 < y mod b" "y mod b < b"
      using False that pos_mod_bound [of b y] pos_mod_sign [of b y] by linarith+
    have "(y - 1) div b = y div b"
    proof (rule div_eqI)
      show "b * (y div b) \<le> y - 1" using mult_div_mod_eq [of b y] r by linarith
      show "y - 1 < b * (y div b + 1)"
        unfolding distrib_left using mult_div_mod_eq [of b y] r by linarith
    qed
    then show ?thesis using False by simp
  qed
  assume "0 \<le> y"
  moreover have "y mod 100 = y mod 400 mod 100" "y mod 4 = y mod 100 mod 4" by (simp_all add: mod_mod_cancel)
  then have "y mod 400 = 0 \<Longrightarrow> y mod 100 = 0" "y mod 100 = 0 \<Longrightarrow> y mod 4 = 0" by simp_all
  ultimately show ?thesis by (simp add: step is_leap_def smod_nonneg)
qed

lemma is_valid_date_iff:
  "is_valid_date y m d \<longleftrightarrow> 0 \<le> y \<and> y \<le> 9999 \<and> 1 \<le> m \<and> m \<le> 12 \<and> 1 \<le> d \<and> d \<le> month_length y m"
proof (cases "1 \<le> m \<and> m \<le> 12")
  case True
  then have "m = 1 \<or> m = 2 \<or> m = 3 \<or> m = 4 \<or> m = 5 \<or> m = 6 \<or> m = 7 \<or> m = 8 \<or> m = 9 \<or> m = 10 \<or> m = 11 \<or> m = 12"
    by presburger
  then show ?thesis
    by (elim disjE) (auto simp: is_valid_date_def month_length_def)
qed (auto simp: is_valid_date_def)

lemma month_length_bounds: "28 \<le> month_length y m" "month_length y m \<le> 31"
  by (simp_all add: month_length_def)

lemma next_day_valid:
  assumes "is_valid_date year month day" and "(year, month, day) \<noteq> (9999, 12, 31)"
    and "next_day (year, month, day) = (year', month', day')"
  shows "is_valid_date year' month' day'"
proof (cases "day < month_length year month \<or> month < 12")
  case True
  then show ?thesis
    using assms month_length_bounds(1) [of year "month + 1"]
    by (auto simp: next_day_def is_valid_date_iff split: if_splits)
next
  case False
  then have "month = 12" "day = 31" using assms(1) month_length_bounds(2) [of year 12]
    by (auto simp: is_valid_date_iff month_length_def)
  then show ?thesis
    using assms by (auto simp: next_day_def is_valid_date_iff month_length_def)
qed

lemma next_day_posix:
  assumes "is_valid_date year month day" and "next_day (year, month, day) = (year', month', day')"
  shows "posix_days_from_civil (march_year year' month') month' day' =
     posix_days_from_civil (march_year year month) month day + 1"
proof -
  note b = valid_date_bounds [OF assms(1)]
  have last: "day \<le> month_length year month"
    using assms(1) by (simp add: is_valid_date_iff)
  have months: "month = 1 \<or> month = 2 \<or> month = 3 \<or> month = 4 \<or> month = 5 \<or> month = 6 \<or> month = 7 \<or>
      month = 8 \<or> month = 9 \<or> month = 10 \<or> month = 11 \<or> month = 12"
    using b(3,4) by presburger
  show ?thesis
  proof (cases "day < month_length year month")
    case True
    then show ?thesis using assms(2) by (simp add: next_day_def march_year_start)
  next
    case False
    then have d: "day = month_length year month" using last by simp
    show ?thesis
    proof (cases "month = 2")
      case True
      then have "year' = year" "month' = 3" "day' = 1" and day: "day = 28 + (if is_leap year then 1 else 0)"
        using assms(2) d by (simp_all add: next_day_def month_length_def)
      moreover have "march_year year month = year - 1" "march_year year 3 = year"
        using True by (simp_all add: march_year_def)
      ultimately show ?thesis
        using is_leap_div [OF b(1)] True by (simp add: march_year_start sdiv_nonneg)
    next
      case m: False
      have "posix_days_from_civil (march_year year' month') month' day' =
          posix_days_from_civil (march_year year month) month day + 1"
        if "month < 12"
      proof -
        have n: "year' = year" "month' = month + 1" "day' = 1" "march_year year (month + 1) = march_year year month"
          using assms(2) False that m by (simp_all add: next_day_def march_year_def)
        show ?thesis
          unfolding n march_year_start using months m that d
          by (elim disjE) (simp_all add: month_length_def sdiv_nonneg)
      qed
      moreover have "posix_days_from_civil (march_year year' month') month' day' =
          posix_days_from_civil (march_year year month) month day + 1"
        if "month = 12"
      proof -
        have n: "year' = year + 1" "month' = 1" "day' = 1" "march_year (year + 1) 1 = year" "march_year year month = year"
          "day = 31"
          using assms(2) False that d by (simp_all add: next_day_def march_year_def month_length_def)
        show ?thesis unfolding n march_year_start by (simp add: that sdiv_nonneg)
      qed
      ultimately show ?thesis using b(4) by linarith
    qed
  qed
qed

lemma tm_of_posix_of_tm:
  "OPENSSL_tm_to_posix t = Ok x \<longleftrightarrow> OPENSSL_posix_to_tm x = Ok t"
proof
  assume "OPENSSL_tm_to_posix t = Ok x"
  then have "utc_from_posix_time x = Ok (tm_year t + 1900, tm_mon t + 1, tm_mday t, tm_hour t, tm_min t, tm_sec t)"
    unfolding OPENSSL_tm_to_posix_def by (rule utc_of_posix_of_utc)
  then show "OPENSSL_posix_to_tm x = Ok t" by (simp add: OPENSSL_posix_to_tm_def)
next
  assume "OPENSSL_posix_to_tm x = Ok t"
  then obtain y mo d h m s where "utc_from_posix_time x = Ok (y, mo, d, h, m, s)"
    and "t = \<lparr>tm_sec = s, tm_min = m, tm_hour = h, tm_mday = d, tm_mon = mo - 1, tm_year = y - 1900\<rparr>"
    by (auto simp: OPENSSL_posix_to_tm_def split: res.splits)
  then show "OPENSSL_tm_to_posix t = Ok x"
    using posix_of_utc_of_posix by (simp add: OPENSSL_tm_to_posix_def)
qed

lemma OPENSSL_tm_to_posix_range:
  assumes "OPENSSL_tm_to_posix t = Ok x"
  shows "MIN_POSIX_TIME \<le> x" "x \<le> MAX_POSIX_TIME"
proof -
  have "is_valid_posix_time x"
    using assms unfolding tm_of_posix_of_tm
    by (auto simp: OPENSSL_posix_to_tm_def utc_from_posix_time_def split: if_splits)
  then show "MIN_POSIX_TIME \<le> x" "x \<le> MAX_POSIX_TIME"
    by (simp_all add: is_valid_posix_time_def)
qed

lemma OPENSSL_tm_to_posix_defined: "OPENSSL_tm_to_posix t \<noteq> Undef"
  using valid_date_bounds [of "tm_year t + 1900" "tm_mon t + 1" "tm_mday t"]
  by (auto simp: OPENSSL_tm_to_posix_def posix_time_from_utc_def)

lemma utc_from_posix_time_defined: "utc_from_posix_time x \<noteq> Undef"
proof (cases "is_valid_posix_time x")
  case True
  then show ?thesis using utc_from_posix_time_valid by (auto split: prod.splits)
qed (simp add: utc_from_posix_time_def)

lemma OPENSSL_posix_to_tm_valid:
  assumes "is_valid_posix_time x"
  obtains t where "OPENSSL_posix_to_tm x = Ok t"
  using assms utc_from_posix_time_valid [of x] by (auto simp: OPENSSL_posix_to_tm_def split: prod.splits)

text \<open>The overflow checks of \<open>OPENSSL_gmtime_adj\<close> are sufficient and never reject a time in range.\<close>

lemma OPENSSL_gmtime_adj_eq:
  assumes "INT_MIN \<le> offset_day" and "offset_day \<le> INT_MAX"
    and "INT64_MIN \<le> offset_sec" and "offset_sec \<le> INT64_MAX"
  shows "OPENSSL_gmtime_adj t offset_day offset_sec =
    (case OPENSSL_tm_to_posix t of
       Ok x \<Rightarrow> (let x' = x + offset_day * 86400 + offset_sec in
                if is_valid_posix_time x' then OPENSSL_posix_to_tm x' else Fail)
     | _ \<Rightarrow> Fail)"
proof (cases "OPENSSL_tm_to_posix t")
  case (Ok x)
  have x: "-62167219200 \<le> x" "x \<le> 253402300799"
    using OPENSSL_tm_to_posix_range [OF Ok] by (simp_all add: MIN_POSIX_TIME_def MAX_POSIX_TIME_def)
  have d: "-185542587187200 \<le> offset_day * 86400" "offset_day * 86400 \<le> 185542587100800"
    using assms(1,2) by (simp_all add: INT_MIN_def INT_MAX_def)
  have s: "-9223372036854775808 \<le> offset_sec" "offset_sec \<le> 9223372036854775807"
    using assms(3,4) by (simp_all add: INT64_MIN_def INT64_MAX_def)
  have inv: "\<not> is_valid_posix_time x' \<Longrightarrow> OPENSSL_posix_to_tm x' = Fail" for x'
    by (simp add: OPENSSL_posix_to_tm_def utc_from_posix_time_def)
  show ?thesis
    using x d s inv
    by (auto simp: OPENSSL_gmtime_adj_def Ok c_int64_def secs INT64_MIN_def INT64_MAX_def Let_def
        is_valid_posix_time_def MIN_POSIX_TIME_def MAX_POSIX_TIME_def)
qed (use OPENSSL_tm_to_posix_defined in \<open>auto simp: OPENSSL_gmtime_adj_def\<close>)

lemma OPENSSL_gmtime_adj_diff_lemma:
  assumes "OPENSSL_gmtime_diff from_tm to_tm = Ok (days, secs)"
  shows "OPENSSL_gmtime_adj from_tm days secs = Ok to_tm"
    and "\<bar>secs\<bar> < 86400"
proof -
  obtain x y where x: "OPENSSL_tm_to_posix from_tm = Ok x" and y: "OPENSSL_tm_to_posix to_tm = Ok y"
    and d: "days = (y - x) sdiv 86400" "secs = (y - x) smod 86400"
    using assms by (auto simp: OPENSSL_gmtime_diff_def Let_def secs split: res.splits)
  have sum: "days * 86400 + secs = y - x" unfolding d by (rule sdiv_mult_smod_eq)
  show s: "\<bar>secs\<bar> < 86400" using smod_int_range [of 86400 "y - x"] by (simp add: d abs_less_iff)
  have r: "-62167219200 \<le> x" "x \<le> 253402300799" "-62167219200 \<le> y" "y \<le> 253402300799"
    using OPENSSL_tm_to_posix_range [OF x] OPENSSL_tm_to_posix_range [OF y]
    by (simp_all add: MIN_POSIX_TIME_def MAX_POSIX_TIME_def)
  have b: "INT_MIN \<le> days" "days \<le> INT_MAX" "INT64_MIN \<le> secs" "secs \<le> INT64_MAX"
  proof -
    have "-2147483648 \<le> days" "days \<le> 2147483647" using sum s r by linarith+
    then show "INT_MIN \<le> days" "days \<le> INT_MAX" by (simp_all add: INT_MIN_def INT_MAX_def)
    have "- 86400 < secs" "secs < 86400" using s by linarith+
    then show "INT64_MIN \<le> secs" "secs \<le> INT64_MAX" by (simp_all add: INT64_MIN_def INT64_MAX_def)
  qed
  have "x + days * 86400 + secs = y" using sum by simp
  moreover have "is_valid_posix_time y"
    using OPENSSL_tm_to_posix_range [OF y] by (simp add: is_valid_posix_time_def)
  moreover have "OPENSSL_posix_to_tm y = Ok to_tm" using y by (simp add: tm_of_posix_of_tm)
  ultimately show "OPENSSL_gmtime_adj from_tm days secs = Ok to_tm"
    by (simp add: OPENSSL_gmtime_adj_eq [OF b] x Let_def)
qed

end
