(* ===== verification/Cbs.thy ===== *)
theory Cbs
  imports C_Prelude
begin

text \<open>
  \<^verbatim>\<open>BoringSSL-GRPC/src/crypto/bytestring/cbs.c\<close>: the byte-string reader (CBS). A CBS is a pointer and
  a length into a buffer that it does not own; the model is the list of the bytes it covers. A getter
  takes the CBS and returns its outcome with the advanced CBS, also when it fails half way. Functions
  that take a \<^verbatim>\<open>const CBS *\<close> and work on a copy return the outcome only. Output pointers that are
  optional in C are always produced; a caller that passes NULL ignores them.
\<close>

subsection \<open>Bytes off the front and off the back\<close>

definition cbs_get :: "nat \<Rightarrow> (bytes, bytes) cfun" where
  "cbs_get n cbs = (if length cbs < n then (Fail, cbs) else (Ok (take n cbs), drop n cbs))"

definition CBS_skip :: "nat \<Rightarrow> (bytes, unit) cfun" where
  "CBS_skip len = bnd (cbs_get len) (\<lambda>_. ret ())"

text \<open>\<open>alloc_ok\<close> says whether the allocation inside the call succeeds; the result is the pointer
  (\<open>None\<close> is NULL) with the copied bytes.\<close>

definition CBS_stow :: "bool \<Rightarrow> bytes \<Rightarrow> bytes option res" where
  "CBS_stow alloc_ok cbs =
     (if length cbs = 0 then Ok None else if \<not> alloc_ok then Fail else Ok (Some cbs))"

text \<open>The copy stops at the first zero byte (\<^verbatim>\<open>OPENSSL_strndup\<close>) and is zero-terminated.\<close>

definition CBS_strdup :: "bool \<Rightarrow> bytes \<Rightarrow> bytes res" where
  "CBS_strdup alloc_ok cbs = (if \<not> alloc_ok then Fail else Ok (takeWhile (\<lambda>c. c \<noteq> 0) cbs @ [0]))"

definition CBS_contains_zero_byte :: "bytes \<Rightarrow> bool" where
  "CBS_contains_zero_byte cbs \<longleftrightarrow> 0 \<in> set cbs"

definition CBS_mem_equal :: "bytes \<Rightarrow> bytes \<Rightarrow> bool" where
  "CBS_mem_equal cbs data = (if length data \<noteq> length cbs then False else cbs = data)"

definition be_value :: "bytes \<Rightarrow> u64" where
  "be_value = foldl (\<lambda>result b. push_bit 8 result OR ucast b) 0"

definition cbs_get_u :: "nat \<Rightarrow> (bytes, u64) cfun" where
  "cbs_get_u len = bnd (cbs_get len) (\<lambda>data. ret (be_value data))"

definition CRYPTO_bswap2 :: "u16 \<Rightarrow> u16" where
  "CRYPTO_bswap2 x = drop_bit 8 x OR push_bit 8 x"

definition CRYPTO_bswap4 :: "u32 \<Rightarrow> u32" where
  "CRYPTO_bswap4 x =
     (let x = drop_bit 16 x OR push_bit 16 x
      in drop_bit 8 (x AND 0xff00ff00) OR push_bit 8 (x AND 0x00ff00ff))"

definition CRYPTO_bswap8 :: "u64 \<Rightarrow> u64" where
  "CRYPTO_bswap8 x =
     ucast (CRYPTO_bswap4 (ucast (drop_bit 32 x))) OR push_bit 32 (ucast (CRYPTO_bswap4 (ucast x)))"

definition CBS_get_u8 :: "(bytes, u8) cfun" where
  "CBS_get_u8 = bnd (cbs_get 1) (\<lambda>v. ret (v ! 0))"

definition CBS_get_u16 :: "(bytes, u16) cfun" where
  "CBS_get_u16 = bnd (cbs_get_u 2) (\<lambda>v. ret (ucast v))"

definition CBS_get_u16le :: "(bytes, u16) cfun" where
  "CBS_get_u16le = bnd CBS_get_u16 (\<lambda>v. ret (CRYPTO_bswap2 v))"

definition CBS_get_u24 :: "(bytes, u32) cfun" where
  "CBS_get_u24 = bnd (cbs_get_u 3) (\<lambda>v. ret (ucast v))"

definition CBS_get_u32 :: "(bytes, u32) cfun" where
  "CBS_get_u32 = bnd (cbs_get_u 4) (\<lambda>v. ret (ucast v))"

definition CBS_get_u32le :: "(bytes, u32) cfun" where
  "CBS_get_u32le = bnd CBS_get_u32 (\<lambda>v. ret (CRYPTO_bswap4 v))"

definition CBS_get_u64 :: "(bytes, u64) cfun" where
  "CBS_get_u64 = cbs_get_u 8"

definition CBS_get_u64le :: "(bytes, u64) cfun" where
  "CBS_get_u64le = bnd (cbs_get_u 8) (\<lambda>v. ret (CRYPTO_bswap8 v))"

definition CBS_get_last_u8 :: "(bytes, u8) cfun" where
  "CBS_get_last_u8 cbs =
     (if length cbs = 0 then (Fail, cbs) else (Ok (cbs ! (length cbs - 1)), take (length cbs - 1) cbs))"

definition CBS_get_bytes :: "nat \<Rightarrow> (bytes, bytes) cfun" where
  "CBS_get_bytes len = bnd (cbs_get len) ret"

definition CBS_copy_bytes :: "nat \<Rightarrow> (bytes, bytes) cfun" where
  "CBS_copy_bytes len = bnd (cbs_get len) ret"

definition cbs_get_length_prefixed :: "nat \<Rightarrow> (bytes, bytes) cfun" where
  "cbs_get_length_prefixed len_len =
     bnd (cbs_get_u len_len) (\<lambda>len. bnd (c_assert (len_len \<le> 3)) (\<lambda>_. CBS_get_bytes (unat len)))"

definition CBS_get_u8_length_prefixed :: "(bytes, bytes) cfun" where
  "CBS_get_u8_length_prefixed = cbs_get_length_prefixed 1"

definition CBS_get_u16_length_prefixed :: "(bytes, bytes) cfun" where
  "CBS_get_u16_length_prefixed = cbs_get_length_prefixed 2"

definition CBS_get_u24_length_prefixed :: "(bytes, bytes) cfun" where
  "CBS_get_u24_length_prefixed = cbs_get_length_prefixed 3"

definition CBS_get_until_first :: "u8 \<Rightarrow> (bytes, bytes) cfun" where
  "CBS_get_until_first c cbs =
     (if c \<notin> set cbs then (Fail, cbs) else CBS_get_bytes (length (takeWhile (\<lambda>b. b \<noteq> c) cbs)) cbs)"

definition OPENSSL_isdigit :: "u8 \<Rightarrow> bool" where
  "OPENSSL_isdigit c \<longleftrightarrow> c \<ge> 0x30 \<and> c \<le> 0x39"

text \<open>The loop of \<open>CBS_get_u64_decimal\<close>: \<open>v\<close> and \<open>seen_digit\<close> are its variables.\<close>

fun get_u64_decimal_loop :: "u64 \<Rightarrow> bool \<Rightarrow> (bytes, u64) cfun" where
  "get_u64_decimal_loop v seen_digit [] = (if seen_digit then Ok v else Fail, [])"
| "get_u64_decimal_loop v seen_digit (c # cbs) =
     (if \<not> OPENSSL_isdigit c then (if seen_digit then Ok v else Fail, c # cbs)
      else if v = 0 \<and> seen_digit \<or> v > (- 1) div 10 \<or> v * 10 > (- 1) - (ucast c - 0x30)
        then (Fail, cbs)
      else get_u64_decimal_loop (v * 10 + (ucast c - 0x30)) True cbs)"

definition CBS_get_u64_decimal :: "(bytes, u64) cfun" where
  "CBS_get_u64_decimal = get_u64_decimal_loop 0 False"

subsection \<open>ASN.1 tags and lengths\<close>

type_synonym asn1_tag = "32 word"

definition CBS_ASN1_CONSTRUCTED :: asn1_tag where "CBS_ASN1_CONSTRUCTED = push_bit 24 0x20"
definition CBS_ASN1_TAG_NUMBER_MASK :: asn1_tag where "CBS_ASN1_TAG_NUMBER_MASK = push_bit 29 1 - 1"
definition CBS_ASN1_BOOLEAN :: asn1_tag where "CBS_ASN1_BOOLEAN = 1"
definition CBS_ASN1_INTEGER :: asn1_tag where "CBS_ASN1_INTEGER = 2"
definition CBS_ASN1_OCTETSTRING :: asn1_tag where "CBS_ASN1_OCTETSTRING = 4"

text \<open>The \<^verbatim>\<open>do ... while\<close> loop of \<open>parse_base128_integer\<close> with \<open>v\<close> read so far.\<close>

fun parse_base128_loop :: "u64 \<Rightarrow> (bytes, u64) cfun" where
  "parse_base128_loop v [] = (Fail, [])"
| "parse_base128_loop v (b # cbs) =
     (if drop_bit (64 - 7) v \<noteq> 0 then (Fail, cbs)
      else if v = 0 \<and> b = 0x80 then (Fail, cbs)
      else let v' = push_bit 7 v OR ucast (b AND 0x7f)
           in if b AND 0x80 \<noteq> 0 then parse_base128_loop v' cbs else (Ok v', cbs))"

definition parse_base128_integer :: "(bytes, u64) cfun" where
  "parse_base128_integer = parse_base128_loop 0"

definition parse_asn1_tag :: "(bytes, asn1_tag) cfun" where
  "parse_asn1_tag =
     bnd CBS_get_u8 (\<lambda>tag_byte.
     let tag = push_bit 24 (ucast tag_byte AND 0xe0);
         finish = (\<lambda>tag_number.
           let tag = tag OR tag_number
           in bnd (check (tag AND NOT CBS_ASN1_CONSTRUCTED \<noteq> 0)) (\<lambda>_. ret tag))
     in if tag_byte AND 0x1f = 0x1f then
          bnd parse_base128_integer (\<lambda>v.
          bnd (check (\<not> (v > ucast CBS_ASN1_TAG_NUMBER_MASK \<or> v < 0x1f))) (\<lambda>_.
          finish (ucast v)))
        else finish (ucast (tag_byte AND 0x1f)))"

record asn1_element =
  el_contents :: bytes
  el_tag :: asn1_tag
  el_header_len :: nat
  el_ber_found :: bool
  el_indefinite :: bool

definition cbs_get_any_asn1_element :: "bool \<Rightarrow> (bytes, asn1_element) cfun" where
  "cbs_get_any_asn1_element ber_ok cbs =
    (case parse_asn1_tag cbs of
       (Fail, _) \<Rightarrow> (Fail, cbs) | (Undef, _) \<Rightarrow> (Undef, cbs)
     | (Ok tag, header) \<Rightarrow>
    (case CBS_get_u8 header of
       (Fail, _) \<Rightarrow> (Fail, cbs) | (Undef, _) \<Rightarrow> (Undef, cbs)
     | (Ok length_byte, header) \<Rightarrow>
       let header_len = length cbs - length header;
           element = (\<lambda>len hlen ber indef.
             bnd (CBS_get_bytes len) (\<lambda>out. ret \<lparr>el_contents = out, el_tag = tag, el_header_len = hlen,
                                              el_ber_found = ber, el_indefinite = indef\<rparr>) cbs)
       in if length_byte AND 0x80 = 0 then
            element (size_add (unat length_byte) header_len) header_len False False
          else
            let num_bytes = unat (length_byte AND 0x7f)
            in if ber_ok \<and> tag AND CBS_ASN1_CONSTRUCTED \<noteq> 0 \<and> num_bytes = 0 then
                 element header_len header_len True True
               else if num_bytes = 0 \<or> num_bytes > 4 then (Fail, cbs)
               else (case cbs_get_u num_bytes header of
                  (Fail, _) \<Rightarrow> (Fail, cbs) | (Undef, _) \<Rightarrow> (Undef, cbs)
                | (Ok len64, _) \<Rightarrow>
                  let ber1 = (len64 < 128); ber2 = (drop_bit ((num_bytes - 1) * 8) len64 = 0)
                  in if ber1 \<and> \<not> ber_ok then (Fail, cbs)
                     else if ber2 \<and> \<not> ber_ok then (Fail, cbs)
                     else if size_add (size_add (unat len64) header_len) num_bytes < unat len64 then (Fail, cbs)
                     else element (size_add (unat len64) (size_add header_len num_bytes))
                            (size_add header_len num_bytes) (ber1 \<or> ber2) False)))"

definition CBS_get_any_asn1_element :: "(bytes, asn1_element) cfun" where
  "CBS_get_any_asn1_element = cbs_get_any_asn1_element False"

definition CBS_get_any_ber_asn1_element :: "(bytes, asn1_element) cfun" where
  "CBS_get_any_ber_asn1_element = cbs_get_any_asn1_element True"

text \<open>Skipping the header of an element just read cannot fail; the source asserts it.\<close>

definition skip_header :: "asn1_element \<Rightarrow> ('s, bytes) cfun" where
  "skip_header el s =
     (case CBS_skip (el_header_len el) (el_contents el) of (Ok _, body) \<Rightarrow> (Ok body, s) | _ \<Rightarrow> (Undef, s))"

definition CBS_get_any_asn1 :: "(bytes, asn1_tag \<times> bytes) cfun" where
  "CBS_get_any_asn1 =
     bnd CBS_get_any_asn1_element (\<lambda>el. bnd (skip_header el) (\<lambda>body. ret (el_tag el, body)))"

definition cbs_get_asn1 :: "asn1_tag \<Rightarrow> bool \<Rightarrow> (bytes, bytes) cfun" where
  "cbs_get_asn1 tag_value skip_hdr =
     bnd CBS_get_any_asn1_element (\<lambda>el.
     bnd (check (el_tag el = tag_value)) (\<lambda>_.
     if skip_hdr then skip_header el else ret (el_contents el)))"

definition CBS_get_asn1 :: "asn1_tag \<Rightarrow> (bytes, bytes) cfun" where
  "CBS_get_asn1 tag_value = cbs_get_asn1 tag_value True"

definition CBS_get_asn1_element :: "asn1_tag \<Rightarrow> (bytes, bytes) cfun" where
  "CBS_get_asn1_element tag_value = cbs_get_asn1 tag_value False"

definition CBS_peek_asn1_tag :: "asn1_tag \<Rightarrow> bytes \<Rightarrow> bool" where
  "CBS_peek_asn1_tag tag_value cbs =
     (case parse_asn1_tag cbs of (Ok actual_tag, _) \<Rightarrow> tag_value = actual_tag | _ \<Rightarrow> False)"

subsection \<open>ASN.1 values\<close>

text \<open>\<open>Ok neg\<close> is success with \<^verbatim>\<open>*out_is_negative = neg\<close>.\<close>

definition CBS_is_valid_asn1_integer :: "bytes \<Rightarrow> bool res" where
  "CBS_is_valid_asn1_integer cbs =
     (case CBS_get_u8 cbs of
        (Ok first_byte, copy) \<Rightarrow>
          (let neg = (first_byte AND 0x80 \<noteq> 0)
           in case CBS_get_u8 copy of
                (Ok second_byte, _) \<Rightarrow>
                  if first_byte = 0x00 \<and> second_byte AND 0x80 = 0 \<or>
                     first_byte = 0xff \<and> second_byte AND 0x80 \<noteq> 0 then Fail
                  else Ok neg
              | _ \<Rightarrow> Ok neg)
      | _ \<Rightarrow> Fail)"

definition CBS_is_unsigned_asn1_integer :: "bytes \<Rightarrow> bool" where
  "CBS_is_unsigned_asn1_integer cbs = (CBS_is_valid_asn1_integer cbs = Ok False)"

fun asn1_uint64_loop :: "u64 \<Rightarrow> bytes \<Rightarrow> u64 res" where
  "asn1_uint64_loop out [] = Ok out"
| "asn1_uint64_loop out (b # data) =
     (if drop_bit 56 out \<noteq> 0 then Fail else asn1_uint64_loop (push_bit 8 out OR ucast b) data)"

definition CBS_get_asn1_uint64 :: "(bytes, u64) cfun" where
  "CBS_get_asn1_uint64 =
     bnd (CBS_get_asn1 CBS_ASN1_INTEGER) (\<lambda>data.
     bnd (check (CBS_is_unsigned_asn1_integer data)) (\<lambda>_ s. (asn1_uint64_loop 0 data, s)))"

text \<open>The result is the 64-bit pattern of the \<^verbatim>\<open>int64_t\<close>; \<open>sint\<close> reads it.\<close>

definition CBS_get_asn1_int64 :: "(bytes, u64) cfun" where
  "CBS_get_asn1_int64 =
     bnd (CBS_get_asn1 CBS_ASN1_INTEGER) (\<lambda>data s.
       case CBS_is_valid_asn1_integer data of
         Ok is_negative \<Rightarrow>
           if length data > 8 then (Fail, s)
           else (Ok (be_value (replicate (8 - length data) (if is_negative then 0xff else 0) @ data)), s)
       | Fail \<Rightarrow> (Fail, s) | Undef \<Rightarrow> (Undef, s))"

definition CBS_get_asn1_bool :: "(bytes, bool) cfun" where
  "CBS_get_asn1_bool =
     bnd (CBS_get_asn1 CBS_ASN1_BOOLEAN) (\<lambda>data.
     bnd (check (length data = 1)) (\<lambda>_.
     let value = data ! 0 in
     bnd (check (\<not> (value \<noteq> 0 \<and> value \<noteq> 0xff))) (\<lambda>_. ret (value \<noteq> 0))))"

text \<open>\<open>None\<close> is \<^verbatim>\<open>*out_present = 0\<close>.\<close>

definition CBS_get_optional_asn1 :: "asn1_tag \<Rightarrow> (bytes, bytes option) cfun" where
  "CBS_get_optional_asn1 tag cbs =
     (if CBS_peek_asn1_tag tag cbs then bnd (CBS_get_asn1 tag) (\<lambda>out. ret (Some out)) cbs
      else (Ok None, cbs))"

text \<open>A getter run on a child CBS that must consume it.\<close>

definition whole_child :: "(bytes, 'a) cfun \<Rightarrow> bytes \<Rightarrow> ('s, 'a) cfun" where
  "whole_child get child s =
     (case get child of
        (Ok v, rest) \<Rightarrow> (if length rest \<noteq> 0 then (Fail, s) else (Ok v, s))
      | (Fail, _) \<Rightarrow> (Fail, s) | (Undef, _) \<Rightarrow> (Undef, s))"

definition CBS_get_optional_asn1_octet_string :: "asn1_tag \<Rightarrow> (bytes, bytes \<times> bool) cfun" where
  "CBS_get_optional_asn1_octet_string tag =
     bnd (CBS_get_optional_asn1 tag) (\<lambda>child.
       case child of
         Some child \<Rightarrow> bnd (whole_child (CBS_get_asn1 CBS_ASN1_OCTETSTRING) child) (\<lambda>out. ret (out, True))
       | None \<Rightarrow> ret ([], False))"

definition CBS_get_optional_asn1_uint64 :: "asn1_tag \<Rightarrow> u64 \<Rightarrow> (bytes, u64) cfun" where
  "CBS_get_optional_asn1_uint64 tag default_value =
     bnd (CBS_get_optional_asn1 tag) (\<lambda>child.
       case child of
         Some child \<Rightarrow> whole_child CBS_get_asn1_uint64 child
       | None \<Rightarrow> ret default_value)"

definition CBS_get_optional_asn1_bool :: "asn1_tag \<Rightarrow> bool \<Rightarrow> (bytes, bool) cfun" where
  "CBS_get_optional_asn1_bool tag default_value =
     bnd (CBS_get_optional_asn1 tag) (\<lambda>child s.
       case child of
         Some child \<Rightarrow>
           (case CBS_get_asn1 CBS_ASN1_BOOLEAN child of
              (Ok child2, child) \<Rightarrow>
                if length child2 \<noteq> 1 \<or> length child \<noteq> 0 then (Fail, s)
                else let boolean = child2 ! 0
                     in if boolean = 0 then (Ok False, s)
                        else if boolean = 0xff then (Ok True, s)
                        else (Fail, s)
            | (Fail, _) \<Rightarrow> (Fail, s) | (Undef, _) \<Rightarrow> (Undef, s))
       | None \<Rightarrow> (Ok default_value, s))"

definition CBS_is_valid_asn1_bitstring :: "bytes \<Rightarrow> bool" where
  "CBS_is_valid_asn1_bitstring cbs =
     (case CBS_get_u8 cbs of
        (Ok num_unused_bits, rest) \<Rightarrow>
          if num_unused_bits > 7 then False
          else if num_unused_bits = 0 then True
          else (case CBS_get_last_u8 rest of
                  (Ok last_byte, _) \<Rightarrow> last_byte AND (push_bit (unat num_unused_bits) 1 - 1) = 0
                | _ \<Rightarrow> False)
      | _ \<Rightarrow> False)"

text \<open>\<^verbatim>\<open>unsigned\<close> has 32 bits; \<open>(bit >> 3) + 1\<close> cannot wrap.\<close>

definition CBS_asn1_bitstring_has_bit :: "bytes \<Rightarrow> u32 \<Rightarrow> bool" where
  "CBS_asn1_bitstring_has_bit cbs bit_index =
     (if \<not> CBS_is_valid_asn1_bitstring cbs then False
      else let byte_num = unat (drop_bit 3 bit_index + 1);
               bit_num = unat (7 - (bit_index AND 7))
           in byte_num < length cbs \<and> (cbs ! byte_num) AND push_bit bit_num 1 \<noteq> 0)"

fun asn1_oid_loop :: "u8 \<Rightarrow> bytes \<Rightarrow> bool" where
  "asn1_oid_loop prev [] \<longleftrightarrow> prev AND 0x80 = 0"
| "asn1_oid_loop prev (v # copy) \<longleftrightarrow>
     (if prev AND 0x80 = 0 \<and> v = 0x80 then False else asn1_oid_loop v copy)"

definition CBS_is_valid_asn1_oid :: "bytes \<Rightarrow> bool" where
  "CBS_is_valid_asn1_oid cbs = (if length cbs = 0 then False else asn1_oid_loop 0 cbs)"

subsection \<open>Big-endian values\<close>

text \<open>The \<open>n\<close> low bytes of a value, most significant first: what \<open>cbs_get_u\<close> reads.\<close>

fun be_bytes :: "nat \<Rightarrow> u64 \<Rightarrow> bytes" where
  "be_bytes 0 v = []"
| "be_bytes (Suc n) v = ucast (drop_bit (8 * n) v) # be_bytes n v"

lemma length_be_bytes [simp]: "length (be_bytes n v) = n"
  by (induction n) simp_all

lemma be_step:
  "push_bit 8 (drop_bit (8 * Suc n) v) OR ucast (ucast (drop_bit (8 * n) v) :: u8) = (drop_bit (8 * n) v :: u64)"
  by (rule bit_word_eqI) (auto simp: bit_simps)

lemma foldl_be_bytes:
  "foldl (\<lambda>result b. push_bit 8 result OR ucast b) (drop_bit (8 * n) v) (be_bytes n v) = v"
proof (induction n)
  case (Suc n)
  then show ?case using be_step [of n v] by simp
qed simp

lemma be_value_be_bytes:
  assumes "drop_bit (8 * n) v = 0"
  shows "be_value (be_bytes n v) = v"
  using foldl_be_bytes [of n v] assms by (simp add: be_value_def)

lemma be_value_snoc: "be_value (bs @ [b]) = push_bit 8 (be_value bs) OR ucast b"
  by (simp add: be_value_def)

lemma be_bytes_snoc: "be_bytes (Suc n) v = be_bytes n (drop_bit 8 v) @ [ucast v]"
  by (induction n) (simp_all add: algebra_simps)

lemma bit_be_value: "bit (be_value bs) k \<Longrightarrow> k < 8 * length bs"
proof (induction bs arbitrary: k rule: rev_induct)
  case (snoc b bs)
  from snoc.prems consider "8 \<le> k" "bit (be_value bs) (k - 8)" | "bit b k"
    by (auto simp: be_value_snoc bit_simps)
  then show ?case
  proof cases
    case 1
    then show ?thesis using snoc.IH [of "k - 8"] by simp
  next
    case 2
    then show ?thesis by (auto dest: bit_imp_le_length)
  qed
qed (simp add: be_value_def)

lemma be_bytes_be_value: "length bs \<le> 8 \<Longrightarrow> be_bytes (length bs) (be_value bs) = bs"
proof (induction bs rule: rev_induct)
  case (snoc b bs)
  have "drop_bit 8 (be_value (bs @ [b])) = be_value bs"
    using snoc.prems by (intro bit_word_eqI)
      (auto simp: be_value_snoc bit_simps dest: bit_imp_le_length bit_be_value)
  moreover have "ucast (be_value (bs @ [b])) = b"
    unfolding be_value_snoc by (rule bit_word_eqI) (auto simp: bit_simps)
  ultimately show ?case using snoc by (simp add: be_bytes_snoc del: be_bytes.simps)
qed simp

lemma be_value_drop_bit: "length bs \<le> n \<Longrightarrow> drop_bit (8 * n) (be_value bs) = 0"
  by (rule bit_word_eqI) (auto simp: bit_simps dest: bit_be_value)

lemma cbs_get_append [simp]: "length p = n \<Longrightarrow> cbs_get n (p @ rest) = (Ok p, rest)"
  by (simp add: cbs_get_def)

lemma cbs_get_u_be_bytes:
  "drop_bit (8 * n) v = 0 \<Longrightarrow> cbs_get_u n (be_bytes n v @ rest) = (Ok v, rest)"
  by (simp add: cbs_get_u_def bnd_def be_value_be_bytes)

lemma cbs_get_u_Ok:
  assumes "cbs_get_u n cbs = (Ok v, rest)" and "n \<le> 8"
  shows "cbs = be_bytes n v @ rest" and "drop_bit (8 * n) v = 0"
proof -
  have v: "n \<le> length cbs" "v = be_value (take n cbs)" "rest = drop n cbs"
    using assms(1) by (auto simp: cbs_get_u_def bnd_def cbs_get_def split: if_splits)
  show "cbs = be_bytes n v @ rest"
    using be_bytes_be_value [of "take n cbs"] assms(2) v by simp
  show "drop_bit (8 * n) v = 0"
    unfolding v by (rule be_value_drop_bit) simp
qed

subsection \<open>Every getter is a reader\<close>

interpretation cbs_get: byte_reader "cbs_get n"
  by unfold_locales (auto simp: cbs_get_def suffix_drop split: if_splits)

declare cbs_get.byte_reader_axioms [reader_intros]

lemma CBS_get_u8_Cons [simp]: "CBS_get_u8 (b # s) = (Ok b, s)"
  by (simp add: CBS_get_u8_def bnd_def cbs_get_def)

lemma CBS_get_u8_Nil [simp]: "CBS_get_u8 [] = (Fail, [])"
  by (simp add: CBS_get_u8_def bnd_def cbs_get_def)

interpretation CBS_get_u8: strict_reader CBS_get_u8
proof
  show "suffix s' s" "r \<noteq> Undef" if "CBS_get_u8 s = (r, s')" for s r s'
    using that by (cases s; auto simp: suffix_Cons)+
  show "length s' < length s" if "CBS_get_u8 s = (Ok a, s')" for s a s'
    using that by (cases s) auto
qed

interpretation cbs_get_u: byte_reader "cbs_get_u n"
  unfolding cbs_get_u_def by (intro reader_intros)

interpretation CBS_skip: byte_reader "CBS_skip n"
  unfolding CBS_skip_def by (intro reader_intros)
interpretation CBS_get_bytes: byte_reader "CBS_get_bytes n"
  unfolding CBS_get_bytes_def by (intro reader_intros)

end
