(* ===== verification/Der.thy ===== *)
theory Der
  imports Cbs
begin

text \<open>
  The Distinguished Encoding Rules as byte lists: base-128 integers, tags, definite lengths and whole
  elements. This is the abstract specification that the reader (\<open>Cbs\<close>) and the writer (\<open>Cbb\<close>) are both
  proved against: the reader accepts exactly these encodings, the writer produces them.
\<close>

subsection \<open>Base-128 integers\<close>

fun base128_digits :: "nat \<Rightarrow> u64 \<Rightarrow> bytes" where
  "base128_digits 0 v = []"
| "base128_digits (Suc n) v =
     (ucast (drop_bit (7 * n) v AND 0x7f) OR (if n \<noteq> 0 then 0x80 else 0)) # base128_digits n v"

lemma drop_bit_less: "v \<noteq> 0 \<Longrightarrow> 0 < n \<Longrightarrow> unat (drop_bit n v) < unat (v :: 'a::len word)"
proof -
  assume "v \<noteq> 0" "0 < n"
  then have "0 < unat v" "(1::nat) < 2 ^ n" using one_less_power [of "2 :: nat" n] by (simp_all add: unat_gt_0)
  then have "drop_bit n (unat v) < unat v" by (simp only: drop_bit_eq_div div_less_dividend)
  then show ?thesis by (simp only: unat_drop_bit_eq)
qed

function base128_len :: "u64 \<Rightarrow> nat" where
  "base128_len v = (if drop_bit 7 v = 0 then 1 else Suc (base128_len (drop_bit 7 v)))"
  by pat_completeness auto
termination
proof (relation "measure unat")
  fix v :: u64
  assume "drop_bit 7 v \<noteq> 0"
  then show "(drop_bit 7 v, v) \<in> measure unat"
    using drop_bit_less [of v 7] by (cases "v = 0") auto
qed simp

declare base128_len.simps [simp del]

definition base128 :: "u64 \<Rightarrow> bytes" where
  "base128 v = base128_digits (base128_len v) v"

lemma base128_len_pos: "0 < base128_len v"
  by (subst base128_len.simps) simp

lemma base128_len_drop: "drop_bit (7 * base128_len v) v = 0"
proof (induction v rule: base128_len.induct)
  case (1 v)
  then show ?case by (subst base128_len.simps) (auto simp: drop_bit_drop_bit add.commute)
qed

lemma base128_len_minimal: "base128_len v = Suc m \<Longrightarrow> m \<noteq> 0 \<Longrightarrow> drop_bit (7 * m) v \<noteq> 0"
proof (induction v arbitrary: m rule: base128_len.induct)
  case (1 v)
  show ?case
  proof (cases "drop_bit 7 v = 0")
    case True
    then show ?thesis using "1.prems" by (simp add: base128_len.simps [of v])
  next
    case False
    then have len: "base128_len (drop_bit 7 v) = m" using "1.prems" by (simp add: base128_len.simps [of v])
    obtain k where k: "m = Suc k" using "1.prems" by (cases m) auto
    show ?thesis
    proof (cases k)
      case 0
      then show ?thesis using False k by simp
    next
      case (Suc j)
      then have "drop_bit (7 * k) (drop_bit 7 v) \<noteq> 0"
        using "1.IH" [OF False, of k] len k by simp
      then show ?thesis by (simp add: k drop_bit_drop_bit add.commute)
    qed
  qed
qed

lemma base128_len_unique:
  assumes "drop_bit (7 * Suc m) v = 0" and "m = 0 \<or> drop_bit (7 * m) v \<noteq> 0"
  shows "base128_len v = Suc m"
proof -
  obtain k where k: "base128_len v = Suc k" using base128_len_pos [of v] by (cases "base128_len v") auto
  have mono: "drop_bit (7 * i) v = 0 \<Longrightarrow> i \<le> j \<Longrightarrow> drop_bit (7 * j) v = 0" for i j
  proof -
    assume "drop_bit (7 * i) v = 0" "i \<le> j"
    then have "drop_bit (7 * (j - i)) (drop_bit (7 * i) v) = 0" by simp
    then show "drop_bit (7 * j) v = 0" using \<open>i \<le> j\<close> by (simp add: drop_bit_drop_bit right_diff_distrib')
  qed
  have "\<not> k < m"
    using mono [of "Suc k" m] base128_len_drop [of v] assms(2) by (auto simp: k)
  moreover have "\<not> m < k"
    using mono [of "Suc m" k] assms(1) base128_len_minimal [OF k] by auto
  ultimately show ?thesis by (simp add: k)
qed

lemma append_low_bits: "push_bit n (drop_bit (k + n) v) OR take_bit n (drop_bit k v) = drop_bit k (v :: 'a::len word)"
  by (rule bit_word_eqI) (auto simp: bit_simps)

lemma low7: "ucast ((ucast (x AND 0x7f) OR (if b then 0x80 else 0) :: u8) AND 0x7f) = (take_bit 7 x :: u64)"
  unfolding and_7f by (rule bit_word_eqI) (auto simp: bit_simps bit_consts dest: bit_imp_le_length)

lemma base128_step:
  "push_bit 7 (drop_bit (7 * Suc n) v) OR
     ucast ((ucast (drop_bit (7 * n) v AND 0x7f) OR (if n \<noteq> 0 then 0x80 else 0) :: u8) AND 0x7f) =
   (drop_bit (7 * n) v :: u64)"
  unfolding low7 using append_low_bits [of 7 "7 * n" v] by (simp add: add.commute)

lemma base128_high:
  "((ucast (x AND 0x7f :: u64) OR (if b then 0x80 else 0) :: u8) AND 0x80 \<noteq> 0) = b"
  unfolding and_7f and_80 by (auto simp: bit_simps bit_consts)

lemma parse_base128_loop_digits:
  assumes "n = 0 \<or> drop_bit (7 * n) v \<noteq> 0"
  shows "parse_base128_loop (drop_bit (7 * Suc n) v) (base128_digits (Suc n) v @ rest) = (Ok v, rest)"
  using assms
proof (induction n)
  case 0
  have "drop_bit 57 (drop_bit 7 v) = 0" by (rule bit_word_eqI) (simp add: bit_simps)
  then show ?case
    using base128_step [of 0 v] base128_high [of v False] by (auto simp: and_80 bit_simps)
next
  case (Suc n)
  let ?b = "ucast (drop_bit (7 * Suc n) v AND 0x7f) OR (if Suc n \<noteq> 0 then 0x80 else 0) :: u8"
  have "drop_bit 57 (drop_bit (7 * Suc (Suc n)) v) = 0" by (rule bit_word_eqI) (simp add: bit_simps)
  moreover have "?b AND 0x80 \<noteq> 0"
    using base128_high [of "drop_bit (7 * Suc n) v" "Suc n \<noteq> 0"] by simp
  moreover have "drop_bit (7 * Suc (Suc n)) v = 0 \<longrightarrow> ?b \<noteq> 0x80"
  proof (rule ccontr)
    assume h: "\<not> ?thesis"
    then have z: "drop_bit (7 * Suc (Suc n)) v = 0" and b: "?b = 0x80" by auto
    have "drop_bit (7 * Suc n) v = 0"
      using base128_step [of "Suc n" v] unfolding z b by simp
    then show False using h Suc.prems by simp
  qed
  moreover have "drop_bit (7 * Suc n) v = drop_bit 7 (drop_bit (7 * n) v)"
    by (simp add: drop_bit_drop_bit add.commute)
  then have "n = 0 \<or> drop_bit (7 * n) v \<noteq> 0"
    using Suc.prems by (cases "drop_bit (7 * n) v = 0") simp_all
  ultimately show ?case
    using Suc.IH base128_step [of "Suc n" v]
    by (simp del: base128_digits.simps add: base128_digits.simps(2) [of "Suc n"] Let_def) 
qed

lemma base128_byte:
  fixes acc :: u64 and b :: u8
  assumes "drop_bit 57 acc = 0"
  defines "v \<equiv> push_bit 7 acc OR ucast (b AND 0x7f)"
  shows "drop_bit 7 v = acc"
    and "b = ucast (v AND 0x7f) OR (if b AND 0x80 \<noteq> 0 then 0x80 else 0)"
    and "v = 0 \<longleftrightarrow> acc = 0 \<and> (b = 0 \<or> b = 0x80)"
proof -
  have acc: "n < 57" if "bit acc n" for n
  proof (rule ccontr)
    assume "\<not> n < 57"
    then have "bit (drop_bit 57 acc) (n - 57) \<longleftrightarrow> bit acc n" by (simp add: bit_drop_bit_eq)
    then show False using assms(1) that by simp
  qed
  show d: "drop_bit 7 v = acc"
    unfolding v_def and_7f using acc
    by (intro bit_word_eqI) (auto simp: bit_simps dest: bit_imp_le_length acc)
  show "b = ucast (v AND 0x7f) OR (if b AND 0x80 \<noteq> 0 then 0x80 else 0)"
  proof (rule bit_word_eqI)
    fix n assume "n < LENGTH(8)"
    then consider "n = 7" | "n < 7" by fastforce
    then show "bit b n \<longleftrightarrow> bit (ucast (v AND 0x7f) OR (if b AND 0x80 \<noteq> 0 then 0x80 else 0) :: u8) n"
      unfolding v_def and_7f and_80 by cases (auto simp: bit_simps bit_consts)
  qed
  show "v = 0 \<longleftrightarrow> acc = 0 \<and> (b = 0 \<or> b = 0x80)"
  proof
    assume z: "v = 0"
    then have "acc = 0" using d by simp
    moreover have "\<not> bit b n" if "n < 7" for n
    proof -
      have "bit v n = bit b n" using that \<open>acc = 0\<close> unfolding v_def and_7f by (simp add: bit_simps)
      then show ?thesis using z by simp
    qed
    then have b: "bit b n \<longleftrightarrow> n = 7 \<and> bit b 7" for n
      by (cases "n < 7"; cases "n = 7") (auto dest: bit_imp_le_length)
    have "b = (if bit b 7 then 0x80 else 0)"
      by (rule bit_word_eqI) (subst b, auto simp: bit_consts)
    then have "b = 0 \<or> b = 0x80" by (auto split: if_splits)
    ultimately show "acc = 0 \<and> (b = 0 \<or> b = 0x80)" by simp
  qed (auto simp: v_def)
qed

lemma parse_base128_loop_Ok:
  "parse_base128_loop acc s = (Ok v, rest) \<Longrightarrow>
     \<exists>n. s = base128_digits (Suc n) v @ rest \<and> acc = drop_bit (7 * Suc n) v \<and>
         (acc \<noteq> 0 \<or> n = 0 \<or> drop_bit (7 * n) v \<noteq> 0)"
proof (induction acc s rule: parse_base128_loop.induct)
  case (2 acc b s)
  let ?v = "push_bit 7 acc OR ucast (b AND 0x7f) :: u64"
  have d: "drop_bit 57 acc = 0" and m: "\<not> (acc = 0 \<and> b = 0x80)"
    using "2.prems" by (auto split: if_splits)
  note bb = base128_byte [OF d, of b]
  show ?case
  proof (cases "b AND 0x80 = 0")
    case True
    then have v: "v = ?v" "rest = s" using "2.prems" d m by (auto simp: Let_def)
    show ?thesis
      using bb(1,2) True by (intro exI [of _ 0]) (simp add: v)
  next
    case False
    then have "parse_base128_loop ?v s = (Ok v, rest)" using "2.prems" d m by (auto simp: Let_def)
    then obtain n where n: "s = base128_digits (Suc n) v @ rest" "?v = drop_bit (7 * Suc n) v"
      "?v \<noteq> 0 \<or> n = 0 \<or> drop_bit (7 * n) v \<noteq> 0"
      using "2.IH" d m False by auto
    have "acc = drop_bit (7 * Suc (Suc n)) v"
      using bb(1) unfolding n(2) by (simp add: drop_bit_drop_bit add.commute)
    moreover have "b # s = base128_digits (Suc (Suc n)) v @ rest"
      using bb(2) False unfolding n(2) by (simp add: n(1))
    moreover have "acc \<noteq> 0 \<or> drop_bit (7 * Suc n) v \<noteq> 0"
      using bb(3) m False unfolding n(2) [symmetric] by auto
    ultimately show ?thesis by (intro exI [of _ "Suc n"]) simp
  qed
qed simp

lemma parse_base128_integer_base128:
  "parse_base128_integer (base128 v @ rest) = (Ok v, rest)"
proof -
  obtain n where n: "base128_len v = Suc n" using base128_len_pos [of v] by (cases "base128_len v") auto
  have "drop_bit (7 * Suc n) v = 0" using base128_len_drop [of v] by (simp add: n)
  then show ?thesis
    using parse_base128_loop_digits [of n v rest] base128_len_minimal [OF n]
    unfolding parse_base128_integer_def base128_def n by (cases "n = 0") simp_all
qed

lemma parse_base128_integer_Ok:
  assumes "parse_base128_integer s = (Ok v, rest)"
  shows "s = base128 v @ rest"
proof -
  obtain n where n: "s = base128_digits (Suc n) v @ rest" "drop_bit (7 * Suc n) v = 0"
    "n = 0 \<or> drop_bit (7 * n) v \<noteq> 0"
    using parse_base128_loop_Ok [OF assms [unfolded parse_base128_integer_def]] by auto
  then show ?thesis
    unfolding base128_def base128_len_unique [OF n(2,3)] by simp
qed

subsection \<open>Identifier octets\<close>

definition valid_tag :: "asn1_tag \<Rightarrow> bool" where
  "valid_tag tag \<longleftrightarrow> tag AND NOT CBS_ASN1_CONSTRUCTED \<noteq> 0"

definition tag_class_bits :: "asn1_tag \<Rightarrow> u8" where
  "tag_class_bits tag = ucast (drop_bit 24 tag) AND 0xe0"

definition der_tag :: "asn1_tag \<Rightarrow> bytes" where
  "der_tag tag =
     (let tag_number = tag AND CBS_ASN1_TAG_NUMBER_MASK
      in if tag_number \<ge> 0x1f then (tag_class_bits tag OR 0x1f) # base128 (ucast tag_number)
         else [tag_class_bits tag OR ucast tag_number])"

lemma bit_e0_24 [bit_consts]: "bit (3758096384 :: int) i \<longleftrightarrow> 29 \<le> i \<and> i < 32"
proof -
  have "(3758096384 :: int) = push_bit 29 (mask 3)" by (simp add: mask_eq_exp_minus_1)
  then show ?thesis by (simp only: bit_push_bit_iff bit_mask_iff) auto
qed

lemma tag_number: "tag AND CBS_ASN1_TAG_NUMBER_MASK = take_bit 29 tag"
proof -
  have "CBS_ASN1_TAG_NUMBER_MASK = mask 29"
    unfolding CBS_ASN1_TAG_NUMBER_MASK_def by (simp add: mask_eq_exp_minus_1)
  then show ?thesis by (simp only: take_bit_eq_mask)
qed

lemma tag_compose:
  assumes "b AND 0xe0 = tag_class_bits tag"
  shows "push_bit 24 (ucast b AND 0xe0) OR take_bit 29 tag = tag"
proof (rule bit_word_eqI)
  fix n assume n: "n < LENGTH(32)"
  have b: "bit (b AND 0xe0) k \<longleftrightarrow> bit (tag_class_bits tag) k" for k using assms by simp
  have "bit b k \<longleftrightarrow> bit tag (24 + k)" if "5 \<le> k" "k < 8" for k
    using b [of k] that by (simp add: tag_class_bits_def bit_simps bit_consts)
  from this [of "n - 24"] n
  show "bit (push_bit 24 (ucast b AND 0xe0) OR take_bit 29 tag) n \<longleftrightarrow> bit tag n"
    by (cases "n < 29") (auto simp: bit_simps bit_consts)
qed

lemma class_bits_or:
  "(tag_class_bits tag OR 0x1f) AND 0xe0 = tag_class_bits tag"
  "(tag_class_bits tag OR 0x1f) AND 0x1f = 0x1f"
  by (auto intro!: bit_word_eqI simp: tag_class_bits_def bit_simps bit_consts)

lemma bits_less_31: "n < (0x1f :: u32) \<Longrightarrow> bit n k \<Longrightarrow> k < 5"
proof -
  assume "n < 0x1f" "bit n k"
  then have "unat (take_bit 5 n) = unat n"
    by (simp add: unsigned_take_bit_eq word_less_nat_alt take_bit_nat_eq_self)
  then have "take_bit 5 n = n" by (simp only: word_unat_eq_iff)
  then show "k < 5" using \<open>bit n k\<close> by (metis bit_take_bit_iff)
qed

lemma ucast_u8_less_31: "n < (0x1f :: u32) \<Longrightarrow> ucast (ucast n :: u8) = n"
  by (rule bit_word_eqI) (auto simp: bit_simps dest: bits_less_31)

lemma class_bits_or_number:
  assumes "n < (0x1f :: u32)"
  shows "(tag_class_bits tag OR ucast n) AND 0xe0 = tag_class_bits tag"
    and "(tag_class_bits tag OR ucast n) AND 0x1f = ucast n"
proof -
  note n = bits_less_31 [OF assms]
  show "(tag_class_bits tag OR ucast n) AND 0xe0 = tag_class_bits tag"
    by (rule bit_word_eqI) (auto simp: tag_class_bits_def bit_simps bit_consts dest: n)
  show "(tag_class_bits tag OR ucast n) AND 0x1f = ucast n"
    by (rule bit_word_eqI) (auto simp: tag_class_bits_def bit_simps bit_consts dest: n)
qed

lemma unat_ucast_up:
  "unat (ucast (x :: u32) :: u64) = unat x" "unat (ucast (y :: u8) :: u64) = unat y"
  "unat (ucast (y :: u8) :: u32) = unat y" "unat (ucast (z :: u16) :: u64) = unat z"
  "unat (ucast (y :: u8) :: u16) = unat y" "unat (ucast (z :: u16) :: u32) = unat z"
  using unsigned_less [of x, where 'a = nat] unsigned_less [of y, where 'a = nat] unsigned_less [of z, where 'a = nat]
  by (simp_all add: unsigned_ucast_eq take_bit_nat_eq_self)

lemma mask_bound: "unat (take_bit n (w :: 'a::len word)) \<le> 2 ^ n - 1"
proof -
  have "unat (take_bit n w) = take_bit n (unat w)" by (simp add: unsigned_take_bit_eq)
  also have "\<dots> < 2 ^ n" by (rule take_bit_nat_less_exp)
  finally show ?thesis by simp
qed

lemma unat_tag_mask: "unat CBS_ASN1_TAG_NUMBER_MASK = 2 ^ 29 - 1"
  by (simp add: CBS_ASN1_TAG_NUMBER_MASK_def)

lemma number_in_bounds: "\<not> ucast (take_bit 29 (tag :: u32)) > (ucast CBS_ASN1_TAG_NUMBER_MASK :: u64)"
  using mask_bound [of 29 tag] by (simp add: word_less_nat_alt unat_ucast_up unat_tag_mask)

lemma ucast_less_31: "(ucast (n :: u32) :: u64) < 0x1f \<longleftrightarrow> n < 0x1f" "(ucast (n :: u32) :: u64) < 0x1f \<longleftrightarrow> n < 0x1f"
  by (simp_all add: word_less_nat_alt unat_ucast_up)

lemma ucast_ucast_id: "ucast (ucast (n :: u32) :: u64) = n" "ucast (ucast (b :: u8) :: u32) = b"
  "ucast (ucast (b :: u8) :: u64) = b"
  by (rule bit_word_eqI; auto simp: bit_simps)+

lemma parse_asn1_tag_der_tag:
  assumes "valid_tag tag"
  shows "parse_asn1_tag (der_tag tag @ rest) = (Ok tag, rest)"
proof (cases "tag AND CBS_ASN1_TAG_NUMBER_MASK \<ge> 0x1f")
  case True
  have "push_bit 24 (ucast (tag_class_bits tag OR 0x1f) AND 0xe0) OR take_bit 29 tag = tag"
    by (rule tag_compose) (rule class_bits_or)
  then show ?thesis
    using True assms number_in_bounds [of tag]
    by (simp add: parse_asn1_tag_def der_tag_def bnd_simps parse_base128_integer_base128 class_bits_or tag_number
        ucast_less_31 ucast_ucast_id valid_tag_def Let_def)
next
  case False
  then have n: "take_bit 29 tag < 0x1f" by (simp add: tag_number not_le)
  have "push_bit 24 (ucast (tag_class_bits tag OR ucast (take_bit 29 tag)) AND 0xe0) OR take_bit 29 tag = tag"
    by (rule tag_compose) (rule class_bits_or_number [OF n])
  moreover have "(ucast (take_bit 29 tag) :: u8) \<noteq> 0x1f"
    using n by (auto simp: word_less_nat_alt unsigned_ucast_eq take_bit_nat_eq_self dest!: arg_cong [of _ _ unat])
  moreover have "ucast (ucast (take_bit 29 tag) :: u8) = take_bit 29 tag"
    by (rule ucast_u8_less_31 [OF n])
  ultimately show ?thesis
    using False assms
    by (simp add: parse_asn1_tag_def der_tag_def bnd_simps class_bits_or_number [OF n] tag_number
        valid_tag_def Let_def)
qed

lemma bits_below: "unat (v :: u64) < 2 ^ k \<Longrightarrow> bit v n \<Longrightarrow> n < k"
proof -
  assume "unat v < 2 ^ k" "bit v n"
  then have "unat (take_bit k v) = unat v"
    by (simp add: unsigned_take_bit_eq take_bit_nat_eq_self)
  then have "take_bit k v = v" by (simp only: word_unat_eq_iff)
  then show "n < k" using \<open>bit v n\<close> by (metis bit_take_bit_iff)
qed

lemma tag_parts:
  fixes v :: u64 and b :: u8
  assumes "unat v < 2 ^ 29"
  defines "tag \<equiv> push_bit 24 (ucast b AND 0xe0) OR ucast v :: asn1_tag"
  shows "tag_class_bits tag = b AND 0xe0"
    and "take_bit 29 tag = ucast v"
    and "ucast (take_bit 29 tag) = v"
proof -
  note v = bits_below [OF assms(1)]
  show "tag_class_bits tag = b AND 0xe0"
    unfolding tag_def tag_class_bits_def
    by (rule bit_word_eqI) (auto simp: bit_simps bit_consts dest: v)
  show t: "take_bit 29 tag = ucast v"
    unfolding tag_def by (rule bit_word_eqI) (auto simp: bit_simps bit_consts dest: v)
  show "ucast (take_bit 29 tag) = v"
    unfolding t by (rule bit_word_eqI) (use v in \<open>fastforce simp: bit_simps\<close>)
qed

lemma byte_split: "b = (b AND 0xe0) OR (b AND 0x1f :: u8)"
proof (rule bit_word_eqI)
  fix n assume "n < LENGTH(8)"
  then show "bit b n \<longleftrightarrow> bit ((b AND 0xe0) OR (b AND 0x1f)) n"
    by (cases "n < 5") (auto simp: bit_simps bit_consts)
qed

lemma and_1f: "unat (b AND 0x1f :: u8) < 32"
proof -
  have "b AND 0x1f = take_bit 5 b" by (simp add: take_bit_eq_mask mask_eq_exp_minus_1)
  then show ?thesis using mask_bound [of 5 b] by simp
qed

lemma ucast_u32_via_u64: "ucast (ucast (b :: u8) :: u64) = (ucast b :: u32)"
  by (rule bit_word_eqI) (auto simp: bit_simps)

lemma parse_asn1_tag_Ok:
  assumes "parse_asn1_tag s = (Ok tag, rest)"
  shows "s = der_tag tag @ rest \<and> valid_tag tag"
proof -
  obtain b s' where s: "s = b # s'"
    using assms by (cases s) (auto simp: parse_asn1_tag_def bnd_simps)
  show ?thesis
  proof (cases "b AND 0x1f = 0x1f")
    case True
    then obtain v where v: "parse_base128_integer s' = (Ok v, rest)" "\<not> v > ucast CBS_ASN1_TAG_NUMBER_MASK"
      "\<not> v < 0x1f" and tag: "tag = push_bit 24 (ucast b AND 0xe0) OR ucast v" "valid_tag tag"
      using assms s by (auto simp: parse_asn1_tag_def bnd_simps bnd_Ok_iff valid_tag_def Let_def split: if_splits)
    have "unat v < 2 ^ 29" using v(2) by (simp add: word_less_nat_alt unat_ucast_up unat_tag_mask)
    note tp = tag_parts [OF this, of b, folded tag(1)]
    have "\<not> take_bit 29 tag < 0x1f"
      using v(3) unfolding ucast_less_31(1) [symmetric] tp(3) .
    moreover have "(b AND 0xe0) OR 0x1f = b" using byte_split [of b] True by simp
    ultimately show ?thesis
      using parse_base128_integer_Ok [OF v(1)] tag(2)
      by (simp add: der_tag_def tag_number tp(1,3) s not_less Let_def)
  next
    case False
    then have rest: "rest = s'" and tag: "tag = push_bit 24 (ucast b AND 0xe0) OR ucast (b AND 0x1f)" "valid_tag tag"
      using assms s by (auto simp: parse_asn1_tag_def bnd_simps valid_tag_def Let_def split: if_splits)
    have "unat (ucast (b AND 0x1f) :: u64) < 2 ^ 29" using and_1f [of b] by (simp only: unat_ucast_up) simp
    note tp = tag_parts [OF this, of b, unfolded ucast_u32_via_u64, folded tag(1)]
    have "b AND 0x1f \<noteq> 0x1f" by fact
    then have "unat (b AND 0x1f) \<noteq> 0x1f" by (auto simp: word_unat_eq_iff)
    then have "\<not> 0x1f \<le> take_bit 29 tag"
      unfolding tp(2) using and_1f [of b] by (simp add: word_le_nat_alt unat_ucast_up)
    moreover have "ucast (take_bit 29 tag) = b AND 0x1f"
      unfolding tp(2) by (rule bit_word_eqI) (auto simp: bit_simps)
    moreover have "(b AND 0xe0) OR (b AND 0x1f) = b" by (rule byte_split [symmetric])
    ultimately show ?thesis
      using tag(2) by (simp add: der_tag_def tag_number tp(1) s rest Let_def)
  qed
qed

lemma der_tag_length: "1 \<le> length (der_tag tag)" "length (der_tag tag) \<le> 11"
proof -
  have "length (base128_digits n v) = n" for n v by (induction n) simp_all
  moreover have "base128_len v \<le> 10" for v
  proof (rule ccontr)
    assume h: "\<not> base128_len v \<le> 10"
    then obtain m where m: "base128_len v = Suc m" "10 \<le> m" by (cases "base128_len v") auto
    have "drop_bit (7 * m) v = 0" using m(2) by (intro bit_word_eqI) (auto simp: bit_simps dest: bit_imp_le_length)
    then show False using base128_len_minimal [OF m(1)] m(2) by simp
  qed
  ultimately show "1 \<le> length (der_tag tag)" "length (der_tag tag) \<le> 11"
    by (auto simp: der_tag_def Let_def base128_def)
qed

subsection \<open>Lengths and elements\<close>

definition der_len_len :: "nat \<Rightarrow> nat" where
  "der_len_len n = (if n > 0xffffff then 4 else if n > 0xffff then 3 else if n > 0xff then 2 else 1)"

definition der_length :: "nat \<Rightarrow> bytes" where
  "der_length n =
     (if n < 0x80 then [of_nat n]
      else (0x80 OR of_nat (der_len_len n)) # be_bytes (der_len_len n) (of_nat n))"

definition der_header :: "asn1_tag \<Rightarrow> nat \<Rightarrow> bytes" where
  "der_header tag n = der_tag tag @ der_length n"

definition der_element :: "asn1_tag \<Rightarrow> bytes \<Rightarrow> bytes" where
  "der_element tag body = der_header tag (length body) @ body"

text \<open>The bodies whose length fits the four length octets the code supports.\<close>

abbreviation max_der_len :: nat where "max_der_len \<equiv> 2 ^ 32 - 1"

lemma der_len_len_range: "1 \<le> der_len_len n" "der_len_len n \<le> 4"
  by (simp_all add: der_len_len_def)

lemma drop_bit_eq_0_iff: "drop_bit k (v :: 'a::len word) = 0 \<longleftrightarrow> unat v < 2 ^ k"
  unfolding word_unat_eq_iff unat_drop_bit_eq drop_bit_nat_def by (simp add: div_eq_0_iff)

lemma der_len_len_fits:
  assumes "n \<le> max_der_len"
  shows "drop_bit (8 * der_len_len n) (of_nat n :: u64) = 0"
    and "128 \<le> n \<Longrightarrow> drop_bit ((der_len_len n - 1) * 8) (of_nat n :: u64) \<noteq> 0"
  using assms
  by (simp_all add: der_len_len_def drop_bit_eq_0_iff unsigned_of_nat take_bit_nat_eq_self)

lemma der_len_len_unique:
  assumes "1 \<le> k" "k \<le> 4" "drop_bit (8 * k) (v :: u64) = 0" "drop_bit ((k - 1) * 8) v \<noteq> 0"
  shows "der_len_len (unat v) = k" and "unat v \<le> max_der_len"
proof -
  consider "k = 1" | "k = 2" | "k = 3" | "k = 4" using assms by linarith
  then show "der_len_len (unat v) = k" "unat v \<le> max_der_len"
    using assms(3,4)
    by (cases; simp add: der_len_len_def drop_bit_eq_0_iff)+
qed

lemma of_nat_small: "n < 128 \<Longrightarrow> unat (of_nat n :: u8) = n" "n < 128 \<Longrightarrow> (of_nat n :: u8) AND 0x80 = 0"
proof -
  assume n: "n < 128"
  then show u: "unat (of_nat n :: u8) = n" by (simp add: unsigned_of_nat take_bit_nat_eq_self)
  have "take_bit 7 (of_nat n :: u8) = of_nat n"
    using n u by (simp add: word_unat_eq_iff unsigned_take_bit_eq take_bit_nat_eq_self)
  then have "\<not> bit (of_nat n :: u8) 7" by (metis bit_take_bit_iff less_irrefl)
  then show "(of_nat n :: u8) AND 0x80 = 0" by (simp add: and_80)
qed

lemma len_octet:
  "k \<le> 4 \<Longrightarrow> (0x80 OR of_nat k :: u8) AND 0x80 \<noteq> 0 \<and> unat ((0x80 OR of_nat k :: u8) AND 0x7f) = k"
proof -
  assume "k \<le> 4"
  then consider "k = 0" | "k = 1" | "k = 2" | "k = 3" | "k = 4" by linarith
  then show ?thesis by cases simp_all
qed

lemma of_nat_u64: "n \<le> max_der_len \<Longrightarrow> unat (of_nat n :: u64) = n"
  by (simp add: unsigned_of_nat take_bit_nat_eq_self)

lemma size_add_small: "a + b < 2 ^ 64 \<Longrightarrow> size_add a b = a + b"
  by (simp add: size_add_def)

definition the_element :: "asn1_tag \<Rightarrow> bytes \<Rightarrow> asn1_element" where
  "the_element tag body =
     \<lparr>el_contents = der_element tag body, el_tag = tag,
      el_header_len = length (der_header tag (length body)), el_ber_found = False, el_indefinite = False\<rparr>"

lemma CBS_get_bytes_append [simp]: "length p = n \<Longrightarrow> CBS_get_bytes n (p @ rest) = (Ok p, rest)"
  by (simp add: CBS_get_bytes_def bnd_simps)

lemma get_element_der_element:
  assumes "valid_tag tag" and "length body \<le> max_der_len"
  shows "cbs_get_any_asn1_element ber_ok (der_element tag body @ rest) = (Ok (the_element tag body), rest)"
proof -
  let ?n = "length body"
  let ?s = "der_tag tag @ der_length ?n @ body @ rest"
  note tag = parse_asn1_tag_der_tag [OF assms(1)]
  have s: "der_element tag body @ rest = ?s" by (simp add: der_element_def der_header_def)
  have tl: "length (der_tag tag) \<le> 11" by (rule der_tag_length)
  show ?thesis
  proof (cases "?n < 128")
    case True
    have "size_add ?n (Suc (length (der_tag tag))) = ?n + Suc (length (der_tag tag))"
      using True tl by (intro size_add_small) simp
    moreover have "CBS_get_bytes (Suc (?n + length (der_tag tag))) (der_tag tag @ of_nat ?n # body @ rest) =
        (Ok (der_tag tag @ of_nat ?n # body), rest)"
      using CBS_get_bytes_append [of "der_tag tag @ of_nat ?n # body" _ rest]
      by (simp add: add.commute)
    ultimately show ?thesis
      using True unfolding s
      by (simp add: cbs_get_any_asn1_element_def tag der_length_def of_nat_small bnd_simps the_element_def
          der_element_def der_header_def Let_def)
  next
    case False
    let ?k = "der_len_len ?n"
    have k: "?k \<le> 4" "?k \<noteq> 0" using der_len_len_range [of ?n] by simp_all
    note fits = der_len_len_fits [OF assms(2)]
    have n: "unat (of_nat ?n :: u64) = ?n" by (rule of_nat_u64) fact
    have "size_add ?n (Suc (length (der_tag tag))) = ?n + Suc (length (der_tag tag))"
      "size_add (?n + Suc (length (der_tag tag))) ?k = ?n + Suc (length (der_tag tag)) + ?k"
      "size_add (Suc (length (der_tag tag))) ?k = Suc (length (der_tag tag)) + ?k"
      "size_add ?n (Suc (length (der_tag tag)) + ?k) = ?n + Suc (length (der_tag tag)) + ?k"
      using assms(2) tl k by (simp_all add: size_add_def)
    moreover have "CBS_get_bytes (?n + Suc (length (der_tag tag)) + ?k)
        (der_tag tag @ (0x80 OR of_nat ?k) # be_bytes ?k (of_nat ?n) @ body @ rest) =
        (Ok (der_tag tag @ (0x80 OR of_nat ?k) # be_bytes ?k (of_nat ?n) @ body), rest)"
      using CBS_get_bytes_append [of "der_tag tag @ (0x80 OR of_nat ?k) # be_bytes ?k (of_nat ?n) @ body" _ rest]
      by (simp add: ac_simps)
    moreover have "\<not> (of_nat ?n :: u64) < 128" using False by (simp add: word_less_nat_alt n)
    ultimately show ?thesis
      using False k fits(2) len_octet [OF k(1)] cbs_get_u_be_bytes [OF fits(1), of "body @ rest"] unfolding s
      by (simp add: cbs_get_any_asn1_element_def tag der_length_def bnd_simps the_element_def
          der_element_def der_header_def Let_def n)
  qed
qed


lemma der_length_Ok:
  assumes "1 \<le> k" "k \<le> 4" "drop_bit (8 * k) v = 0" "drop_bit ((k - 1) * 8) v \<noteq> 0" "\<not> v < 128"
    and "b AND 0x80 \<noteq> 0" "unat (b AND 0x7f) = k"
  shows "der_length (unat v) = b # be_bytes k v" and "unat v \<le> max_der_len"
proof -
  note u = der_len_len_unique [OF assms(1-4)]
  show "unat v \<le> max_der_len" by (rule u)
  have "0x80 OR of_nat k = b"
  proof (rule bit_word_eqI)
    fix n assume n: "n < LENGTH(8)"
    have "(of_nat k :: u8) = b AND 0x7f" unfolding assms(7) [symmetric] by simp
    moreover have "bit b 7" using assms(6) by (simp add: and_80)
    ultimately show "bit (0x80 OR of_nat k :: u8) n \<longleftrightarrow> bit b n"
      using n by (cases "n = 7") (auto simp: bit_simps bit_consts)
  qed
  then show "der_length (unat v) = b # be_bytes k v"
    using assms(5) by (simp add: der_length_def u(1) word_less_nat_alt)
qed

lemma short_length: "b AND 0x80 = 0 \<Longrightarrow> der_length (unat b) = [b] \<and> unat b \<le> max_der_len" for b :: u8
proof -
  assume "b AND 0x80 = 0"
  then have "\<not> bit b 7" by (simp add: and_80)
  then have "take_bit 7 b = b"
    by (intro bit_word_eqI) (auto simp: bit_simps less_Suc_eq numeral_nat)
  then have "unat b < 128" using mask_bound [of 7 b] by simp
  then show ?thesis by (simp add: der_length_def)
qed

lemma CBS_get_bytes_Ok: "CBS_get_bytes n s = (Ok p, r) \<longleftrightarrow> length p = n \<and> s = p @ r"
  by (auto simp: CBS_get_bytes_def bnd_def cbs_get_def)

lemma CBS_get_bytes_split:
  assumes "CBS_get_bytes (n + length hdr) (hdr @ t) = (Ok p, rest)"
  obtains body where "length body = n" "p = hdr @ body" "t = body @ rest"
proof -
  have p: "length p = n + length hdr" "hdr @ t = p @ rest" using assms by (auto simp: CBS_get_bytes_Ok)
  from p(2) obtain us where "hdr = p @ us \<and> us @ t = rest \<or> hdr @ us = p \<and> t = us @ rest"
    by (auto simp: append_eq_append_conv2)
  then show ?thesis
  proof
    assume "hdr = p @ us \<and> us @ t = rest"
    then show ?thesis using p(1) by (intro that [of "[]"]) auto
  next
    assume "hdr @ us = p \<and> t = us @ rest"
    then show ?thesis using p(1) by (intro that [of us]) auto
  qed
qed

text \<open>What the reader accepts is what the encoder writes.\<close>

lemma get_element_Ok:
  assumes "CBS_get_any_asn1_element s = (Ok el, rest)"
  shows "\<exists>body. valid_tag (el_tag el) \<and> length body \<le> max_der_len \<and> el = the_element (el_tag el) body \<and>
           s = der_element (el_tag el) body @ rest"
proof -
  obtain tag h where h: "parse_asn1_tag s = (Ok tag, h)"
    using assms by (auto simp: CBS_get_any_asn1_element_def cbs_get_any_asn1_element_def split: res.splits prod.splits)
  note tag = parse_asn1_tag_Ok [OF h]
  obtain b h' where b: "h = b # h'"
    using assms h by (cases h) (auto simp: CBS_get_any_asn1_element_def cbs_get_any_asn1_element_def)
  have s: "s = der_tag tag @ b # h'" using tag b by simp
  have tl: "length (der_tag tag) \<le> 11" by (rule der_tag_length)
  have hl: "length s - length h' = Suc (length (der_tag tag))" by (simp add: s)
  have "\<exists>hdr t p n. s = hdr @ t \<and> CBS_get_bytes (n + length hdr) s = (Ok p, rest) \<and> n \<le> max_der_len \<and>
      hdr = der_header tag n \<and>
      el = \<lparr>el_contents = p, el_tag = tag, el_header_len = length hdr, el_ber_found = False, el_indefinite = False\<rparr>"
  proof (cases "b AND 0x80 = 0")
    case True
    note short = short_length [OF True]
    have "size_add (unat b) (Suc (length (der_tag tag))) = unat b + Suc (length (der_tag tag))"
      using tl short by (simp add: size_add_def)
    with assms True have "bnd (CBS_get_bytes (unat b + Suc (length (der_tag tag)))) (\<lambda>out. ret
        \<lparr>el_contents = out, el_tag = tag, el_header_len = Suc (length (der_tag tag)), el_ber_found = False,
         el_indefinite = False\<rparr>) s = (Ok el, rest)"
      by (simp add: CBS_get_any_asn1_element_def cbs_get_any_asn1_element_def h b hl Let_def)
    then show ?thesis
      using short
      by (intro exI [of _ "der_tag tag @ [b]"] exI [of _ h'] exI [of _ "el_contents el"] exI [of _ "unat b"])
        (auto simp: bnd_Ok_iff der_header_def s)
  next
    case False
    let ?k = "unat (b AND 0x7f)"
    obtain v t where v: "cbs_get_u ?k h' = (Ok v, t)" and k: "1 \<le> ?k" "?k \<le> 4" and big: "\<not> v < 128"
      and min: "drop_bit ((?k - 1) * 8) v \<noteq> 0"
      using assms False
      by (auto simp: CBS_get_any_asn1_element_def cbs_get_any_asn1_element_def h b bnd_Ok_iff Let_def
          split: if_splits res.splits prod.splits)
    have h': "h' = be_bytes ?k v @ t" "drop_bit (8 * ?k) v = 0" using cbs_get_u_Ok [OF v] k by simp_all
    note len = der_length_Ok [OF k h'(2) min big False refl]
    have sizes: "size_add (unat v) (Suc (length (der_tag tag))) = unat v + Suc (length (der_tag tag))"
      "size_add (unat v + Suc (length (der_tag tag))) ?k = unat v + Suc (length (der_tag tag)) + ?k"
      "size_add (Suc (length (der_tag tag))) ?k = Suc (length (der_tag tag)) + ?k"
      "size_add (unat v) (Suc (length (der_tag tag)) + ?k) = unat v + (Suc (length (der_tag tag)) + ?k)"
      using len(2) tl k by (simp_all add: size_add_def)
    with assms False k v min big have "bnd (CBS_get_bytes (unat v + (Suc (length (der_tag tag)) + ?k))) (\<lambda>out. ret
        \<lparr>el_contents = out, el_tag = tag, el_header_len = Suc (length (der_tag tag)) + ?k, el_ber_found = False,
         el_indefinite = False\<rparr>) s = (Ok el, rest)"
      by (simp add: CBS_get_any_asn1_element_def cbs_get_any_asn1_element_def h b hl Let_def split: if_splits)
    then show ?thesis
      using len h'(1)
      by (intro exI [of _ "der_tag tag @ b # be_bytes ?k v"] exI [of _ t] exI [of _ "el_contents el"]
          exI [of _ "unat v"])
        (auto simp: bnd_Ok_iff der_header_def s)
  qed
  then obtain hdr t p n where r: "s = hdr @ t" "CBS_get_bytes (n + length hdr) s = (Ok p, rest)" "n \<le> max_der_len"
      "hdr = der_header tag n"
      "el = \<lparr>el_contents = p, el_tag = tag, el_header_len = length hdr, el_ber_found = False, el_indefinite = False\<rparr>"
    by blast
  obtain body where "length body = n" "p = hdr @ body" "t = body @ rest"
    using CBS_get_bytes_split r(1,2) by metis
  then show ?thesis
    using r tag by (intro exI [of _ body]) (simp add: the_element_def der_element_def)
qed

subsection \<open>Readers and codecs\<close>

lemma base128_nonempty: "base128 v \<noteq> []"
  using base128_len_pos [of v] by (cases "base128_len v") (auto simp: base128_def)

interpretation base128_codec: bytes_codec base128 parse_base128_integer "\<lambda>_. True"
  by unfold_locales (rule parse_base128_integer_base128)

interpretation tag_codec: bytes_codec der_tag parse_asn1_tag valid_tag
  by unfold_locales (rule parse_asn1_tag_der_tag)

lemma parse_base128_loop_defined: "fst (parse_base128_loop acc s) \<noteq> Undef"
  by (induction acc s rule: parse_base128_loop.induct) (auto simp: Let_def)

lemma parse_base128_loop_suffix: "suffix (snd (parse_base128_loop acc s)) s"
  by (induction acc s rule: parse_base128_loop.induct) (auto simp: Let_def suffix_Cons)

interpretation parse_base128: strict_reader parse_base128_integer
proof (intro strict_readerI byte_reader.intro)
  show "suffix s' s" "r \<noteq> Undef" if "parse_base128_integer s = (r, s')" for s r s'
    using that parse_base128_loop_suffix [of 0 s] parse_base128_loop_defined [of 0 s]
    by (auto simp: parse_base128_integer_def)
  show "length s' < length s" if "parse_base128_integer s = (Ok v, s')" for s v s'
    using parse_base128_integer_Ok [OF that] base128_nonempty [of v] by simp
qed

declare parse_base128.byte_reader_axioms [reader_intros]
  CBS_get_u8.byte_reader_axioms [reader_intros] cbs_get_u.byte_reader_axioms [reader_intros]
  CBS_get_bytes.byte_reader_axioms [reader_intros]

interpretation parse_asn1_tag: strict_reader parse_asn1_tag
proof (rule strict_readerI)
  show "byte_reader parse_asn1_tag"
    unfolding parse_asn1_tag_def Let_def by (intro reader_intros)
  show "length s' < length s" if "parse_asn1_tag s = (Ok tag, s')" for s tag s'
    using parse_asn1_tag_Ok [OF that] der_tag_length(1) [of tag] by auto
qed

lemma der_tag_nonempty [simp]: "der_tag tag \<noteq> []"
  using der_tag_length(1) [of tag] by auto

lemma der_element_nonempty: "0 < length (der_element tag body)"
  by (simp add: der_element_def der_header_def)

text \<open>Reading an element either fails and leaves the CBS alone, or takes a prefix off it.\<close>

definition takes_prefix :: "bytes \<Rightarrow> 'a res \<times> bytes \<Rightarrow> bool" where
  "takes_prefix s out \<longleftrightarrow> out = (Fail, s) \<or> (\<exists>a n. out = (Ok a, drop n s))"

lemma takes_prefix_intros:
  "takes_prefix s (Fail, s)"
  "takes_prefix s (bnd (CBS_get_bytes n) (\<lambda>out. ret (g out)) s)"
  "(fst m \<noteq> Undef) \<Longrightarrow> (\<And>a t. m = (Ok a, t) \<Longrightarrow> takes_prefix s (f a t)) \<Longrightarrow>
     takes_prefix s (case m of (Fail, _) \<Rightarrow> (Fail, s) | (Undef, _) \<Rightarrow> (Undef, s) | (Ok a, t) \<Rightarrow> f a t)"
  "takes_prefix s x \<Longrightarrow> takes_prefix s y \<Longrightarrow> takes_prefix s (if b then x else y)"
  by (auto simp: takes_prefix_def CBS_get_bytes_def cbs_get_def bnd_def split: res.splits prod.splits)

lemma fst_defined: "fst (parse_asn1_tag s) \<noteq> Undef" "fst (CBS_get_u8 s) \<noteq> Undef" "fst (cbs_get_u n s) \<noteq> Undef"
  using parse_asn1_tag.rd_defined CBS_get_u8.rd_defined cbs_get_u.rd_defined by (metis prod.collapse)+

lemma get_element_takes_prefix: "takes_prefix s (cbs_get_any_asn1_element ber_ok s)"
  unfolding cbs_get_any_asn1_element_def Let_def by (intro takes_prefix_intros fst_defined)

interpretation get_element: byte_reader "cbs_get_any_asn1_element ber_ok"
proof
  show "suffix s' s" "r \<noteq> Undef" if "cbs_get_any_asn1_element ber_ok s = (r, s')" for s r s'
    using get_element_takes_prefix [of s ber_ok] that by (auto simp: takes_prefix_def suffix_drop)
qed

interpretation CBS_get_any_asn1_element: strict_reader CBS_get_any_asn1_element
proof (rule strict_readerI)
  show "byte_reader CBS_get_any_asn1_element"
    unfolding CBS_get_any_asn1_element_def by (rule get_element.byte_reader_axioms)
  show "length s' < length s" if "CBS_get_any_asn1_element s = (Ok el, s')" for s el s'
    using get_element_Ok [OF that] der_element_nonempty [of "el_tag el"] by auto
qed

lemma skip_header_the_element [simp]: "skip_header (the_element tag body) s = (Ok body, s)"
  by (simp add: skip_header_def the_element_def der_element_def CBS_skip_def bnd_simps)

text \<open>The typed getters on a given tag.\<close>

lemma CBS_get_asn1_der_element:
  assumes "valid_tag tag" and "length body \<le> max_der_len"
  shows "CBS_get_asn1 tag (der_element tag body @ rest) = (Ok body, rest)"
    and "CBS_get_asn1_element tag (der_element tag body @ rest) = (Ok (der_element tag body), rest)"
    and "CBS_get_any_asn1 (der_element tag body @ rest) = (Ok (tag, body), rest)"
  using get_element_der_element [OF assms, of False rest]
  by (simp_all add: CBS_get_asn1_def CBS_get_asn1_element_def cbs_get_asn1_def CBS_get_any_asn1_def bnd_simps
      CBS_get_any_asn1_element_def the_element_def [THEN arg_cong, of el_tag]
      the_element_def [THEN arg_cong, of el_contents])

lemma element_cases:
  obtains (ok) tag body rest where "CBS_get_any_asn1_element s = (Ok (the_element tag body), rest)"
      "valid_tag tag" "length body \<le> max_der_len" "s = der_element tag body @ rest"
  | (fail) "CBS_get_any_asn1_element s = (Fail, s)"
proof (cases "CBS_get_any_asn1_element s = (Fail, s)")
  case False
  then obtain el rest where el: "CBS_get_any_asn1_element s = (Ok el, rest)"
    using get_element_takes_prefix [of s False]
    by (auto simp: takes_prefix_def CBS_get_any_asn1_element_def)
  show ?thesis using get_element_Ok [OF el] el ok by metis
qed (rule fail)

lemma CBS_get_asn1_Ok:
  "CBS_get_asn1 tag s = (Ok body, rest) \<longleftrightarrow>
     valid_tag tag \<and> length body \<le> max_der_len \<and> s = der_element tag body @ rest"
proof
  assume "CBS_get_asn1 tag s = (Ok body, rest)"
  then show "valid_tag tag \<and> length body \<le> max_der_len \<and> s = der_element tag body @ rest"
    by (cases s rule: element_cases)
      (auto simp: CBS_get_asn1_def cbs_get_asn1_def bnd_simps the_element_def [THEN arg_cong, of el_tag]
       split: if_splits)
qed (use CBS_get_asn1_der_element in auto)

lemma CBS_get_any_asn1_Ok:
  "CBS_get_any_asn1 s = (Ok (tag, body), rest) \<longleftrightarrow>
     valid_tag tag \<and> length body \<le> max_der_len \<and> s = der_element tag body @ rest"
proof
  assume "CBS_get_any_asn1 s = (Ok (tag, body), rest)"
  then show "valid_tag tag \<and> length body \<le> max_der_len \<and> s = der_element tag body @ rest"
    by (cases s rule: element_cases)
      (auto simp: CBS_get_any_asn1_def bnd_simps the_element_def [THEN arg_cong, of el_tag])
qed (use CBS_get_asn1_der_element in auto)

interpretation element_codec:
  bytes_codec "\<lambda>(tag, body). der_element tag body" CBS_get_any_asn1
    "\<lambda>(tag, body). valid_tag tag \<and> length body \<le> max_der_len"
  by unfold_locales (auto simp: CBS_get_any_asn1_Ok)

interpretation CBS_get_asn1: strict_reader "CBS_get_asn1 tag"
proof (rule strict_readerI)
  show "byte_reader (CBS_get_asn1 tag)"
  proof
    show "suffix s' s" "r \<noteq> Undef" if "CBS_get_asn1 tag s = (r, s')" for s r s'
      using that
      by (cases s rule: element_cases;
        auto simp: CBS_get_asn1_def cbs_get_asn1_def bnd_simps suffix_def split: if_splits)+
  qed
  show "length s' < length s" if "CBS_get_asn1 tag s = (Ok body, s')" for s body s'
    using that der_element_nonempty [of tag body] by (auto simp: CBS_get_asn1_Ok)
qed

declare CBS_get_asn1.byte_reader_axioms [reader_intros]

end
