(* ===== verification/Der_Int.thy ===== *)
theory Der_Int
  imports Der
begin

text \<open>
  The contents octets of an INTEGER: minimal unsigned and two's complement encodings of 64-bit values,
  and the proof that \<^verbatim>\<open>CBS_get_asn1_uint64\<close> and \<^verbatim>\<open>CBS_get_asn1_int64\<close> accept exactly these.
\<close>

subsection \<open>Unsigned contents\<close>

function byte_len :: "u64 \<Rightarrow> nat" where
  "byte_len v = (if v = 0 then 0 else Suc (byte_len (drop_bit 8 v)))"
  by pat_completeness auto
termination
  by (relation "measure unat") (use drop_bit_less [where n = 8] in auto)

declare byte_len.simps [simp del]

definition der_unsigned :: "u64 \<Rightarrow> bytes" where
  "der_unsigned v =
     (if v = 0 then [0]
      else let bs = be_bytes (byte_len v) v in if bit (hd bs) 7 then 0 # bs else bs)"

lemma byte_len_0 [simp]: "byte_len 0 = 0"
  by (simp add: byte_len.simps [of 0])

lemma byte_len_unique:
  "drop_bit (8 * Suc j) v = 0 \<Longrightarrow> drop_bit (8 * j) v \<noteq> 0 \<Longrightarrow> byte_len v = Suc j"
proof (induction j arbitrary: v)
  case 0
  then show ?case by (simp add: byte_len.simps [of v])
next
  case (Suc j)
  have "byte_len (drop_bit 8 v) = Suc j"
    using Suc.prems by (intro Suc.IH) (simp_all add: drop_bit_drop_bit add.commute)
  moreover have "v \<noteq> 0" using Suc.prems by auto
  ultimately show ?case by (simp add: byte_len.simps [of v])
qed

lemma byte_len_exists:
  assumes "v \<noteq> 0" "drop_bit (8 * n) v = 0"
  shows "\<exists>j < n. drop_bit (8 * Suc j) v = 0 \<and> drop_bit (8 * j) v \<noteq> 0"
  using assms
proof (induction n)
  case (Suc n)
  show ?case
  proof (cases "drop_bit (8 * n) v = 0")
    case True
    then show ?thesis using Suc less_SucI by blast
  next
    case False
    then show ?thesis using Suc.prems by blast
  qed
qed simp

lemma der_unsigned_nonzero:
  assumes "v \<noteq> 0"
  obtains j where "j < 8" "drop_bit (8 * Suc j) v = 0" "ucast (drop_bit (8 * j) v) \<noteq> (0 :: u8)"
    "der_unsigned v = (if bit (ucast (drop_bit (8 * j) v) :: u8) 7 then 0 # be_bytes (Suc j) v else be_bytes (Suc j) v)"
proof -
  have "drop_bit (8 * 8) v = 0" by (rule bit_word_eqI) (auto simp: bit_simps dest: bit_imp_le_length)
  from byte_len_exists [OF assms this] obtain j where j: "j < 8" "drop_bit (8 * Suc j) v = 0" "drop_bit (8 * j) v \<noteq> 0"
    by blast
  have "ucast (drop_bit (8 * j) v) \<noteq> (0 :: u8)"
  proof
    assume z: "ucast (drop_bit (8 * j) v) = (0 :: u8)"
    have "drop_bit (8 * j) v = 0"
      using be_step [of j v] j(2) z by simp
    then show False using j(3) by simp
  qed
  then show ?thesis
    using j assms by (intro that [of j]) (simp_all add: der_unsigned_def byte_len_unique Let_def)
qed

lemma asn1_uint64_loop_be_bytes:
  "asn1_uint64_loop (drop_bit (8 * n) v) (be_bytes n v) = Ok v"
proof (induction n)
  case (Suc n)
  have "drop_bit 56 (drop_bit (8 * Suc n) v) = 0"
    by (rule bit_word_eqI) (auto simp: bit_simps dest: bit_imp_le_length)
  then show ?case using Suc be_step [of n v] by simp
qed simp

lemma unsigned_valid:
  "CBS_is_unsigned_asn1_integer (der_unsigned v)" "asn1_uint64_loop 0 (der_unsigned v) = Ok v"
proof -
  show "CBS_is_unsigned_asn1_integer (der_unsigned v)"
  proof (cases "v = 0")
    case True
    then show ?thesis by (simp add: der_unsigned_def CBS_is_unsigned_asn1_integer_def CBS_is_valid_asn1_integer_def)
  next
    case False
    then show ?thesis
    proof (rule der_unsigned_nonzero)
      fix j assume "ucast (drop_bit (8 * j) v) \<noteq> (0 :: u8)" and d: "der_unsigned v =
        (if bit (ucast (drop_bit (8 * j) v) :: u8) 7 then 0 # be_bytes (Suc j) v else be_bytes (Suc j) v)"
      then show ?thesis
        by (cases j; cases "bit (ucast (drop_bit (8 * j) v) :: u8) 7")
          (auto simp: CBS_is_unsigned_asn1_integer_def CBS_is_valid_asn1_integer_def d and_80 bit_consts Let_def)
    qed
  qed
  show "asn1_uint64_loop 0 (der_unsigned v) = Ok v"
  proof (cases "v = 0")
    case False
    then show ?thesis
    proof (rule der_unsigned_nonzero)
      fix j assume "drop_bit (8 * Suc j) v = 0" "der_unsigned v =
        (if bit (ucast (drop_bit (8 * j) v) :: u8) 7 then 0 # be_bytes (Suc j) v else be_bytes (Suc j) v)"
      then show ?thesis using asn1_uint64_loop_be_bytes [of "Suc j" v] by simp
    qed
  qed (simp add: der_unsigned_def)
qed

lemma hd_be_bytes: "be_bytes (Suc n) v = p \<Longrightarrow> hd p = ucast (drop_bit (8 * n) v)"
  by auto

lemma uint64_loop_Ok:
  assumes "asn1_uint64_loop (be_value p) d = Ok v" "p \<noteq> []" "hd p \<noteq> 0" "length p \<le> 8"
  shows "v = be_value (p @ d) \<and> length (p @ d) \<le> 8"
  using assms
proof (induction d arbitrary: p)
  case (Cons b d)
  have z: "drop_bit 56 (be_value p) = 0" and r: "asn1_uint64_loop (be_value (p @ [b])) d = Ok v"
    using Cons.prems(1) by (simp_all add: be_value_snoc split: if_splits)
  have "length p \<noteq> 8"
  proof
    assume l: "length p = 8"
    then have l7: "length p = Suc 7" by simp
    have "be_bytes (Suc 7) (be_value p) = p" using be_bytes_be_value [of p] unfolding l7 by simp
    then have "hd p = ucast (drop_bit (8 * 7) (be_value p))" by (rule hd_be_bytes)
    then show False using z Cons.prems by simp
  qed
  then show ?case using Cons.IH [OF r] Cons.prems by simp
qed simp


lemma der_unsigned_be_value:
  assumes "length p \<le> 8" "p \<noteq> []" "hd p \<noteq> 0"
  shows "der_unsigned (be_value p) = (if bit (hd p) 7 then 0 # p else p)"
proof -
  obtain j where j: "length p = Suc j" using assms(2) by (cases p) auto
  have p: "be_bytes (Suc j) (be_value p) = p" using be_bytes_be_value [OF assms(1)] j by simp
  then have hd: "hd p = ucast (drop_bit (8 * j) (be_value p))" by (auto dest: arg_cong [of _ _ hd])
  have "drop_bit (8 * Suc j) (be_value p) = 0" by (rule be_value_drop_bit) (simp add: j)
  moreover have "drop_bit (8 * j) (be_value p) \<noteq> 0" using hd assms(3) by auto
  ultimately have "byte_len (be_value p) = Suc j" by (rule byte_len_unique)
  moreover have "be_value p \<noteq> 0" using hd assms(3) by auto
  ultimately show ?thesis using p by (simp add: der_unsigned_def Let_def)
qed

lemma unsigned_unique:
  assumes "CBS_is_unsigned_asn1_integer data" "asn1_uint64_loop 0 data = Ok v"
  shows "data = der_unsigned v"
proof -
  obtain b d where data: "data = b # d" and b: "\<not> bit b 7"
    using assms(1)
    by (cases data) (auto simp: CBS_is_unsigned_asn1_integer_def CBS_is_valid_asn1_integer_def and_80 Let_def
        split: res.splits prod.splits if_splits)
  show ?thesis
  proof (cases "b = 0")
    case False
    have "asn1_uint64_loop (be_value [b]) d = Ok v" using assms(2) by (simp add: data be_value_def)
    from uint64_loop_Ok [OF this] have "v = be_value (b # d)" "length (b # d) \<le> 8" using False by simp_all
    then show ?thesis using der_unsigned_be_value [of "b # d"] False b by (simp add: data)
  next
    case True
    show ?thesis
    proof (cases d)
      case Nil
      then show ?thesis using assms(2) True by (simp add: data der_unsigned_def)
    next
      case (Cons c d')
      have c: "bit c 7"
        using assms(1) True by (auto simp: data Cons CBS_is_unsigned_asn1_integer_def CBS_is_valid_asn1_integer_def and_80
            split: if_splits)
      then have "c \<noteq> 0" by auto
      have "asn1_uint64_loop (be_value [c]) d' = Ok v" using assms(2) True by (simp add: data Cons be_value_def)
      from uint64_loop_Ok [OF this] have "v = be_value (c # d')" "length (c # d') \<le> 8" using \<open>c \<noteq> 0\<close> by simp_all
      then show ?thesis using der_unsigned_be_value [of "c # d'"] \<open>c \<noteq> 0\<close> c by (simp add: data True Cons)
    qed
  qed
qed

lemma int_tag: "valid_tag CBS_ASN1_INTEGER" "valid_tag CBS_ASN1_BOOLEAN" "valid_tag CBS_ASN1_OCTETSTRING"
  by (simp_all add: valid_tag_def CBS_ASN1_INTEGER_def CBS_ASN1_CONSTRUCTED_def CBS_ASN1_BOOLEAN_def
      CBS_ASN1_OCTETSTRING_def)

lemma der_unsigned_length: "length (der_unsigned v) \<le> 9"
proof (cases "v = 0")
  case False
  then show ?thesis by (rule der_unsigned_nonzero) simp
qed (simp add: der_unsigned_def)

lemma CBS_get_asn1_uint64_Ok:
  "CBS_get_asn1_uint64 s = (Ok v, rest) \<longleftrightarrow> s = der_element CBS_ASN1_INTEGER (der_unsigned v) @ rest"
proof
  assume "CBS_get_asn1_uint64 s = (Ok v, rest)"
  then obtain data where "CBS_get_asn1 CBS_ASN1_INTEGER s = (Ok data, rest)"
    "CBS_is_unsigned_asn1_integer data" "asn1_uint64_loop 0 data = Ok v"
    by (auto simp: CBS_get_asn1_uint64_def bnd_Ok_iff check_def split: if_splits)
  then show "s = der_element CBS_ASN1_INTEGER (der_unsigned v) @ rest"
    using unsigned_unique by (simp add: CBS_get_asn1_Ok)
next
  assume s: "s = der_element CBS_ASN1_INTEGER (der_unsigned v) @ rest"
  have "CBS_get_asn1 CBS_ASN1_INTEGER s = (Ok (der_unsigned v), rest)"
    unfolding s using der_unsigned_length [of v] int_tag(1) by (intro CBS_get_asn1_der_element) simp_all
  then show "CBS_get_asn1_uint64 s = (Ok v, rest)"
    by (simp add: CBS_get_asn1_uint64_def bnd_simps unsigned_valid)
qed

subsection \<open>Signed contents\<close>

text \<open>\<open>v\<close> is the bit pattern of a 64-bit two's complement value. The bytes above byte \<open>n\<close> can be left out
  when they and the top bit of byte \<open>n\<close> are all ones.\<close>

fun signed_top :: "u64 \<Rightarrow> nat \<Rightarrow> nat" where
  "signed_top v 0 = 0"
| "signed_top v (Suc n) = (if drop_bit (8 * n + 7) (NOT v) = 0 then signed_top v n else Suc n)"

definition der_signed :: "u64 \<Rightarrow> bytes" where
  "der_signed v = (if \<not> bit v 63 then der_unsigned v else be_bytes (Suc (signed_top v 7)) v)"

lemma sint_bit63: "0 \<le> sint (v :: u64) \<longleftrightarrow> \<not> bit v 63"
  using signed_take_bit_nonnegative_iff [of 63 "uint v"] by (simp add: sint_uint bit_uint_iff)

lemma signed_top_le: "signed_top v n \<le> n"
  by (induction n) auto

lemma signed_top_ones: "drop_bit (8 * n + 7) (NOT v) = 0 \<Longrightarrow> drop_bit (8 * signed_top v n + 7) (NOT v) = 0"
  by (induction n) auto

lemma signed_top_minimal:
  "signed_top v n = Suc m \<Longrightarrow> drop_bit (8 * m + 7) (NOT v) \<noteq> 0"
  by (induction n) (auto split: if_splits)

lemma be_bytes_append: "be_bytes (m + n) v = be_bytes m (drop_bit (8 * n) v) @ be_bytes n v"
  by (induction m) (simp_all add: drop_bit_drop_bit algebra_simps)

lemma be_bytes_ones:
  "drop_bit (8 * n) (NOT v) = 0 \<Longrightarrow> m + n \<le> 8 \<Longrightarrow> be_bytes m (drop_bit (8 * n) v) = replicate m 0xff"
proof (induction m)
  case (Suc m)
  have "ucast (drop_bit (8 * m) (drop_bit (8 * n) v)) = (0xff :: u8)"
  proof (rule bit_word_eqI)
    fix i assume i: "i < LENGTH(8)"
    then have "bit (drop_bit (8 * n) (NOT v)) (8 * m + i) \<longleftrightarrow> \<not> bit v (8 * n + (8 * m + i))"
      using Suc.prems(2) by (simp add: bit_simps)
    then have "bit v (8 * n + (8 * m + i))" using Suc.prems(1) by simp
    then show "bit (ucast (drop_bit (8 * m) (drop_bit (8 * n) v)) :: u8) i \<longleftrightarrow> bit (0xff :: u8) i"
      using i by (simp add: bit_simps bit_consts add.assoc add.left_commute)
  qed
  then show ?case using Suc by simp
qed simp


lemma be_value_Cons_0 [simp]: "be_value (0 # p) = be_value p"
  by (simp add: be_value_def)

lemma be_value_zeros: "be_value (replicate n 0 @ p) = be_value p"
  by (induction n) simp_all

lemma drop_bit_64 [simp]: "drop_bit 64 (v :: u64) = 0"
  by (rule bit_word_eqI) (auto simp: bit_simps dest: bit_imp_le_length)

lemma asn1_uint64_loop_short: "length data \<le> 8 \<Longrightarrow> asn1_uint64_loop 0 data = Ok (be_value data)"
  using asn1_uint64_loop_be_bytes [of "length data" "be_value data"] be_value_drop_bit [of data "length data"]
  by (simp add: be_bytes_be_value)

lemma be_value_der_unsigned: "length (der_unsigned v) \<le> 8 \<Longrightarrow> be_value (der_unsigned v) = v"
  using asn1_uint64_loop_short [of "der_unsigned v"] unsigned_valid(2) [of v] by simp

lemma der_unsigned_length_signed: "\<not> bit v 63 \<Longrightarrow> length (der_unsigned v) \<le> 8"
proof (cases "v = 0")
  case False
  assume "\<not> bit v 63"
  from False show ?thesis
  proof (rule der_unsigned_nonzero)
    fix j assume j: "j < 8" and d: "der_unsigned v =
      (if bit (ucast (drop_bit (8 * j) v) :: u8) 7 then 0 # be_bytes (Suc j) v else be_bytes (Suc j) v)"
    show ?thesis
    proof (cases "j = 7")
      case True
      then show ?thesis using \<open>\<not> bit v 63\<close> d by (simp add: bit_simps)
    qed (use j d in simp)
  qed
qed (simp add: der_unsigned_def)

lemma signed_top_last: "bit v 63 \<Longrightarrow> drop_bit (8 * signed_top v 7 + 7) (NOT v) = 0"
proof (rule signed_top_ones)
  assume "bit v 63"
  have "bit (drop_bit 63 (NOT v)) i \<longleftrightarrow> i = 0 \<and> \<not> bit v 63" for i
    by (cases "i = 0") (simp_all add: bit_simps)
  with \<open>bit v 63\<close> show "drop_bit (8 * 7 + 7) (NOT v) = 0"
    by (intro bit_word_eqI) simp
qed

lemma drop_bit_0_mono: "drop_bit m (w :: u64) = 0 \<Longrightarrow> m \<le> n \<Longrightarrow> drop_bit n w = 0"
  unfolding drop_bit_eq_0_iff by (erule less_le_trans) (rule power_increasing, simp_all)

lemma signed_top_unique:
  assumes "n \<le> m" "drop_bit (8 * n + 7) (NOT v) = 0" "n = 0 \<or> drop_bit (8 * (n - 1) + 7) (NOT v) \<noteq> 0"
  shows "signed_top v m = n"
  using assms(1)
proof (induction m)
  case (Suc m)
  show ?case
  proof (cases "n = Suc m")
    case False
    then have "drop_bit (8 * m + 7) (NOT v) = 0" using Suc.prems assms(2) drop_bit_0_mono by simp
    then show ?thesis using Suc False by simp
  next
    case True
    then show ?thesis using assms by simp
  qed
qed simp

lemma ones_below:
  fixes v :: u64
  assumes "ucast (drop_bit (8 * Suc m) v) = (0xff :: u8)" "bit v (8 * m + 7)" "drop_bit (8 * Suc m + 7) (NOT v) = 0"
  shows "drop_bit (8 * m + 7) (NOT v) = 0"
proof (rule bit_word_eqI)
  fix i assume "i < LENGTH(64)"
  consider "i = 0" | k where "i = Suc k" "k < 8" | k where "i = 8 + k"
  proof (cases i)
    case (Suc k)
    show ?thesis
    proof (cases "k < 8")
      case False
      then obtain l where "i = 8 + l" using Suc le_Suc_ex [of 8 i] by auto
      then show ?thesis by (rule that(3))
    qed (use Suc that(2) in blast)
  qed (use that(1) in blast)
  then show "bit (drop_bit (8 * m + 7) (NOT v)) i \<longleftrightarrow> bit (0 :: u64) i"
  proof cases
    case 1
    then show ?thesis using assms(2) by (simp add: bit_simps)
  next
    case (2 k)
    have "bit (ucast (drop_bit (8 * Suc m) v) :: u8) k" using 2 assms(1) by (simp add: bit_consts)
    then show ?thesis using 2 by (simp add: bit_simps ac_simps)
  next
    case (3 k)
    have "\<not> bit (drop_bit (8 * Suc m + 7) (NOT v)) k" using assms(3) by simp
    then show ?thesis using 3 by (simp add: bit_drop_bit_eq ac_simps)
  qed
qed

lemma signed_valid:
  assumes "bit v 63"
  shows "CBS_is_valid_asn1_integer (der_signed v) = Ok True"
proof -
  let ?n = "signed_top v 7"
  have ones: "drop_bit (8 * ?n + 7) (NOT v) = 0" by (rule signed_top_last [OF assms])
  have n: "?n \<le> 7" by (rule signed_top_le)
  have "bit (drop_bit (8 * ?n + 7) (NOT v)) 0 \<longleftrightarrow> \<not> bit v (8 * ?n + 7)"
    using n by (simp add: bit_simps)
  then have top: "bit (ucast (drop_bit (8 * ?n) v) :: u8) 7" unfolding ones by (simp add: bit_simps)
  then have nz: "ucast (drop_bit (8 * ?n) v) \<noteq> (0 :: u8)" by auto
  show ?thesis
  proof (cases ?n)
    case 0
    then show ?thesis using top assms by (simp add: der_signed_def CBS_is_valid_asn1_integer_def and_80)
  next
    case (Suc m)
    have "\<not> (ucast (drop_bit (8 * Suc m) v) = (0xff :: u8) \<and> bit (ucast (drop_bit (8 * m) v) :: u8) 7)"
      using ones_below [of m v] ones signed_top_minimal [OF Suc] unfolding Suc by (auto simp: bit_simps)
    then show ?thesis
      using top nz assms unfolding der_signed_def Suc
      by (auto simp: CBS_is_valid_asn1_integer_def and_80 Let_def)
  qed
qed

lemma signed_image:
  assumes "bit v 63"
  shows "replicate (8 - length (der_signed v)) 0xff @ der_signed v = be_bytes 8 v" "length (der_signed v) \<le> 8"
proof -
  let ?n = "signed_top v 7"
  have n: "?n \<le> 7" by (rule signed_top_le)
  then show "length (der_signed v) \<le> 8" using assms by (simp add: der_signed_def)
  have "drop_bit (8 * Suc ?n) (NOT v) = 0" using signed_top_last [OF assms] drop_bit_0_mono by simp
  then have "be_bytes (7 - ?n) (drop_bit (8 * Suc ?n) v) = replicate (7 - ?n) 0xff"
    using n by (intro be_bytes_ones) simp_all
  then have "be_bytes ((7 - ?n) + Suc ?n) v = replicate (7 - ?n) 0xff @ be_bytes (Suc ?n) v"
    unfolding be_bytes_append by simp
  moreover have "(7 - ?n) + Suc ?n = 8" using n by simp
  ultimately show "replicate (8 - length (der_signed v)) 0xff @ der_signed v = be_bytes 8 v"
    using assms by (simp add: der_signed_def del: be_bytes.simps)
qed

subsection \<open>Reading signed values\<close>

lemma valid_integer_cases:
  assumes "CBS_is_valid_asn1_integer data = Ok neg"
  obtains b d where "data = b # d" "neg = bit b 7"
    "\<And>c e. d = c # e \<Longrightarrow> \<not> (b = 0 \<and> \<not> bit c 7) \<and> \<not> (b = 0xff \<and> bit c 7)"
proof (cases data)
  case (Cons b d)
  show ?thesis
    using assms Cons by (intro that [of b d]) (auto simp: CBS_is_valid_asn1_integer_def and_80 Let_def
        split: res.splits prod.splits if_splits)
qed (use assms in \<open>simp add: CBS_is_valid_asn1_integer_def\<close>)

lemma be_bytes_all_ones: "be_bytes m x = replicate m 0xff \<Longrightarrow> i < 8 * m \<Longrightarrow> bit x i"
proof (induction m arbitrary: i)
  case (Suc m)
  show ?case
  proof (cases "i < 8 * m")
    case False
    then obtain k where k: "i = 8 * m + k" "k < 8" using Suc.prems(2) by (metis add_diff_inverse_nat add_less_cancel_left mult_Suc_right add.commute)
    have "ucast (drop_bit (8 * m) x) = (0xff :: u8)" using Suc.prems(1) by simp
    then have "bit (ucast (drop_bit (8 * m) x) :: u8) k" using k(2) by (simp add: bit_consts)
    then show ?thesis using k by (simp add: bit_simps)
  qed (use Suc in simp)
qed simp

lemma der_signed_unique:
  assumes "length data \<le> 8" "CBS_is_valid_asn1_integer data = Ok True"
    and v: "v = be_value (replicate (8 - length data) 0xff @ data)"
  shows "data = der_signed v \<and> bit v 63"
proof -
  obtain b d where data: "data = b # d" "bit b 7" and min: "\<And>c e. d = c # e \<Longrightarrow> \<not> (b = 0xff \<and> bit c 7)"
    using valid_integer_cases [OF assms(2)] by metis
  define n where "n = length d"
  have n: "length data = Suc n" "n \<le> 7" using data assms(1) by (simp_all add: n_def)
  have img: "be_bytes 8 v = replicate (7 - n) 0xff @ data"
    unfolding v using be_bytes_be_value [of "replicate (8 - length data) 0xff @ data"] n
    by (simp del: be_bytes.simps)
  have "(7 - n) + Suc n = 8" using n by simp
  then have split: "be_bytes (7 - n) (drop_bit (8 * Suc n) v) @ be_bytes (Suc n) v = replicate (7 - n) 0xff @ data"
    using img be_bytes_append [of "7 - n" "Suc n" v] by simp
  then have d: "be_bytes (Suc n) v = data" and ff: "be_bytes (7 - n) (drop_bit (8 * Suc n) v) = replicate (7 - n) 0xff"
    using n by (simp_all del: be_bytes.simps add: append_eq_append_conv)
  have top: "ucast (drop_bit (8 * n) v) = b" and dn: "be_bytes n v = d" using d data by simp_all
  have ones: "drop_bit (8 * n + 7) (NOT v) = 0"
  proof (rule bit_word_eqI)
    fix i assume "i < LENGTH(64)"
    show "bit (drop_bit (8 * n + 7) (NOT v)) i \<longleftrightarrow> bit (0 :: u64) i"
    proof (cases i)
      case 0
      have "bit (ucast (drop_bit (8 * n) v) :: u8) 7" using data(2) top by simp
      then show ?thesis using 0 by (simp add: bit_simps)
    next
      case (Suc k)
      show ?thesis
      proof (cases "k < 8 * (7 - n)")
        case True
        have "bit (drop_bit (8 * Suc n) v) k" by (rule be_bytes_all_ones [OF ff True])
        then show ?thesis using Suc by (simp add: bit_simps ac_simps)
      next
        case False
        then have "56 \<le> 8 * n + k" using n(2) by arith
        then show ?thesis using Suc by (simp add: bit_simps)
      qed
    qed
  qed
  have "drop_bit 63 (NOT v) = 0" using n(2) by (intro drop_bit_0_mono [OF ones]) simp
  then have "\<not> bit (drop_bit 63 (NOT v)) 0" by simp
  then have b63: "bit v 63" by (simp add: bit_simps)
  have "n = 0 \<or> drop_bit (8 * (n - 1) + 7) (NOT v) \<noteq> 0"
  proof (rule ccontr)
    assume h: "\<not> ?thesis"
    then obtain m where m: "n = Suc m" "drop_bit (8 * m + 7) (NOT v) = 0" by (cases n) auto
    obtain c e where d': "d = c # e" "c = ucast (drop_bit (8 * m) v)" using dn m(1) by auto
    have "bit v (8 * m + 7 + j)" if "8 * m + 7 + j < 64" for j
    proof -
      have "\<not> bit (drop_bit (8 * m + 7) (NOT v)) j" using m(2) by simp
      then show ?thesis using that by (simp add: bit_simps)
    qed
    note bits = this
    have "bit c 7" using bits [of 0] m(1) n(2) by (simp add: d'(2) bit_simps)
    moreover have "b = 0xff"
    proof (rule bit_word_eqI)
      fix i assume "i < LENGTH(8)"
      then show "bit b i \<longleftrightarrow> bit (0xff :: u8) i"
        using bits [of "Suc i"] m(1) n(2) unfolding top [symmetric] by (simp add: bit_simps bit_consts ac_simps)
    qed
    ultimately show False using min [OF d'(1)] by simp
  qed
  then have "signed_top v 7 = n" using n(2) ones by (intro signed_top_unique)
  then show ?thesis using d b63 by (simp add: der_signed_def del: be_bytes.simps)
qed

lemma be_value_signed:
  "length (der_signed v) \<le> 8"
  "CBS_is_valid_asn1_integer (der_signed v) = Ok (bit v 63)"
  "be_value (replicate (8 - length (der_signed v)) (if bit v 63 then 0xff else 0) @ der_signed v) = v"
proof -
  have "length (der_signed v) \<le> 8 \<and> CBS_is_valid_asn1_integer (der_signed v) = Ok (bit v 63) \<and>
    be_value (replicate (8 - length (der_signed v)) (if bit v 63 then 0xff else 0) @ der_signed v) = v"
  proof (cases "bit v 63")
    case True
    then show ?thesis
      using signed_valid signed_image [OF True] be_value_be_bytes [of 8 v] by (simp del: be_bytes.simps)
  next
    case False
    then have l: "length (der_unsigned v) \<le> 8" by (rule der_unsigned_length_signed)
    then show ?thesis
      using False unsigned_valid(1) [of v]
      by (simp add: der_signed_def be_value_zeros be_value_der_unsigned CBS_is_unsigned_asn1_integer_def)
  qed
  then show "length (der_signed v) \<le> 8"
    "CBS_is_valid_asn1_integer (der_signed v) = Ok (bit v 63)"
    "be_value (replicate (8 - length (der_signed v)) (if bit v 63 then 0xff else 0) @ der_signed v) = v"
    by auto
qed

lemma der_signed_unique_nonneg:
  assumes "length data \<le> 8" "CBS_is_valid_asn1_integer data = Ok False"
  shows "data = der_signed (be_value data) \<and> \<not> bit (be_value data) 63"
proof -
  have data: "data = der_unsigned (be_value data)"
    using assms asn1_uint64_loop_short by (intro unsigned_unique) (simp_all add: CBS_is_unsigned_asn1_integer_def)
  have "\<not> bit (be_value data) 63"
  proof
    assume b: "bit (be_value data) 63"
    then have l: "length data = 8" using bit_be_value [OF b] assms(1) by simp
    obtain c d where c: "data = c # d" "\<not> bit c 7" using valid_integer_cases [OF assms(2)] by metis
    have "be_bytes (Suc 7) (be_value data) = data"
      using be_bytes_be_value [OF assms(1)] unfolding l by simp
    then have "hd data = ucast (drop_bit (8 * 7) (be_value data))" by (rule hd_be_bytes)
    then have "bit (hd data) 7 \<longleftrightarrow> bit (be_value data) 63" by (simp add: bit_simps)
    then show False using b c(2) unfolding c(1) by simp
  qed
  then show ?thesis using data by (simp add: der_signed_def)
qed

lemma CBS_get_asn1_int64_Ok:
  "CBS_get_asn1_int64 s = (Ok v, rest) \<longleftrightarrow> s = der_element CBS_ASN1_INTEGER (der_signed v) @ rest"
proof
  assume "CBS_get_asn1_int64 s = (Ok v, rest)"
  then obtain data s1 where d: "CBS_get_asn1 CBS_ASN1_INTEGER s = (Ok data, s1)"
    and c: "(case CBS_is_valid_asn1_integer data of
         Ok neg \<Rightarrow>
           if length data > 8 then (Fail, s1)
           else (Ok (be_value (replicate (8 - length data) (if neg then 0xff else 0) @ data)), s1)
       | Fail \<Rightarrow> (Fail, s1) | Undef \<Rightarrow> (Undef, s1)) = (Ok v, rest)"
    unfolding CBS_get_asn1_int64_def bnd_Ok_iff by blast
  obtain neg where neg: "CBS_is_valid_asn1_integer data = Ok neg"
    using c by (cases "CBS_is_valid_asn1_integer data") simp_all
  have data: "CBS_get_asn1 CBS_ASN1_INTEGER s = (Ok data, rest)" "CBS_is_valid_asn1_integer data = Ok neg"
    "length data \<le> 8" "v = be_value (replicate (8 - length data) (if neg then 0xff else 0) @ data)"
    using c d neg by (simp_all split: if_split_asm)
  have "data = der_signed v"
    using der_signed_unique [OF data(3), of v] der_signed_unique_nonneg [OF data(3)] data(2,4)
    by (cases neg) (simp_all add: be_value_zeros)
  then show "s = der_element CBS_ASN1_INTEGER (der_signed v) @ rest" using data(1) by (simp add: CBS_get_asn1_Ok)
next
  assume s: "s = der_element CBS_ASN1_INTEGER (der_signed v) @ rest"
  have "CBS_get_asn1 CBS_ASN1_INTEGER s = (Ok (der_signed v), rest)"
    unfolding s using be_value_signed(1) [of v] int_tag(1) by (intro CBS_get_asn1_der_element) simp_all
  then show "CBS_get_asn1_int64 s = (Ok v, rest)"
    by (simp add: CBS_get_asn1_int64_def bnd_simps be_value_signed not_less)
qed

interpretation uint64_codec:
  bytes_codec "\<lambda>v. der_element CBS_ASN1_INTEGER (der_unsigned v)" CBS_get_asn1_uint64 "\<lambda>_. True"
  by unfold_locales (simp add: CBS_get_asn1_uint64_Ok)

interpretation int64_codec:
  bytes_codec "\<lambda>v. der_element CBS_ASN1_INTEGER (der_signed v)" CBS_get_asn1_int64 "\<lambda>_. True"
  by unfold_locales (simp add: CBS_get_asn1_int64_Ok)

end
