(* ===== verification/Cbb.thy ===== *)
theory Cbb
  imports Der
begin

text \<open>
  \<^verbatim>\<open>BoringSSL-GRPC/src/crypto/bytestring/cbb.c\<close>: the byte-string builder (CBB). A top-level CBB owns a
  buffer; a child CBB writes to the same buffer and has a length prefix pending, which is filled in
  when the parent is flushed. In the code every CBB points to at most one open child, so the CBBs on one
  buffer form a chain. The model keeps that chain, outermost child first, beside the buffer, and a
  \<^verbatim>\<open>CBB *\<close> is the depth in the chain: 0 is the top-level CBB and \<open>d + 1\<close> the open child of the CBB at
  depth \<open>d\<close>. A depth beyond the chain is a child that was flushed or discarded; the code has set its
  \<^verbatim>\<open>base\<close> pointer to NULL.
\<close>

subsection \<open>State\<close>

text \<open>\<^verbatim>\<open>struct cbb_child_st\<close> and the base arm of \<^verbatim>\<open>struct cbb_st\<close>. \<open>buf\<close> holds the \<open>cap\<close> bytes of the
  buffer; \<open>mallocs\<close> counts the allocations made.\<close>

record cbb_child =
  ch_offset :: nat
  pending_len_len :: nat
  pending_is_asn1 :: bool

record cbb =
  buf :: bytes
  len :: nat
  cap :: nat
  can_resize :: bool
  error :: bool
  chain :: "cbb_child list"
  mallocs :: nat

definition CBB_zero :: cbb where
  "CBB_zero = \<lparr>buf = [], len = 0, cap = 0, can_resize = False, error = False, chain = [], mallocs = 0\<rparr>"

definition cbb_init :: "bytes \<Rightarrow> nat \<Rightarrow> bool \<Rightarrow> cbb \<Rightarrow> cbb" where
  "cbb_init b n resize s =
     s\<lparr>chain := [], buf := b, len := 0, cap := n, can_resize := resize, error := False\<rparr>"

text \<open>\<^verbatim>\<open>OPENSSL_malloc(0)\<close> may return NULL; the code accepts that.\<close>

definition CBB_init :: "allocator \<Rightarrow> nat \<Rightarrow> cbb res" where
  "CBB_init A initial_capacity =
     (case c_malloc A 0 initial_capacity of
        None \<Rightarrow> if initial_capacity > 0 then Fail
                else Ok (cbb_init [] initial_capacity True (CBB_zero\<lparr>mallocs := 1\<rparr>))
      | Some b \<Rightarrow> Ok (cbb_init b initial_capacity True (CBB_zero\<lparr>mallocs := 1\<rparr>)))"

definition CBB_init_fixed :: "bytes \<Rightarrow> cbb res" where
  "CBB_init_fixed b = Ok (cbb_init b (length b) False CBB_zero)"

text \<open>Children do not own the buffer; the code asserts that only a top-level CBB is cleaned up.\<close>

definition CBB_cleanup :: "nat \<Rightarrow> (cbb, unit) cfun" where
  "CBB_cleanup d s = (if d \<noteq> 0 then (Undef, s) else (Ok (), if can_resize s then s\<lparr>buf := []\<rparr> else s))"

text \<open>The result is the offset of the space handed out (\<^verbatim>\<open>*out - base->buf\<close>).\<close>

definition cbb_buffer_reserve :: "allocator \<Rightarrow> nat \<Rightarrow> (cbb, nat) cfun" where
  "cbb_buffer_reserve A n s =
     (let newlen = size_add (len s) n
      in if newlen < len s then (Fail, s\<lparr>error := True\<rparr>)
         else if newlen > cap s then
           if \<not> can_resize s then (Fail, s\<lparr>error := True\<rparr>)
           else
             let newcap = size_mul (cap s) 2;
                 newcap = (if newcap < cap s \<or> newcap < newlen then newlen else newcap)
             in case c_realloc A (mallocs s) (buf s) newcap of
                  None \<Rightarrow> (Fail, s\<lparr>error := True, mallocs := Suc (mallocs s)\<rparr>)
                | Some newbuf \<Rightarrow>
                    (Ok (len s), s\<lparr>buf := newbuf, cap := newcap, mallocs := Suc (mallocs s)\<rparr>)
         else (Ok (len s), s))"

definition cbb_buffer_add :: "allocator \<Rightarrow> nat \<Rightarrow> (cbb, nat) cfun" where
  "cbb_buffer_add A n =
     bnd (cbb_buffer_reserve A n) (\<lambda>out s. (Ok out, s\<lparr>len := size_add (len s) n\<rparr>))"

text \<open>Stores into the buffer; outside it they are undefined.\<close>

definition buf_set :: "nat \<Rightarrow> u8 \<Rightarrow> (cbb, unit) cfun" where
  "buf_set i b s = (if i < length (buf s) then (Ok (), s\<lparr>buf := (buf s)[i := b]\<rparr>) else (Undef, s))"

definition buf_write :: "nat \<Rightarrow> bytes \<Rightarrow> (cbb, unit) cfun" where
  "buf_write off bs s =
     (if off + length bs \<le> length (buf s)
      then (Ok (), s\<lparr>buf := take off (buf s) @ bs @ drop (off + length bs) (buf s)\<rparr>)
      else (Undef, s))"

definition buf_move :: "nat \<Rightarrow> nat \<Rightarrow> nat \<Rightarrow> (cbb, unit) cfun" where
  "buf_move dst src n s =
     (if src + n \<le> length (buf s) then buf_write dst (take n (drop src (buf s))) s else (Undef, s))"

text \<open>\<open>cbb_on_error d\<close> is \<^verbatim>\<open>cbb_on_error(cbb); return 0;\<close>. For a CBB without a base it is a null pointer
  access. \<open>on_fail d m\<close> runs it where \<open>m\<close> returns 0.\<close>

definition cbb_on_error :: "nat \<Rightarrow> (cbb, 'a) cfun" where
  "cbb_on_error d s =
     (if d > length (chain s) then (Undef, s) else (Fail, s\<lparr>error := True, chain := take d (chain s)\<rparr>))"

definition on_fail :: "nat \<Rightarrow> (cbb, 'a) cfun \<Rightarrow> (cbb, 'a) cfun" where
  "on_fail d m s = (case m s of (Fail, s') \<Rightarrow> cbb_on_error d s' | r \<Rightarrow> r)"

subsection \<open>Flushing\<close>

text \<open>The byte loops that store \<open>v\<close> big-endian into \<open>n\<close> bytes at \<open>off\<close>, last byte first; the result is
  what is left of \<open>v\<close>.\<close>

fun store_be :: "nat \<Rightarrow> nat \<Rightarrow> u64 \<Rightarrow> (cbb, u64) cfun" where
  "store_be off 0 v = ret v"
| "store_be off (Suc i) v = bnd (buf_set (off + i) (ucast v)) (\<lambda>_. store_be off i (drop_bit 8 v))"

text \<open>The number of length octets and the first of them.\<close>

definition asn1_len_len :: "nat \<Rightarrow> (nat \<times> u8) option" where
  "asn1_len_len n =
     (if n > 0xfffffffe then None
      else if n > 0xffffff then Some (5, 0x80 OR 4)
      else if n > 0xffff then Some (4, 0x80 OR 3)
      else if n > 0xff then Some (3, 0x80 OR 2)
      else if n > 0x7f then Some (2, 0x80 OR 1)
      else Some (1, of_nat n))"

text \<open>What \<open>CBB_flush\<close> does to the open child of the CBB at depth \<open>d\<close>, once that child is flushed
  itself. The first part handles an ASN.1 child and gives the offset, width and value of the length
  octets still to be stored.\<close>

definition flush_asn1_prefix :: "allocator \<Rightarrow> cbb_child \<Rightarrow> (cbb, nat \<times> nat \<times> u64) cfun" where
  "flush_asn1_prefix A child s =
     (let child_start = size_add (ch_offset child) (pending_len_len child);
          n = len s - child_start
      in if pending_is_asn1 child then
           if pending_len_len child \<noteq> 1 then (Undef, s)
           else (case asn1_len_len n of
              None \<Rightarrow> (Fail, s)
            | Some (len_len, initial_length_byte) \<Rightarrow>
                bnd (if len_len \<noteq> 1
                     then bnd (cbb_buffer_add A (len_len - 1)) (\<lambda>_.
                          buf_move (child_start + (len_len - 1)) child_start n)
                     else ret ()) (\<lambda>_.
                bnd (buf_set (ch_offset child) initial_length_byte) (\<lambda>_.
                ret (ch_offset child + 1, len_len - 1, if len_len = 1 then 0 else of_nat n))) s)
         else (Ok (ch_offset child, pending_len_len child, of_nat n), s))"

definition flush_child :: "allocator \<Rightarrow> cbb_child \<Rightarrow> (cbb, unit) cfun" where
  "flush_child A child s =
     (let child_start = size_add (ch_offset child) (pending_len_len child)
      in if child_start < ch_offset child \<or> len s < child_start then (Fail, s)
         else bnd (flush_asn1_prefix A child) (\<lambda>(off, n, v).
              bnd (store_be off n v) (\<lambda>rest.
              check (rest = 0))) s)"

function CBB_flush :: "allocator \<Rightarrow> nat \<Rightarrow> (cbb, unit) cfun" where
  "CBB_flush A d s =
     (if d > length (chain s) then (Fail, s)
      else if error s then (Fail, s)
      else if d = length (chain s) then (Ok (), s)
      else (case CBB_flush A (Suc d) s of
              (Ok _, s1) \<Rightarrow>
                bnd (on_fail d (flush_child A (chain s ! d))) (\<lambda>_ s2. (Ok (), s2\<lparr>chain := take d (chain s2)\<rparr>)) s1
            | (Fail, s1) \<Rightarrow> cbb_on_error d s1
            | (Undef, s1) \<Rightarrow> (Undef, s1)))"
  by pat_completeness auto


termination
  by (relation "measure (\<lambda>(A, d, s). length (chain s) - d)") auto

declare CBB_flush.simps [simp del]

text \<open>\<open>has_out\<close> says whether both output pointers were given.\<close>

definition CBB_finish :: "allocator \<Rightarrow> nat \<Rightarrow> bool \<Rightarrow> (cbb, bytes) cfun" where
  "CBB_finish A d has_out s =
     (if d \<noteq> 0 then (Fail, s)
      else bnd (CBB_flush A d) (\<lambda>_ s.
             if can_resize s \<and> \<not> has_out then (Fail, s)
             else bnd (\<lambda>s'. CBB_cleanup d (s'\<lparr>buf := []\<rparr>)) (\<lambda>_. ret (take (len s) (buf s))) s) s)"

definition child_of :: "nat \<Rightarrow> cbb \<Rightarrow> cbb_child" where
  "child_of d s = chain s ! (d - 1)"

text \<open>The offset of the data, and its length.\<close>

definition CBB_data :: "nat \<Rightarrow> (cbb, nat) cfun" where
  "CBB_data d s =
     (if d \<noteq> length (chain s) then (Undef, s)
      else if d > 0 then (Ok (ch_offset (child_of d s) + pending_len_len (child_of d s)), s)
      else (Ok 0, s))"

definition CBB_len :: "nat \<Rightarrow> (cbb, nat) cfun" where
  "CBB_len d s =
     (if d \<noteq> length (chain s) then (Undef, s)
      else if d > 0 then
        (if size_add (ch_offset (child_of d s)) (pending_len_len (child_of d s)) \<le> len s
         then (Ok (len s - ch_offset (child_of d s) - pending_len_len (child_of d s)), s)
         else (Undef, s))
      else (Ok (len s), s))"

subsection \<open>Children\<close>

definition cbb_add_child :: "allocator \<Rightarrow> nat \<Rightarrow> nat \<Rightarrow> bool \<Rightarrow> (cbb, unit) cfun" where
  "cbb_add_child A d len_len is_asn1 s =
     (if d \<noteq> length (chain s) \<or> is_asn1 \<and> len_len \<noteq> 1 then (Undef, s)
      else let offset = len s
           in bnd (cbb_buffer_add A len_len) (\<lambda>prefix_bytes.
              bnd (buf_write prefix_bytes (replicate len_len 0)) (\<lambda>_ s.
              (Ok (), s\<lparr>chain := chain s @ [\<lparr>ch_offset = offset, pending_len_len = len_len,
                                            pending_is_asn1 = is_asn1\<rparr>]\<rparr>))) s)"

definition cbb_add_length_prefixed :: "allocator \<Rightarrow> nat \<Rightarrow> nat \<Rightarrow> (cbb, unit) cfun" where
  "cbb_add_length_prefixed A d len_len =
     bnd (CBB_flush A d) (\<lambda>_. cbb_add_child A d len_len False)"

definition CBB_add_u8_length_prefixed :: "allocator \<Rightarrow> nat \<Rightarrow> (cbb, unit) cfun" where
  "CBB_add_u8_length_prefixed A d = cbb_add_length_prefixed A d 1"

definition CBB_add_u16_length_prefixed :: "allocator \<Rightarrow> nat \<Rightarrow> (cbb, unit) cfun" where
  "CBB_add_u16_length_prefixed A d = cbb_add_length_prefixed A d 2"

definition CBB_add_u24_length_prefixed :: "allocator \<Rightarrow> nat \<Rightarrow> (cbb, unit) cfun" where
  "CBB_add_u24_length_prefixed A d = cbb_add_length_prefixed A d 3"

text \<open>The result of \<open>CBB_add_space\<close> and \<open>CBB_reserve\<close> is the offset of the space.\<close>

definition CBB_add_space :: "allocator \<Rightarrow> nat \<Rightarrow> nat \<Rightarrow> (cbb, nat) cfun" where
  "CBB_add_space A d n = bnd (CBB_flush A d) (\<lambda>_. cbb_buffer_add A n)"

definition CBB_reserve :: "allocator \<Rightarrow> nat \<Rightarrow> nat \<Rightarrow> (cbb, nat) cfun" where
  "CBB_reserve A d n = bnd (CBB_flush A d) (\<lambda>_. cbb_buffer_reserve A n)"

definition CBB_did_write :: "nat \<Rightarrow> nat \<Rightarrow> (cbb, unit) cfun" where
  "CBB_did_write d n s =
     (if d > length (chain s) then (Undef, s)
      else let newlen = size_add (len s) n
           in if d \<noteq> length (chain s) \<or> newlen < len s \<or> newlen > cap s then (Fail, s)
              else (Ok (), s\<lparr>len := newlen\<rparr>))"

definition CBB_add_bytes :: "allocator \<Rightarrow> nat \<Rightarrow> bytes \<Rightarrow> (cbb, unit) cfun" where
  "CBB_add_bytes A d data = bnd (CBB_add_space A d (length data)) (\<lambda>out. buf_write out data)"

definition CBB_add_zeros :: "allocator \<Rightarrow> nat \<Rightarrow> nat \<Rightarrow> (cbb, unit) cfun" where
  "CBB_add_zeros A d n = bnd (CBB_add_space A d n) (\<lambda>out. buf_write out (replicate n 0))"

text \<open>Where the code clears the pointer to the buffer in the child only, and leaves the children of the child as they
  are (to use them is an error of the caller), here all of them are detached at once.\<close>

definition CBB_discard_child :: "nat \<Rightarrow> cbb \<Rightarrow> cbb" where
  "CBB_discard_child d s =
     (if d \<ge> length (chain s) then s else s\<lparr>len := ch_offset (chain s ! d), chain := take d (chain s)\<rparr>)"

subsection \<open>Integers\<close>

definition cbb_add_u :: "allocator \<Rightarrow> nat \<Rightarrow> u64 \<Rightarrow> nat \<Rightarrow> (cbb, unit) cfun" where
  "cbb_add_u A d v len_len =
     bnd (CBB_add_space A d len_len) (\<lambda>buf.
     bnd (store_be buf len_len v) (\<lambda>rest.
     if rest \<noteq> 0 then cbb_on_error d else ret ()))"

definition CBB_add_u8 :: "allocator \<Rightarrow> nat \<Rightarrow> u8 \<Rightarrow> (cbb, unit) cfun" where
  "CBB_add_u8 A d v = cbb_add_u A d (ucast v) 1"

definition CBB_add_u16 :: "allocator \<Rightarrow> nat \<Rightarrow> u16 \<Rightarrow> (cbb, unit) cfun" where
  "CBB_add_u16 A d v = cbb_add_u A d (ucast v) 2"

definition CBB_add_u16le :: "allocator \<Rightarrow> nat \<Rightarrow> u16 \<Rightarrow> (cbb, unit) cfun" where
  "CBB_add_u16le A d v = CBB_add_u16 A d (CRYPTO_bswap2 v)"

definition CBB_add_u24 :: "allocator \<Rightarrow> nat \<Rightarrow> u32 \<Rightarrow> (cbb, unit) cfun" where
  "CBB_add_u24 A d v = cbb_add_u A d (ucast v) 3"

definition CBB_add_u32 :: "allocator \<Rightarrow> nat \<Rightarrow> u32 \<Rightarrow> (cbb, unit) cfun" where
  "CBB_add_u32 A d v = cbb_add_u A d (ucast v) 4"

definition CBB_add_u32le :: "allocator \<Rightarrow> nat \<Rightarrow> u32 \<Rightarrow> (cbb, unit) cfun" where
  "CBB_add_u32le A d v = CBB_add_u32 A d (CRYPTO_bswap4 v)"

definition CBB_add_u64 :: "allocator \<Rightarrow> nat \<Rightarrow> u64 \<Rightarrow> (cbb, unit) cfun" where
  "CBB_add_u64 A d v = cbb_add_u A d v 8"

definition CBB_add_u64le :: "allocator \<Rightarrow> nat \<Rightarrow> u64 \<Rightarrow> (cbb, unit) cfun" where
  "CBB_add_u64le A d v = CBB_add_u64 A d (CRYPTO_bswap8 v)"

subsection \<open>Base-128 integers and ASN.1 elements\<close>

text \<open>The loop that counts the base-128 digits.\<close>

function base128_count :: "u64 \<Rightarrow> nat" where
  "base128_count copy = (if copy > 0 then Suc (base128_count (drop_bit 7 copy)) else 0)"
  by pat_completeness auto
termination
proof (relation "measure unat")
  fix v :: u64
  assume "v > 0"
  then show "(drop_bit 7 v, v) \<in> measure unat" using drop_bit_less [of v 7] by (simp add: word_neq_0_conv)
qed simp

declare base128_count.simps [simp del]

fun add_base128_loop :: "allocator \<Rightarrow> nat \<Rightarrow> u64 \<Rightarrow> nat \<Rightarrow> (cbb, unit) cfun" where
  "add_base128_loop A d v 0 = ret ()"
| "add_base128_loop A d v (Suc i) =
     (let byte = ucast (drop_bit (7 * i) v AND 0x7f);
          byte = (if i \<noteq> 0 then byte OR 0x80 else byte)
      in bnd (CBB_add_u8 A d byte) (\<lambda>_. add_base128_loop A d v i))"

definition add_base128_integer :: "allocator \<Rightarrow> nat \<Rightarrow> u64 \<Rightarrow> (cbb, unit) cfun" where
  "add_base128_integer A d v =
     (let len_len = base128_count v; len_len = (if len_len = 0 then 1 else len_len)
      in add_base128_loop A d v len_len)"

definition CBB_add_asn1 :: "allocator \<Rightarrow> nat \<Rightarrow> asn1_tag \<Rightarrow> (cbb, unit) cfun" where
  "CBB_add_asn1 A d tag =
     bnd (CBB_flush A d) (\<lambda>_.
     let tag_bits = ucast (drop_bit 24 tag) AND 0xe0;
         tag_number = tag AND CBS_ASN1_TAG_NUMBER_MASK
     in bnd (if tag_number \<ge> 0x1f
             then bnd (CBB_add_u8 A d (tag_bits OR 0x1f)) (\<lambda>_. add_base128_integer A d (ucast tag_number))
             else CBB_add_u8 A d (tag_bits OR ucast tag_number)) (\<lambda>_.
        cbb_add_child A d 1 True))"

text \<open>The byte loop of \<open>CBB_add_asn1_uint64_with_tag\<close>; \<open>j\<close> bytes are left and the child is at depth \<open>h\<close>.\<close>

fun add_uint64_loop :: "allocator \<Rightarrow> nat \<Rightarrow> u64 \<Rightarrow> nat \<Rightarrow> bool \<Rightarrow> (cbb, bool) cfun" where
  "add_uint64_loop A h v 0 started = ret started"
| "add_uint64_loop A h v (Suc j) started =
     (let byte = ucast (drop_bit (8 * j) v)
      in if \<not> started \<and> byte = 0 then add_uint64_loop A h v j started
         else bnd (if \<not> started \<and> byte AND 0x80 \<noteq> 0 then CBB_add_u8 A h 0 else ret ()) (\<lambda>_.
              bnd (CBB_add_u8 A h byte) (\<lambda>_. add_uint64_loop A h v j True)))"

definition CBB_add_asn1_uint64_with_tag :: "allocator \<Rightarrow> nat \<Rightarrow> u64 \<Rightarrow> asn1_tag \<Rightarrow> (cbb, unit) cfun" where
  "CBB_add_asn1_uint64_with_tag A d v tag =
     bnd (on_fail d
       (bnd (CBB_add_asn1 A d tag) (\<lambda>_.
        bnd (add_uint64_loop A (d + 1) v 8 False) (\<lambda>started.
        if \<not> started then CBB_add_u8 A (d + 1) 0 else ret ())))) (\<lambda>_.
     CBB_flush A d)"

definition CBB_add_asn1_uint64 :: "allocator \<Rightarrow> nat \<Rightarrow> u64 \<Rightarrow> (cbb, unit) cfun" where
  "CBB_add_asn1_uint64 A d v = CBB_add_asn1_uint64_with_tag A d v CBS_ASN1_INTEGER"

text \<open>Byte \<open>i\<close> of the little-endian image of the value.\<close>

definition le_byte :: "u64 \<Rightarrow> nat \<Rightarrow> u8" where
  "le_byte v i = ucast (drop_bit (8 * i) v)"

fun int64_start :: "u64 \<Rightarrow> nat \<Rightarrow> nat" where
  "int64_start v 0 = 0"
| "int64_start v (Suc i) =
     (if le_byte v (Suc i) = 0xff \<and> le_byte v i AND 0x80 \<noteq> 0 then int64_start v i else Suc i)"

fun add_int64_loop :: "allocator \<Rightarrow> nat \<Rightarrow> u64 \<Rightarrow> nat \<Rightarrow> (cbb, unit) cfun" where
  "add_int64_loop A h v 0 = ret ()"
| "add_int64_loop A h v (Suc i) = bnd (CBB_add_u8 A h (le_byte v i)) (\<lambda>_. add_int64_loop A h v i)"

text \<open>\<open>v\<close> is the bit pattern of the \<^verbatim>\<open>int64_t\<close>.\<close>

definition CBB_add_asn1_int64_with_tag :: "allocator \<Rightarrow> nat \<Rightarrow> u64 \<Rightarrow> asn1_tag \<Rightarrow> (cbb, unit) cfun" where
  "CBB_add_asn1_int64_with_tag A d v tag =
     (if sint v \<ge> 0 then CBB_add_asn1_uint64_with_tag A d v tag
      else bnd (on_fail d
             (bnd (CBB_add_asn1 A d tag) (\<lambda>_. add_int64_loop A (d + 1) v (int64_start v 7 + 1)))) (\<lambda>_.
           CBB_flush A d))"

definition CBB_add_asn1_int64 :: "allocator \<Rightarrow> nat \<Rightarrow> u64 \<Rightarrow> (cbb, unit) cfun" where
  "CBB_add_asn1_int64 A d v = CBB_add_asn1_int64_with_tag A d v CBS_ASN1_INTEGER"

definition CBB_add_asn1_octet_string :: "allocator \<Rightarrow> nat \<Rightarrow> bytes \<Rightarrow> (cbb, unit) cfun" where
  "CBB_add_asn1_octet_string A d data =
     on_fail d
       (bnd (CBB_add_asn1 A d CBS_ASN1_OCTETSTRING) (\<lambda>_.
        bnd (CBB_add_bytes A (d + 1) data) (\<lambda>_.
        CBB_flush A d)))"

definition CBB_add_asn1_bool :: "allocator \<Rightarrow> nat \<Rightarrow> bool \<Rightarrow> (cbb, unit) cfun" where
  "CBB_add_asn1_bool A d v =
     on_fail d
       (bnd (CBB_add_asn1 A d CBS_ASN1_BOOLEAN) (\<lambda>_.
        bnd (CBB_add_u8 A (d + 1) (if v then 0xff else 0)) (\<lambda>_.
        CBB_flush A d)))"

subsection \<open>Writers append\<close>

definition shape :: "cbb \<Rightarrow> bool" where
  "shape s \<longleftrightarrow> length (buf s) = cap s \<and> len s \<le> cap s \<and> cap s < 2 ^ 64"

definition out :: "cbb \<Rightarrow> bytes" where
  "out s = take (len s) (buf s)"

definition room :: "allocator \<Rightarrow> cbb \<Rightarrow> nat \<Rightarrow> bool" where
  "room A s n \<longleftrightarrow> len s + n < 2 ^ 64 \<and> (if can_resize s then \<forall>k m. grant A k m else len s + n \<le> cap s)"

definition ext :: "cbb \<Rightarrow> cbb \<Rightarrow> bytes \<Rightarrow> bool" where
  "ext s s' bs \<longleftrightarrow> shape s' \<and> error s' = error s \<and> chain s' = chain s \<and> can_resize s' = can_resize s \<and>
     cap s \<le> cap s' \<and> out s' = out s @ bs"

definition failed :: "nat \<Rightarrow> cbb \<Rightarrow> bool" where
  "failed d s \<longleftrightarrow> shape s \<and> error s \<and> d \<le> length (chain s)"

definition writes :: "allocator \<Rightarrow> nat \<Rightarrow> bytes \<Rightarrow> 'a \<Rightarrow> (cbb, 'a) cfun \<Rightarrow> bool" where
  "writes A d bs r m \<longleftrightarrow> (\<forall>s. shape s \<longrightarrow> \<not> error s \<longrightarrow> length (chain s) = d \<longrightarrow>
     (\<exists>s'. m s = (Ok r, s') \<and> ext s s' bs) \<or> (\<exists>s'. m s = (Fail, s') \<and> failed d s' \<and> \<not> room A s (length bs)))"

lemma length_out: "shape s \<Longrightarrow> length (out s) = len s"
  by (simp add: shape_def out_def)

lemma ext_len: "shape s \<Longrightarrow> ext s s' bs \<Longrightarrow> len s' = len s + length bs"
  using length_out [of s] length_out [of s'] by (simp add: ext_def)

lemma ext_trans: "ext s s' xs \<Longrightarrow> ext s' s'' ys \<Longrightarrow> ext s s'' (xs @ ys)"
  by (simp add: ext_def)

lemma ext_refl: "shape s \<Longrightarrow> ext s s []"
  by (simp add: ext_def)

lemma room_ext: "shape s \<Longrightarrow> ext s s' bs \<Longrightarrow> room A s (length bs + n) \<Longrightarrow> room A s' n"
  using ext_len [of s s' bs] by (auto simp: room_def ext_def split: if_splits)

lemma room_mono: "room A s n \<Longrightarrow> m \<le> n \<Longrightarrow> room A s m"
  by (auto simp: room_def split: if_splits)

lemma writesD:
  assumes "writes A d bs r m" "shape s" "\<not> error s" "length (chain s) = d"
  obtains (ok) s' where "m s = (Ok r, s')" "ext s s' bs"
  | (fail) s' where "m s = (Fail, s')" "failed d s'" "\<not> room A s (length bs)"
  using assms unfolding writes_def by blast

lemma writes_bnd:
  assumes m: "writes A d xs a m" and f: "writes A d ys b (f a)"
  shows "writes A d (xs @ ys) b (bnd m f)"
  unfolding writes_def
proof (intro allI impI)
  fix s assume s: "shape s" "\<not> error s" "length (chain s) = d"
  show "(\<exists>s'. bnd m f s = (Ok b, s') \<and> ext s s' (xs @ ys)) \<or>
        (\<exists>s'. bnd m f s = (Fail, s') \<and> failed d s' \<and> \<not> room A s (length (xs @ ys)))"
    using m s
  proof (cases rule: writesD)
    case (ok s1)
    then have s1: "shape s1" "\<not> error s1" "length (chain s1) = d" using s by (auto simp: ext_def)
    from f this show ?thesis
    proof (cases rule: writesD)
      case (ok s2)
      then show ?thesis using \<open>m s = (Ok a, s1)\<close> ext_trans [OF \<open>ext s s1 xs\<close>] by (auto simp: bnd_simps)
    next
      case (fail s2)
      then show ?thesis
        using \<open>m s = (Ok a, s1)\<close> room_ext [OF s(1) \<open>ext s s1 xs\<close>] by (auto simp: bnd_simps)
    qed
  next
    case (fail s1)
    then show ?thesis using room_mono [of A s "length (xs @ ys)" "length xs"] by (auto simp: bnd_simps)
  qed
qed

lemma writes_ret: "writes A d [] r (ret r)"
  unfolding writes_def by (auto intro: ext_refl)

lemma writes_cong: "writes A d bs r m \<Longrightarrow> bs = bs' \<Longrightarrow> writes A d bs' r m"
  by simp

lemma realloc_Some:
  "c_realloc A k b n = Some b' \<Longrightarrow> length b' = n"
  "c_realloc A k b n = Some b' \<Longrightarrow> m \<le> n \<Longrightarrow> m \<le> length b \<Longrightarrow> take m b' = take m b"
  by (auto simp: c_realloc_def min_def split: if_splits)

lemma buffer_add_cases:
  assumes "shape s" "n < 2 ^ 64"
  obtains (ok) s' where "cbb_buffer_add A n s = (Ok (len s), s')" "shape s'" "len s' = len s + n"
      "take (len s) (buf s') = out s" "chain s' = chain s" "error s' = error s" "can_resize s' = can_resize s"
      "cap s \<le> cap s'"
  | (fail) s' where "cbb_buffer_add A n s = (Fail, s')" "failed (length (chain s)) s'" "chain s' = chain s"
      "\<not> room A s n"
proof -
  have s: "length (buf s) = cap s" "len s \<le> cap s" "cap s < 2 ^ 64" "len s < 2 ^ 64"
    using assms by (auto simp: shape_def)
  note add = size_add_cases [OF s(4) assms(2)]
  consider (over) "2 ^ 64 \<le> len s + n" | (full) "len s + n < 2 ^ 64" "len s + n > cap s" "\<not> can_resize s"
    | (grow) "len s + n < 2 ^ 64" "len s + n > cap s" "can_resize s" | (fits) "len s + n < 2 ^ 64" "len s + n \<le> cap s"
    by linarith
  then show ?thesis
  proof cases
    case over
    then show ?thesis using add assms
      by (intro fail [of "s\<lparr>error := True\<rparr>"]) (auto simp: cbb_buffer_add_def cbb_buffer_reserve_def bnd_simps failed_def shape_def room_def)
  next
    case full
    then show ?thesis using add assms
      by (intro fail [of "s\<lparr>error := True\<rparr>"]) (auto simp: cbb_buffer_add_def cbb_buffer_reserve_def bnd_simps failed_def shape_def room_def Let_def)
  next
    case fits
    then show ?thesis using add assms
      by (intro ok [of "s\<lparr>len := len s + n\<rparr>"]) (auto simp: cbb_buffer_add_def cbb_buffer_reserve_def bnd_simps shape_def out_def Let_def)
  next
    case grow
    define newcap where "newcap = (let c = size_mul (cap s) 2 in if c < cap s \<or> c < len s + n then len s + n else c)"
    have nc: "len s + n \<le> newcap" "cap s \<le> newcap" "newcap < 2 ^ 64"
      using grow by (auto simp: newcap_def Let_def size_mul_def)
    show ?thesis
    proof (cases "c_realloc A (mallocs s) (buf s) newcap")
      case None
      have "\<not> grant A (mallocs s) newcap" using None by (auto simp: c_realloc_def split: if_splits)
      then show ?thesis using None grow add assms
        by (intro fail [of "s\<lparr>error := True, mallocs := Suc (mallocs s)\<rparr>"])
          (auto simp: cbb_buffer_add_def cbb_buffer_reserve_def bnd_simps failed_def shape_def
            room_def Let_def newcap_def split: if_splits)
    next
      case (Some b)
      note b = realloc_Some [OF Some]
      have r: "cbb_buffer_reserve A n s = (Ok (len s), s\<lparr>buf := b, cap := newcap, mallocs := Suc (mallocs s)\<rparr>)"
        using Some grow add by (simp add: cbb_buffer_reserve_def Let_def newcap_def)
      show ?thesis using b(1) b(2) [of "len s"] nc s grow add r
        by (intro ok [of "s\<lparr>buf := b, cap := newcap, mallocs := Suc (mallocs s), len := len s + n\<rparr>"])
          (auto simp: cbb_buffer_add_def bnd_simps shape_def out_def)
    qed
  qed
qed

lemma store_be_eq:
  "off + n \<le> length (buf s) \<Longrightarrow>
   store_be off n v s =
     (Ok (drop_bit (8 * n) v), s\<lparr>buf := take off (buf s) @ be_bytes n v @ drop (off + n) (buf s)\<rparr>)"
proof (induction n arbitrary: v s)
  case 0
  then show ?case by simp
next
  case (Suc n)
  then show ?case
    by (simp add: bnd_def buf_set_def be_bytes_snoc drop_bit_drop_bit take_update_swap drop_update_swap
        upd_conv_take_nth_drop algebra_simps del: be_bytes.simps)
qed

text \<open>Filling the space just added.\<close>

lemma buf_write_out:
  assumes "shape s'" "len s' = len s + length bs" "take (len s) (buf s') = out s" "shape s"
  shows "shape (s'\<lparr>buf := take (len s) (buf s') @ bs @ drop (len s + length bs) (buf s')\<rparr>)"
    and "out (s'\<lparr>buf := take (len s) (buf s') @ bs @ drop (len s + length bs) (buf s')\<rparr>) = out s @ bs"
  using assms by (auto simp: shape_def out_def)

lemma flush_leaf: "length (chain s) = d \<Longrightarrow> \<not> error s \<Longrightarrow> CBB_flush A d s = (Ok (), s)"
  by (simp add: CBB_flush.simps)

lemma writes_add_u:
  assumes "drop_bit (8 * n) v = 0" "n < 2 ^ 64"
  shows "writes A d (be_bytes n v) () (cbb_add_u A d v n)"
  unfolding writes_def
proof (intro allI impI)
  fix s assume s: "shape s" "\<not> error s" "length (chain s) = d"
  show "(\<exists>s'. cbb_add_u A d v n s = (Ok (), s') \<and> ext s s' (be_bytes n v)) \<or>
        (\<exists>s'. cbb_add_u A d v n s = (Fail, s') \<and> failed d s' \<and> \<not> room A s (length (be_bytes n v)))"
    using s(1) assms(2)
  proof (cases rule: buffer_add_cases [where A = A])
    case (ok s')
    have "len s + n \<le> length (buf s')" using ok by (simp add: shape_def)
    note st = store_be_eq [OF this, of v]
    have "shape (s'\<lparr>buf := take (len s) (buf s') @ be_bytes n v @ drop (len s + n) (buf s')\<rparr>)"
      "out (s'\<lparr>buf := take (len s) (buf s') @ be_bytes n v @ drop (len s + n) (buf s')\<rparr>) = out s @ be_bytes n v"
      using buf_write_out [of s' s "be_bytes n v"] ok s by simp_all
    then show ?thesis
      using ok s assms st
      by (simp add: cbb_add_u_def CBB_add_space_def bnd_simps flush_leaf ext_def)
  next
    case (fail s')
    then show ?thesis
      using s by (simp add: cbb_add_u_def CBB_add_space_def bnd_simps flush_leaf)
  qed
qed

subsection \<open>What a flush writes\<close>

lemma asn1_len_len_der:
  assumes "n \<le> 0xfffffffe"
  obtains e ib where "asn1_len_len n = Some (Suc e, ib)" "der_length n = ib # be_bytes e (of_nat n)"
    "drop_bit (8 * e) (if e = 0 then 0 else of_nat n :: u64) = 0" "e < 5"
proof -
  have fits: "drop_bit (8 * der_len_len n) (of_nat n :: u64) = 0"
    using der_len_len_fits(1) [of n] assms by simp
  show ?thesis
  proof (cases "n < 128")
    case True
    then show ?thesis by (intro that [of 0 "of_nat n"]) (simp_all add: asn1_len_len_def der_length_def)
  next
    case False
    have "asn1_len_len n = Some (Suc (der_len_len n), 0x80 OR of_nat (der_len_len n))"
      using False assms by (simp add: asn1_len_len_def der_len_len_def)
    moreover have "der_len_len n \<noteq> 0" "der_len_len n < 5" using der_len_len_range [of n] by simp_all
    ultimately show ?thesis
      using False fits by (intro that [of "der_len_len n" "0x80 OR of_nat (der_len_len n)"])
        (simp_all add: der_length_def)
  qed
qed

text \<open>What flushing a child makes of the output: its length prefix is filled in, which may make the
  output longer; \<open>None\<close> where the length does not fit.\<close>

definition child_prefix :: "cbb_child \<Rightarrow> nat \<Rightarrow> bytes option" where
  "child_prefix c n =
     (if pending_is_asn1 c then if n > 0xfffffffe then None else Some (der_length n)
      else if drop_bit (8 * pending_len_len c) (of_nat n :: u64) \<noteq> 0 then None
      else Some (be_bytes (pending_len_len c) (of_nat n)))"

definition ch_start :: "cbb_child \<Rightarrow> nat" where
  "ch_start c = ch_offset c + pending_len_len c"

definition close_child :: "cbb_child \<Rightarrow> bytes \<Rightarrow> bytes option" where
  "close_child c bs =
     map_option (\<lambda>p. take (ch_offset c) bs @ p @ drop (ch_start c) bs) (child_prefix c (length bs - ch_start c))"

definition child_ok :: "cbb_child \<Rightarrow> bool" where
  "child_ok c \<longleftrightarrow> (pending_is_asn1 c \<longrightarrow> pending_len_len c = 1)"

definition grown :: "cbb \<Rightarrow> cbb \<Rightarrow> bool" where
  "grown s s' \<longleftrightarrow> shape s' \<and> error s' = error s \<and> can_resize s' = can_resize s \<and> cap s \<le> cap s' \<and> len s \<le> len s'"

lemma out_prefix:
  assumes "shape s" "shape s'" "take (len s) (buf s') = out s" "len s' = len s + n"
  obtains R where "buf s' = out s @ R" "n \<le> length R" "length R = cap s' - len s"
proof -
  have "buf s' = out s @ drop (len s) (buf s')" using assms(3) by (metis append_take_drop_id)
  moreover have "n \<le> length (drop (len s) (buf s'))" using assms unfolding shape_def by simp linarith
  ultimately show ?thesis using assms by (intro that [of "drop (len s) (buf s')"]) (simp_all add: shape_def)
qed

lemma rebuf:
  assumes "shape s" "length X = len s" "length R = cap s - len s"
  shows "shape (s\<lparr>buf := X @ R\<rparr>)" and "out (s\<lparr>buf := X @ R\<rparr>) = X"
  using assms by (auto simp: shape_def out_def)

lemma flush_child_asn1:
  assumes s: "shape s" "pending_is_asn1 c" "pending_len_len c = 1" "ch_offset c + 1 \<le> len s"
  shows "(\<exists>s' bs. flush_child A c s = (Ok (), s') \<and> close_child c (out s) = Some bs \<and> out s' = bs \<and>
            grown s s' \<and> chain s' = chain s) \<or>
         (\<exists>s'. flush_child A c s = (Fail, s') \<and> shape s' \<and> chain s' = chain s \<and>
            (\<forall>bs. close_child c (out s) = Some bs \<longrightarrow> \<not> room A s (length bs - len s)))"
proof -
  define off n where "off = ch_offset c" and "n = len s - Suc off"
  have lo: "length (out s) = len s" using s(1) by (rule length_out)
  have lt: "len s < 2 ^ 64" using s(1) by (simp add: shape_def)
  have start: "size_add (ch_offset c) (pending_len_len c) = Suc off" "ch_start c = Suc off"
    using s lt by (simp_all add: size_add_def off_def ch_start_def)
  obtain P x Q where PQ: "out s = P @ [x] @ Q" "length P = off" "length Q = n"
  proof
    show "out s = take off (out s) @ [out s ! off] @ drop (Suc off) (out s)"
      using s lo by (simp add: off_def id_take_nth_drop [symmetric])
  qed (use s lo in \<open>simp_all add: off_def n_def\<close>)
  have ls: "len s = Suc (off + n)" using PQ lo by simp
  show ?thesis
  proof (cases "n > 0xfffffffe")
    case True
    then show ?thesis
      using s start ls
      by (simp add: flush_child_def flush_asn1_prefix_def asn1_len_len_def close_child_def child_prefix_def
          lo bnd_def off_def [symmetric])
  next
    case False
    then obtain e ib where e: "asn1_len_len n = Some (Suc e, ib)" "der_length n = ib # be_bytes e (of_nat n)"
      "drop_bit (8 * e) (if e = 0 then 0 else of_nat n :: u64) = 0" "e < 5"
      using asn1_len_len_der [of n] by auto
    have close: "close_child c (out s) = Some (P @ (ib # be_bytes e (of_nat n)) @ Q)"
      using False s e PQ start by (simp add: close_child_def child_prefix_def off_def [symmetric])
    show ?thesis
    proof (cases "e = 0")
      case True
      obtain R where R: "buf s = out s @ R" "length R = cap s - len s"
        using out_prefix [of s s 0] s(1) out_def by auto
      have "flush_child A c s = (Ok (), s\<lparr>buf := P @ [ib] @ Q @ R\<rparr>)"
        using s start ls e True PQ R
        by (simp add: flush_child_def flush_asn1_prefix_def bnd_def buf_set_def off_def [symmetric] list_update_append)
      moreover have "shape (s\<lparr>buf := P @ [ib] @ Q @ R\<rparr>)" "out (s\<lparr>buf := P @ [ib] @ Q @ R\<rparr>) = P @ [ib] @ Q"
        using rebuf [OF s(1), of "P @ [ib] @ Q" R] R(2) PQ ls by simp_all
      ultimately show ?thesis using close True by (auto simp: grown_def)
    next
      case False
      have "e < 2 ^ 64" using e(4) by simp
      with s(1) show ?thesis
      proof (cases rule: buffer_add_cases [where A = A])
        case (ok s1)
        obtain R where R: "buf s1 = out s @ R" "e \<le> length R" "length R = cap s1 - len s"
          using out_prefix [of s s1 e] s ok by auto
        define s2 where "s2 = s1\<lparr>buf := P @ (ib # be_bytes e (of_nat n)) @ Q @ drop e R\<rparr>"
        define X where "X = take e (Q @ R)"
        have X: "length X = e" using R(2) by (simp add: X_def)
        have fits: "e + Suc (off + n) \<le> length (buf s1)" using R PQ ls by simp
        have "buf_move (Suc off + e) (Suc off) n s1 = (Ok (), s1\<lparr>buf := P @ x # X @ Q @ drop e R\<rparr>)"
          using R PQ fits by (simp add: buf_move_def buf_write_def X_def)
        moreover have "buf_set off ib (s1\<lparr>buf := P @ x # X @ Q @ drop e R\<rparr>) =
            (Ok (), s1\<lparr>buf := P @ ib # X @ Q @ drop e R\<rparr>)"
          using PQ by (simp add: buf_set_def list_update_append)
        moreover have "store_be (Suc off) e (of_nat n) (s1\<lparr>buf := P @ ib # X @ Q @ drop e R\<rparr>) = (Ok 0, s2)"
          using PQ X False e(3) by (subst store_be_eq) (simp_all add: s2_def)
        ultimately have "flush_child A c s = (Ok (), s2)"
          using s start ls e(1) False ok(1)
          by (simp add: flush_child_def flush_asn1_prefix_def bnd_simps off_def [symmetric])
        moreover have "shape s2" "out s2 = P @ (ib # be_bytes e (of_nat n)) @ Q"
          using rebuf [OF ok(2), of "P @ (ib # be_bytes e (of_nat n)) @ Q" "drop e R"] R PQ ls ok(3)
          by (simp_all add: s2_def)
        ultimately show ?thesis using close ok by (auto simp: grown_def s2_def)
      next
        case (fail s1)
        then have "flush_child A c s = (Fail, s1)"
          using s start ls e False
          by (simp add: flush_child_def flush_asn1_prefix_def bnd_def off_def [symmetric])
        then show ?thesis using fail close ls PQ by (auto simp: failed_def)
      qed
    qed
  qed
qed

subsection \<open>The specification of flushing\<close>

lemma flush_child_fixed:
  assumes s: "shape s" "\<not> pending_is_asn1 c" "ch_start c \<le> len s"
  shows "(\<exists>s' bs. flush_child A c s = (Ok (), s') \<and> close_child c (out s) = Some bs \<and> out s' = bs \<and>
            grown s s' \<and> chain s' = chain s) \<or>
         (\<exists>s'. flush_child A c s = (Fail, s') \<and> shape s' \<and> chain s' = chain s \<and> close_child c (out s) = None)"
proof -
  let ?k = "pending_len_len c" and ?n = "len s - ch_start c"
  have lo: "length (out s) = len s" using s(1) by (rule length_out)
  have "size_add (ch_offset c) ?k = ch_start c"
    using s by (simp add: shape_def ch_start_def size_add_def)
  moreover have fit: "ch_offset c + ?k \<le> length (buf s)" using s by (simp add: shape_def ch_start_def)
  define s' where "s' = s\<lparr>buf := take (ch_offset c) (buf s) @ be_bytes ?k (of_nat ?n) @ drop (ch_start c) (buf s)\<rparr>"
  ultimately have fl: "flush_child A c s =
      (if drop_bit (8 * ?k) (of_nat ?n :: u64) = 0 then Ok () else Fail, s')"
    using s store_be_eq [OF fit]
    by (simp add: flush_child_def flush_asn1_prefix_def bnd_simps s'_def ch_start_def check_def)
  obtain R where R: "buf s = out s @ R" "length R = cap s - len s"
    using out_prefix [of s s 0] s(1) out_def by auto
  define X where "X = take (ch_offset c) (out s) @ be_bytes ?k (of_nat ?n) @ drop (ch_start c) (out s)"
  have X: "length X = len s" using s(3) lo by (simp add: X_def ch_start_def)
  have "s' = s\<lparr>buf := X @ R\<rparr>"
    using s lo R by (simp add: s'_def ch_start_def X_def)
  then have s': "shape s'" "out s' = take (ch_offset c) (out s) @ be_bytes ?k (of_nat ?n) @ drop (ch_start c) (out s)"
    using rebuf [OF s(1) X R(2)] by (simp_all add: X_def)
  moreover have "grown s s'" using s' by (simp add: grown_def s'_def)
  moreover have "chain s' = chain s" by (simp add: s'_def)
  ultimately show ?thesis using fl s(2) lo by (simp add: close_child_def child_prefix_def)
qed

lemma flush_child_spec:
  assumes "shape s" "child_ok c" "ch_start c \<le> len s"
  obtains (ok) s' bs where "flush_child A c s = (Ok (), s')" "close_child c (out s) = Some bs" "out s' = bs"
      "grown s s'" "chain s' = chain s"
  | (fail) s' where "flush_child A c s = (Fail, s')" "shape s'" "chain s' = chain s"
      "\<And>bs. close_child c (out s) = Some bs \<Longrightarrow> \<not> room A s (length bs - len s)"
proof (cases "pending_is_asn1 c")
  case True
  then have "pending_len_len c = 1" "ch_offset c + 1 \<le> len s" using assms by (simp_all add: child_ok_def ch_start_def)
  from flush_child_asn1 [OF assms(1) True this, of A] show ?thesis using ok fail by blast
next
  case False
  from flush_child_fixed [OF assms(1) False assms(3), of A] show ?thesis using ok fail by fastforce
qed

text \<open>The children of a chain are nested: each starts inside the one before.\<close>

fun nested :: "nat \<Rightarrow> cbb_child list \<Rightarrow> nat \<Rightarrow> bool" where
  "nested lo [] hi \<longleftrightarrow> lo \<le> hi"
| "nested lo (c # cs) hi \<longleftrightarrow> lo \<le> ch_offset c \<and> child_ok c \<and> nested (ch_start c) cs hi"

fun close_children :: "cbb_child list \<Rightarrow> bytes \<Rightarrow> bytes option" where
  "close_children [] bs = Some bs"
| "close_children (c # cs) bs = Option.bind (close_children cs bs) (close_child c)"

lemma nested_mono: "nested lo cs hi \<Longrightarrow> hi \<le> hi' \<Longrightarrow> nested lo cs hi'"
  by (induction lo cs hi rule: nested.induct) auto

lemma nested_le: "nested lo cs hi \<Longrightarrow> lo \<le> hi"
  by (induction lo cs hi rule: nested.induct) (auto simp: ch_start_def)

lemma prefix_length: "child_prefix c n = Some p \<Longrightarrow> child_ok c \<Longrightarrow> pending_len_len c \<le> length p"
  by (auto simp: child_prefix_def child_ok_def der_length_def split: if_splits)

lemma close_child_length:
  "close_child c bs = Some bs' \<Longrightarrow> child_ok c \<Longrightarrow> ch_start c \<le> length bs \<Longrightarrow> length bs \<le> length bs'"
  by (auto simp: close_child_def ch_start_def dest!: prefix_length)

lemma close_children_length:
  "close_children cs bs = Some bs' \<Longrightarrow> nested lo cs (length bs) \<Longrightarrow> length bs \<le> length bs'"
proof (induction lo cs "length bs" arbitrary: bs' rule: nested.induct)
  case (2 lo c cs)
  then obtain b where b: "close_children cs bs = Some b" "close_child c b = Some bs'"
    by (cases "close_children cs bs") auto
  have "length bs \<le> length b" "ch_start c \<le> length bs"
    using 2 b nested_le by auto
  then show ?case using close_child_length [OF b(2)] "2.prems" by simp
qed simp

lemma grown_refl: "shape s \<Longrightarrow> grown s s"
  by (simp add: grown_def)

lemma grown_trans: "grown s s' \<Longrightarrow> grown s' s'' \<Longrightarrow> grown s s''"
  by (auto simp: grown_def)

lemma room_grown: "grown s s' \<Longrightarrow> len s' = len s + m \<Longrightarrow> room A s (m + n) \<Longrightarrow> room A s' n"
  by (auto simp: room_def grown_def split: if_splits)

text \<open>
  The specification of \<open>CBB_flush\<close>: it closes every child above the depth, innermost first, and
  leaves the rest of the chain. It fails only where a length does not fit its prefix or the buffer
  cannot grow enough.
\<close>

lemma CBB_flush_spec:
  assumes "shape s" "\<not> error s" "d \<le> length (chain s)" "nested lo (drop d (chain s)) (len s)"
  shows "(\<exists>s' bs. CBB_flush A d s = (Ok (), s') \<and> close_children (drop d (chain s)) (out s) = Some bs \<and>
            out s' = bs \<and> grown s s' \<and> chain s' = take d (chain s)) \<or>
         (\<exists>s'. CBB_flush A d s = (Fail, s') \<and> failed d s' \<and>
            (\<forall>bs. close_children (drop d (chain s)) (out s) = Some bs \<longrightarrow> \<not> room A s (length bs - len s)))"
  using assms
proof (induction A d s arbitrary: lo rule: CBB_flush.induct)
  case (1 A d s)
  show ?case
  proof (cases "d = length (chain s)")
    case True
    then have "CBB_flush A d s = (Ok (), s)" using "1.prems" by (subst CBB_flush.simps) simp
    then show ?thesis using True "1.prems" by (auto simp: grown_refl)
  next
    case False
    define c where "c = chain s ! d"
    have d: "d < length (chain s)" using False "1.prems" by simp
    then have dr: "drop d (chain s) = c # drop (Suc d) (chain s)" by (simp add: Cons_nth_drop_Suc c_def)
    have c: "child_ok c" "nested (ch_start c) (drop (Suc d) (chain s)) (len s)" using "1.prems" dr by auto
    have start: "ch_start c \<le> len s" using c(2) by (rule nested_le)
    have IH: "(\<exists>s' bs. CBB_flush A (Suc d) s = (Ok (), s') \<and> close_children (drop (Suc d) (chain s)) (out s) = Some bs \<and>
            out s' = bs \<and> grown s s' \<and> chain s' = take (Suc d) (chain s)) \<or>
         (\<exists>s'. CBB_flush A (Suc d) s = (Fail, s') \<and> failed (Suc d) s' \<and>
            (\<forall>bs. close_children (drop (Suc d) (chain s)) (out s) = Some bs \<longrightarrow> \<not> room A s (length bs - len s)))"
      using "1.IH" [of "ch_start c"] d "1.prems" c by simp
    have unf: "CBB_flush A d s = (case CBB_flush A (Suc d) s of
              (Ok _, s1) \<Rightarrow> bnd (on_fail d (flush_child A c)) (\<lambda>_ s2. (Ok (), s2\<lparr>chain := take d (chain s2)\<rparr>)) s1
            | (Fail, s1) \<Rightarrow> cbb_on_error d s1
            | (Undef, s1) \<Rightarrow> (Undef, s1))"
      using d "1.prems" unfolding c_def by (subst CBB_flush.simps) (simp cong: res.case_cong)
    from IH show ?thesis
    proof (elim disjE exE conjE)
      fix s1 bs1
      assume s1: "CBB_flush A (Suc d) s = (Ok (), s1)" "close_children (drop (Suc d) (chain s)) (out s) = Some bs1"
        "out s1 = bs1" "grown s s1" "chain s1 = take (Suc d) (chain s)"
      have sh: "shape s1" "ch_start c \<le> len s1" "\<not> error s1" using s1(4) start "1.prems" by (auto simp: grown_def)
      have l1: "length bs1 = len s1" using length_out [OF sh(1)] s1(3) by simp
      from sh(1) c(1) sh(2) show ?thesis
      proof (cases rule: flush_child_spec [where A = A])
        case (ok s2 bs)
        then have "CBB_flush A d s = (Ok (), s2\<lparr>chain := take d (chain s2)\<rparr>)"
          by (simp add: unf s1(1) bnd_def on_fail_def)
        moreover have "out (s2\<lparr>chain := take d (chain s2)\<rparr>) = bs" using ok by (simp add: out_def)
        moreover have "grown s (s2\<lparr>chain := take d (chain s2)\<rparr>)"
          using grown_trans [OF s1(4) ok(4)] by (simp add: grown_def shape_def)
        moreover have "close_children (drop d (chain s)) (out s) = Some bs" using s1(2,3) ok by (simp add: dr)
        ultimately show ?thesis using ok(5) s1(5) by simp
      next
        case (fail s2)
        then have "CBB_flush A d s = (Fail, s2\<lparr>error := True, chain := take d (chain s2)\<rparr>)"
          using d by (simp add: unf s1(1,5) bnd_def on_fail_def cbb_on_error_def)
        moreover have "failed d (s2\<lparr>error := True, chain := take d (chain s2)\<rparr>)"
          using fail s1(5) d by (simp add: failed_def shape_def)
        moreover have "\<not> room A s (length bs - len s)" if "close_children (drop d (chain s)) (out s) = Some bs" for bs
        proof
          assume r: "room A s (length bs - len s)"
          have cl: "close_child c bs1 = Some bs" using that s1(2) by (simp add: dr)
          have "len s \<le> len s1" "len s1 \<le> length bs"
            using s1(4) close_child_length [OF cl c(1)] sh(2) l1 by (auto simp: grown_def)
          then have "room A s1 (length bs - len s1)"
            using r by (intro room_grown [OF s1(4), of "len s1 - len s"]) simp_all
          then show False using fail(4) [of bs] cl s1(3) by simp
        qed
        ultimately show ?thesis by blast
      qed
    next
      fix s1
      assume s1: "CBB_flush A (Suc d) s = (Fail, s1)" "failed (Suc d) s1"
        and no: "\<forall>bs. close_children (drop (Suc d) (chain s)) (out s) = Some bs \<longrightarrow> \<not> room A s (length bs - len s)"
      have "CBB_flush A d s = (Fail, s1\<lparr>error := True, chain := take d (chain s1)\<rparr>)"
        using s1 by (simp add: unf cbb_on_error_def failed_def)
      moreover have "failed d (s1\<lparr>error := True, chain := take d (chain s1)\<rparr>)"
        using s1(2) by (simp add: failed_def shape_def)
      moreover have "\<not> room A s (length bs - len s)" if cl: "close_children (drop d (chain s)) (out s) = Some bs" for bs
      proof
        assume r: "room A s (length bs - len s)"
        obtain bs1 where b1: "close_children (drop (Suc d) (chain s)) (out s) = Some bs1" "close_child c bs1 = Some bs"
          using cl by (cases "close_children (drop (Suc d) (chain s)) (out s)") (simp_all add: dr)
        have "length (out s) = len s" using "1.prems" length_out by simp
        then have "len s \<le> length bs1" "length bs1 \<le> length bs"
          using close_children_length [OF b1(1), of "ch_start c"] c start close_child_length [OF b1(2)] by auto
        then show False using no b1(1) room_mono [OF r, of "length bs1 - len s"] by auto
      qed
      ultimately show ?thesis by blast
    qed
  qed
qed

subsection \<open>Writing through a child\<close>

lemma writes_add_bytes:
  assumes "length data < 2 ^ 64"
  shows "writes A d data () (CBB_add_bytes A d data)"
  unfolding writes_def
proof (intro allI impI)
  fix s assume s: "shape s" "\<not> error s" "length (chain s) = d"
  show "(\<exists>s'. CBB_add_bytes A d data s = (Ok (), s') \<and> ext s s' data) \<or>
        (\<exists>s'. CBB_add_bytes A d data s = (Fail, s') \<and> failed d s' \<and> \<not> room A s (length data))"
    using s(1) assms
  proof (cases rule: buffer_add_cases [where A = A])
    case (ok s')
    moreover have "len s + length data \<le> length (buf s')" using ok by (simp add: shape_def)
    moreover note buf_write_out [of s' s data]
    ultimately show ?thesis
      using s by (simp add: CBB_add_bytes_def CBB_add_space_def bnd_simps flush_leaf ext_def buf_write_def)
  next
    case (fail s')
    then show ?thesis
      using s by (simp add: CBB_add_bytes_def CBB_add_space_def bnd_simps flush_leaf)
  qed
qed

lemma be_bytes_small: "be_bytes 1 (ucast (b :: u8)) = [b]" "drop_bit (8 * 1) (ucast (b :: u8) :: u64) = 0"
proof -
  show "be_bytes 1 (ucast b) = [b]" by (simp add: ucast_ucast_id)
  show "drop_bit (8 * 1) (ucast (b :: u8) :: u64) = 0"
    by (rule bit_word_eqI) (auto simp: bit_simps dest: bit_imp_le_length)
qed

lemma writes_add_u8: "writes A d [b] () (CBB_add_u8 A d b)"
  unfolding CBB_add_u8_def by (rule writes_cong [OF writes_add_u]) (simp_all add: be_bytes_small [simplified])

lemma writes_bnd_unit: "writes A d xs () m \<Longrightarrow> writes A d ys r m' \<Longrightarrow> writes A d (xs @ ys) r (bnd m (\<lambda>_. m'))"
  by (rule writes_bnd)

text \<open>Base-128 integers and tags.\<close>

lemma base128_count_0 [simp]: "base128_count 0 = 0"
  by (simp add: base128_count.simps [of 0])

lemma base128_count_len: "(if base128_count v = 0 then 1 else base128_count v) = base128_len v"
proof (induction v rule: base128_len.induct)
  case (1 v)
  show ?case
  proof (cases "drop_bit 7 v = 0")
    case True
    then show ?thesis using True by (simp add: base128_count.simps [of v] base128_len.simps [of v])
  next
    case False
    then have "v > 0" by (auto simp: word_neq_0_conv [symmetric])
    moreover have "base128_count (drop_bit 7 v) \<noteq> 0"
      using False by (simp add: base128_count.simps [of "drop_bit 7 v"] word_neq_0_conv)
    ultimately show ?thesis
      using 1 False by (simp add: base128_count.simps [of v] base128_len.simps [of v])
  qed
qed

lemma writes_base128_loop: "writes A d (base128_digits n v) () (add_base128_loop A d v n)"
proof (induction n)
  case 0
  show ?case unfolding add_base128_loop.simps base128_digits.simps by (rule writes_ret)
next
  case (Suc n)
  have byte: "(if n \<noteq> 0 then x OR 0x80 else x) = x OR (if n \<noteq> 0 then 0x80 else 0)" for x :: u8 by simp
  show ?case
    using writes_bnd_unit [OF writes_add_u8 Suc, of "ucast (drop_bit (7 * n) v AND 0x7f) OR (if n \<noteq> 0 then 0x80 else 0)"]
    unfolding add_base128_loop.simps Let_def byte base128_digits.simps append.simps .
qed

lemma writes_base128: "writes A d (base128 v) () (add_base128_integer A d v)"
  unfolding add_base128_integer_def base128_def Let_def base128_count_len by (rule writes_base128_loop)

lemma writes_tag:
  "writes A d (der_tag tag) ()
     (if tag AND CBS_ASN1_TAG_NUMBER_MASK \<ge> 0x1f
      then bnd (CBB_add_u8 A d (tag_class_bits tag OR 0x1f)) (\<lambda>_.
             add_base128_integer A d (ucast (tag AND CBS_ASN1_TAG_NUMBER_MASK)))
      else CBB_add_u8 A d (tag_class_bits tag OR ucast (tag AND CBS_ASN1_TAG_NUMBER_MASK)))"
proof (cases "tag AND CBS_ASN1_TAG_NUMBER_MASK \<ge> 0x1f")
  case True
  then show ?thesis
    using writes_bnd_unit [OF writes_add_u8 writes_base128, of A d "tag_class_bits tag OR 0x1f"]
    by (simp add: der_tag_def Let_def)
next
  case False
  then show ?thesis using writes_add_u8 by (simp add: der_tag_def Let_def)
qed

lemma CBB_add_asn1_eq:
  "CBB_add_asn1 A d tag =
     bnd (CBB_flush A d) (\<lambda>_.
     bnd (if tag AND CBS_ASN1_TAG_NUMBER_MASK \<ge> 0x1f
          then bnd (CBB_add_u8 A d (tag_class_bits tag OR 0x1f)) (\<lambda>_.
                 add_base128_integer A d (ucast (tag AND CBS_ASN1_TAG_NUMBER_MASK)))
          else CBB_add_u8 A d (tag_class_bits tag OR ucast (tag AND CBS_ASN1_TAG_NUMBER_MASK))) (\<lambda>_.
     cbb_add_child A d 1 True))"
  by (simp add: CBB_add_asn1_def tag_class_bits_def Let_def)

lemma add_child_cases:
  assumes "shape s" "\<not> error s" "length (chain s) = d" "k < 2 ^ 64" "asn \<longrightarrow> k = 1"
  obtains (ok) s' where "cbb_add_child A d k asn s = (Ok (), s')" "grown s s'" "out s' = out s @ replicate k 0"
      "chain s' = chain s @ [\<lparr>ch_offset = len s, pending_len_len = k, pending_is_asn1 = asn\<rparr>]"
  | (fail) s' where "cbb_add_child A d k asn s = (Fail, s')" "failed d s'" "\<not> room A s k"
  using assms(1,4)
proof (cases rule: buffer_add_cases [where A = A])
  case (ok s1)
  define s2 where "s2 = s1\<lparr>buf := take (len s) (buf s1) @ replicate k 0 @ drop (len s + k) (buf s1)\<rparr>"
  have s2: "shape s2" "out s2 = out s @ replicate k 0"
    using buf_write_out [of s1 s "replicate k 0"] ok assms(1) by (simp_all add: s2_def)
  have fits: "len s + k \<le> length (buf s1)" using ok by (simp add: shape_def)
  show ?thesis
  proof (rule that(1))
    show "cbb_add_child A d k asn s = (Ok (),
        s2\<lparr>chain := chain s @ [\<lparr>ch_offset = len s, pending_len_len = k, pending_is_asn1 = asn\<rparr>]\<rparr>)"
      using assms ok fits by (auto simp: cbb_add_child_def bnd_def buf_write_def s2_def)
    show "out (s2\<lparr>chain := chain s @ [\<lparr>ch_offset = len s, pending_len_len = k, pending_is_asn1 = asn\<rparr>]\<rparr>) =
        out s @ replicate k 0"
      using s2(2) by (simp add: out_def)
  qed (use s2(1) ok length_out [OF assms(1)] in \<open>simp_all add: grown_def shape_def s2_def\<close>)
next
  case (fail s1)
  then show ?thesis using assms by (intro that(2)) (auto simp: cbb_add_child_def bnd_simps)
qed

text \<open>An ASN.1 element written through a child.\<close>

lemma element_length: "length (der_element tag body) = length (der_tag tag) + length (der_length (length body)) + length body"
  by (simp add: der_element_def der_header_def)

lemma der_length_pos: "1 \<le> length (der_length n)"
  by (simp add: der_length_def)

lemma add_asn1_cases:
  assumes s: "shape s" "\<not> error s" "length (chain s) = d"
  obtains (ok) s1 where "CBB_add_asn1 A d tag s = (Ok (), s1)" "shape s1" "\<not> error s1" "length (chain s1) = Suc d"
      "chain s1 = chain s @ [\<lparr>ch_offset = len s + length (der_tag tag), pending_len_len = 1, pending_is_asn1 = True\<rparr>]"
      "out s1 = out s @ der_tag tag @ [0]" "grown s s1" "len s1 = len s + length (der_tag tag) + 1"
  | (fail) s1 where "CBB_add_asn1 A d tag s = (Fail, s1)" "failed d s1" "\<not> room A s (length (der_tag tag) + 1)"
  using writes_tag s
proof (cases rule: writesD [of A d "der_tag tag" _ _ s])
  case t1: (ok t)
  have t: "shape t" "\<not> error t" "length (chain t) = d" "len t = len s + length (der_tag tag)"
    using t1(2) s ext_len [OF s(1) t1(2)] by (auto simp: ext_def)
  have "(1 :: nat) < 2 ^ 64" "True \<longrightarrow> (1 :: nat) = 1" by simp_all
  with t(1-3) show ?thesis
  proof (cases rule: add_child_cases [where A = A and k = 1 and asn = True])
    case (ok s1)
    have a: "CBB_add_asn1 A d tag s = (Ok (), s1)"
      using ok(1) t1(1) s by (simp add: CBB_add_asn1_eq bnd_simps flush_leaf)
    have s1: "shape s1" "out s1 = out s @ der_tag tag @ [0]" "grown s s1"
      using ok t1(2) ext_len [OF s(1) t1(2)] by (auto simp: ext_def grown_def)
    have "len s1 = len s + length (der_tag tag) + 1"
      using length_out [OF s1(1)] length_out [OF s(1)] s1(2) by simp
    then show ?thesis
      using that(1) [OF a s1(1)] ok t s s1 t1(2) by (auto simp: ext_def grown_def)
  next
    case (fail s1)
    have "\<not> room A s (length (der_tag tag) + 1)" using room_ext [OF s(1) t1(2)] fail(3) by blast
    moreover have "CBB_add_asn1 A d tag s = (Fail, s1)"
      using fail(1) t1(1) s by (simp add: CBB_add_asn1_eq bnd_simps flush_leaf)
    ultimately show ?thesis using fail(2) by (intro that(2))
  qed
next
  case (fail t)
  have "\<not> room A s (length (der_tag tag) + 1)"
    using fail(3) room_mono [of A s "length (der_tag tag) + 1" "length (der_tag tag)"] by auto
  moreover have "CBB_add_asn1 A d tag s = (Fail, t)"
    using fail s by (simp add: CBB_add_asn1_eq bnd_simps flush_leaf)
  ultimately show ?thesis using fail(2) by (intro that(2))
qed

lemma child_cases:
  assumes m: "writes A (Suc d) body r m" and fit: "length body \<le> 0xfffffffe"
    and s: "shape s" "\<not> error s" "length (chain s) = d"
  obtains (ok) s1 s2 s3 where "CBB_add_asn1 A d tag s = (Ok (), s1)" "m s1 = (Ok r, s2)"
      "CBB_flush A d s2 = (Ok (), s3)" "ext s s3 (der_element tag body)"
  | (add) s1 where "CBB_add_asn1 A d tag s = (Fail, s1)" "failed d s1" "\<not> room A s (length (der_element tag body))"
  | (body) s1 s2 where "CBB_add_asn1 A d tag s = (Ok (), s1)" "m s1 = (Fail, s2)" "failed (Suc d) s2"
      "\<not> room A s (length (der_element tag body))"
  | (flush) s1 s2 s3 where "CBB_add_asn1 A d tag s = (Ok (), s1)" "m s1 = (Ok r, s2)"
      "CBB_flush A d s2 = (Fail, s3)" "failed d s3" "\<not> room A s (length (der_element tag body))"
proof -
  let ?c = "\<lparr>ch_offset = len s + length (der_tag tag), pending_len_len = 1, pending_is_asn1 = True\<rparr>"
  note len = element_length [of tag body] der_length_pos [of "length body"]
  from s show ?thesis
  proof (cases rule: add_asn1_cases [where A = A and tag = tag])
    case s1: (ok s1)
    from m s1(2-4) show ?thesis
    proof (cases rule: writesD)
      case (ok s2)
      have s2: "shape s2" "\<not> error s2" "chain s2 = chain s @ [?c]" "out s2 = out s @ der_tag tag @ [0] @ body"
        "grown s s2"
        using ok(2) s1 ext_len [OF s1(2) ok(2)] by (auto simp: ext_def grown_def)
      have l2: "len s2 = len s + length (der_tag tag) + 1 + length body"
        using length_out [OF s2(1)] length_out [OF s(1)] s2(4) by simp
      have close: "close_children (drop d (chain s2)) (out s2) = Some (out s @ der_element tag body)"
        using s(3) s2(3,4) fit length_out [OF s(1)]
        by (simp add: close_child_def child_prefix_def ch_start_def der_element_def der_header_def)
      have "d \<le> length (chain s2)" "nested 0 (drop d (chain s2)) (len s2)"
        using s2(3) s(3) l2 by (simp_all add: child_ok_def ch_start_def)
      from CBB_flush_spec [OF s2(1,2) this, of A] show ?thesis
      proof (elim disjE exE conjE)
        fix s3 bs
        assume "CBB_flush A d s2 = (Ok (), s3)" "close_children (drop d (chain s2)) (out s2) = Some bs" "out s3 = bs"
          "grown s2 s3" "chain s3 = take d (chain s2)"
        then show ?thesis
          using close s2 s grown_trans [OF s2(5), of s3]
          by (intro that(1) [OF s1(1) ok(1)]) (auto simp: ext_def grown_def)
      next
        fix s3
        assume s3: "CBB_flush A d s2 = (Fail, s3)" "failed d s3"
          "\<forall>bs. close_children (drop d (chain s2)) (out s2) = Some bs \<longrightarrow> \<not> room A s2 (length bs - len s2)"
        have "\<not> room A s2 (length (der_length (length body)) - 1)"
          using s3(3) close l2 len length_out [OF s(1)] by (auto simp: der_element_def der_header_def)
        moreover have "length (der_element tag body) =
            length (der_tag tag) + 1 + length body + (length (der_length (length body)) - 1)"
          using len by simp
        ultimately have "\<not> room A s (length (der_element tag body))"
          using room_grown [OF s2(5), of "length (der_tag tag) + 1 + length body" A] l2 by auto
        then show ?thesis using s3 s1(1) ok(1) by (intro that(4)) auto
      qed
    next
      case (fail s2)
      have "\<not> room A s (length (der_element tag body))"
      proof
        assume "room A s (length (der_element tag body))"
        then have "room A s (length (der_tag tag) + 1 + length body)" by (rule room_mono) (use len in simp)
        then show False using room_grown [OF s1(7), of "length (der_tag tag) + 1" A] s1(8) fail(3) by simp
      qed
      then show ?thesis using fail s1(1) by (intro that(3))
    qed
  next
    case (fail s1)
    have "\<not> room A s (length (der_element tag body))"
      using fail(3) room_mono [of A s "length (der_element tag body)" "length (der_tag tag) + 1"] len by auto
    then show ?thesis using fail(1,2) by (intro that(2))
  qed
qed

text \<open>A body that is too long for four length octets is refused when the child is closed.\<close>

lemma child_too_long:
  assumes m: "writes A (Suc d) body r m" and long: "length body > 0xfffffffe"
    and s: "shape s" "\<not> error s" "length (chain s) = d"
  shows "\<exists>s'. bnd (CBB_add_asn1 A d tag) (\<lambda>_. bnd m (\<lambda>_. CBB_flush A d)) s = (Fail, s')"
  using s
proof (cases rule: add_asn1_cases [where A = A and tag = tag])
  case s1: (ok s1)
  let ?c = "\<lparr>ch_offset = len s + length (der_tag tag), pending_len_len = 1, pending_is_asn1 = True\<rparr>"
  from m s1(2-4) show ?thesis
  proof (cases rule: writesD)
    case (ok s2)
    have s2: "shape s2" "\<not> error s2" "chain s2 = chain s @ [?c]" "out s2 = out s @ der_tag tag @ [0] @ body"
      using ok(2) s1 by (auto simp: ext_def)
    have l2: "len s2 = len s + length (der_tag tag) + 1 + length body"
      using length_out [OF s2(1)] length_out [OF s(1)] s2(4) by simp
    have close: "close_children (drop d (chain s2)) (out s2) = None"
      using s(3) s2(3,4) long length_out [OF s(1)] by (simp add: close_child_def child_prefix_def ch_start_def)
    have "d \<le> length (chain s2)" "nested 0 (drop d (chain s2)) (len s2)"
      using s2(3) s(3) l2 by (simp_all add: child_ok_def ch_start_def)
    from CBB_flush_spec [OF s2(1,2) this, of A] close show ?thesis
      using s1(1) ok(1) by (auto simp: bnd_simps)
  qed (use s1(1) in \<open>auto simp: bnd_simps\<close>)
qed (auto simp: bnd_simps)

end
