(* ===== verification/Cbb_Oid.thy ===== *)
theory Cbb_Oid
  imports Cbb
begin

text \<open>
  The parts of the builder and the reader that convert object identifiers from and to dotted decimal
  text (\<^verbatim>\<open>CBB_add_asn1_oid_from_text\<close> of \<^verbatim>\<open>cbb.c\<close>, \<^verbatim>\<open>CBS_asn1_oid_to_text\<close> of \<^verbatim>\<open>cbs.c\<close>) and that sort the
  elements of a SET OF (\<^verbatim>\<open>CBB_flush_asn1_set_of\<close>).
\<close>

subsection \<open>Object identifiers from text\<close>

definition parse_dotted_decimal :: "(bytes, u64) cfun" where
  "parse_dotted_decimal =
     bnd CBS_get_u64_decimal (\<lambda>v cbs.
       case CBS_get_u8 cbs of
         (Ok dot, cbs') \<Rightarrow> if dot = byte_of_char (CHR ''.'') \<and> length cbs' > 0 then (Ok v, cbs') else (Fail, cbs')
       | (_, cbs') \<Rightarrow> (Ok v, cbs'))"

lemma u64_decimal_loop_suffix: "suffix (snd (get_u64_decimal_loop v seen s)) s"
  by (induction v seen s rule: get_u64_decimal_loop.induct) (auto simp: suffix_Cons)

lemma u64_decimal_loop_strict:
  "get_u64_decimal_loop v False s = (Ok w, s') \<Longrightarrow> length s' < length s"
proof (cases s)
  case (Cons c cbs)
  assume "get_u64_decimal_loop v False s = (Ok w, s')"
  then have "suffix s' cbs"
    using u64_decimal_loop_suffix [of "v * 10 + (ucast c - 0x30)" True cbs] Cons by (auto split: if_splits)
  then show ?thesis using suffix_length_le [of s' cbs] by (simp add: Cons)
qed simp

lemma u64_decimal_loop_defined: "fst (get_u64_decimal_loop v seen s) \<noteq> Undef"
  by (induction v seen s rule: get_u64_decimal_loop.induct) auto

interpretation CBS_get_u64_decimal: strict_reader CBS_get_u64_decimal
proof (intro strict_readerI byte_reader.intro)
  show "suffix s' s" "r \<noteq> Undef" if "CBS_get_u64_decimal s = (r, s')" for s r s'
    using that u64_decimal_loop_suffix [of 0 False s] u64_decimal_loop_defined [of 0 False s]
    by (auto simp: CBS_get_u64_decimal_def)
  show "length s' < length s" if "CBS_get_u64_decimal s = (Ok v, s')" for s v s'
    using u64_decimal_loop_strict that by (simp add: CBS_get_u64_decimal_def)
qed

declare CBS_get_u64_decimal.byte_reader_axioms [reader_intros]

interpretation parse_dotted_decimal: strict_reader parse_dotted_decimal
  unfolding parse_dotted_decimal_def
proof (rule strict_reader_bnd)
  show "strict_reader CBS_get_u64_decimal" by (rule CBS_get_u64_decimal.strict_reader_axioms)
  show "byte_reader (\<lambda>cbs. case CBS_get_u8 cbs of
      (Ok dot, cbs') \<Rightarrow> if dot = byte_of_char (CHR ''.'') \<and> length cbs' > 0 then (Ok v, cbs') else (Fail, cbs')
    | (_, cbs') \<Rightarrow> (Ok v, cbs'))" for v :: u64
  proof
    fix s r s'
    assume "(case CBS_get_u8 s of
        (Ok dot, cbs') \<Rightarrow> if dot = byte_of_char (CHR ''.'') \<and> length cbs' > 0 then (Ok v, cbs') else (Fail, cbs')
      | (_, cbs') \<Rightarrow> (Ok v, cbs')) = (r, s')"
    then show "suffix s' s" "r \<noteq> Undef"
      by (cases s; auto simp: suffix_Cons split: if_splits)+
  qed
qed

text \<open>The components after the first two. \<open>cbs\<close> is the text left, \<open>s\<close> the CBB.\<close>

function oid_rest_loop :: "allocator \<Rightarrow> nat \<Rightarrow> bytes \<Rightarrow> cbb \<Rightarrow> unit res \<times> cbb" where
  "oid_rest_loop A d cbs s =
     (if length cbs = 0 then (Ok (), s)
      else (case parse_dotted_decimal cbs of
              (Ok a, cbs') \<Rightarrow>
                (case add_base128_integer A d a s of
                   (Ok _, s') \<Rightarrow> oid_rest_loop A d cbs' s'
                 | (Fail, s') \<Rightarrow> (Fail, s')
                 | (Undef, s') \<Rightarrow> (Undef, s'))
            | (Fail, _) \<Rightarrow> (Fail, s)
            | (Undef, _) \<Rightarrow> (Undef, s)))"
  by pat_completeness auto
termination
  by (relation "measure (\<lambda>(A, d, cbs, s). length cbs)") (auto dest: parse_dotted_decimal.rd_strict [OF sym])

declare oid_rest_loop.simps [simp del]

text \<open>\<open>0xffffffffffffffff\<close> is \<^verbatim>\<open>UINT64_MAX\<close>.\<close>

definition CBB_add_asn1_oid_from_text :: "allocator \<Rightarrow> nat \<Rightarrow> bytes \<Rightarrow> (cbb, unit) cfun" where
  "CBB_add_asn1_oid_from_text A d cbs_text =
     bnd (CBB_flush A d) (\<lambda>_ s.
       case bnd parse_dotted_decimal (\<lambda>a. bnd parse_dotted_decimal (\<lambda>b. ret (a, b))) cbs_text of
         (Fail, _) \<Rightarrow> (Fail, s)
       | (Undef, _) \<Rightarrow> (Undef, s)
       | (Ok (a, b), cbs) \<Rightarrow>
           if a > 2 \<or> a < 2 \<and> b > 39 \<or> b > 0xffffffffffffffff - 80 then (Fail, s)
           else bnd (add_base128_integer A d (40 * a + b)) (\<lambda>_. oid_rest_loop A d cbs) s)"

subsection \<open>Object identifiers to text\<close>

text \<open>\<^verbatim>\<open>cbs.c\<close>: \<open>add_decimal\<close> prints with \<^verbatim>\<open>%" PRIu64\<close>.\<close>

fun decimal_digits :: "nat \<Rightarrow> bytes" where
  "decimal_digits n = (if n < 10 then [of_nat (48 + n)] else decimal_digits (n div 10) @ [of_nat (48 + n mod 10)])"

declare decimal_digits.simps [simp del]

definition add_decimal :: "allocator \<Rightarrow> nat \<Rightarrow> u64 \<Rightarrow> (cbb, unit) cfun" where
  "add_decimal A d v = CBB_add_bytes A d (decimal_digits (unat v))"

text \<open>The loop over the remaining components: \<open>cbs\<close> is read while the CBB \<open>s\<close> grows.\<close>

function oid_text_loop :: "allocator \<Rightarrow> bytes \<Rightarrow> cbb \<Rightarrow> unit res \<times> cbb" where
  "oid_text_loop A cbs s =
     (if length cbs = 0 then (Ok (), s)
      else (case parse_base128_integer cbs of
              (Ok v, cbs') \<Rightarrow>
                (case bnd (CBB_add_u8 A 0 (byte_of_char (CHR ''.''))) (\<lambda>_. add_decimal A 0 v) s of
                   (Ok _, s') \<Rightarrow> oid_text_loop A cbs' s'
                 | (Fail, s') \<Rightarrow> (Fail, s')
                 | (Undef, s') \<Rightarrow> (Undef, s'))
            | (Fail, _) \<Rightarrow> (Fail, s)
            | (Undef, _) \<Rightarrow> (Undef, s)))"
  by pat_completeness auto
termination
  by (relation "measure (\<lambda>(A, cbs, s). length cbs)") (auto dest: parse_base128.rd_strict [OF sym])

declare oid_text_loop.simps [simp del]


text \<open>The C string returned, with its terminating zero byte; \<open>Fail\<close> is NULL. The buffer is freed on
  the error paths.\<close>

definition CBS_asn1_oid_to_text :: "allocator \<Rightarrow> bytes \<Rightarrow> bytes res" where
  "CBS_asn1_oid_to_text A cbs =
     (case CBB_init A 32 of
        Fail \<Rightarrow> Fail | Undef \<Rightarrow> Undef
      | Ok cbb \<Rightarrow>
          (case parse_base128_integer cbs of
             (Fail, _) \<Rightarrow> Fail | (Undef, _) \<Rightarrow> Undef
           | (Ok v, copy) \<Rightarrow>
               fst (bnd (if v \<ge> 80
                         then bnd (CBB_add_bytes A 0 (bytes_of_string ''2.'')) (\<lambda>_. add_decimal A 0 (v - 80))
                         else bnd (add_decimal A 0 (v div 40)) (\<lambda>_.
                              bnd (CBB_add_u8 A 0 (byte_of_char (CHR ''.''))) (\<lambda>_.
                              add_decimal A 0 (v mod 40)))) (\<lambda>_.
                    bnd (oid_text_loop A copy) (\<lambda>_.
                    bnd (CBB_add_u8 A 0 0) (\<lambda>_.
                    CBB_finish A 0 True))) cbb)))"

subsection \<open>Sorting the elements of a SET OF\<close>

text \<open>\<^verbatim>\<open>memcmp\<close>: only the sign of the result is specified.\<close>

fun OPENSSL_memcmp :: "bytes \<Rightarrow> bytes \<Rightarrow> nat \<Rightarrow> int" where
  "OPENSSL_memcmp (x # xs) (y # ys) (Suc n) =
     (if x < y then - 1 else if y < x then 1 else OPENSSL_memcmp xs ys n)"
| "OPENSSL_memcmp _ _ _ = 0"

definition compare_set_of_element :: "bytes \<Rightarrow> bytes \<Rightarrow> int" where
  "compare_set_of_element a b =
     (let a_len = length a; b_len = length b;
          min_len = (if a_len < b_len then a_len else b_len);
          r = OPENSSL_memcmp a b min_len
      in if r \<noteq> 0 then r
         else if a_len = b_len then 0
         else if a_len < b_len then - 1 else 1)"

text \<open>The element type that \<^verbatim>\<open>qsort\<close> sorts, ordered by the comparison above. Elements that compare equal
  are equal bytes, so the order that \<^verbatim>\<open>qsort\<close> leaves them in does not matter.\<close>

datatype set_element = SetElement (element_bytes: bytes)

lemma memcmp_refl: "OPENSSL_memcmp a a n = 0"
proof (induction a arbitrary: n)
  case (Cons x xs)
  then show ?case by (cases n) auto
qed simp

lemma memcmp_antisym: "OPENSSL_memcmp a b n = - OPENSSL_memcmp b a n"
  by (induction a b n rule: OPENSSL_memcmp.induct) auto

text \<open>The comparison is the lexicographic order.\<close>

fun bytes_le :: "bytes \<Rightarrow> bytes \<Rightarrow> bool" where
  "bytes_le [] _ = True"
| "bytes_le (_ # _) [] = False"
| "bytes_le (x # xs) (y # ys) = (x < y \<or> x = y \<and> bytes_le xs ys)"

lemma compare_Cons:
  "compare_set_of_element (x # xs) (y # ys) =
     (if x < y then - 1 else if y < x then 1 else compare_set_of_element xs ys)"
  by (auto simp: compare_set_of_element_def Let_def)

lemma compare_bytes_le: "compare_set_of_element a b \<le> 0 \<longleftrightarrow> bytes_le a b"
proof (induction a b rule: bytes_le.induct)
  case (1 b)
  then show ?case by (cases b) (simp_all add: compare_set_of_element_def Let_def)
next
  case (2 x xs)
  then show ?case by (simp add: compare_set_of_element_def Let_def)
next
  case (3 x xs y ys)
  then show ?case by (auto simp: compare_Cons)
qed

lemma bytes_le_refl: "bytes_le a a"
  by (induction a) simp_all

lemma bytes_le_trans: "bytes_le a b \<Longrightarrow> bytes_le b c \<Longrightarrow> bytes_le a c"
proof (induction a b arbitrary: c rule: bytes_le.induct)
  case (3 x xs y ys)
  then show ?case by (cases c) auto
qed auto

lemma bytes_le_antisym: "bytes_le a b \<Longrightarrow> bytes_le b a \<Longrightarrow> a = b"
proof (induction a b rule: bytes_le.induct)
  case (1 b)
  then show ?case by (cases b) auto
qed auto

lemma bytes_le_total: "bytes_le a b \<or> bytes_le b a"
  by (induction a b rule: bytes_le.induct) auto

instantiation set_element :: linorder
begin

definition less_eq_set_element :: "set_element \<Rightarrow> set_element \<Rightarrow> bool" where
  "less_eq_set_element a b \<longleftrightarrow> compare_set_of_element (element_bytes a) (element_bytes b) \<le> 0"

definition less_set_element :: "set_element \<Rightarrow> set_element \<Rightarrow> bool" where
  "less_set_element a b \<longleftrightarrow> a \<le> b \<and> \<not> b \<le> (a :: set_element)"

instance
proof
  fix a b c :: set_element
  show "a < b \<longleftrightarrow> a \<le> b \<and> \<not> b \<le> a" by (rule less_set_element_def)
  show "a \<le> a" by (simp add: less_eq_set_element_def compare_bytes_le bytes_le_refl)
  show "a \<le> b \<Longrightarrow> b \<le> c \<Longrightarrow> a \<le> c"
    unfolding less_eq_set_element_def compare_bytes_le by (rule bytes_le_trans)
  show "a \<le> b \<Longrightarrow> b \<le> a \<Longrightarrow> a = b"
    unfolding less_eq_set_element_def compare_bytes_le by (rule set_element.expand) (rule bytes_le_antisym)
  show "a \<le> b \<or> b \<le> a"
    unfolding less_eq_set_element_def compare_bytes_le by (rule bytes_le_total)
qed

end

text \<open>The first loop counts the elements, the second collects them.\<close>

function count_elements :: "bytes \<Rightarrow> nat res" where
  "count_elements cbs =
     (if length cbs = 0 then Ok 0
      else (case CBS_get_any_asn1_element cbs of
              (Ok _, cbs') \<Rightarrow> res_map Suc (count_elements cbs')
            | (Fail, _) \<Rightarrow> Fail | (Undef, _) \<Rightarrow> Undef))"
  by pat_completeness auto
termination
  by (relation "measure length") (auto dest: CBS_get_any_asn1_element.rd_strict [OF sym])

declare count_elements.simps [simp del]

fun collect_elements :: "nat \<Rightarrow> (bytes, set_element list) cfun" where
  "collect_elements 0 = ret []"
| "collect_elements (Suc n) =
     bnd CBS_get_any_asn1_element (\<lambda>el.
     bnd (collect_elements n) (\<lambda>els. ret (SetElement (el_contents el) # els)))"

text \<open>The loop that writes the sorted elements back from \<open>off\<close> on.\<close>

fun write_elements :: "nat \<Rightarrow> set_element list \<Rightarrow> (cbb, nat) cfun" where
  "write_elements off [] = ret off"
| "write_elements off (e # els) =
     bnd (buf_write off (element_bytes e)) (\<lambda>_. write_elements (off + length (element_bytes e)) els)"

text \<open>\<^verbatim>\<open>sizeof(CBS)\<close> is 16; \<^verbatim>\<open>OPENSSL_calloc\<close> fails when the product overflows.\<close>

definition CBB_flush_asn1_set_of :: "allocator \<Rightarrow> nat \<Rightarrow> (cbb, unit) cfun" where
  "CBB_flush_asn1_set_of A d =
     bnd (CBB_flush A d) (\<lambda>_.
     bnd (CBB_data d) (\<lambda>data.
     bnd (CBB_len d) (\<lambda>buf_len s.
       let content = take buf_len (drop data (buf s))
       in case count_elements content of
            Fail \<Rightarrow> (Fail, s) | Undef \<Rightarrow> (Undef, s)
          | Ok num_children \<Rightarrow>
              if num_children < 2 then (Ok (), s)
              else
                let s' = s\<lparr>mallocs := mallocs s + 2\<rparr>
                in if \<not> grant A (mallocs s) buf_len \<or> num_children > (2 ^ 64 - 1) div 16 \<or>
                      \<not> grant A (mallocs s + 1) (num_children * 16) then (Fail, s')
                   else (case collect_elements num_children content of
                           (Fail, _) \<Rightarrow> (Fail, s') | (Undef, _) \<Rightarrow> (Undef, s')
                         | (Ok children, _) \<Rightarrow>
                             bnd (write_elements data (sort children)) (\<lambda>end.
                             c_assert (end - data = buf_len)) s'))))"

end
