(* ===== verification/Cbb_Asn1.thy ===== *)
theory Cbb_Asn1
  imports Cbb_Oid Der_Int
begin

text \<open>
  What the ASN.1 writers of \<^verbatim>\<open>cbb.c\<close> produce: each appends the DER encoding of its argument, or fails
  because the buffer cannot hold it. The conversions of object identifiers from and to text undo each
  other.
\<close>

subsection \<open>Elements\<close>

lemma writes_element_flush_outside:
  assumes "writes A (Suc d) body r m" "length body \<le> 0xfffffffe"
  shows "writes A d (der_element tag body) () (bnd (on_fail d (bnd (CBB_add_asn1 A d tag) (\<lambda>_. m))) (\<lambda>_. CBB_flush A d))"
  unfolding writes_def
proof (intro allI impI)
  fix s assume s: "shape s" "\<not> error s" "length (chain s) = d"
  show "(\<exists>s'. bnd (on_fail d (bnd (CBB_add_asn1 A d tag) (\<lambda>_. m))) (\<lambda>_. CBB_flush A d) s = (Ok (), s') \<and>
            ext s s' (der_element tag body)) \<or>
        (\<exists>s'. bnd (on_fail d (bnd (CBB_add_asn1 A d tag) (\<lambda>_. m))) (\<lambda>_. CBB_flush A d) s = (Fail, s') \<and>
            failed d s' \<and> \<not> room A s (length (der_element tag body)))"
    using assms s
    by (cases rule: child_cases [where tag = tag])
      (auto simp: bnd_def on_fail_def cbb_on_error_def failed_def shape_def)
qed

lemma writes_element_flush_inside:
  assumes "writes A (Suc d) body r m" "length body \<le> 0xfffffffe"
  shows "writes A d (der_element tag body) ()
    (on_fail d (bnd (CBB_add_asn1 A d tag) (\<lambda>_. bnd m (\<lambda>_. CBB_flush A d))))"
  unfolding writes_def
proof (intro allI impI)
  fix s assume s: "shape s" "\<not> error s" "length (chain s) = d"
  show "(\<exists>s'. on_fail d (bnd (CBB_add_asn1 A d tag) (\<lambda>_. bnd m (\<lambda>_. CBB_flush A d))) s = (Ok (), s') \<and>
            ext s s' (der_element tag body)) \<or>
        (\<exists>s'. on_fail d (bnd (CBB_add_asn1 A d tag) (\<lambda>_. bnd m (\<lambda>_. CBB_flush A d))) s = (Fail, s') \<and>
            failed d s' \<and> \<not> room A s (length (der_element tag body)))"
    using assms s
    by (cases rule: child_cases [where tag = tag])
      (auto simp: bnd_def on_fail_def cbb_on_error_def failed_def shape_def)
qed

lemma writes_octet_string:
  assumes "length data \<le> 0xfffffffe"
  shows "writes A d (der_element CBS_ASN1_OCTETSTRING data) () (CBB_add_asn1_octet_string A d data)"
  unfolding CBB_add_asn1_octet_string_def
  using writes_element_flush_inside [OF writes_add_bytes, of data A d] assms by simp

definition der_bool :: "bool \<Rightarrow> bytes" where
  "der_bool b = der_element CBS_ASN1_BOOLEAN [if b then 0xff else 0]"

lemma writes_bool: "writes A d (der_bool b) () (CBB_add_asn1_bool A d b)"
  unfolding CBB_add_asn1_bool_def der_bool_def
  using writes_element_flush_inside [OF writes_add_u8 [of A "Suc d" "if b then 0xff else 0"]] by simp

text \<open>The contents loop of the unsigned integers.\<close>

lemma writes_uint64_started: "writes A d (be_bytes j v) True (add_uint64_loop A d v j True)"
proof (induction j)
  case 0
  show ?case unfolding add_uint64_loop.simps be_bytes.simps by (rule writes_ret)
next
  case (Suc j)
  from writes_bnd_unit [OF writes_add_u8 Suc, of "ucast (drop_bit (8 * j) v)"]
  show ?case by (simp add: Let_def)
qed

lemma writes_uint64_loop:
  "drop_bit (8 * j) v = 0 \<Longrightarrow>
   writes A d (if v = 0 then [] else der_unsigned v) (v \<noteq> 0) (add_uint64_loop A d v j False)"
proof (induction j)
  case 0
  then have "v = 0" by simp
  then show ?case by (simp del: add_uint64_loop.simps) (simp only: add_uint64_loop.simps writes_ret)
next
  case (Suc j)
  show ?case
  proof (cases "ucast (drop_bit (8 * j) v) = (0 :: u8)")
    case True
    then have "drop_bit (8 * j) v = 0" using be_step [of j v] Suc.prems by simp
    then show ?thesis using Suc.IH True by simp
  next
    case False
    let ?b = "ucast (drop_bit (8 * j) v) :: u8"
    have nz: "drop_bit (8 * j) v \<noteq> 0" using False by auto
    then have len: "byte_len v = Suc j" "v \<noteq> 0" using byte_len_unique [OF Suc.prems] by auto
    have w: "writes A d (?b # be_bytes j v) True (bnd (CBB_add_u8 A d ?b) (\<lambda>_. add_uint64_loop A d v j True))"
      using writes_bnd_unit [OF writes_add_u8 writes_uint64_started, of A d ?b j v] by simp
    show ?thesis
    proof (cases "bit ?b 7")
      case True
      then show ?thesis
        using writes_bnd_unit [OF writes_add_u8 w, of 0] False len by (simp add: der_unsigned_def and_80 Let_def)
    next
      case no: False
      then show ?thesis using w False len by (simp add: der_unsigned_def and_80 Let_def)
    qed
  qed
qed

lemma writes_uint64_with_tag:
  "writes A d (der_element tag (der_unsigned v)) () (CBB_add_asn1_uint64_with_tag A d v tag)"
proof -
  have "writes A (Suc d) (if v = 0 then [] else der_unsigned v) (v \<noteq> 0) (add_uint64_loop A (Suc d) v 8 False)"
    by (rule writes_uint64_loop) simp
  moreover have "writes A (Suc d) (if v = 0 then [0] else []) ()
      (if \<not> (v \<noteq> 0) then CBB_add_u8 A (Suc d) 0 else ret ())"
    using writes_add_u8 [of A "Suc d" 0] writes_ret [of A "Suc d" "()"]
    by (cases "v = 0") (simp_all only: simp_thms if_True if_False refl)
  ultimately have "writes A (Suc d) ((if v = 0 then [] else der_unsigned v) @ (if v = 0 then [0] else [])) ()
      (bnd (add_uint64_loop A (Suc d) v 8 False) (\<lambda>started. if \<not> started then CBB_add_u8 A (Suc d) 0 else ret ()))"
    by (rule writes_bnd)
  moreover have "(if v = 0 then [] else der_unsigned v) @ (if v = 0 then [0] else []) = der_unsigned v"
    by (simp add: der_unsigned_def)
  ultimately show ?thesis
    unfolding CBB_add_asn1_uint64_with_tag_def Suc_eq_plus1 [symmetric]
    using der_unsigned_length [of v] by (intro writes_element_flush_outside) simp_all
qed

lemma writes_int64_loop: "writes A d (be_bytes n v) () (add_int64_loop A d v n)"
proof (induction n)
  case 0
  show ?case unfolding add_int64_loop.simps be_bytes.simps by (rule writes_ret)
next
  case (Suc n)
  from writes_bnd_unit [OF writes_add_u8 Suc, of "le_byte v n"]
  show ?case by (simp add: le_byte_def)
qed

lemma int64_start_top:
  "n \<le> 7 \<Longrightarrow> drop_bit (8 * n + 7) (NOT v) = 0 \<Longrightarrow> int64_start v n = signed_top v n"
proof (induction n)
  case (Suc n)
  have "le_byte v (Suc n) = 0xff \<and> bit (le_byte v n) 7 \<longleftrightarrow> drop_bit (8 * n + 7) (NOT v) = 0"
  proof
    assume "le_byte v (Suc n) = 0xff \<and> bit (le_byte v n) 7"
    then show "drop_bit (8 * n + 7) (NOT v) = 0"
      using ones_below [of n v] Suc.prems by (simp add: le_byte_def bit_simps)
  next
    assume z: "drop_bit (8 * n + 7) (NOT v) = 0"
    have bits: "bit v (8 * n + 7 + j)" if "8 * n + 7 + j < 64" for j
    proof -
      have "\<not> bit (drop_bit (8 * n + 7) (NOT v)) j" using z by simp
      then show ?thesis using that by (simp add: bit_simps)
    qed
    have "le_byte v (Suc n) = 0xff"
    proof (rule bit_word_eqI)
      fix i assume "i < LENGTH(8)"
      then show "bit (le_byte v (Suc n)) i \<longleftrightarrow> bit (0xff :: u8) i"
        using bits [of "Suc i"] Suc.prems(1) by (simp add: le_byte_def bit_simps bit_consts ac_simps)
    qed
    then show "le_byte v (Suc n) = 0xff \<and> bit (le_byte v n) 7"
      using bits [of 0] Suc.prems(1) by (simp add: le_byte_def bit_simps)
  qed
  then show ?case using Suc by (simp add: and_80)
qed simp

lemma writes_int64_with_tag:
  "writes A d (der_element tag (der_signed v)) () (CBB_add_asn1_int64_with_tag A d v tag)"
proof (cases "bit v 63")
  case False
  then show ?thesis
    using writes_uint64_with_tag [of A d tag v] by (simp add: CBB_add_asn1_int64_with_tag_def sint_bit63 der_signed_def)
next
  case True
  have "drop_bit 63 (NOT v) = 0" using drop_bit_0_mono [OF signed_top_last [OF True], of 63] signed_top_le [of v 7] by simp
  then have "int64_start v 7 = signed_top v 7" by (intro int64_start_top) simp_all
  moreover have "length (der_signed v) \<le> 8" by (rule be_value_signed)
  ultimately show ?thesis
    using True writes_element_flush_outside [OF writes_int64_loop, of "Suc (signed_top v 7)" v A d tag]
    by (simp add: CBB_add_asn1_int64_with_tag_def sint_bit63 der_signed_def del: be_bytes.simps add_int64_loop.simps)
qed

subsection \<open>Decimal numbers\<close>

lemma digit_facts:
  assumes "d < 10"
  shows "OPENSSL_isdigit (of_nat (48 + d))" and "ucast (of_nat (48 + d) :: u8) - 0x30 = (of_nat d :: u64)"
proof -
  have "d \<in> {0,1,2,3,4,5,6,7,8,9}" using assms by auto
  then show "OPENSSL_isdigit (of_nat (48 + d))" "ucast (of_nat (48 + d) :: u8) - 0x30 = (of_nat d :: u64)"
    by (auto simp: OPENSSL_isdigit_def)
qed

lemma max_div_10: "unat ((- 1) div 10 :: u64) = 1844674407370955161"
  by simp

lemma unat_minus_of_nat: "d < 10 \<Longrightarrow> unat ((- 1 :: u64) - of_nat d) = 18446744073709551615 - d"
proof -
  assume "d < 10"
  then have "d \<in> {0,1,2,3,4,5,6,7,8,9}" by auto
  moreover have "unat (- 1 :: u64) = 18446744073709551615" by (simp add: unsigned_minus_1_eq_mask mask_eq_exp_minus_1)
  ultimately show ?thesis by auto
qed

lemma decimal_step:
  assumes "n < 2 ^ 64" "v = of_nat (n div 10)" "d = n mod 10"
  shows "\<not> v > (- 1) div 10" and "\<not> v * 10 > (- 1) - of_nat d" and "v * 10 + of_nat d = (of_nat n :: u64)"
proof -
  have d: "d < 10" using assms by simp
  have v: "unat v = n div 10" using assms by (simp add: unsigned_of_nat take_bit_nat_eq_self)
  show "\<not> v > (- 1) div 10"
    using assms(1) by (simp add: word_less_nat_alt v)
  have "unat (v * 10) = n div 10 * 10"
    using assms(1) unat_mult_lem [of v 10] v times_div_less_eq_dividend [of 10 n] by simp
  moreover have "n < 18446744073709551616" using assms(1) by simp
  ultimately show "\<not> v * 10 > (- 1) - of_nat d"
    using unat_minus_of_nat [OF d] div_mult_mod_eq [of n 10] unfolding word_less_nat_alt assms(3)
    by linarith
  have "v * 10 + of_nat d = of_nat (n div 10 * 10 + n mod 10)" by (simp only: assms of_nat_add of_nat_mult of_nat_numeral)
  then show "v * 10 + of_nat d = of_nat n" by (simp only: div_mult_mod_eq)
qed

lemma decimal_loop:
  "n < 2 ^ 64 \<Longrightarrow> get_u64_decimal_loop 0 False (decimal_digits n @ rest) = get_u64_decimal_loop (of_nat n) True rest"
proof (induction n arbitrary: rest rule: decimal_digits.induct)
  case (1 n)
  show ?case
  proof (cases "n < 10")
    case True
    note st = decimal_step [of n 0 n]
    have "v > w - of_nat n \<longleftrightarrow> v > w - (of_nat n :: u64)" for v w by simp
    show ?thesis using True digit_facts [OF True] unat_minus_of_nat [OF True] st True
      by (simp add: decimal_digits.simps [of n])
  next
    case False
    let ?d = "n mod 10"
    have d: "?d < 10" by simp
    have nz: "of_nat (n div 10) \<noteq> (0 :: u64)"
    proof
      assume "of_nat (n div 10) = (0 :: u64)"
      then have "unat (of_nat (n div 10) :: u64) = 0" by simp
      moreover have "unat (of_nat (n div 10) :: u64) = n div 10"
        using "1.prems" by (simp add: unsigned_of_nat take_bit_nat_eq_self)
      ultimately show False using False by simp
    qed
    have "get_u64_decimal_loop 0 False (decimal_digits n @ rest) =
        get_u64_decimal_loop (of_nat (n div 10)) True (of_nat (48 + ?d) # rest)"
      using "1.IH" [OF False] "1.prems" False by (simp add: decimal_digits.simps [of n])
    also have "\<dots> = get_u64_decimal_loop (of_nat n) True rest"
      using digit_facts [OF d] decimal_step [OF "1.prems" refl refl] nz
      by (simp del: of_nat_add)
    finally show ?thesis .
  qed
qed

definition no_digit :: "bytes \<Rightarrow> bool" where
  "no_digit rest \<longleftrightarrow> (case rest of [] \<Rightarrow> True | c # _ \<Rightarrow> \<not> OPENSSL_isdigit c)"

lemma get_decimal_digits:
  assumes "no_digit rest"
  shows "CBS_get_u64_decimal (decimal_digits (unat v) @ rest) = (Ok v, rest)"
proof -
  have "unat v < 2 ^ 64" using unsigned_less [of v, where 'a = nat] by simp
  from decimal_loop [OF this, of rest] show ?thesis
    using assms by (cases rest) (simp_all add: CBS_get_u64_decimal_def no_digit_def)
qed

lemma digit_value:
  assumes "OPENSSL_isdigit c"
  obtains d where "d < 10" "c = of_nat (48 + d)" "ucast c - 0x30 = (of_nat d :: u64)"
proof -
  have "48 \<le> unat c" "unat c \<le> 57" using assms by (simp_all add: OPENSSL_isdigit_def word_le_nat_alt)
  then have d: "unat c - 48 < 10" "c = of_nat (48 + (unat c - 48))" by simp_all
  show ?thesis using digit_facts(2) [OF d(1)] d by (intro that [of "unat c - 48"]) (simp_all del: of_nat_add)
qed

lemma decimal_no_wrap:
  fixes acc :: u64
  assumes "d < 10" "\<not> acc > (- 1) div 10" "\<not> acc * 10 > (- 1) - of_nat d"
  shows "unat (acc * 10 + of_nat d) = unat acc * 10 + d"
proof -
  have a: "unat acc \<le> 1844674407370955161" using assms(2) by (simp add: word_less_nat_alt)
  then have m: "unat (acc * 10) = unat acc * 10" using unat_mult_lem [of acc 10] by simp
  have "unat acc * 10 \<le> 18446744073709551615 - d"
    using assms(3) m unat_minus_of_nat [OF assms(1)] by (simp add: word_less_nat_alt)
  moreover have "unat (of_nat d :: u64) = d" using assms(1) by (simp add: unsigned_of_nat take_bit_nat_eq_self)
  moreover have "unat acc * 10 + d < 18446744073709551616"
    using calculation(1) assms(1) by linarith
  ultimately show ?thesis
    using unat_add_lem [of "acc * 10" "of_nat d"] m by simp
qed

lemma decimal_loop_Ok:
  "get_u64_decimal_loop acc True s = (Ok v, rest) \<Longrightarrow>
     decimal_digits (unat acc) @ s = decimal_digits (unat v) @ rest \<and> no_digit rest"
proof (induction s arbitrary: acc)
  case Nil
  then show ?case by (simp add: no_digit_def)
next
  case (Cons c s)
  show ?case
  proof (cases "OPENSSL_isdigit c")
    case False
    then show ?thesis using Cons.prems by (auto simp: no_digit_def)
  next
    case True
    then obtain d where d: "d < 10" "c = of_nat (48 + d)" "ucast c - 0x30 = (of_nat d :: u64)" by (rule digit_value)
    have step: "acc \<noteq> 0" "\<not> acc > (- 1) div 10" "\<not> acc * 10 > (- 1) - of_nat d"
      "get_u64_decimal_loop (acc * 10 + of_nat d) True s = (Ok v, rest)"
      using Cons.prems True by (auto simp: d(3) split: if_split_asm)
    have n: "unat (acc * 10 + of_nat d) = unat acc * 10 + d" by (rule decimal_no_wrap [OF d(1) step(2,3)])
    have "unat acc \<noteq> 0" using step(1) by (simp add: word_unat_eq_iff)
    then have "decimal_digits (unat acc * 10 + d) = decimal_digits (unat acc) @ [c]"
      using d(1,2) by (simp add: decimal_digits.simps [of "unat acc * 10 + d"] del: of_nat_add)
    then show ?thesis using Cons.IH [OF step(4)] by (simp add: n)
  qed
qed

lemma get_decimal_Ok:
  "CBS_get_u64_decimal s = (Ok v, rest) \<longleftrightarrow> s = decimal_digits (unat v) @ rest \<and> no_digit rest"
proof
  assume h: "CBS_get_u64_decimal s = (Ok v, rest)"
  then obtain c t where s: "s = c # t" by (cases s) (auto simp: CBS_get_u64_decimal_def)
  have c: "OPENSSL_isdigit c" using h by (auto simp: CBS_get_u64_decimal_def s split: if_split_asm)
  then obtain d where d: "d < 10" "c = of_nat (48 + d)" "ucast c - 0x30 = (of_nat d :: u64)" by (rule digit_value)
  have "get_u64_decimal_loop (of_nat d) True t = (Ok v, rest)"
    using h c by (auto simp: CBS_get_u64_decimal_def s d(3) split: if_split_asm)
  moreover have "unat (of_nat d :: u64) = d" using d(1) by (simp add: unsigned_of_nat take_bit_nat_eq_self)
  ultimately show "s = decimal_digits (unat v) @ rest \<and> no_digit rest"
    using decimal_loop_Ok [of "of_nat d" t v rest] d(1,2) by (simp add: s decimal_digits.simps [of d] del: of_nat_add)
qed (simp add: get_decimal_digits)

subsection \<open>Object identifiers\<close>

abbreviation dot :: u8 where "dot \<equiv> byte_of_char (CHR ''.'')"

fun dotted :: "u64 list \<Rightarrow> bytes" where
  "dotted [] = []"
| "dotted [v] = decimal_digits (unat v)"
| "dotted (v # w # vs) = decimal_digits (unat v) @ dot # dotted (w # vs)"

text \<open>The first two components share one base-128 integer.\<close>

definition oid_ok :: "u64 \<Rightarrow> u64 \<Rightarrow> bool" where
  "oid_ok a b \<longleftrightarrow> a \<le> 2 \<and> (a < 2 \<longrightarrow> b \<le> 39) \<and> b \<le> 0xffffffffffffffff - 80"

fun oid_content :: "u64 list \<Rightarrow> bytes" where
  "oid_content (a # b # vs) = concat (map base128 ((40 * a + b) # vs))"
| "oid_content _ = []"

lemma dot_simps: "\<not> OPENSSL_isdigit dot" "dot = 0x2e"
  by (simp_all add: byte_of_char_def OPENSSL_isdigit_def of_char_def)

lemma decimal_nonempty: "decimal_digits n \<noteq> []"
  by (subst decimal_digits.simps) simp

lemma dotted_nonempty: "dotted (v # vs) \<noteq> []"
  by (cases vs) (simp_all add: decimal_nonempty)

lemma parse_dotted_last: "parse_dotted_decimal (decimal_digits (unat v)) = (Ok v, [])"
  using get_decimal_digits [of "[]" v] by (simp add: parse_dotted_decimal_def bnd_simps no_digit_def)

lemma parse_dotted_more:
  "rest \<noteq> [] \<Longrightarrow> parse_dotted_decimal (decimal_digits (unat v) @ dot # rest) = (Ok v, rest)"
  using get_decimal_digits [of "dot # rest" v] by (simp add: parse_dotted_decimal_def bnd_simps no_digit_def dot_simps(1))

lemma parse_dotted_step:
  "parse_dotted_decimal (dotted (v # vs)) = (Ok v, dotted vs)"
  using parse_dotted_last parse_dotted_more dotted_nonempty by (cases vs) auto

lemma parse_dotted_Ok:
  assumes "parse_dotted_decimal s = (Ok v, rest)"
  shows "s = decimal_digits (unat v) \<and> rest = [] \<or> s = decimal_digits (unat v) @ dot # rest \<and> rest \<noteq> []"
proof -
  obtain t where t: "CBS_get_u64_decimal s = (Ok v, t)" "t = [] \<and> rest = [] \<or> t = dot # rest \<and> rest \<noteq> []"
    using assms
    by (auto simp: parse_dotted_decimal_def bnd_Ok_iff CBS_get_u8_def cbs_get_def bnd_def neq_Nil_conv
        split: res.splits prod.splits if_split_asm) 
  then show ?thesis by (auto simp: get_decimal_Ok)
qed

lemma writes_oid_rest: "writes A d (concat (map base128 vs)) () (oid_rest_loop A d (dotted vs))"
proof (induction vs)
  case Nil
  have "oid_rest_loop A d [] = ret ()" by (rule ext) (simp add: oid_rest_loop.simps)
  then show ?case by (simp add: writes_ret del: ret_simp)
next
  case (Cons v vs)
  have "oid_rest_loop A d (dotted (v # vs)) = bnd (add_base128_integer A d v) (\<lambda>_. oid_rest_loop A d (dotted vs))"
    by (rule ext) (subst oid_rest_loop.simps, simp add: parse_dotted_step dotted_nonempty bnd_def)
  then show ?case using writes_bnd_unit [OF writes_base128 Cons] by simp
qed

lemma writes_oid_from_text:
  assumes "oid_ok a b"
  shows "writes A d (oid_content (a # b # vs)) () (CBB_add_asn1_oid_from_text A d (dotted (a # b # vs)))"
proof -
  have ok: "(a > 2 \<or> a < 2 \<and> b > 39 \<or> b > 0xffffffffffffffff - 80) = False"
    using assms by (auto simp: oid_ok_def)
  have p: "bnd parse_dotted_decimal (\<lambda>a. bnd parse_dotted_decimal (\<lambda>b. ret (a, b))) (dotted (a # b # vs)) =
      (Ok (a, b), dotted vs)"
    by (simp add: bnd_simps parse_dotted_step del: dotted.simps)
  have eq: "CBB_add_asn1_oid_from_text A d (dotted (a # b # vs)) =
      bnd (CBB_flush A d) (\<lambda>_. bnd (add_base128_integer A d (40 * a + b)) (\<lambda>_. oid_rest_loop A d (dotted vs)))"
    by (simp only: CBB_add_asn1_oid_from_text_def p res.case prod.case ok if_False)
  have "writes A d [] () (CBB_flush A d)"
    unfolding writes_def by (auto simp: flush_leaf intro: ext_refl)
  from writes_bnd_unit [OF this writes_bnd_unit [OF writes_base128 writes_oid_rest]]
  show ?thesis unfolding eq by simp
qed

subsection \<open>Identifiers to text\<close>

lemma writes_decimal: "length (decimal_digits (unat v)) < 2 ^ 64 \<Longrightarrow> writes A d (decimal_digits (unat v)) () (add_decimal A d v)"
  unfolding add_decimal_def by (rule writes_add_bytes)

lemma decimal_length: "n < 10 ^ Suc k \<Longrightarrow> length (decimal_digits n) \<le> Suc k"
proof (induction k arbitrary: n)
  case 0
  then show ?case by (subst decimal_digits.simps) simp
next
  case (Suc k)
  have "n div 10 < 10 ^ Suc k" using Suc.prems by (simp add: less_mult_imp_div_less)
  then have "length (decimal_digits (n div 10)) \<le> Suc k" by (rule Suc.IH)
  then show ?case by (subst decimal_digits.simps) simp
qed

lemma decimal_length_u64: "length (decimal_digits (unat (v :: u64))) \<le> 20"
proof -
  have "unat v < 2 ^ 64" using unsigned_less [of v, where 'a = nat] by simp
  then have "unat v < 10 ^ Suc 19" by simp
  then show ?thesis using decimal_length [of "unat v" 19] by simp
qed

lemma writes_add_decimal: "writes A d (decimal_digits (unat v)) () (add_decimal A d v)"
  using decimal_length_u64 [of v] by (intro writes_decimal) simp

lemma writes_oid_text: 
  "writes A 0 (concat (map (\<lambda>v. dot # decimal_digits (unat v)) vs)) () (oid_text_loop A (concat (map base128 vs)))"
proof (induction vs)
  case Nil
  have "oid_text_loop A [] = ret ()" by (rule ext) (simp add: oid_text_loop.simps)
  then show ?case by (simp add: writes_ret del: ret_simp)
next
  case (Cons v vs)
  have "oid_text_loop A (concat (map base128 (v # vs))) =
      bnd (bnd (CBB_add_u8 A 0 dot) (\<lambda>_. add_decimal A 0 v)) (\<lambda>_. oid_text_loop A (concat (map base128 vs)))"
    by (rule ext) (subst oid_text_loop.simps, simp add: parse_base128_integer_base128 base128_nonempty bnd_def)
  then show ?case
    using writes_bnd_unit [OF writes_bnd_unit [OF writes_add_u8 [of A 0 dot] writes_add_decimal] Cons] by simp
qed

lemma dotted_Cons: "dotted (v # vs) = decimal_digits (unat v) @ concat (map (\<lambda>v. dot # decimal_digits (unat v)) vs)"
  by (induction vs arbitrary: v) simp_all

text \<open>The first base-128 integer of an identifier and the two components it stands for.\<close>

lemma first_arcs:
  assumes "oid_ok a b"
  shows "40 * a + b \<ge> 80 \<longleftrightarrow> a = 2"
    and "a = 2 \<Longrightarrow> 40 * a + b - 80 = b"
    and "a \<noteq> 2 \<Longrightarrow> (40 * a + b) div 40 = a \<and> (40 * a + b) mod 40 = b"
proof -
  have "unat a \<le> 2" using assms by (simp add: oid_ok_def word_le_nat_alt)
  then have "unat a = 0 \<or> unat a = 1 \<or> unat a = 2" by linarith
  then consider "a = 0" | "a = 1" | "a = 2" by (auto simp: word_unat_eq_iff)
  note a = this
  have b: "a \<noteq> 2 \<Longrightarrow> unat b \<le> 39"
    using a assms by cases (simp_all add: oid_ok_def word_le_nat_alt)
  have "unat b \<le> 18446744073709551535" using assms by (simp add: oid_ok_def word_le_nat_alt)
  then have two: "unat (80 + b) = 80 + unat b" by (simp add: unat_word_ariths)
  show "40 * a + b \<ge> 80 \<longleftrightarrow> a = 2"
    using a b two by cases (auto simp: word_le_nat_alt unat_word_ariths)
  show "a = 2 \<Longrightarrow> 40 * a + b - 80 = b" by simp
  show "a \<noteq> 2 \<Longrightarrow> (40 * a + b) div 40 = a \<and> (40 * a + b) mod 40 = b"
    using a b by cases (auto simp: word_unat_eq_iff unat_word_ariths unat_div unat_mod)
qed


lemma CBB_init_cases:
  assumes "n < 2 ^ 64"
  obtains (ok) s where "CBB_init A n = Ok s" "shape s" "\<not> error s" "chain s = []" "out s = []" "can_resize s" "len s = 0"
  | (fail) "CBB_init A n = Fail" "\<not> always_grants A"
proof (cases "c_malloc A 0 n")
  case None
  then have "\<not> always_grants A" by (auto simp: c_malloc_def always_grants_def split: if_splits)
  then show ?thesis
    using None assms
    by (cases "n = 0") (intro ok [of "cbb_init [] 0 True (CBB_zero\<lparr>mallocs := 1\<rparr>)"] fail;
      simp add: CBB_init_def cbb_init_def CBB_zero_def shape_def out_def)+
next
  case (Some b)
  then have "length b = n" by (auto simp: c_malloc_def split: if_splits)
  then show ?thesis
    using Some assms by (intro ok) (auto simp: CBB_init_def cbb_init_def CBB_zero_def shape_def out_def)
qed

lemma CBB_finish_leaf:
  "shape s \<Longrightarrow> \<not> error s \<Longrightarrow> chain s = [] \<Longrightarrow> fst (CBB_finish A 0 True s) = Ok (out s)"
  by (simp add: CBB_finish_def flush_leaf bnd_def CBB_cleanup_def out_def)

text \<open>A whole run: a fresh CBB that can grow, one writer, and \<open>CBB_finish\<close>.\<close>

lemma writes_run:
  assumes w: "writes A 0 bs r m" and n: "n < 2 ^ 64"
  obtains (ok) s s' where "CBB_init A n = Ok s" "m s = (Ok r, s')" "fst (CBB_finish A 0 True s') = Ok bs"
  | (init) "CBB_init A n = Fail" "\<not> always_grants A"
  | (no_room) s s' where "CBB_init A n = Ok s" "m s = (Fail, s')" "\<not> (always_grants A \<and> length bs < 2 ^ 64)"
  using n
proof (cases rule: CBB_init_cases [where A = A])
  case (ok s)
  have "length (chain s) = 0" using ok by simp
  from w ok(2,3) this show ?thesis
  proof (cases rule: writesD)
    case w: (ok s')
    then have "shape s'" "\<not> error s'" "chain s' = []" "out s' = bs" using ok by (simp_all add: ext_def)
    then show ?thesis using w ok that(1) CBB_finish_leaf by blast
  next
    case w: (fail s')
    then have "\<not> (always_grants A \<and> length bs < 2 ^ 64)" using ok by (auto simp: room_def always_grants_def)
    then show ?thesis using w ok that(3) by blast
  qed
next
  case fail
  then show ?thesis using that(2) by blast
qed

lemma oid_to_text:
  assumes "oid_ok a b"
  shows "CBS_asn1_oid_to_text A (oid_content (a # b # vs)) = Ok (dotted (a # b # vs) @ [0]) \<or>
         CBS_asn1_oid_to_text A (oid_content (a # b # vs)) = Fail \<and>
           \<not> (always_grants A \<and> length (dotted (a # b # vs)) + 1 < 2 ^ 64)"
proof -
  let ?v = "40 * a + b"
  note arcs = first_arcs [OF assms]
  let ?head = "if ?v \<ge> 80
      then bnd (CBB_add_bytes A 0 (bytes_of_string ''2.'')) (\<lambda>_. add_decimal A 0 (?v - 80))
      else bnd (add_decimal A 0 (?v div 40)) (\<lambda>_. bnd (CBB_add_u8 A 0 dot) (\<lambda>_. add_decimal A 0 (?v mod 40)))"
  have head: "writes A 0 (decimal_digits (unat a) @ dot # decimal_digits (unat b)) () ?head"
  proof (cases "a = 2")
    case True
    have "decimal_digits (unat (2 :: u64)) = [0x32]" by (simp add: decimal_digits.simps [of 2])
    moreover have "bytes_of_string ''2.'' = [0x32, dot]" by (simp add: bytes_of_string_def byte_of_char_def of_char_def)
    ultimately show ?thesis
      using True arcs writes_bnd_unit [OF writes_add_bytes [of "[0x32, dot]" A 0] writes_add_decimal [of A 0 b]] by simp
  next
    case False
    then show ?thesis
      using arcs writes_bnd_unit [OF writes_add_decimal [of A 0 a] writes_bnd_unit [OF writes_add_u8 [of A 0 dot] writes_add_decimal [of A 0 b]]]
      by simp
  qed
  let ?m = "bnd ?head (\<lambda>_. bnd (oid_text_loop A (concat (map base128 vs))) (\<lambda>_. CBB_add_u8 A 0 0))"
  have m: "writes A 0 (dotted (a # b # vs) @ [0]) () ?m"
    using writes_bnd_unit [OF head writes_bnd_unit [OF writes_oid_text [of A vs] writes_add_u8 [of A 0 0]]]
    by (simp add: dotted_Cons [of b vs] del: if_split)
  have run: "CBS_asn1_oid_to_text A (oid_content (a # b # vs)) =
      (case CBB_init A 32 of Fail \<Rightarrow> Fail | Undef \<Rightarrow> Undef | Ok cbb \<Rightarrow> fst (bnd ?m (\<lambda>_. CBB_finish A 0 True) cbb))"
    by (simp add: CBS_asn1_oid_to_text_def parse_base128_integer_base128 bnd_def split: res.splits prod.splits)
  have "(32 :: nat) < 2 ^ 64" by simp
  with m show ?thesis
  proof (cases rule: writes_run)
    case (ok s s')
    then show ?thesis unfolding run by (simp only: res.case bnd_simps) simp
  next
    case init
    then show ?thesis unfolding run by simp
  next
    case (no_room s s')
    then show ?thesis unfolding run by (simp only: res.case bnd_simps) auto
  qed
qed

end
