(* ===== verification/Cbb_Safe.thy ===== *)
theory Cbb_Safe
  imports Cbb_Asn1 "HOL-Library.Multiset"
begin

text \<open>
  Memory safety of the byte-string builder: the invariant of a CBB, the proof that every operation
  keeps it, never touches memory outside the buffer and violates no \<^verbatim>\<open>assert\<close>, whatever the allocator
  does, and the states that a sequence of operations can reach.
\<close>

subsection \<open>The invariant and its preservation\<close>

definition cbb_ok :: "cbb \<Rightarrow> bool" where
  "cbb_ok s \<longleftrightarrow> shape s \<and> (\<not> error s \<longrightarrow> nested 0 (chain s) (len s))"

text \<open>A CBB that was not flushed or discarded, and one without an open child.\<close>

definition attached :: "nat \<Rightarrow> cbb \<Rightarrow> bool" where
  "attached d s \<longleftrightarrow> d \<le> length (chain s)"

definition leaf :: "nat \<Rightarrow> cbb \<Rightarrow> bool" where
  "leaf d s \<longleftrightarrow> \<not> error s \<and> length (chain s) = d"

text \<open>\<open>safe P d e m\<close>: from a state where \<open>P\<close> holds, \<open>m\<close> never leaves the buffer and violates no
  \<^verbatim>\<open>assert\<close>, keeps the invariant, leaves the CBB at depth \<open>e\<close> without a child when it succeeds and the
  CBB at depth \<open>d\<close> attached when it fails.\<close>

definition safe :: "(cbb \<Rightarrow> bool) \<Rightarrow> nat \<Rightarrow> nat \<Rightarrow> (cbb, 'a) cfun \<Rightarrow> bool" where
  "safe P d e m \<longleftrightarrow> (\<forall>s. cbb_ok s \<and> P s \<longrightarrow>
     (case m s of (Ok _, s') \<Rightarrow> cbb_ok s' \<and> leaf e s'
                | (Fail, s') \<Rightarrow> cbb_ok s' \<and> attached d s'
                | (Undef, _) \<Rightarrow> False))"

lemma safeD:
  "safe P d e m \<Longrightarrow> cbb_ok s \<Longrightarrow> P s \<Longrightarrow>
     (case m s of (Ok _, s') \<Rightarrow> cbb_ok s' \<and> leaf e s'
                | (Fail, s') \<Rightarrow> cbb_ok s' \<and> attached d s'
                | (Undef, _) \<Rightarrow> False)"
  by (simp add: safe_def)

lemma safe_bnd:
  assumes "safe P d e m" and "\<And>a. safe (leaf e) d f (g a)"
  shows "safe P d f (bnd m g)"
  using assms unfolding safe_def
  by (fastforce simp: bnd_def split: res.splits prod.splits)

lemma safe_weaken: "safe P d e m \<Longrightarrow> (\<And>s. Q s \<Longrightarrow> P s) \<Longrightarrow> d' \<le> d \<Longrightarrow> safe Q d' e m"
  unfolding safe_def attached_def by (fastforce split: res.splits prod.splits)

lemma leaf_attached: "leaf e s \<Longrightarrow> d \<le> e \<Longrightarrow> attached d s"
  by (simp add: leaf_def attached_def)

lemma safe_leaf: "safe (attached d) d e m \<Longrightarrow> safe (leaf d) d e m"
  by (erule safe_weaken) (auto simp: leaf_attached)

lemma safe_ret: "safe (leaf d) d d (ret a)"
  by (auto simp: safe_def)

lemma safe_if: "(b \<Longrightarrow> safe P d e m) \<Longrightarrow> (\<not> b \<Longrightarrow> safe P d e m') \<Longrightarrow> safe P d e (if b then m else m')"
  by simp

lemma cbb_ok_ext: "cbb_ok s \<Longrightarrow> \<not> error s \<Longrightarrow> ext s s' bs \<Longrightarrow> cbb_ok s' \<and> \<not> error s' \<and> chain s' = chain s"
  using ext_len [of s s' bs] nested_mono [of 0 "chain s" "len s" "len s'"] by (auto simp: cbb_ok_def ext_def)

lemma cbb_ok_failed: "failed d s \<Longrightarrow> cbb_ok s \<and> attached d s"
  by (simp add: failed_def cbb_ok_def attached_def)

lemma safe_writes:
  assumes "writes A d bs r m" shows "safe (leaf d) d d m"
  unfolding safe_def
proof (intro allI impI)
  fix s assume s: "cbb_ok s \<and> leaf d s"
  then have "shape s" "\<not> error s" "length (chain s) = d" by (auto simp: cbb_ok_def leaf_def)
  with assms show "case m s of (Ok _, s') \<Rightarrow> cbb_ok s' \<and> leaf d s' | (Fail, s') \<Rightarrow> cbb_ok s' \<and> attached d s'
      | (Undef, _) \<Rightarrow> False"
  proof (cases rule: writesD)
    case (ok s')
    then show ?thesis using cbb_ok_ext [of s s' bs] s by (auto simp: leaf_def)
  next
    case (fail s')
    then show ?thesis using cbb_ok_failed by auto
  qed
qed

lemma nested_take: "nested lo cs hi \<Longrightarrow> nested lo (take d cs) hi"
proof (induction lo cs hi arbitrary: d rule: nested.induct)
  case (2 lo c cs hi)
  then show ?case using nested_le [of lo "c # cs" hi] by (cases d) auto
qed simp

lemma nested_drop: "nested lo cs hi \<Longrightarrow> \<exists>lo'. nested lo' (drop d cs) hi"
proof (induction lo cs hi arbitrary: d rule: nested.induct)
  case (2 lo c cs hi)
  then show ?case by (cases d) auto
qed auto

lemma nested_take_offset: "nested lo cs hi \<Longrightarrow> d < length cs \<Longrightarrow> nested lo (take d cs) (ch_offset (cs ! d)) \<and> ch_offset (cs ! d) \<le> hi"
proof (induction lo cs hi arbitrary: d rule: nested.induct)
  case (2 lo c cs hi)
  show ?case
  proof (cases d)
    case 0
    then show ?thesis using 2 nested_le [of "ch_start c" cs hi] by (simp add: ch_start_def)
  next
    case (Suc k)
    then show ?thesis using 2 by simp
  qed
qed simp

lemma safe_flush: "safe (attached d) d d (CBB_flush A d)"
  unfolding safe_def
proof (intro allI impI)
  fix s assume s: "cbb_ok s \<and> attached d s"
  show "case CBB_flush A d s of (Ok _, s') \<Rightarrow> cbb_ok s' \<and> leaf d s' | (Fail, s') \<Rightarrow> cbb_ok s' \<and> attached d s'
      | (Undef, _) \<Rightarrow> False"
  proof (cases "error s")
    case True
    then have "CBB_flush A d s = (Fail, s)" by (subst CBB_flush.simps) simp
    then show ?thesis using s by simp
  next
    case False
    then have n: "nested 0 (chain s) (len s)" "shape s" "d \<le> length (chain s)"
      using s by (auto simp: cbb_ok_def attached_def)
    obtain lo where "nested lo (drop d (chain s)) (len s)" using nested_drop [OF n(1)] by blast
    from CBB_flush_spec [OF n(2) False n(3) this, of A] show ?thesis
    proof (elim disjE exE conjE)
      fix s' assume "CBB_flush A d s = (Ok (), s')" "grown s s'" "chain s' = take d (chain s)"
      then show ?thesis
        using nested_mono [OF nested_take [OF n(1)], of "len s'" d] n(3) False
        by (auto simp: cbb_ok_def leaf_def grown_def)
    next
      fix s' assume "CBB_flush A d s = (Fail, s')" "failed d s'"
      then show ?thesis using cbb_ok_failed by auto
    qed
  qed
qed

text \<open>An operation that flushes first can be used below open children.\<close>

lemma flush_idem: "bnd (CBB_flush A d) (\<lambda>_. bnd (CBB_flush A d) f) s = bnd (CBB_flush A d) f s" if "cbb_ok s" "attached d s"
proof (cases "CBB_flush A d s")
  case (Pair r s')
  have "case CBB_flush A d s of (Ok _, s') \<Rightarrow> cbb_ok s' \<and> leaf d s' | (Fail, s') \<Rightarrow> cbb_ok s' \<and> attached d s'
      | (Undef, _) \<Rightarrow> False"
    by (rule safeD [OF safe_flush that])
  then show ?thesis
    using Pair by (cases r) (simp_all add: bnd_def leaf_def flush_leaf)
qed

lemma safe_flush_first:
  assumes "m = bnd (CBB_flush A d) f" and "safe (leaf d) d e m"
  shows "safe (attached d) d e m"
proof -
  have "safe (attached d) d e (bnd (CBB_flush A d) (\<lambda>_. m))"
    by (rule safe_bnd [OF safe_flush assms(2)])
  then show ?thesis unfolding safe_def assms(1) by (simp add: flush_idem)
qed

lemma safe_on_fail: "safe P d e m \<Longrightarrow> safe P d e (on_fail d m)"
  unfolding safe_def on_fail_def
  by (fastforce simp: cbb_on_error_def attached_def cbb_ok_def shape_def split: res.splits prod.splits)

subsection \<open>Every operation is safe\<close>

text \<open>Sizes are \<^verbatim>\<open>size_t\<close> values.\<close>

abbreviation size_ok :: "nat \<Rightarrow> bool" where "size_ok n \<equiv> n < 2 ^ 64"

lemma safe_add_u: "size_ok n \<Longrightarrow> safe (leaf d) d d (cbb_add_u A d v n)"
  unfolding safe_def
proof (intro allI impI)
  fix s assume n: "size_ok n" and s: "cbb_ok s \<and> leaf d s"
  then have sh: "shape s" "\<not> error s" "length (chain s) = d" by (auto simp: cbb_ok_def leaf_def)
  show "case cbb_add_u A d v n s of (Ok _, s') \<Rightarrow> cbb_ok s' \<and> leaf d s' | (Fail, s') \<Rightarrow> cbb_ok s' \<and> attached d s'
      | (Undef, _) \<Rightarrow> False"
    using sh(1) n
  proof (cases rule: buffer_add_cases [where A = A])
    case (ok s1)
    have fits: "len s + n \<le> length (buf s1)" using ok by (simp add: shape_def)
    define s2 where "s2 = s1\<lparr>buf := take (len s) (buf s1) @ be_bytes n v @ drop (len s + n) (buf s1)\<rparr>"
    have "shape s2" using buf_write_out [of s1 s "be_bytes n v"] ok sh by (simp add: s2_def)
    moreover have "nested 0 (chain s) (len s + n)"
      using s sh(2) nested_mono by (auto simp: cbb_ok_def)
    ultimately have "cbb_ok s2 \<and> leaf d s2" using ok sh by (simp add: cbb_ok_def leaf_def s2_def)
    moreover have "cbb_add_u A d v n s = (if drop_bit (8 * n) v \<noteq> 0 then cbb_on_error d s2 else (Ok (), s2))"
      using ok sh store_be_eq [OF fits, of v]
      by (simp add: cbb_add_u_def CBB_add_space_def bnd_simps flush_leaf s2_def)
    ultimately show ?thesis by (auto simp: cbb_on_error_def cbb_ok_def leaf_def attached_def shape_def)
  next
    case (fail s1)
    then have "cbb_add_u A d v n s = (Fail, s1)"
      using sh by (simp add: cbb_add_u_def CBB_add_space_def bnd_simps flush_leaf)
    then show ?thesis using fail(2) sh(3) cbb_ok_failed by auto
  qed
qed

lemma cbb_add_u_flush:
  "cbb_add_u A d v n = bnd (CBB_flush A d) (\<lambda>_. bnd (cbb_buffer_add A n) (\<lambda>buf.
     bnd (store_be buf n v) (\<lambda>rest. if rest \<noteq> 0 then cbb_on_error d else ret ())))"
  by (rule ext) (simp add: cbb_add_u_def CBB_add_space_def bnd_def split: res.splits prod.splits)

lemma safe_add_u_at: "size_ok n \<Longrightarrow> safe (attached d) d d (cbb_add_u A d v n)"
  by (rule safe_flush_first [OF cbb_add_u_flush safe_add_u])

lemma safe_add_ints:
  "safe (attached d) d d (CBB_add_u8 A d b)" "safe (attached d) d d (CBB_add_u16 A d v)"
  "safe (attached d) d d (CBB_add_u24 A d w)" "safe (attached d) d d (CBB_add_u32 A d w)"
  "safe (attached d) d d (CBB_add_u64 A d x)" "safe (attached d) d d (CBB_add_u16le A d v)"
  "safe (attached d) d d (CBB_add_u32le A d w)" "safe (attached d) d d (CBB_add_u64le A d x)"
  by (simp_all add: CBB_add_u8_def CBB_add_u16_def CBB_add_u24_def CBB_add_u32_def CBB_add_u64_def
      CBB_add_u16le_def CBB_add_u32le_def CBB_add_u64le_def safe_add_u_at)

lemma add_bytes_flush:
  "CBB_add_bytes A d data = bnd (CBB_flush A d) (\<lambda>_. bnd (cbb_buffer_add A (length data)) (\<lambda>out. buf_write out data))"
  by (rule ext) (simp add: CBB_add_bytes_def CBB_add_space_def bnd_def split: res.splits prod.splits)

lemma safe_add_bytes: "size_ok (length data) \<Longrightarrow> safe (attached d) d d (CBB_add_bytes A d data)"
  by (rule safe_flush_first [OF add_bytes_flush safe_writes [OF writes_add_bytes]])

lemma add_zeros_bytes: "CBB_add_zeros A d n = CBB_add_bytes A d (replicate n 0)"
  by (simp add: CBB_add_zeros_def CBB_add_bytes_def)

lemma safe_buffer_add: "size_ok n \<Longrightarrow> safe (leaf d) d d (cbb_buffer_add A n)"
  unfolding safe_def
proof (intro allI impI)
  fix s assume n: "size_ok n" and s: "cbb_ok s \<and> leaf d s"
  then have sh: "shape s" "\<not> error s" "length (chain s) = d" "nested 0 (chain s) (len s)" by (auto simp: cbb_ok_def leaf_def)
  show "case cbb_buffer_add A n s of (Ok _, s') \<Rightarrow> cbb_ok s' \<and> leaf d s' | (Fail, s') \<Rightarrow> cbb_ok s' \<and> attached d s'
      | (Undef, _) \<Rightarrow> False"
    using sh(1) n
  proof (cases rule: buffer_add_cases [where A = A])
    case (ok s1)
    then show ?thesis using sh nested_mono [OF sh(4), of "len s + n"] by (simp add: cbb_ok_def leaf_def)
  next
    case (fail s1)
    then show ?thesis using sh(3) cbb_ok_failed by auto
  qed
qed

lemma safe_add_space: "size_ok n \<Longrightarrow> safe (attached d) d d (CBB_add_space A d n)"
  unfolding CBB_add_space_def by (rule safe_bnd [OF safe_flush safe_buffer_add])

lemma reserve_via_add:
  "cbb_buffer_reserve A n s = (case cbb_buffer_add A n s of (Ok a, s') \<Rightarrow> (Ok a, s'\<lparr>len := len s\<rparr>) | r \<Rightarrow> r)"
  by (auto simp: cbb_buffer_add_def bnd_def cbb_buffer_reserve_def Let_def split: option.splits)

lemma safe_reserve: "size_ok n \<Longrightarrow> safe (attached d) d d (CBB_reserve A d n)"
  unfolding CBB_reserve_def
proof (rule safe_bnd [OF safe_flush])
  assume n: "size_ok n"
  show "safe (leaf d) d d (cbb_buffer_reserve A n)"
    unfolding safe_def
  proof (intro allI impI)
    fix s assume s: "cbb_ok s \<and> leaf d s"
    then have sh: "shape s" "\<not> error s" "length (chain s) = d" "nested 0 (chain s) (len s)" by (auto simp: cbb_ok_def leaf_def)
    show "case cbb_buffer_reserve A n s of (Ok _, s') \<Rightarrow> cbb_ok s' \<and> leaf d s' | (Fail, s') \<Rightarrow> cbb_ok s' \<and> attached d s'
      | (Undef, _) \<Rightarrow> False"
      using sh(1) n
    proof (cases rule: buffer_add_cases [where A = A])
      case (ok s1)
      then show ?thesis using sh by (simp add: reserve_via_add cbb_ok_def leaf_def shape_def)
    next
      case (fail s1)
      then show ?thesis using sh(3) cbb_ok_failed by (auto simp: reserve_via_add)
    qed
  qed
qed

lemma nested_snoc: "nested lo cs hi \<Longrightarrow> child_ok c \<Longrightarrow> hi \<le> ch_offset c \<Longrightarrow> nested lo (cs @ [c]) (ch_start c)"
  by (induction lo cs hi rule: nested.induct) auto

lemma safe_add_child:
  assumes "size_ok k" "asn \<longrightarrow> k = 1"
  shows "safe (leaf d) d (Suc d) (cbb_add_child A d k asn)"
  unfolding safe_def
proof (intro allI impI)
  fix s assume s: "cbb_ok s \<and> leaf d s"
  then have sh: "shape s" "\<not> error s" "length (chain s) = d" "nested 0 (chain s) (len s)" by (auto simp: cbb_ok_def leaf_def)
  from sh(1-3) assms show "case cbb_add_child A d k asn s of (Ok _, s') \<Rightarrow> cbb_ok s' \<and> leaf (Suc d) s'
      | (Fail, s') \<Rightarrow> cbb_ok s' \<and> attached d s' | (Undef, _) \<Rightarrow> False"
  proof (cases rule: add_child_cases [where A = A])
    case (ok s')
    let ?c = "\<lparr>ch_offset = len s, pending_len_len = k, pending_is_asn1 = asn\<rparr>"
    have "nested 0 (chain s @ [?c]) (ch_start ?c)"
      using assms by (intro nested_snoc [OF sh(4)]) (simp_all add: child_ok_def)
    moreover have "len s' = len s + k"
      using ok length_out [of s'] length_out [OF sh(1)] by (simp add: grown_def)
    ultimately show ?thesis using ok sh by (simp add: cbb_ok_def leaf_def grown_def ch_start_def)
  next
    case (fail s')
    then show ?thesis using cbb_ok_failed by auto
  qed
qed

lemma safe_length_prefixed: "size_ok k \<Longrightarrow> safe (attached d) d (Suc d) (cbb_add_length_prefixed A d k)"
  unfolding cbb_add_length_prefixed_def by (rule safe_bnd [OF safe_flush safe_add_child]) simp_all

lemma safe_add_asn1: "safe (attached d) d (Suc d) (CBB_add_asn1 A d tag)"
  unfolding CBB_add_asn1_eq
  by (rule safe_bnd [OF safe_flush safe_bnd [OF safe_writes [OF writes_tag] safe_add_child]]) simp_all

text \<open>The operations that open a child, fill it and flush it.\<close>

lemma safe_flush_child: "safe (leaf (Suc d)) d d (CBB_flush A d)"
  by (rule safe_weaken [OF safe_flush]) (simp_all add: leaf_attached)

lemma safe_element_outside:
  assumes "safe (leaf (Suc d)) (Suc d) (Suc d) m"
  shows "safe (attached d) d d (bnd (on_fail d (bnd (CBB_add_asn1 A d tag) (\<lambda>_. m))) (\<lambda>_. CBB_flush A d))"
  by (rule safe_bnd [OF safe_on_fail [OF safe_bnd [OF safe_add_asn1 safe_weaken [OF assms]]] safe_flush_child]) simp_all

lemma safe_element_inside:
  assumes "safe (leaf (Suc d)) (Suc d) (Suc d) m"
  shows "safe (attached d) d d (on_fail d (bnd (CBB_add_asn1 A d tag) (\<lambda>_. bnd m (\<lambda>_. CBB_flush A d))))"
  by (rule safe_on_fail [OF safe_bnd [OF safe_add_asn1 safe_bnd [OF safe_weaken [OF assms] safe_flush_child]]]) simp_all

lemma safe_add_u8_leaf: "safe (leaf d) d d (CBB_add_u8 A d b)"
  by (rule safe_writes [OF writes_add_u8])

lemma safe_uint64: "safe (attached d) d d (CBB_add_asn1_uint64_with_tag A d v tag)"
  unfolding CBB_add_asn1_uint64_with_tag_def Suc_eq_plus1 [symmetric]
proof (rule safe_element_outside, rule safe_bnd)
  show "safe (leaf (Suc d)) (Suc d) (Suc d) (add_uint64_loop A (Suc d) v 8 False)"
    by (rule safe_writes [OF writes_uint64_loop]) simp
  show "safe (leaf (Suc d)) (Suc d) (Suc d) (if \<not> started then CBB_add_u8 A (Suc d) 0 else ret ())" for started
    by (intro safe_if safe_add_u8_leaf safe_ret)
qed

lemma safe_int64: "safe (attached d) d d (CBB_add_asn1_int64_with_tag A d v tag)"
  unfolding CBB_add_asn1_int64_with_tag_def Suc_eq_plus1 [symmetric]
  by (intro safe_if safe_uint64 safe_element_outside safe_writes [OF writes_int64_loop])

lemma safe_octet_string: "size_ok (length data) \<Longrightarrow> safe (attached d) d d (CBB_add_asn1_octet_string A d data)"
  unfolding CBB_add_asn1_octet_string_def Suc_eq_plus1 [symmetric]
  by (intro safe_element_inside safe_writes [OF writes_add_bytes])

lemma safe_bool: "safe (attached d) d d (CBB_add_asn1_bool A d b)"
  unfolding CBB_add_asn1_bool_def Suc_eq_plus1 [symmetric] by (intro safe_element_inside safe_add_u8_leaf)

lemma safeI:
  "(\<And>s. cbb_ok s \<Longrightarrow> P s \<Longrightarrow>
     (case m s of (Ok _, s') \<Rightarrow> cbb_ok s' \<and> leaf e s'
                | (Fail, s') \<Rightarrow> cbb_ok s' \<and> attached d s'
                | (Undef, _) \<Rightarrow> False)) \<Longrightarrow> safe P d e m"
  by (simp add: safe_def)

lemma safe_same_state: "fst (m s) \<noteq> Undef \<Longrightarrow> snd (m s) = s \<Longrightarrow>
   cbb_ok s \<Longrightarrow> leaf d s \<Longrightarrow> case m s of (Ok _, s') \<Rightarrow> cbb_ok s' \<and> leaf d s' | (Fail, s') \<Rightarrow> cbb_ok s' \<and> attached d s'
      | (Undef, _) \<Rightarrow> False"
  by (cases "m s") (auto simp: leaf_attached split: res.splits)

lemma safe_oid_rest: "safe (leaf d) d d (oid_rest_loop A d cbs)"
proof -
  have "case oid_rest_loop A d cbs s of (Ok _, s') \<Rightarrow> cbb_ok s' \<and> leaf d s' | (Fail, s') \<Rightarrow> cbb_ok s' \<and> attached d s'
      | (Undef, _) \<Rightarrow> False" if "cbb_ok s" "leaf d s" for s
    using that
  proof (induction A d cbs s rule: oid_rest_loop.induct)
    case (1 A d cbs s)
    show ?case
    proof (cases "parse_dotted_decimal cbs")
      case (Pair r cbs')
      have p: "r \<noteq> Undef" using parse_dotted_decimal.rd_defined [OF Pair] .
      have s: "case add_base128_integer A d a s of (Ok _, s') \<Rightarrow> cbb_ok s' \<and> leaf d s' | (Fail, s') \<Rightarrow> cbb_ok s' \<and> attached d s'
          | (Undef, _) \<Rightarrow> False" for a
        by (rule safeD [OF safe_writes [OF writes_base128] "1.prems"])
      show ?thesis
      proof (cases "length cbs = 0")
        case True
        then show ?thesis using "1.prems" by (subst oid_rest_loop.simps) simp
      next
        case False
        show ?thesis
        proof (cases r)
          case (Ok a)
          show ?thesis
          proof (cases "add_base128_integer A d a s")
            case inner: (Pair r' s1)
            show ?thesis
            proof (cases r')
              case (Ok u)
              then show ?thesis
                using "1.IH" [OF False Pair [symmetric] \<open>r = Ok a\<close> inner [symmetric]] s [of a] inner Pair \<open>r = Ok a\<close> False
                by (subst oid_rest_loop.simps) simp
            next
              case Fail
              then show ?thesis using s [of a] inner Pair \<open>r = Ok a\<close> False by (subst oid_rest_loop.simps) simp
            next
              case Undef
              then show ?thesis using s [of a] inner by simp
            qed
          qed
        next
          case Fail
          then show ?thesis using Pair False "1.prems" leaf_attached by (subst oid_rest_loop.simps) simp
        next
          case Undef
          then show ?thesis using p by simp
        qed
      qed
    qed
  qed
  then show ?thesis by (rule safeI)
qed

lemma safe_oid_from_text: "safe (attached d) d d (CBB_add_asn1_oid_from_text A d txt)"
  unfolding CBB_add_asn1_oid_from_text_def
proof (rule safe_bnd [OF safe_flush])
  let ?p = "bnd parse_dotted_decimal (\<lambda>a. bnd parse_dotted_decimal (\<lambda>b. ret (a, b)))"
  have rd: "byte_reader ?p"
    by (intro reader_intros parse_dotted_decimal.byte_reader_axioms)
  obtain r cbs where p: "?p txt = (r, cbs)" by fastforce
  have "r \<noteq> Undef" using byte_reader.rd_defined [OF rd p] .
  moreover have "safe (leaf d) d d (\<lambda>s. if a > 2 \<or> a < 2 \<and> b > 39 \<or> b > 0xffffffffffffffff - 80 then (Fail, s)
      else bnd (add_base128_integer A d (40 * a + b)) (\<lambda>_. oid_rest_loop A d cbs) s)" for a b
  proof (cases "a > 2 \<or> a < 2 \<and> b > 39 \<or> b > 0xffffffffffffffff - 80")
    case True
    then show ?thesis by (simp only: if_True) (auto simp: safe_def leaf_attached)
  next
    case False
    then show ?thesis by (simp only: if_False) (intro safe_bnd [OF safe_writes [OF writes_base128] safe_oid_rest])
  qed
  moreover have "safe (leaf d) d d (\<lambda>s. (Fail, s))" by (auto simp: safe_def leaf_attached)
  ultimately show "safe (leaf d) d d (\<lambda>s. case ?p txt of
         (Fail, _) \<Rightarrow> (Fail, s)
       | (Undef, _) \<Rightarrow> (Undef, s)
       | (Ok (a, b), cbs) \<Rightarrow>
           if a > 2 \<or> a < 2 \<and> b > 39 \<or> b > 0xffffffffffffffff - 80 then (Fail, s)
           else bnd (add_base128_integer A d (40 * a + b)) (\<lambda>_. oid_rest_loop A d cbs) s)"
    unfolding p by (cases r) (auto split: prod.splits)
qed

lemma discard_ok: "cbb_ok s \<Longrightarrow> \<not> error s \<Longrightarrow> cbb_ok (CBB_discard_child d s)"
  using nested_take_offset [of 0 "chain s" "len s" d]
  by (auto simp: CBB_discard_child_def cbb_ok_def shape_def)

lemma did_write_ok:
  assumes "cbb_ok s" "\<not> error s" "attached d s" "size_ok n"
  shows "case CBB_did_write d n s of (Ok _, s') \<Rightarrow> cbb_ok s' \<and> leaf d s' | (Fail, s') \<Rightarrow> cbb_ok s' \<and> attached d s'
      | (Undef, _) \<Rightarrow> False"
proof -
  have "nested 0 (chain s) (len s)" using assms by (simp add: cbb_ok_def)
  then have "len s \<le> size_add (len s) n \<Longrightarrow> nested 0 (chain s) (size_add (len s) n)" by (rule nested_mono)
  then show ?thesis
    using assms by (auto simp: CBB_did_write_def cbb_ok_def shape_def leaf_def attached_def Let_def)
qed

subsection \<open>The elements of a SET OF\<close>


text \<open>A DER sequence, independent of the parser: the encodings of legal elements one after another.\<close>

definition der_sequence :: "bytes \<Rightarrow> (asn1_tag \<times> bytes) list \<Rightarrow> bool" where
  "der_sequence cs es \<longleftrightarrow>
     (\<forall>(tag, body)\<in>set es. valid_tag tag \<and> length body \<le> max_der_len) \<and>
     cs = concat (map (\<lambda>(tag, body). der_element tag body) es)"

definition the_elements :: "(asn1_tag \<times> bytes) list \<Rightarrow> set_element list" where
  "the_elements es = map (\<lambda>(tag, body). SetElement (der_element tag body)) es"

lemma element_bytes_the_elements [simp]:
  "map element_bytes (the_elements es) = map (\<lambda>(tag, body). der_element tag body) es"
  "length (the_elements es) = length es"
  by (simp_all add: the_elements_def case_prod_beta comp_def)

lemma der_sequence_Nil [simp]: "der_sequence cs [] \<longleftrightarrow> cs = []" "der_sequence [] es \<longleftrightarrow> es = []"
  using der_element_nonempty by (cases es; force simp: der_sequence_def)+

lemma der_sequence_Cons:
  "der_sequence cs ((tag, body) # es) \<longleftrightarrow>
     (\<exists>rest. CBS_get_any_asn1_element cs = (Ok (the_element tag body), rest) \<and> der_sequence rest es)"
proof
  assume "der_sequence cs ((tag, body) # es)"
  then show "\<exists>rest. CBS_get_any_asn1_element cs = (Ok (the_element tag body), rest) \<and> der_sequence rest es"
    by (auto simp: der_sequence_def CBS_get_any_asn1_element_def get_element_der_element)
next
  assume "\<exists>rest. CBS_get_any_asn1_element cs = (Ok (the_element tag body), rest) \<and> der_sequence rest es"
  then obtain rest where r: "CBS_get_any_asn1_element cs = (Ok (the_element tag body), rest)" "der_sequence rest es"
    by blast
  obtain b where b: "valid_tag tag" "length b \<le> max_der_len" "the_element tag body = the_element tag b"
    "cs = der_element tag b @ rest"
    using get_element_Ok [OF r(1)] by (auto simp: the_element_def [THEN arg_cong, of el_tag])
  have "der_element tag body = der_element tag b" using b(3) by (simp add: the_element_def)
  with get_element_der_element [OF b(1,2)] b show "der_sequence cs ((tag, body) # es)" using r(2)
    by (auto simp: der_sequence_def the_element_def der_element_def der_header_def)
qed

lemma der_sequence_inj: "der_sequence cs es \<Longrightarrow> der_sequence cs es' \<Longrightarrow> es = es'"
proof (induction es arbitrary: cs es')
  case (Cons e es)
  obtain tag body where e: "e = (tag, body)" by fastforce
  obtain rest where r: "CBS_get_any_asn1_element cs = (Ok (the_element tag body), rest)" "der_sequence rest es"
    using Cons.prems(1) unfolding e der_sequence_Cons by blast
  obtain e' es'' where es': "es' = e' # es''" using Cons.prems by (cases es') (auto simp: e)
  have "CBS_get_any_asn1 cs = (Ok (tag, body), rest)" using r(1)
    by (simp add: CBS_get_any_asn1_def bnd_simps the_element_def [THEN arg_cong, of el_tag])
  moreover have "CBS_get_any_asn1 cs = (Ok e', concat (map (\<lambda>(tag, body). der_element tag body) es''))" "der_sequence (concat (map (\<lambda>(tag, body). der_element tag body) es'')) es''"
    using Cons.prems(2) unfolding es' by (cases e'; auto simp: der_sequence_def CBS_get_any_asn1_Ok)+
  ultimately show ?case using Cons.IH [OF r(2)] by (auto simp: e es')
qed simp

lemma count_elements_iff: "count_elements cs = Ok n \<longleftrightarrow> (\<exists>es. der_sequence cs es \<and> length es = n)"
proof
  show "count_elements cs = Ok n \<Longrightarrow> \<exists>es. der_sequence cs es \<and> length es = n"
  proof (induction cs arbitrary: n rule: count_elements.induct)
    case (1 cs)
    show ?case
    proof (cases cs rule: element_cases)
      case (ok tag body rest)
      then have ne: "length cs \<noteq> 0" using der_element_nonempty [of tag body] by auto
      obtain m where m: "count_elements rest = Ok m" "n = Suc m"
        using "1.prems" ne ok(1) by (cases "count_elements rest") (simp_all add: count_elements.simps [of cs])
      obtain es where "der_sequence rest es" "length es = m" using "1.IH" [OF ne ok(1) [symmetric] refl m(1)] by blast
      then have "der_sequence cs ((tag, body) # es) \<and> length ((tag, body) # es) = n"
        unfolding der_sequence_Cons using ok(1) m(2) by simp
      then show ?thesis by blast
    next
      case fail
      then have "cs = [] \<and> n = 0" using "1.prems" by (simp add: count_elements.simps [of cs] split: if_splits)
      then show ?thesis by (intro exI [of _ "[]"]) simp
    qed
  qed
next
  have "der_sequence cs es \<Longrightarrow> count_elements cs = Ok (length es)" for es
  proof (induction es arbitrary: cs)
    case Nil
    then show ?case by (simp add: count_elements.simps)
  next
    case (Cons e es)
    obtain tag body where e: "e = (tag, body)" by fastforce
    obtain rest where r: "CBS_get_any_asn1_element cs = (Ok (the_element tag body), rest)" "der_sequence rest es"
      using Cons.prems unfolding e der_sequence_Cons by blast
    have "cs \<noteq> []" using Cons.prems by auto
    then show ?case using r(1) Cons.IH [OF r(2)] by (simp add: count_elements.simps [of cs])
  qed
  then show "\<exists>es. der_sequence cs es \<and> length es = n \<Longrightarrow> count_elements cs = Ok n" by blast
qed

lemma collect_elements_iff:
  "collect_elements n cs = (Ok els, []) \<longleftrightarrow> (\<exists>es. der_sequence cs es \<and> length es = n \<and> els = the_elements es)"
proof
  show "collect_elements n cs = (Ok els, []) \<Longrightarrow> \<exists>es. der_sequence cs es \<and> length es = n \<and> els = the_elements es"
  proof (induction n arbitrary: cs els)
    case (Suc n)
    then obtain el t els' where g: "CBS_get_any_asn1_element cs = (Ok el, t)" "collect_elements n t = (Ok els', [])"
      "els = SetElement (el_contents el) # els'"
      by (auto simp: bnd_Ok_iff)
    obtain body where b: "el = the_element (el_tag el) body" using get_element_Ok [OF g(1)] by blast
    obtain es where es: "der_sequence t es" "length es = n" "els' = the_elements es" using Suc.IH [OF g(2)] by blast
    have "der_sequence cs ((el_tag el, body) # es)" unfolding der_sequence_Cons using g(1) b es(1) by auto
    moreover have "els = the_elements ((el_tag el, body) # es)"
      using g(3) es(3) b [THEN arg_cong, of el_contents] by (simp add: the_elements_def the_element_def)
    ultimately show ?case using es(2) by (metis length_Cons)
  qed (simp add: the_elements_def)
next
  have "der_sequence cs es \<Longrightarrow> collect_elements (length es) cs = (Ok (the_elements es), [])" for es
  proof (induction es arbitrary: cs)
    case (Cons e es)
    obtain tag body where e: "e = (tag, body)" by fastforce
    obtain rest where r: "CBS_get_any_asn1_element cs = (Ok (the_element tag body), rest)" "der_sequence rest es"
      using Cons.prems unfolding e der_sequence_Cons by blast
    show ?case using r(1) Cons.IH [OF r(2)] by (simp add: e bnd_simps the_elements_def the_element_def)
  qed (simp add: the_elements_def)
  then show "\<exists>es. der_sequence cs es \<and> length es = n \<and> els = the_elements es \<Longrightarrow> collect_elements n cs = (Ok els, [])"
    by blast
qed

lemma count_defined: "count_elements cs \<noteq> Undef"
proof (induction cs rule: count_elements.induct)
  case (1 cs)
  show ?case
  proof (cases "length cs = 0")
    case False
    obtain r rest where g: "CBS_get_any_asn1_element cs = (r, rest)" by fastforce
    have "r \<noteq> Undef" using CBS_get_any_asn1_element.rd_defined [OF g] .
    then show ?thesis
      using "1.IH" [OF False g [symmetric]] g False
      by (cases r; cases "count_elements rest") (auto simp: count_elements.simps [of cs])
  qed (subst count_elements.simps, simp)
qed

lemma write_elements_eq:
  "off + length (concat (map element_bytes els)) \<le> length (buf s) \<Longrightarrow>
   write_elements off els s =
     (Ok (off + length (concat (map element_bytes els))),
      s\<lparr>buf := take off (buf s) @ concat (map element_bytes els) @
               drop (off + length (concat (map element_bytes els))) (buf s)\<rparr>)"
proof (induction els arbitrary: off s)
  case (Cons e els)
  let ?b = "element_bytes e"
  define s1 where "s1 = s\<lparr>buf := take off (buf s) @ ?b @ drop (off + length ?b) (buf s)\<rparr>"
  have "buf_write off ?b s = (Ok (), s1)" using Cons.prems by (simp add: buf_write_def s1_def)
  moreover have "off + length ?b + length (concat (map element_bytes els)) \<le> length (buf s1)"
    using Cons.prems by (simp add: s1_def)
  note Cons.IH [OF this]
  ultimately show ?case
    using Cons.prems by (simp add: bnd_def s1_def ac_simps)
qed simp

lemma length_concat_sort: "length (concat (map f (sort xs))) = length (concat (map f xs))"
proof -
  have "sum_list (map (length \<circ> f) (sort xs)) = sum_list (map (length \<circ> f) xs)"
    by (metis mset_map mset_sort sum_mset_sum_list)
  then show ?thesis by (simp add: length_concat)
qed

definition content_start :: "nat \<Rightarrow> cbb \<Rightarrow> nat" where
  "content_start d s = (if d = 0 then 0 else ch_start (child_of d s))"

lemma leaf_content:
  assumes "cbb_ok s" "leaf d s"
  shows "CBB_data d s = (Ok (content_start d s), s)" "CBB_len d s = (Ok (len s - content_start d s), s)"
    "content_start d s \<le> len s"
proof -
  have n: "nested 0 (chain s) (len s)" "length (chain s) = d" "len s < 2 ^ 64"
    using assms by (auto simp: cbb_ok_def leaf_def shape_def)
  have "content_start d s \<le> len s \<and> (d > 0 \<longrightarrow> size_add (ch_offset (child_of d s)) (pending_len_len (child_of d s)) \<le> len s)"
  proof (cases "d = 0")
    case False
    then have "drop (d - 1) (chain s) = [child_of d s]"
      using n(2) Cons_nth_drop_Suc [of "d - 1" "chain s"] by (simp add: child_of_def)
    moreover obtain lo where "nested lo (drop (d - 1) (chain s)) (len s)" using nested_drop [OF n(1)] by blast
    ultimately have "ch_start (child_of d s) \<le> len s" by simp
    then show ?thesis using False n(3) by (simp add: content_start_def ch_start_def size_add_def)
  qed (simp add: content_start_def)
  then show "CBB_data d s = (Ok (content_start d s), s)" "CBB_len d s = (Ok (len s - content_start d s), s)"
    "content_start d s \<le> len s"
    using n(2) by (auto simp: CBB_data_def CBB_len_def content_start_def ch_start_def)
qed

text \<open>The specification of the SET OF: the contents are a DER sequence, and are replaced by the encodings of
  the same elements, each as often as before, in ascending lexicographic order. The order is
  \<open>bytes_le\<close>, not the comparison function of the code.\<close>

definition sorted_elements :: "bytes \<Rightarrow> bytes \<Rightarrow> bool" where
  "sorted_elements old new \<longleftrightarrow>
     (\<exists>es parts. der_sequence old es \<and>
        mset parts = mset (map (\<lambda>(tag, body). der_element tag body) es) \<and>
        sorted_wrt bytes_le parts \<and> new = concat parts)"

lemma sort_sorted_elements:
  assumes "der_sequence old es"
  shows "sorted_elements old (concat (map element_bytes (sort (the_elements es))))"
  unfolding sorted_elements_def
proof (intro exI conjI)
  show "mset (map element_bytes (sort (the_elements es))) = mset (map (\<lambda>(tag, body). der_element tag body) es)"
    by (simp flip: element_bytes_the_elements)
  have "sorted_wrt (\<lambda>a b. bytes_le (element_bytes a) (element_bytes b)) (sort (the_elements es))"
    by (rule sorted_wrt_mono_rel [OF _ sorted_sort]) (simp add: less_eq_set_element_def compare_bytes_le)
  then show "sorted_wrt bytes_le (map element_bytes (sort (the_elements es)))" by (simp add: sorted_wrt_map)
qed (rule assms refl)+

text \<open>Why the sort may fail: the contents are no DER sequence, memory is refused, or the array of elements
  would not fit in a \<^verbatim>\<open>size_t\<close>.\<close>

definition sort_may_fail :: "allocator \<Rightarrow> bytes \<Rightarrow> bool" where
  "sort_may_fail A old \<longleftrightarrow> (\<nexists>es. der_sequence old es) \<or> \<not> always_grants A \<or> 2 ^ 60 \<le> length old"

lemma der_sequence_length: "der_sequence cs es \<Longrightarrow> length es \<le> length cs"
proof (induction es arbitrary: cs)
  case (Cons e es)
  have "Suc 0 \<le> length (der_element (fst e) (snd e))"
    using der_element_nonempty [of "fst e" "snd e"] unfolding Suc_le_eq .
  then show ?case using Cons by (fastforce simp: der_sequence_def case_prod_beta)
qed simp

lemma flush_set_of_leaf:
  assumes "cbb_ok s" "leaf d s"
  shows "(\<exists>s'. CBB_flush_asn1_set_of A d s = (Fail, s') \<and> buf s' = buf s \<and> len s' = len s \<and> cap s' = cap s \<and>
             error s' = error s \<and> chain s' = chain s \<and> sort_may_fail A (drop (content_start d s) (out s))) \<or>
         (\<exists>s'. CBB_flush_asn1_set_of A d s = (Ok (), s') \<and> cbb_ok s' \<and> leaf d s' \<and> chain s' = chain s \<and> len s' = len s \<and>
             take (content_start d s) (out s') = take (content_start d s) (out s) \<and>
             sorted_elements (drop (content_start d s) (out s)) (drop (content_start d s) (out s')))"
proof -
  let ?st = "content_start d s"
  let ?c = "take (len s - ?st) (drop ?st (buf s))"
  have sh: "shape s" "\<not> error s" "length (chain s) = d" using assms by (auto simp: cbb_ok_def leaf_def)
  note lc = leaf_content [OF assms]
  have c: "?c = drop ?st (out s)" by (simp add: out_def drop_take)
  have unf: "CBB_flush_asn1_set_of A d s = (case count_elements ?c of
            Fail \<Rightarrow> (Fail, s) | Undef \<Rightarrow> (Undef, s)
          | Ok num_children \<Rightarrow>
              if num_children < 2 then (Ok (), s)
              else
                let s' = s\<lparr>mallocs := mallocs s + 2\<rparr>
                in if \<not> grant A (mallocs s) (len s - ?st) \<or> num_children > (2 ^ 64 - 1) div 16 \<or>
                      \<not> grant A (mallocs s + 1) (num_children * 16) then (Fail, s')
                   else (case collect_elements num_children ?c of
                           (Fail, _) \<Rightarrow> (Fail, s') | (Undef, _) \<Rightarrow> (Undef, s')
                         | (Ok children, _) \<Rightarrow>
                             bnd (write_elements ?st (sort children)) (\<lambda>end.
                             c_assert (end - ?st = len s - ?st)) s'))"
    using sh by (simp add: CBB_flush_asn1_set_of_def bnd_simps flush_leaf lc(1,2) Let_def)
  show ?thesis
  proof (cases "count_elements ?c")
    case Fail
    then have "\<nexists>es. der_sequence ?c es" using count_elements_iff [of ?c] by fastforce
    then show ?thesis using Fail c by (simp add: unf sort_may_fail_def)
  next
    case Undef
    then show ?thesis using count_defined by simp
  next
    case (Ok n)
    obtain es where es: "der_sequence ?c es" "length es = n" using Ok count_elements_iff by blast
    define els where "els = the_elements es"
    have els: "collect_elements n ?c = (Ok els, [])" "concat (map element_bytes els) = ?c" "length els = n"
      using es collect_elements_iff [of n ?c els] by (auto simp: els_def der_sequence_def)
    have sorted: "sorted_elements ?c (concat (map element_bytes (sort els)))"
      unfolding els_def by (rule sort_sorted_elements [OF es(1)])
    show ?thesis
    proof (cases "n < 2")
      case True
      then have "sort els = els" using els(3) by (cases els) (auto simp: less_Suc_eq numeral_2_eq_2)
      then have "sorted_elements ?c ?c" using sorted els(2) by simp
      then show ?thesis using True Ok assms c by (intro disjI2 exI [of _ s]) (simp add: unf)
    next
      case False
      define s' where "s' = s\<lparr>mallocs := mallocs s + 2\<rparr>"
      have s'e: "s\<lparr>mallocs := Suc (Suc (mallocs s))\<rparr> = s'" by (simp add: s'_def)
      let ?n = "concat (map element_bytes (sort els))"
      have ln: "length ?n = len s - ?st"
        using length_concat_sort [of element_bytes els] els(2) sh(1) lc(3) by (auto simp: shape_def min_def)
      have fits: "?st + length ?n \<le> length (buf s')" using ln lc(3) sh(1) by (simp add: s'_def shape_def)
      define s2 where "s2 = s'\<lparr>buf := take ?st (buf s) @ ?n @ drop (len s) (buf s)\<rparr>"
      have w: "write_elements ?st (sort els) s' = (Ok (len s), s2)"
        using write_elements_eq [OF fits] ln lc(3) by (simp add: s2_def s'_def)
      have o: "out s2 = take ?st (out s) @ ?n"
        using ln lc(3) sh(1) by (simp add: out_def s2_def s'_def shape_def)
      have "length ?c \<ge> n" using der_sequence_length [OF es(1)] es(2) by simp
      then have may: "sort_may_fail A ?c" if "\<not> grant A k m \<or> n > (2 ^ 64 - 1) div 16" for k m
        using that by (auto simp: sort_may_fail_def always_grants_def)
      note sorted
      moreover have "cbb_ok s2 \<and> leaf d s2"
        using assms ln lc(3) sh by (auto simp: cbb_ok_def leaf_def s2_def s'_def shape_def)
      moreover have "drop ?st (out s2) = ?n" "take ?st (out s2) = take ?st (out s)"
        using o lc(3) length_out [OF sh(1)] by simp_all
      moreover have "chain s2 = chain s" "len s2 = len s" by (simp_all add: s2_def s'_def)
      moreover have "CBB_flush_asn1_set_of A d s =
          (if \<not> grant A (mallocs s) (len s - ?st) \<or> n > (2 ^ 64 - 1) div 16 \<or> \<not> grant A (mallocs s + 1) (n * 16)
           then (Fail, s') else (Ok (), s2))"
        using w els(1) False lc(3) by (simp add: unf Ok s'e bnd_simps Let_def)
      moreover have "buf s' = buf s" "len s' = len s" "cap s' = cap s" "error s' = error s" "chain s' = chain s"
        by (simp_all add: s'_def)
      ultimately show ?thesis using may unfolding c [symmetric] by (auto split: if_split)
    qed
  qed
qed

subsection \<open>Operations in any order\<close>

datatype cbb_op =
    Op_flush nat
  | Op_u8 nat u8 | Op_u16 nat u16 | Op_u24 nat u32 | Op_u32 nat u32 | Op_u64 nat u64
  | Op_u16le nat u16 | Op_u32le nat u32 | Op_u64le nat u64
  | Op_bytes nat bytes | Op_zeros nat nat | Op_space nat nat | Op_reserve nat nat | Op_did_write nat nat
  | Op_u8_prefixed nat | Op_u16_prefixed nat | Op_u24_prefixed nat | Op_asn1 nat asn1_tag | Op_discard nat
  | Op_uint64 nat u64 asn1_tag | Op_int64 nat u64 asn1_tag | Op_octets nat bytes | Op_bool nat bool
  | Op_oid nat bytes | Op_set_of nat

fun run_op :: "allocator \<Rightarrow> cbb_op \<Rightarrow> (cbb, unit) cfun" where
  "run_op A (Op_flush d) = CBB_flush A d"
| "run_op A (Op_u8 d v) = CBB_add_u8 A d v"
| "run_op A (Op_u16 d v) = CBB_add_u16 A d v"
| "run_op A (Op_u24 d v) = CBB_add_u24 A d v"
| "run_op A (Op_u32 d v) = CBB_add_u32 A d v"
| "run_op A (Op_u64 d v) = CBB_add_u64 A d v"
| "run_op A (Op_u16le d v) = CBB_add_u16le A d v"
| "run_op A (Op_u32le d v) = CBB_add_u32le A d v"
| "run_op A (Op_u64le d v) = CBB_add_u64le A d v"
| "run_op A (Op_bytes d bs) = CBB_add_bytes A d bs"
| "run_op A (Op_zeros d n) = CBB_add_zeros A d n"
| "run_op A (Op_space d n) = bnd (CBB_add_space A d n) (\<lambda>_. ret ())"
| "run_op A (Op_reserve d n) = bnd (CBB_reserve A d n) (\<lambda>_. ret ())"
| "run_op A (Op_did_write d n) = CBB_did_write d n"
| "run_op A (Op_u8_prefixed d) = CBB_add_u8_length_prefixed A d"
| "run_op A (Op_u16_prefixed d) = CBB_add_u16_length_prefixed A d"
| "run_op A (Op_u24_prefixed d) = CBB_add_u24_length_prefixed A d"
| "run_op A (Op_asn1 d tag) = CBB_add_asn1 A d tag"
| "run_op A (Op_discard d) = (\<lambda>s. (Ok (), CBB_discard_child d s))"
| "run_op A (Op_uint64 d v tag) = CBB_add_asn1_uint64_with_tag A d v tag"
| "run_op A (Op_int64 d v tag) = CBB_add_asn1_int64_with_tag A d v tag"
| "run_op A (Op_octets d bs) = CBB_add_asn1_octet_string A d bs"
| "run_op A (Op_bool d b) = CBB_add_asn1_bool A d b"
| "run_op A (Op_oid d txt) = CBB_add_asn1_oid_from_text A d txt"
| "run_op A (Op_set_of d) = CBB_flush_asn1_set_of A d"

text \<open>What the API asks of its callers: the CBB is attached, sizes are \<^verbatim>\<open>size_t\<close> values, and no child is
  discarded and no write is announced on a CBB that has failed.\<close>

fun op_ok :: "cbb_op \<Rightarrow> cbb \<Rightarrow> bool" where
  "op_ok (Op_bytes d bs) s \<longleftrightarrow> attached d s \<and> size_ok (length bs)"
| "op_ok (Op_octets d bs) s \<longleftrightarrow> attached d s \<and> size_ok (length bs)"
| "op_ok (Op_zeros d n) s \<longleftrightarrow> attached d s \<and> size_ok n"
| "op_ok (Op_space d n) s \<longleftrightarrow> attached d s \<and> size_ok n"
| "op_ok (Op_reserve d n) s \<longleftrightarrow> attached d s \<and> size_ok n"
| "op_ok (Op_did_write d n) s \<longleftrightarrow> attached d s \<and> size_ok n \<and> \<not> error s"
| "op_ok (Op_discard d) s \<longleftrightarrow> attached d s \<and> \<not> error s"
| "op_ok (Op_flush d) s \<longleftrightarrow> attached d s" | "op_ok (Op_u8 d _) s \<longleftrightarrow> attached d s"
| "op_ok (Op_u16 d _) s \<longleftrightarrow> attached d s" | "op_ok (Op_u24 d _) s \<longleftrightarrow> attached d s"
| "op_ok (Op_u32 d _) s \<longleftrightarrow> attached d s" | "op_ok (Op_u64 d _) s \<longleftrightarrow> attached d s"
| "op_ok (Op_u16le d _) s \<longleftrightarrow> attached d s" | "op_ok (Op_u32le d _) s \<longleftrightarrow> attached d s"
| "op_ok (Op_u64le d _) s \<longleftrightarrow> attached d s" | "op_ok (Op_u8_prefixed d) s \<longleftrightarrow> attached d s"
| "op_ok (Op_u16_prefixed d) s \<longleftrightarrow> attached d s" | "op_ok (Op_u24_prefixed d) s \<longleftrightarrow> attached d s"
| "op_ok (Op_asn1 d _) s \<longleftrightarrow> attached d s" | "op_ok (Op_uint64 d _ _) s \<longleftrightarrow> attached d s"
| "op_ok (Op_int64 d _ _) s \<longleftrightarrow> attached d s" | "op_ok (Op_bool d _) s \<longleftrightarrow> attached d s"
| "op_ok (Op_oid d _) s \<longleftrightarrow> attached d s" | "op_ok (Op_set_of d) s \<longleftrightarrow> attached d s"

definition good_outcome :: "'a res \<times> cbb \<Rightarrow> bool" where
  "good_outcome res \<longleftrightarrow> fst res \<noteq> Undef \<and> cbb_ok (snd res)"

lemma good_case:
  "(case res of (Ok _, s') \<Rightarrow> cbb_ok s' \<and> leaf e s' | (Fail, s') \<Rightarrow> cbb_ok s' \<and> attached d s'
     | (Undef, _) \<Rightarrow> False) \<Longrightarrow> good_outcome res"
  by (cases res; cases "fst res") (auto simp: good_outcome_def)

lemma good_safe: "safe P d e m \<Longrightarrow> cbb_ok s \<Longrightarrow> P s \<Longrightarrow> good_outcome (m s)"
  by (rule good_case) (rule safeD)

lemma safe_void: "safe P d e m \<Longrightarrow> safe P d e (bnd m (\<lambda>_. ret ()))"
  by (rule safe_bnd, assumption) (rule safeI, simp)

lemma good_set_of:
  assumes "cbb_ok s" "attached d s"
  shows "good_outcome (CBB_flush_asn1_set_of A d s)"
proof -
  have "CBB_flush_asn1_set_of A d s = bnd (CBB_flush A d) (\<lambda>_. CBB_flush_asn1_set_of A d) s"
    unfolding CBB_flush_asn1_set_of_def by (simp only: flush_idem [OF assms])
  moreover have "good_outcome (bnd (CBB_flush A d) (\<lambda>_. CBB_flush_asn1_set_of A d) s)"
  proof (cases "CBB_flush A d s")
    case (Pair r s1)
    show ?thesis
    proof (cases r)
      case (Ok u)
      then have s1: "cbb_ok s1" "leaf d s1" using safeD [OF safe_flush [of d A] assms] Pair by simp_all
      have "good_outcome (CBB_flush_asn1_set_of A d s1)"
        using flush_set_of_leaf [OF s1, of A]
      proof (elim disjE exE conjE)
        fix s' assume "CBB_flush_asn1_set_of A d s1 = (Fail, s')" "buf s' = buf s1" "len s' = len s1"
          "cap s' = cap s1" "error s' = error s1" "chain s' = chain s1"
        then show ?thesis using s1 by (simp add: good_outcome_def cbb_ok_def shape_def)
      qed (simp add: good_outcome_def)
      then show ?thesis using Pair Ok by (simp add: bnd_def)
    next
      case Fail
      then show ?thesis using safeD [OF safe_flush [of d A] assms] Pair by (simp add: bnd_def good_outcome_def)
    next
      case Undef
      then show ?thesis using safeD [OF safe_flush [of d A] assms] Pair by simp
    qed
  qed
  ultimately show ?thesis by simp
qed

lemma run_op_good:
  assumes "cbb_ok s" "op_ok op s"
  shows "good_outcome (run_op A op s)"
proof (cases op)
  case (Op_discard d)
  then show ?thesis using assms discard_ok [of s d] by (simp add: good_outcome_def)
next
  case (Op_did_write d n)
  then show ?thesis using assms good_case [OF did_write_ok [of s d n]] by simp
next
  case (Op_set_of d)
  then show ?thesis using assms good_set_of by simp
next
  case (Op_u24 d v)
  then show ?thesis using assms good_safe [OF safe_add_ints(3)] by simp
qed (use assms in \<open>simp_all add: good_safe [OF safe_flush] good_safe [OF safe_add_ints(1)] good_safe [OF safe_add_ints(2)]
      good_safe [OF safe_add_ints(4)] good_safe [OF safe_add_ints(5)] good_safe [OF safe_add_ints(6)]
      good_safe [OF safe_add_ints(7)] good_safe [OF safe_add_ints(8)] good_safe [OF safe_add_bytes] add_zeros_bytes
      good_safe [OF safe_void [OF safe_add_space]] good_safe [OF safe_void [OF safe_reserve]]
      CBB_add_u8_length_prefixed_def CBB_add_u16_length_prefixed_def CBB_add_u24_length_prefixed_def
      good_safe [OF safe_length_prefixed] good_safe [OF safe_add_asn1] good_safe [OF safe_uint64]
      good_safe [OF safe_int64] good_safe [OF safe_octet_string] good_safe [OF safe_bool] good_safe [OF safe_oid_from_text]\<close>)

inductive reachable :: "allocator \<Rightarrow> cbb \<Rightarrow> bool" for A where
  init: "CBB_init A n = Ok s \<Longrightarrow> size_ok n \<Longrightarrow> reachable A s"
| fixed: "CBB_init_fixed b = Ok s \<Longrightarrow> size_ok (length b) \<Longrightarrow> reachable A s"
| step: "reachable A s \<Longrightarrow> op_ok op s \<Longrightarrow> run_op A op s = (r, s') \<Longrightarrow> reachable A s'"

lemma reachable_ok: "reachable A s \<Longrightarrow> cbb_ok s"
proof (induction rule: reachable.induct)
  case (init n s)
  from init(2) show ?case
    by (cases rule: CBB_init_cases [where A = A]) (use init(1) in \<open>auto simp: cbb_ok_def\<close>)
next
  case (fixed b s)
  then have s: "s = cbb_init b (length b) False CBB_zero" by (simp add: CBB_init_fixed_def)
  show ?case using fixed(2) unfolding s by (simp add: cbb_init_def CBB_zero_def cbb_ok_def shape_def)
next
  case (step s op r s')
  then show ?case using run_op_good [of s op A] by (simp add: good_outcome_def)
qed

end
