(* ===== verification/Cbs_Time.thy ===== *)
theory Cbs_Time
  imports Cbs Posix_Time
begin

text \<open>
  \<^verbatim>\<open>CBS_parse_generalized_time\<close> and \<^verbatim>\<open>CBS_parse_utc_time\<close> of \<^verbatim>\<open>crypto/bytestring/cbs.c\<close>: the
  RFC 5280 time formats of certificates. The lemmas give the accepted language exactly (the text of
  a valid broken-down time, followed by \<^verbatim>\<open>Z\<close> or by an offset) and the time that is returned.
  \<open>want_tm\<close> says whether the caller passed a non-null \<^verbatim>\<open>out_tm\<close>.
\<close>


subsection \<open>Definitions\<close>

definition cbs_get_two_digits :: "(bytes, int) cfun" where
  "cbs_get_two_digits =
     bnd CBS_get_u8 (\<lambda>first_digit.
     bnd (check (OPENSSL_isdigit first_digit)) (\<lambda>_.
     bnd CBS_get_u8 (\<lambda>second_digit.
     bnd (check (OPENSSL_isdigit second_digit)) (\<lambda>_.
     ret ((uint first_digit - 48) * 10 + (uint second_digit - 48))))))"

definition is_valid_day :: "int \<Rightarrow> int \<Rightarrow> int \<Rightarrow> bool" where
  "is_valid_day year month day =
     (if day < 1 then False
      else if month \<in> {1, 3, 5, 7, 8, 10, 12} then day \<le> 31
      else if month \<in> {4, 6, 9, 11} then day \<le> 30
      else if month = 2 then
        (if (year smod 4 = 0 \<and> year smod 100 \<noteq> 0) \<or> year smod 400 = 0 then day \<le> 29 else day \<le> 28)
      else False)"

text \<open>The year: four digits in a GeneralizedTime, two in a UTCTime.\<close>

definition parse_year :: "bool \<Rightarrow> (bytes, int) cfun" where
  "parse_year is_gentime =
     (if is_gentime then
        bnd cbs_get_two_digits (\<lambda>hundreds. bnd cbs_get_two_digits (\<lambda>tmp. ret (hundreds * 100 + tmp)))
      else
        bnd cbs_get_two_digits (\<lambda>tmp.
        let year = 1900 + tmp; year = (if year < 1950 then year + 100 else year)
        in bnd (check (\<not> year \<ge> 2050)) (\<lambda>_. ret year)))"

text \<open>The zone: the offset in seconds that the code goes on to add.\<close>

definition parse_zone :: "bool \<Rightarrow> (bytes, int) cfun" where
  "parse_zone allow_timezone_offset =
     bnd CBS_get_u8 (\<lambda>tz.
     let offset_sign = (if tz = byte_of_char (CHR ''+'') then 1 else if tz = byte_of_char (CHR ''-'') then - 1 else 0)
     in bnd (check (tz = byte_of_char (CHR ''Z'') \<or> offset_sign \<noteq> 0)) (\<lambda>_.
        if offset_sign \<noteq> 0 then
          bnd (check allow_timezone_offset) (\<lambda>_.
          bnd cbs_get_two_digits (\<lambda>offset_hours.
          bnd (check (\<not> offset_hours > 23)) (\<lambda>_.
          bnd cbs_get_two_digits (\<lambda>offset_minutes.
          bnd (check (\<not> offset_minutes > 59)) (\<lambda>_.
          ret (offset_sign * (offset_hours * 3600 + offset_minutes * 60)))))))
        else ret 0))"

definition parse_fields :: "bool \<Rightarrow> bool \<Rightarrow> (bytes, tm \<times> int) cfun" where
  "parse_fields is_gentime allow_timezone_offset =
     bnd (parse_year is_gentime) (\<lambda>year.
     bnd cbs_get_two_digits (\<lambda>month.
     bnd (check (\<not> (month < 1 \<or> month > 12))) (\<lambda>_.
     bnd cbs_get_two_digits (\<lambda>day.
     bnd (check (is_valid_day year month day)) (\<lambda>_.
     bnd cbs_get_two_digits (\<lambda>hour.
     bnd (check (\<not> hour > 23)) (\<lambda>_.
     bnd cbs_get_two_digits (\<lambda>min.
     bnd (check (\<not> min > 59)) (\<lambda>_.
     bnd cbs_get_two_digits (\<lambda>sec.
     bnd (check (\<not> sec > 59)) (\<lambda>_.
     bnd (parse_zone allow_timezone_offset) (\<lambda>offset_seconds.
     ret (\<lparr>tm_sec = sec, tm_min = min, tm_hour = hour, tm_mday = day, tm_mon = month - 1, tm_year = year - 1900\<rparr>,
          offset_seconds)))))))))))))"

text \<open>\<open>want_tm\<close> says whether \<^verbatim>\<open>out_tm\<close> is not NULL; the result is then the time written.\<close>

definition CBS_parse_rfc5280_time_internal :: "bytes \<Rightarrow> bool \<Rightarrow> bool \<Rightarrow> bool \<Rightarrow> tm option res" where
  "CBS_parse_rfc5280_time_internal cbs is_gentime allow_timezone_offset want_tm =
     (case parse_fields is_gentime allow_timezone_offset cbs of
        (Fail, _) \<Rightarrow> Fail | (Undef, _) \<Rightarrow> Undef
      | (Ok (t, offset_seconds), copy) \<Rightarrow>
          if length copy \<noteq> 0 then Fail
          else if \<not> want_tm then Ok None
          else if offset_seconds \<noteq> 0 then res_map Some (OPENSSL_gmtime_adj t 0 offset_seconds)
          else Ok (Some t))"

definition CBS_parse_generalized_time :: "bytes \<Rightarrow> bool \<Rightarrow> bool \<Rightarrow> tm option res" where
  "CBS_parse_generalized_time cbs want_tm allow_timezone_offset =
     CBS_parse_rfc5280_time_internal cbs True allow_timezone_offset want_tm"

definition CBS_parse_utc_time :: "bytes \<Rightarrow> bool \<Rightarrow> bool \<Rightarrow> tm option res" where
  "CBS_parse_utc_time cbs want_tm allow_timezone_offset =
     CBS_parse_rfc5280_time_internal cbs False allow_timezone_offset want_tm"

subsection \<open>The text of a time\<close>

definition two_digits :: "int \<Rightarrow> bytes" where
  "two_digits n = [of_int (48 + n div 10), of_int (48 + n mod 10)]"

definition valid_tm :: "tm \<Rightarrow> bool" where
  "valid_tm t \<longleftrightarrow> is_valid_date (tm_year t + 1900) (tm_mon t + 1) (tm_mday t) \<and>
     is_valid_time (tm_hour t) (tm_min t) (tm_sec t)"

definition day_time_text :: "tm \<Rightarrow> bytes" where
  "day_time_text t = two_digits (tm_mon t + 1) @ two_digits (tm_mday t) @ two_digits (tm_hour t) @
     two_digits (tm_min t) @ two_digits (tm_sec t)"

definition gentime_text :: "tm \<Rightarrow> bytes" where
  "gentime_text t = two_digits ((tm_year t + 1900) div 100) @ two_digits ((tm_year t + 1900) mod 100) @ day_time_text t"

definition utctime_text :: "tm \<Rightarrow> bytes" where
  "utctime_text t = two_digits ((tm_year t + 1900) mod 100) @ day_time_text t"

definition zone_text :: "int \<Rightarrow> int \<Rightarrow> int \<Rightarrow> bytes" where
  "zone_text sign hours minutes =
     byte_of_char (if sign > 0 then CHR ''+'' else CHR ''-'') # two_digits hours @ two_digits minutes"

abbreviation Zulu :: u8 where "Zulu \<equiv> byte_of_char (CHR ''Z'')"

lemma two_digit_byte:
  assumes "0 \<le> n" "n < 10"
  shows "OPENSSL_isdigit (of_int (48 + n))" "uint (of_int (48 + n) :: u8) = 48 + n"
proof -
  have "n = 0 \<or> n = 1 \<or> n = 2 \<or> n = 3 \<or> n = 4 \<or> n = 5 \<or> n = 6 \<or> n = 7 \<or> n = 8 \<or> n = 9"
    using assms by presburger
  then show "OPENSSL_isdigit (of_int (48 + n))" "uint (of_int (48 + n) :: u8) = 48 + n"
    by (auto simp: OPENSSL_isdigit_def)
qed

lemma get_two_digits: "0 \<le> n \<Longrightarrow> n < 100 \<Longrightarrow> cbs_get_two_digits (two_digits n @ rest) = (Ok n, rest)"
  using two_digit_byte [of "n div 10"] two_digit_byte [of "n mod 10"]
  by (simp add: cbs_get_two_digits_def two_digits_def bnd_simps del: of_int_add)

lemma isdigit_uint: "OPENSSL_isdigit c \<Longrightarrow> 48 \<le> uint c \<and> uint c \<le> 57"
  by (simp add: OPENSSL_isdigit_def word_le_def)

lemma get_two_digits_Ok:
  assumes "cbs_get_two_digits s = (Ok n, rest)"
  shows "s = two_digits n @ rest" "0 \<le> n" "n < 100"
proof -
  obtain a s1 where a: "s = a # s1" "OPENSSL_isdigit a"
    using assms by (cases s) (auto simp: cbs_get_two_digits_def bnd_simps split: if_split_asm)
  obtain b s2 where b: "s1 = b # s2" "OPENSSL_isdigit b"
    using assms a by (cases s1) (auto simp: cbs_get_two_digits_def bnd_simps split: if_split_asm)
  have n: "n = (uint a - 48) * 10 + (uint b - 48)" "rest = s2"
    using assms a b by (simp_all add: cbs_get_two_digits_def bnd_simps)
  have r: "48 \<le> uint a" "uint a \<le> 57" "48 \<le> uint b" "uint b \<le> 57"
    using isdigit_uint [OF a(2)] isdigit_uint [OF b(2)] by simp_all
  have "n div 10 = uint a - 48" by (rule int_div_pos_eq [where r = "uint b - 48"]) (use r n(1) in linarith)+
  moreover have "n mod 10 = uint b - 48"
    by (rule int_mod_pos_eq [where q = "uint a - 48"]) (use r n(1) in linarith)+
  ultimately show "s = two_digits n @ rest" by (simp add: two_digits_def a b n(2) del: of_int_add)
  show "0 \<le> n" "n < 100" using r unfolding n(1) by simp_all
qed

lemma is_valid_day_date:
  "0 \<le> year \<Longrightarrow> year \<le> 9999 \<Longrightarrow> 1 \<le> month \<Longrightarrow> month \<le> 12 \<Longrightarrow> is_valid_day year month day \<longleftrightarrow> is_valid_date year month day"
  by (auto simp: is_valid_day_def is_valid_date_def is_leap_def)

lemma OPENSSL_tm_to_posix_valid: "valid_tm t \<longleftrightarrow> (\<exists>x. OPENSSL_tm_to_posix t = Ok x)"
  using valid_date_bounds [of "tm_year t + 1900" "tm_mon t + 1" "tm_mday t"]
  by (auto simp: OPENSSL_tm_to_posix_def posix_time_from_utc_def valid_tm_def)


text \<open>What the field parser accepts is the text of a valid time followed by a zone.\<close>

lemma tm_ranges:
  assumes "valid_tm t"
  shows "0 \<le> tm_year t + 1900" "tm_year t + 1900 \<le> 9999" "1 \<le> tm_mon t + 1" "tm_mon t + 1 \<le> 12"
    "1 \<le> tm_mday t" "tm_mday t \<le> 31" "0 \<le> tm_hour t" "tm_hour t \<le> 23" "0 \<le> tm_min t" "tm_min t \<le> 59"
    "0 \<le> tm_sec t" "tm_sec t \<le> 59"
  using assms valid_date_bounds [of "tm_year t + 1900" "tm_mon t + 1" "tm_mday t"]
  by (auto simp: valid_tm_def is_valid_time_def split: if_splits)

lemma parse_day_time:
  assumes "valid_tm t" "parse_year g s = (Ok (tm_year t + 1900), day_time_text t @ rest)"
  shows "parse_fields g tz s = bnd (parse_zone tz) (\<lambda>off. ret (t, off)) rest"
proof -
  note r = tm_ranges [OF assms(1)]
  have d: "is_valid_day (tm_year t + 1900) (tm_mon t + 1) (tm_mday t)"
    using assms(1) r by (simp add: is_valid_day_date valid_tm_def)
  have n: "\<not> (tm_mon t + 1 < 1 \<or> tm_mon t + 1 > 12)" using r by linarith
  have eta: "\<lparr>tm_sec = tm_sec t, tm_min = tm_min t, tm_hour = tm_hour t, tm_mday = tm_mday t, tm_mon = tm_mon t,
      tm_year = tm_year t\<rparr> = t" by simp
  show ?thesis
    using r assms(2) d n
    by (simp add: parse_fields_def bnd_simps day_time_text_def get_two_digits eta)
qed

lemma parse_year_gentime:
  assumes "0 \<le> y" "y \<le> 9999"
  shows "parse_year True (two_digits (y div 100) @ two_digits (y mod 100) @ rest) = (Ok y, rest)"
  using assms by (simp add: parse_year_def bnd_simps get_two_digits)

lemma parse_year_utctime:
  assumes "1950 \<le> y" "y \<le> 2049"
  shows "parse_year False (two_digits (y mod 100) @ rest) = (Ok y, rest)"
proof -
  have "y mod 100 = (if y < 2000 then y - 1900 else y - 2000)"
    using assms by (cases "y < 2000") (auto intro: int_mod_pos_eq [where q = 19] int_mod_pos_eq [where q = 20])
  then show ?thesis using assms by (simp add: parse_year_def bnd_simps get_two_digits Let_def)
qed

lemma parse_year_Ok:
  assumes "parse_year g s = (Ok y, rest)"
  shows "if g then 0 \<le> y \<and> y \<le> 9999 \<and> s = two_digits (y div 100) @ two_digits (y mod 100) @ rest
         else 1950 \<le> y \<and> y \<le> 2049 \<and> s = two_digits (y mod 100) @ rest"
proof (cases g)
  case True
  then obtain h s1 l where h: "cbs_get_two_digits s = (Ok h, s1)" "cbs_get_two_digits s1 = (Ok l, rest)" "y = h * 100 + l"
    using assms by (auto simp: parse_year_def bnd_Ok_iff)
  note a = get_two_digits_Ok [OF h(1)] and b = get_two_digits_Ok [OF h(2)]
  have "y div 100 = h" by (rule int_div_pos_eq [where r = l]) (use b h(3) in linarith)+
  moreover have "y mod 100 = l" by (rule int_mod_pos_eq [where q = h]) (use b h(3) in linarith)+
  ultimately show ?thesis using True a b h(3) by simp
next
  case False
  then obtain l where l: "cbs_get_two_digits s = (Ok l, rest)" "y = (if 1900 + l < 1950 then 2000 + l else 1900 + l)" "y < 2050"
    using assms by (auto simp: parse_year_def bnd_Ok_iff Let_def split: if_split_asm)
  note a = get_two_digits_Ok [OF l(1)]
  have "y mod 100 = l"
    using l(2) a by (cases "1900 + l < 1950") (auto intro: int_mod_pos_eq [where q = 19] int_mod_pos_eq [where q = 20])
  then show ?thesis using False a l(2,3) by (auto split: if_splits)
qed

lemma parse_fields_Ok:
  assumes "parse_fields g tz s = (Ok (t, off), rest)"
  shows "\<exists>zone. parse_year g s = (Ok (tm_year t + 1900), day_time_text t @ zone) \<and> valid_tm t \<and>
           parse_zone tz zone = (Ok off, rest)"
proof -
  obtain year s1 month s2 day s3 hour s4 min s5 sec s6
    where p: "parse_year g s = (Ok year, s1)" "cbs_get_two_digits s1 = (Ok month, s2)" "cbs_get_two_digits s2 = (Ok day, s3)"
      "cbs_get_two_digits s3 = (Ok hour, s4)" "cbs_get_two_digits s4 = (Ok min, s5)" "cbs_get_two_digits s5 = (Ok sec, s6)"
      "parse_zone tz s6 = (Ok off, rest)"
    and c: "\<not> (month < 1 \<or> month > 12)" "is_valid_day year month day" "\<not> hour > 23" "\<not> min > 59" "\<not> sec > 59"
    and t: "t = \<lparr>tm_sec = sec, tm_min = min, tm_hour = hour, tm_mday = day, tm_mon = month - 1, tm_year = year - 1900\<rparr>"
    using assms by (auto simp: parse_fields_def bnd_Ok_iff check_def split: if_split_asm)
  have y: "0 \<le> year" "year \<le> 9999" using parse_year_Ok [OF p(1)] by (auto split: if_splits)
  have "valid_tm t"
    using c y get_two_digits_Ok(2) [OF p(4)] get_two_digits_Ok(2) [OF p(5)] get_two_digits_Ok(2) [OF p(6)]
    by (simp add: t valid_tm_def is_valid_time_def is_valid_day_date)
  moreover have "s1 = day_time_text t @ s6"
    using get_two_digits_Ok(1) [OF p(2)] get_two_digits_Ok(1) [OF p(3)] get_two_digits_Ok(1) [OF p(4)]
      get_two_digits_Ok(1) [OF p(5)] get_two_digits_Ok(1) [OF p(6)]
    by (simp add: day_time_text_def t)
  ultimately show ?thesis using p(1,7) t by auto
qed


subsection \<open>What the parsers accept\<close>

lemma zone_chars: "Zulu = 0x5a" "byte_of_char (CHR ''+'') = 0x2b" "byte_of_char (CHR ''-'') = 0x2d"
  by (simp_all add: byte_of_char_def of_char_def)

lemma parse_zone_Z: "parse_zone tz (Zulu # rest) = (Ok 0, rest)"
  by (simp add: parse_zone_def bnd_simps zone_chars)

lemma parse_zone_strict: "parse_zone False s = (Ok off, rest) \<longleftrightarrow> s = Zulu # rest \<and> off = 0"
proof
  assume "parse_zone False s = (Ok off, rest)"
  then show "s = Zulu # rest \<and> off = 0"
    by (cases s) (auto simp: parse_zone_def bnd_simps Let_def zone_chars split: if_split_asm)
qed (simp add: parse_zone_Z)

lemma parse_zone_offset:
  assumes "sign = 1 \<or> sign = - 1" "0 \<le> h" "h \<le> 23" "0 \<le> m" "m \<le> 59"
  shows "parse_zone True (zone_text sign h m @ rest) = (Ok (sign * (h * 3600 + m * 60)), rest)"
  using assms by (auto simp: parse_zone_def zone_text_def bnd_simps get_two_digits zone_chars Let_def)

lemma time_internal_Ok:
  assumes "CBS_parse_rfc5280_time_internal cbs g tz True = Ok (Some t)"
  obtains t0 off where "parse_fields g tz cbs = (Ok (t0, off), [])"
    "(if off \<noteq> 0 then res_map Some (OPENSSL_gmtime_adj t0 0 off) else Ok (Some t0)) = Ok (Some t)"
proof (cases "parse_fields g tz cbs")
  case (Pair r copy)
  show ?thesis
  proof (cases r)
    case (Ok v)
    obtain t0 off where v: "v = (t0, off)" by fastforce
    have "copy = []" using assms Pair Ok v by (cases copy) (simp_all add: CBS_parse_rfc5280_time_internal_def)
    then show ?thesis
      using assms Pair Ok v by (intro that [of t0 off]) (simp_all add: CBS_parse_rfc5280_time_internal_def)
  qed (use assms Pair in \<open>simp_all add: CBS_parse_rfc5280_time_internal_def\<close>)
qed

lemma generalized_time_Ok:
  "CBS_parse_generalized_time cbs True False = Ok (Some t) \<longleftrightarrow> valid_tm t \<and> cbs = gentime_text t @ [Zulu]"
proof
  assume "CBS_parse_generalized_time cbs True False = Ok (Some t)"
  then obtain t0 off where p: "parse_fields True False cbs = (Ok (t0, off), [])"
    and r: "(if off \<noteq> 0 then res_map Some (OPENSSL_gmtime_adj t0 0 off) else Ok (Some t0)) = Ok (Some t)"
    unfolding CBS_parse_generalized_time_def by (rule time_internal_Ok)
  obtain zone where z: "parse_year True cbs = (Ok (tm_year t0 + 1900), day_time_text t0 @ zone)" "valid_tm t0"
    "parse_zone False zone = (Ok off, [])" using parse_fields_Ok [OF p] by (elim exE conjE)
  have zone: "off = 0" "zone = [Zulu]" using iffD1 [OF parse_zone_strict z(3)] by simp_all
  have "t0 = t" using r unfolding zone(1) by simp
  moreover note parse_year_Ok [OF z(1), unfolded if_True]
  ultimately show "valid_tm t \<and> cbs = gentime_text t @ [Zulu]"
    using z(2) zone(2) unfolding gentime_text_def by (simp only: append_assoc simp_thms)
next
  assume t: "valid_tm t \<and> cbs = gentime_text t @ [Zulu]"
  have "parse_year True cbs = (Ok (tm_year t + 1900), day_time_text t @ [Zulu])"
    using t tm_ranges [of t] parse_year_gentime by (simp add: gentime_text_def)
  then show "CBS_parse_generalized_time cbs True False = Ok (Some t)"
    using parse_day_time [of t True cbs "[Zulu]" False] t
    by (simp add: CBS_parse_generalized_time_def CBS_parse_rfc5280_time_internal_def parse_zone_Z bnd_simps)
qed

lemma utc_time_Ok:
  "CBS_parse_utc_time cbs True False = Ok (Some t) \<longleftrightarrow>
     valid_tm t \<and> 50 \<le> tm_year t \<and> tm_year t \<le> 149 \<and> cbs = utctime_text t @ [Zulu]"
proof
  assume "CBS_parse_utc_time cbs True False = Ok (Some t)"
  then obtain t0 off where p: "parse_fields False False cbs = (Ok (t0, off), [])"
    and r: "(if off \<noteq> 0 then res_map Some (OPENSSL_gmtime_adj t0 0 off) else Ok (Some t0)) = Ok (Some t)"
    unfolding CBS_parse_utc_time_def by (rule time_internal_Ok)
  obtain zone where z: "parse_year False cbs = (Ok (tm_year t0 + 1900), day_time_text t0 @ zone)" "valid_tm t0"
    "parse_zone False zone = (Ok off, [])" using parse_fields_Ok [OF p] by (elim exE conjE)
  have zone: "off = 0" "zone = [Zulu]" using iffD1 [OF parse_zone_strict z(3)] by simp_all
  have "t0 = t" using r unfolding zone(1) by simp
  moreover note y = parse_year_Ok [OF z(1), unfolded if_False]
  moreover have "50 \<le> tm_year t0" "tm_year t0 \<le> 149" using y by linarith+
  ultimately show "valid_tm t \<and> 50 \<le> tm_year t \<and> tm_year t \<le> 149 \<and> cbs = utctime_text t @ [Zulu]"
    using z(2) zone(2) unfolding utctime_text_def by (simp only: append_assoc simp_thms)
next
  assume t: "valid_tm t \<and> 50 \<le> tm_year t \<and> tm_year t \<le> 149 \<and> cbs = utctime_text t @ [Zulu]"
  have "parse_year False cbs = (Ok (tm_year t + 1900), day_time_text t @ [Zulu])"
    using t parse_year_utctime [of "tm_year t + 1900"] by (simp add: utctime_text_def)
  then show "CBS_parse_utc_time cbs True False = Ok (Some t)"
    using parse_day_time [of t False cbs "[Zulu]" False] t
    by (simp add: CBS_parse_utc_time_def CBS_parse_rfc5280_time_internal_def parse_zone_Z bnd_simps)
qed

text \<open>With an offset the code adds the offset to the local time.\<close>

lemma generalized_time_offset:
  assumes "valid_tm t" "sign = 1 \<or> sign = - 1" "0 \<le> h" "h \<le> 23" "0 \<le> m" "m \<le> 59" "h * 3600 + m * 60 \<noteq> 0"
  shows "CBS_parse_generalized_time (gentime_text t @ zone_text sign h m) True True =
    res_map Some (OPENSSL_gmtime_adj t 0 (sign * (h * 3600 + m * 60)))"
    and "CBS_parse_generalized_time (gentime_text t @ zone_text sign h m) False True = Ok None"
proof -
  let ?s = "gentime_text t @ zone_text sign h m"
  have "parse_year True ?s = (Ok (tm_year t + 1900), day_time_text t @ zone_text sign h m)"
    using assms(1) tm_ranges [of t] parse_year_gentime by (simp add: gentime_text_def)
  from parse_day_time [OF assms(1) this, of True]
  have "parse_fields True True ?s = (Ok (t, sign * (h * 3600 + m * 60)), [])"
    using parse_zone_offset [OF assms(2-6), of "[]"] by (simp add: bnd_simps)
  then show "CBS_parse_generalized_time ?s True True = res_map Some (OPENSSL_gmtime_adj t 0 (sign * (h * 3600 + m * 60)))"
    "CBS_parse_generalized_time ?s False True = Ok None"
    using assms(2,7) by (auto simp: CBS_parse_generalized_time_def CBS_parse_rfc5280_time_internal_def)
qed

text \<open>12:00 at one hour east of Greenwich is 11:00 UTC; the code returns 13:00.\<close>

lemma offset_example: "CBS_parse_generalized_time (bytes_of_string ''20240101120000+0100'') True True =
  Ok (Some \<lparr>tm_sec = 0, tm_min = 0, tm_hour = 13, tm_mday = 1, tm_mon = 0, tm_year = 124\<rparr>)"
  by code_simp

end
