(* ===== verification/Utf.thy ===== *)
theory Utf
  imports Cbb
begin

text \<open>
  \<^verbatim>\<open>crypto/bytestring/unicode.c\<close>: the readers and writers of Unicode code points in UTF-8, Latin-1,
  UCS-2 and UTF-32. Each reader accepts exactly what the corresponding writer produces, for the code
  points that \<open>is_valid_code_point\<close> admits, so that every accepted text has one encoding only.
\<close>

subsection \<open>Code points and masks\<close>

definition is_valid_code_point :: "u32 \<Rightarrow> bool" where
  "is_valid_code_point v =
     (if v > 0x10ffff \<or> v AND 0xfffe = 0xfffe \<or> (v \<ge> 0xfdd0 \<and> v \<le> 0xfdef) \<or> (v \<ge> 0xd800 \<and> v \<le> 0xdfff)
      then False else True)"

definition BOTTOM_BITS :: "nat \<Rightarrow> u8" where
  "BOTTOM_BITS n = ucast (push_bit n (1 :: u32) - 1)"

definition TOP_BITS :: "nat \<Rightarrow> u8" where
  "TOP_BITS n = NOT (BOTTOM_BITS (8 - n))"

subsection \<open>Readers\<close>

text \<open>The continuation bytes: \<open>v\<close> is the value so far.\<close>

fun utf8_loop :: "nat \<Rightarrow> u32 \<Rightarrow> (bytes, u32) cfun" where
  "utf8_loop 0 v = ret v"
| "utf8_loop (Suc n) v =
     bnd CBS_get_u8 (\<lambda>c.
     bnd (check (c AND TOP_BITS 2 = TOP_BITS 1)) (\<lambda>_.
     utf8_loop n (push_bit 6 v OR ucast (c AND BOTTOM_BITS 6))))"

definition CBS_get_utf8 :: "(bytes, u32) cfun" where
  "CBS_get_utf8 =
     bnd CBS_get_u8 (\<lambda>c.
     if c \<le> 0x7f then ret (ucast c)
     else bnd (if c AND TOP_BITS 3 = TOP_BITS 2 then ret (c AND BOTTOM_BITS 5, 1, 0x80)
               else if c AND TOP_BITS 4 = TOP_BITS 3 then ret (c AND BOTTOM_BITS 4, 2, 0x800)
               else if c AND TOP_BITS 5 = TOP_BITS 4 then ret (c AND BOTTOM_BITS 3, 3, 0x10000)
               else fail) (\<lambda>(v, n, lower_bound).
          bnd (utf8_loop n (ucast v)) (\<lambda>v.
          bnd (check (is_valid_code_point v \<and> \<not> v < lower_bound)) (\<lambda>_. ret v))))"

definition CBS_get_latin1 :: "(bytes, u32) cfun" where
  "CBS_get_latin1 = bnd CBS_get_u8 (\<lambda>c. ret (ucast c))"

definition CBS_get_ucs2_be :: "(bytes, u32) cfun" where
  "CBS_get_ucs2_be =
     bnd CBS_get_u16 (\<lambda>c. bnd (check (is_valid_code_point (ucast c))) (\<lambda>_. ret (ucast c)))"

definition CBS_get_utf32_be :: "(bytes, u32) cfun" where
  "CBS_get_utf32_be = bnd CBS_get_u32 (\<lambda>u. bnd (check (is_valid_code_point u)) (\<lambda>_. ret u))"

subsection \<open>Writers\<close>

definition CBB_get_utf8_len :: "u32 \<Rightarrow> nat" where
  "CBB_get_utf8_len u = (if u \<le> 0x7f then 1 else if u \<le> 0x7ff then 2 else if u \<le> 0xffff then 3 else 4)"

text \<open>\<open>lead t x\<close> and \<open>cont x\<close> are the byte arguments \<^verbatim>\<open>TOP_BITS(t) | x\<close> and
  \<^verbatim>\<open>TOP_BITS(1) | (x & BOTTOM_BITS(6))\<close>, computed on 32 bits and passed as a byte.\<close>

definition lead :: "nat \<Rightarrow> u32 \<Rightarrow> u8" where
  "lead t x = ucast (ucast (TOP_BITS t) OR x)"

definition cont :: "u32 \<Rightarrow> u8" where
  "cont x = ucast (ucast (TOP_BITS 1) OR (x AND ucast (BOTTOM_BITS 6)))"

definition CBB_add_utf8 :: "allocator \<Rightarrow> nat \<Rightarrow> u32 \<Rightarrow> (cbb, unit) cfun" where
  "CBB_add_utf8 A d u =
     (if \<not> is_valid_code_point u then fail
      else if u \<le> 0x7f then CBB_add_u8 A d (ucast u)
      else if u \<le> 0x7ff then
        bnd (CBB_add_u8 A d (lead 2 (drop_bit 6 u))) (\<lambda>_. CBB_add_u8 A d (cont u))
      else if u \<le> 0xffff then
        bnd (CBB_add_u8 A d (lead 3 (drop_bit 12 u))) (\<lambda>_.
        bnd (CBB_add_u8 A d (cont (drop_bit 6 u))) (\<lambda>_. CBB_add_u8 A d (cont u)))
      else if u \<le> 0x10ffff then
        bnd (CBB_add_u8 A d (lead 4 (drop_bit 18 u))) (\<lambda>_.
        bnd (CBB_add_u8 A d (cont (drop_bit 12 u))) (\<lambda>_.
        bnd (CBB_add_u8 A d (cont (drop_bit 6 u))) (\<lambda>_. CBB_add_u8 A d (cont u))))
      else fail)"

definition CBB_add_latin1 :: "allocator \<Rightarrow> nat \<Rightarrow> u32 \<Rightarrow> (cbb, unit) cfun" where
  "CBB_add_latin1 A d u = bnd (check (u \<le> 0xff)) (\<lambda>_. CBB_add_u8 A d (ucast u))"

definition CBB_add_ucs2_be :: "allocator \<Rightarrow> nat \<Rightarrow> u32 \<Rightarrow> (cbb, unit) cfun" where
  "CBB_add_ucs2_be A d u =
     bnd (check (u \<le> 0xffff \<and> is_valid_code_point u)) (\<lambda>_. CBB_add_u16 A d (ucast u))"

definition CBB_add_utf32_be :: "allocator \<Rightarrow> nat \<Rightarrow> u32 \<Rightarrow> (cbb, unit) cfun" where
  "CBB_add_utf32_be A d u = bnd (check (is_valid_code_point u)) (\<lambda>_. CBB_add_u32 A d u)"

subsection \<open>Masks\<close>

lemma BOTTOM_BITS_eq: "n \<le> 8 \<Longrightarrow> BOTTOM_BITS n = mask n"
  unfolding BOTTOM_BITS_def push_bit_of_1 mask_eq_exp_minus_1 [symmetric]
  by (rule bit_word_eqI) (auto simp: bit_simps simp flip: mask_eq_exp_minus_1)

lemma unat_and_bottom: "n \<le> 8 \<Longrightarrow> unat (c AND BOTTOM_BITS n) = unat c mod 2 ^ n"
  unfolding BOTTOM_BITS_eq take_bit_eq_mask [symmetric] unsigned_take_bit_eq by (rule take_bit_eq_mod)

lemma and_not_mask: "c AND NOT (mask n) = push_bit n (drop_bit n (c :: u8))"
  by (rule bit_word_eqI) (auto simp: bit_simps)

lemma unat_and_top: "n \<le> 8 \<Longrightarrow> unat (c AND TOP_BITS n) = unat c div 2 ^ (8 - n) * 2 ^ (8 - n)"
proof -
  have "unat c div 2 ^ (8 - n) * 2 ^ (8 - n) \<le> unat c"
    by (rule div_times_less_eq_dividend)
  then have "unat (drop_bit (8 - n) c) * 2 ^ (8 - n) < 2 ^ LENGTH(8)"
    using unsigned_less [of c, where ?'a = nat] unfolding unat_drop_bit_eq drop_bit_eq_div [of _ "unat c"] by linarith
  from unat_push_bit [OF this] show "n \<le> 8 \<Longrightarrow> ?thesis"
    by (simp only: TOP_BITS_def BOTTOM_BITS_eq and_not_mask unat_drop_bit_eq drop_bit_eq_div [of _ "unat c"] diff_le_self)
qed

lemma top_bits: "TOP_BITS (Suc 0) = 0x80" "TOP_BITS 1 = 0x80" "TOP_BITS 2 = 0xc0" "TOP_BITS 3 = 0xe0" "TOP_BITS 4 = 0xf0" "TOP_BITS 5 = 0xf8"
  by (simp_all add: TOP_BITS_def BOTTOM_BITS_eq mask_eq_exp_minus_1)

lemma lead_tests:
  "c AND TOP_BITS 2 = TOP_BITS 1 \<longleftrightarrow> unat c div 64 = 2"
  "c AND TOP_BITS 3 = TOP_BITS 2 \<longleftrightarrow> unat c div 32 = 6"
  "c AND TOP_BITS 4 = TOP_BITS 3 \<longleftrightarrow> unat c div 16 = 14"
  "c AND TOP_BITS 5 = TOP_BITS 4 \<longleftrightarrow> unat c div 8 = 30"
  by (simp_all add: word_unat_eq_iff [of "c AND _"] unat_and_top) (simp_all add: top_bits)

lemma unat_low6: "unat (ucast (c AND BOTTOM_BITS 6) :: u32) = unat c mod 64"
  by (simp add: unsigned_ucast_eq unat_and_bottom take_bit_nat_eq_self)

subsection \<open>The encoding form, and that the reader accepts it alone\<close>

text \<open>UTF-8 as the Unicode standard defines it (table 3-6), on numbers: \<open>utf8_tail n v\<close> are the
  continuation bytes that hold the low \<open>6 * n\<close> bits of \<open>v\<close>.\<close>

fun utf8_tail :: "nat \<Rightarrow> nat \<Rightarrow> bytes" where
  "utf8_tail 0 v = []"
| "utf8_tail (Suc n) v = of_nat (128 + v div 64 ^ n mod 64) # utf8_tail n v"

definition utf8 :: "u32 \<Rightarrow> bytes" where
  "utf8 u =
     (let v = unat u
      in if v < 0x80 then [of_nat v]
         else if v < 0x800 then of_nat (0xc0 + v div 64) # utf8_tail 1 v
         else if v < 0x10000 then of_nat (0xe0 + v div 4096) # utf8_tail 2 v
         else of_nat (0xf0 + v div 262144) # utf8_tail 3 v)"

lemma lead_byte:
  "x < k \<Longrightarrow> q * k + x < 256 \<Longrightarrow> c = of_nat (q * k + x) \<longleftrightarrow> unat (c :: u8) div k = q \<and> unat c mod k = x"
  using unat_byte [of "q * k + x"] div_mod_iff [of x k "unat c" q] by (simp add: word_unat_eq_iff)

lemma cont_byte: "x < 64 \<Longrightarrow> c = of_nat (128 + x) \<longleftrightarrow> unat (c :: u8) div 64 = 2 \<and> unat c mod 64 = x"
  using lead_byte [of x 64 2] by simp

lemma utf8_loop_Ok:
  "(unat v + 1) * 64 ^ n \<le> 2 ^ 32 \<Longrightarrow>
   utf8_loop n v s = (Ok w, rest) \<longleftrightarrow> s = utf8_tail n (unat w) @ rest \<and> unat w div 64 ^ n = unat v"
proof (induction n arbitrary: v s)
  case 0
  then show ?case by (auto simp: word_unat_eq_iff)
next
  case (Suc n)
  let ?W = "unat w"
  show ?case
  proof (cases s)
    case Nil
    then show ?thesis by (simp add: bnd_def)
  next
    case (Cons c s')
    let ?x = "unat c mod 64"
    let ?v = "push_bit 6 v OR ucast (c AND BOTTOM_BITS 6)"
    have "(unat v + 1) * 64 * 64 ^ n \<le> 2 ^ 32" using Suc.prems by (simp add: algebra_simps)
    moreover have "(unat v + 1) * 64 * 1 \<le> (unat v + 1) * 64 * 64 ^ n" by (intro mult_left_mono) simp_all
    ultimately have v64: "(unat v + 1) * 64 \<le> 2 ^ 32" by linarith
    have v: "unat ?v = unat v * 64 + ?x"
      using unat_push_or [where k = 6 and v = v and x = "ucast (c AND BOTTOM_BITS 6)"] v64 by (simp add: unat_low6)
    have "(unat ?v + 1) * 64 ^ n \<le> (unat v + 1) * 64 * 64 ^ n"
      unfolding v by (intro mult_right_mono) simp_all
    also have "\<dots> \<le> 2 ^ 32" using Suc.prems by (simp add: algebra_simps)
    finally have IH: "utf8_loop n ?v s' = (Ok w, rest) \<longleftrightarrow> s' = utf8_tail n ?W @ rest \<and> ?W div 64 ^ n = unat v * 64 + ?x"
      unfolding v [symmetric] by (rule Suc.IH)
    have D: "?W div 64 ^ n = unat v * 64 + ?x \<longleftrightarrow> ?W div 64 ^ n div 64 = unat v \<and> ?W div 64 ^ n mod 64 = ?x"
      by (rule div_mod_iff) simp
    have L: "utf8_loop (Suc n) v (c # s') = (Ok w, rest) \<longleftrightarrow> unat c div 64 = 2 \<and> utf8_loop n ?v s' = (Ok w, rest)"
      by (simp add: bnd_simps lead_tests [unfolded One_nat_def])
    have R: "c # s' = utf8_tail (Suc n) ?W @ rest \<and> ?W div 64 ^ Suc n = unat v \<longleftrightarrow>
      (unat c div 64 = 2 \<and> unat c mod 64 = ?W div 64 ^ n mod 64) \<and> s' = utf8_tail n ?W @ rest \<and> ?W div 64 ^ n div 64 = unat v"
      by (simp only: power_Suc2 div_mult2_eq utf8_tail.simps append_Cons list.inject cont_byte mod_less_divisor zero_less_numeral conj_assoc)
    show ?thesis unfolding Cons L R IH D by auto
  qed
qed

text \<open>What the validity check leaves: the scalar values of Unicode other than the noncharacters.\<close>

lemma valid_code_point_iff:
  "is_valid_code_point u \<longleftrightarrow>
     unat u \<le> 0x10ffff \<and> \<not> (0xd800 \<le> unat u \<and> unat u \<le> 0xdfff) \<and> \<not> (0xfdd0 \<le> unat u \<and> unat u \<le> 0xfdef) \<and>
     unat u mod 0x10000 < 0xfffe"
proof -
  have "u AND 0xfffe = push_bit 1 (take_bit 15 (drop_bit 1 u))"
  proof -
    have c: "(0xfffe :: u32) = push_bit 1 (mask 15)" by (simp add: mask_eq_exp_minus_1)
    show ?thesis unfolding c
      by (rule bit_word_eqI, simp only: bit_and_iff bit_push_bit_iff bit_take_bit_iff bit_drop_bit_eq bit_mask_iff comp_apply) auto
  qed
  moreover have "unat (push_bit 1 (take_bit 15 (drop_bit 1 u))) = unat u div 2 mod 32768 * 2"
  proof -
    have "unat (take_bit 15 (drop_bit 1 u)) = unat u div 2 mod 32768"
      unfolding unsigned_take_bit_eq unat_drop_bit_eq by (simp add: drop_bit_Suc take_bit_eq_mod)
    with unat_push_bit [of "take_bit 15 (drop_bit 1 u)" 1] show ?thesis by (simp del: push_bit_Suc take_bit_drop_bit)
  qed
  ultimately have "unat (u AND 0xfffe) = unat u div 2 mod 32768 * 2" by simp
  moreover have "unat u mod 0x10000 = 2 * (unat u div 2 mod 32768) + unat u mod 2"
    using mod_mult2_eq [of "unat u" 2 32768] by simp
  moreover have "unat u div 2 mod 32768 < 32768" "unat u mod 2 < 2" by simp_all
  ultimately have "u AND 0xfffe = 0xfffe \<longleftrightarrow> 0xfffe \<le> unat u mod 0x10000"
    by (simp add: word_unat_eq_iff [of "u AND _"]) linarith
  then show ?thesis by (auto simp: is_valid_code_point_def word_less_nat_alt word_le_nat_alt not_le)
qed

lemma utf8_Cons:
  assumes "unat u \<le> 0x10ffff"
  shows "c # s' = utf8 u @ rest \<longleftrightarrow>
     unat u < 0x80 \<and> unat c = unat u \<and> s' = rest \<or>
     0x80 \<le> unat u \<and> unat u < 0x800 \<and> unat c div 32 = 6 \<and> unat c mod 32 = unat u div 64 \<and> s' = utf8_tail 1 (unat u) @ rest \<or>
     0x800 \<le> unat u \<and> unat u < 0x10000 \<and> unat c div 16 = 14 \<and> unat c mod 16 = unat u div 4096 \<and> s' = utf8_tail 2 (unat u) @ rest \<or>
     0x10000 \<le> unat u \<and> unat c div 8 = 30 \<and> unat c mod 8 = unat u div 262144 \<and> s' = utf8_tail 3 (unat u) @ rest"
proof -
  let ?U = "unat u"
  have c1: "c = ucast u \<longleftrightarrow> unat c = ?U" if "?U < 0x80"
    using that unat_byte [of ?U] by (simp add: word_unat_eq_iff)
  have c2: "c = of_nat (0xc0 + ?U div 64) \<longleftrightarrow> unat c div 32 = 6 \<and> unat c mod 32 = ?U div 64" if "?U < 0x800"
    using lead_byte [of "?U div 64" 32 6 c] that by simp
  have c3: "c = of_nat (0xe0 + ?U div 4096) \<longleftrightarrow> unat c div 16 = 14 \<and> unat c mod 16 = ?U div 4096" if "?U < 0x10000"
    using lead_byte [of "?U div 4096" 16 14 c] that by simp
  have c4: "c = of_nat (0xf0 + ?U div 262144) \<longleftrightarrow> unat c div 8 = 30 \<and> unat c mod 8 = ?U div 262144"
    using lead_byte [of "?U div 262144" 8 30 c] assms by simp
  consider "?U < 0x80" | "0x80 \<le> ?U" "?U < 0x800" | "0x800 \<le> ?U" "?U < 0x10000" | "0x10000 \<le> ?U" by linarith
  then show ?thesis
    by cases (simp_all add: utf8_def Let_def c1 c2 c3  c4  del: utf8_tail.simps of_nat_add)
qed

lemma get_utf8_Cons:
  "CBS_get_utf8 (c # s') =
     (if unat c < 0x80 then (Ok (ucast c), s')
      else if unat c div 32 = 6 then bnd (utf8_loop 1 (ucast (c AND BOTTOM_BITS 5))) (\<lambda>v. bnd (check (is_valid_code_point v \<and> 0x80 \<le> v)) (\<lambda>_. ret v)) s'
      else if unat c div 16 = 14 then bnd (utf8_loop 2 (ucast (c AND BOTTOM_BITS 4))) (\<lambda>v. bnd (check (is_valid_code_point v \<and> 0x800 \<le> v)) (\<lambda>_. ret v)) s'
      else if unat c div 8 = 30 then bnd (utf8_loop 3 (ucast (c AND BOTTOM_BITS 3))) (\<lambda>v. bnd (check (is_valid_code_point v \<and> 0x10000 \<le> v)) (\<lambda>_. ret v)) s'
      else (Fail, s'))"
  unfolding CBS_get_utf8_def lead_tests
  by (simp add: bnd_simps word_le_nat_alt not_less del: utf8_loop.simps)

lemma utf8_multi:
  assumes "k \<le> 5" "(2 ^ k + 1) * 64 ^ n \<le> (2 :: nat) ^ 32"
  shows "bnd (utf8_loop n (ucast (c AND BOTTOM_BITS k))) (\<lambda>v. bnd (check (is_valid_code_point v \<and> lo \<le> v)) (\<lambda>_. ret v)) s' = (Ok u, rest)
    \<longleftrightarrow> is_valid_code_point u \<and> lo \<le> u \<and> unat c mod 2 ^ k = unat u div 64 ^ n \<and> s' = utf8_tail n (unat u) @ rest"
proof -
  have v: "unat (ucast (c AND BOTTOM_BITS k) :: u32) = unat c mod 2 ^ k"
    using assms(1) unsigned_less [of "c AND BOTTOM_BITS k", where ?'a = nat]
    by (simp add: unsigned_ucast_eq unat_and_bottom take_bit_nat_eq_self)
  have "(unat (ucast (c AND BOTTOM_BITS k) :: u32) + 1) * 64 ^ n \<le> (2 ^ k + 1) * 64 ^ n"
    unfolding v by (intro mult_right_mono add_right_mono) (simp_all add: less_imp_le)
  from utf8_loop_Ok [OF order.trans [OF this assms(2)]] show ?thesis
    unfolding v by (auto simp: bnd_Ok_iff check_def split: if_splits)
qed

lemma utf8_Ok: "CBS_get_utf8 s = (Ok u, rest) \<longleftrightarrow> is_valid_code_point u \<and> s = utf8 u @ rest"
proof (cases s)
  case Nil
  then show ?thesis by (simp add: CBS_get_utf8_def bnd_def utf8_def Let_def)
next
  case (Cons c s')
  let ?C = "unat c" and ?U = "unat u"
  have low: "?U < 0x80 \<Longrightarrow> is_valid_code_point u" by (simp add: valid_code_point_iff)
  have c: "u = ucast c \<longleftrightarrow> ?C = ?U"
    using unsigned_less [of c, where ?'a = nat]
    by (auto simp: word_unat_eq_iff unsigned_ucast_eq take_bit_nat_eq_self)
  have lead: "?C div 32 = 6 \<longleftrightarrow> 192 \<le> ?C \<and> ?C < 224" "?C div 16 = 14 \<longleftrightarrow> 224 \<le> ?C \<and> ?C < 240"
    "?C div 8 = 30 \<longleftrightarrow> 240 \<le> ?C \<and> ?C < 248" by auto
  have U: "?C mod 32 = ?U div 64 \<Longrightarrow> ?U < 0x800" "?C mod 16 = ?U div 4096 \<Longrightarrow> ?U < 0x10000"
    using mod_less_divisor [of 32 ?C] mod_less_divisor [of 16 ?C] by linarith+
  let ?R = "is_valid_code_point u \<and> (?U < 0x80 \<and> ?C = ?U \<and> s' = rest \<or>
     0x80 \<le> ?U \<and> ?U < 0x800 \<and> ?C div 32 = 6 \<and> ?C mod 32 = ?U div 64 \<and> s' = utf8_tail 1 ?U @ rest \<or>
     0x800 \<le> ?U \<and> ?U < 0x10000 \<and> ?C div 16 = 14 \<and> ?C mod 16 = ?U div 4096 \<and> s' = utf8_tail 2 ?U @ rest \<or>
     0x10000 \<le> ?U \<and> ?C div 8 = 30 \<and> ?C mod 8 = ?U div 262144 \<and> s' = utf8_tail 3 ?U @ rest)"
  have R: "is_valid_code_point u \<and> s = utf8 u @ rest \<longleftrightarrow> ?R"
    unfolding Cons by (rule conj_cong [OF refl utf8_Cons]) (simp add: valid_code_point_iff)
  consider "?C < 0x80" | "0x80 \<le> ?C" "?C < 192" | "192 \<le> ?C" "?C < 224" | "224 \<le> ?C" "?C < 240"
    | "240 \<le> ?C" "?C < 248" | "248 \<le> ?C" by linarith
  then have "CBS_get_utf8 (c # s') = (Ok u, rest) \<longleftrightarrow> ?R"
  proof cases
    case 1
    then show ?thesis using low c unfolding get_utf8_Cons lead by auto
  next
    case 3
    then show ?thesis using U utf8_multi [of 5 1 c "0x80" s' u rest] unfolding get_utf8_Cons lead
      by (simp add: word_le_nat_alt del: utf8_loop.simps utf8_tail.simps) auto
  next
    case 4
    then show ?thesis using U utf8_multi [of 4 2 c "0x800" s' u rest] unfolding get_utf8_Cons lead
      by (simp add: word_le_nat_alt del: utf8_loop.simps utf8_tail.simps) auto
  next
    case 5
    then show ?thesis using U utf8_multi [of 3 3 c "0x10000" s' u rest] unfolding get_utf8_Cons lead
      by (simp add: word_le_nat_alt del: utf8_loop.simps utf8_tail.simps) auto
  qed (auto simp: get_utf8_Cons lead)
  then show ?thesis unfolding R by (simp only: Cons)
qed

lemma utf8_length: "length (utf8 u) = CBB_get_utf8_len u"
proof -
  have "length (utf8_tail n v) = n" for n v by (induction n) simp_all
  then show ?thesis by (simp add: utf8_def CBB_get_utf8_len_def Let_def word_le_nat_alt del: utf8_tail.simps)
qed

subsection \<open>The writers produce it\<close>

lemma ucast_lead:
  assumes "w = push_bit k v" "unat x < 2 ^ k" "unat v * 2 ^ k + unat x < 2 ^ 32"
  shows "(ucast (w OR x :: u32) :: u8) = of_nat (unat v * 2 ^ k + unat x)"
proof -
  have "(ucast (w OR x) :: u8) = of_nat (unat (w OR x))" by simp
  also have "unat (w OR x) = unat v * 2 ^ k + unat x" using unat_push_or [of x k v] assms by simp
  finally show ?thesis .
qed


lemma lead_eq:
  "unat x < 64 \<Longrightarrow> lead 2 x = of_nat (192 + unat x)"
  "unat x < 32 \<Longrightarrow> lead 3 x = of_nat (224 + unat x)"
  "unat x < 16 \<Longrightarrow> lead 4 x = of_nat (240 + unat x)"
  using ucast_lead [of "0xc0" 6 3 x] ucast_lead [of "0xe0" 5 7 x] ucast_lead [of "0xf0" 4 15 x]
  by (simp_all add: lead_def top_bits del: of_nat_add)

lemma cont_eq: "cont x = of_nat (128 + unat x mod 64)"
proof -
  have x: "x AND ucast (BOTTOM_BITS 6) = take_bit 6 x"
    by (rule bit_word_eqI) (auto simp: BOTTOM_BITS_eq bit_simps)
  have "unat (take_bit 6 x) = unat x mod 64" unfolding unsigned_take_bit_eq by (simp add: take_bit_eq_mod)
  then show ?thesis
    using ucast_lead [of "0x80" 6 2 "take_bit 6 x"] unfolding cont_def x by (simp add: top_bits del: of_nat_add)
qed

lemma writes_utf8:
  assumes "is_valid_code_point u"
  shows "writes A d (utf8 u) () (CBB_add_utf8 A d u)"
proof -
  let ?U = "unat u"
  have le: "?U \<le> 0x10ffff" using assms by (simp add: valid_code_point_iff)
  have drop: "unat (drop_bit 6 u) = ?U div 64" "unat (drop_bit 12 u) = ?U div 4096" "unat (drop_bit 18 u) = ?U div 262144"
    unfolding unat_drop_bit_eq by (simp_all add: drop_bit_eq_div)
  consider "?U < 0x80" | "0x80 \<le> ?U" "?U < 0x800" | "0x800 \<le> ?U" "?U < 0x10000" | "0x10000 \<le> ?U" by linarith
  then show ?thesis
  proof cases
    case 1
    then show ?thesis using assms writes_add_u8 [of A d "ucast u"]
      by (simp add: CBB_add_utf8_def utf8_def word_le_nat_alt)
  next
    case 2
    then have "writes A d (utf8 u) () (bnd (CBB_add_u8 A d (lead 2 (drop_bit 6 u))) (\<lambda>_. CBB_add_u8 A d (cont u)))"
      using writes_bnd_unit [OF writes_add_u8 writes_add_u8, of A d "lead 2 (drop_bit 6 u)" "cont u"]
      by (simp add: utf8_def Let_def lead_eq cont_eq drop del: of_nat_add)
    then show ?thesis using 2 assms by (simp add: CBB_add_utf8_def word_le_nat_alt)
  next
    case 3
    then have "writes A d (utf8 u) () (bnd (CBB_add_u8 A d (lead 3 (drop_bit 12 u))) (\<lambda>_.
        bnd (CBB_add_u8 A d (cont (drop_bit 6 u))) (\<lambda>_. CBB_add_u8 A d (cont u))))"
      using writes_bnd_unit [OF writes_add_u8 writes_bnd_unit [OF writes_add_u8 writes_add_u8], of A d "lead 3 (drop_bit 12 u)" "cont (drop_bit 6 u)" "cont u"]
      by (simp add: utf8_def Let_def lead_eq cont_eq drop numeral_2_eq_2 del: of_nat_add)
    then show ?thesis using 3 assms by (simp add: CBB_add_utf8_def word_le_nat_alt)
  next
    case 4
    then have "writes A d (utf8 u) () (bnd (CBB_add_u8 A d (lead 4 (drop_bit 18 u))) (\<lambda>_.
        bnd (CBB_add_u8 A d (cont (drop_bit 12 u))) (\<lambda>_.
        bnd (CBB_add_u8 A d (cont (drop_bit 6 u))) (\<lambda>_. CBB_add_u8 A d (cont u)))))"
      using le writes_bnd_unit [OF writes_add_u8 writes_bnd_unit [OF writes_add_u8 writes_bnd_unit [OF writes_add_u8 writes_add_u8]],
          of A d "lead 4 (drop_bit 18 u)" "cont (drop_bit 12 u)" "cont (drop_bit 6 u)" "cont u"]
      by (simp add: utf8_def Let_def lead_eq cont_eq drop numeral_3_eq_3 del: of_nat_add)
    then show ?thesis using 4 le assms by (simp add: CBB_add_utf8_def word_le_nat_alt)
  qed
qed

lemma add_utf8_invalid: "\<not> is_valid_code_point u \<Longrightarrow> CBB_add_utf8 A d u s = (Fail, s)"
  by (simp add: CBB_add_utf8_def)

interpretation utf8: bytes_codec utf8 CBS_get_utf8 is_valid_code_point
  by unfold_locales (simp add: utf8_Ok)

subsection \<open>The fixed-width encodings\<close>

lemma drop_ucast: "unat u < 2 ^ k \<Longrightarrow> drop_bit k (ucast (u :: u32) :: u64) = 0"
proof -
  have "unat (ucast u :: u64) = unat u"
    using unsigned_less [of u, where ?'a = nat] by (intro unat_ucast_small) simp
  then show "unat u < 2 ^ k \<Longrightarrow> ?thesis" unfolding drop_bit_eq_0_iff by simp
qed

lemma writes_latin1: "unat u \<le> 0xff \<Longrightarrow> writes A d [ucast u] () (CBB_add_latin1 A d u)"
  using writes_add_u8 [of A d "ucast u"] by (simp add: CBB_add_latin1_def bnd_def check_def word_le_nat_alt)

lemma latin1_Ok: "CBS_get_latin1 s = (Ok u, rest) \<longleftrightarrow> unat u \<le> 0xff \<and> s = ucast u # rest"
proof (cases s)
  case (Cons c s')
  have "u = ucast c \<longleftrightarrow> unat u \<le> 0xff \<and> c = ucast u"
    using unsigned_less [of c, where ?'a = nat]
    by (auto simp: word_unat_eq_iff unsigned_ucast_eq take_bit_nat_eq_self)
  then show ?thesis by (auto simp: Cons CBS_get_latin1_def bnd_def)
qed (simp add: CBS_get_latin1_def bnd_def)

lemma ucs2_Ok:
  "CBS_get_ucs2_be s = (Ok u, rest) \<longleftrightarrow>
     unat u \<le> 0xffff \<and> is_valid_code_point u \<and> s = be_bytes 2 (ucast u) @ rest"
proof
  assume "CBS_get_ucs2_be s = (Ok u, rest)"
  then obtain v where v: "cbs_get_u 2 s = (Ok v, rest)" "is_valid_code_point u" "u = ucast (ucast v :: u16)"
    by (auto simp: CBS_get_ucs2_be_def CBS_get_u16_def bnd_Ok_iff check_def split: if_splits)
  have b: "s = be_bytes 2 v @ rest" "drop_bit 16 v = 0" using cbs_get_u_Ok [OF v(1)] by simp_all
  then have "unat v < 2 ^ 16" by (simp add: drop_bit_eq_0_iff)
  then have "unat u = unat v" unfolding v(3) by (simp add: unat_ucast_small)
  with \<open>unat v < 2 ^ 16\<close> have "unat u \<le> 0xffff" "ucast u = v" by (simp_all add: word_unat_eq_iff unat_ucast_small)
  with b v show "unat u \<le> 0xffff \<and> is_valid_code_point u \<and> s = be_bytes 2 (ucast u) @ rest" by simp
next
  assume u: "unat u \<le> 0xffff \<and> is_valid_code_point u \<and> s = be_bytes 2 (ucast u) @ rest"
  then have "drop_bit 16 (ucast u :: u64) = 0" "(ucast (ucast (ucast u :: u64) :: u16) :: u32) = u"
    using drop_ucast [of u 16] by (simp_all add: word_unat_eq_iff [of _ u] unat_ucast_small)
  then show "CBS_get_ucs2_be s = (Ok u, rest)"
    using u cbs_get_u_be_bytes [of 2 "ucast u" rest] by (simp add: CBS_get_ucs2_be_def CBS_get_u16_def bnd_simps)
qed

lemma utf32_Ok:
  "CBS_get_utf32_be s = (Ok u, rest) \<longleftrightarrow> is_valid_code_point u \<and> s = be_bytes 4 (ucast u) @ rest"
proof
  assume "CBS_get_utf32_be s = (Ok u, rest)"
  then obtain v where v: "cbs_get_u 4 s = (Ok v, rest)" "is_valid_code_point u" "u = ucast v"
    by (auto simp: CBS_get_utf32_be_def CBS_get_u32_def bnd_Ok_iff check_def split: if_splits)
  have b: "s = be_bytes 4 v @ rest" "drop_bit 32 v = 0" using cbs_get_u_Ok [OF v(1)] by simp_all
  then have "unat v < 2 ^ 32" by (simp add: drop_bit_eq_0_iff)
  then have "ucast u = v" unfolding v(3) word_unat_eq_iff by (simp add: unat_ucast_small)
  with b v show "is_valid_code_point u \<and> s = be_bytes 4 (ucast u) @ rest" by simp
next
  assume u: "is_valid_code_point u \<and> s = be_bytes 4 (ucast u) @ rest"
  have "drop_bit 32 (ucast u :: u64) = 0" "(ucast (ucast u :: u64) :: u32) = u"
    using unsigned_less [of u, where ?'a = nat] drop_ucast [of u 32]
    by (simp_all add: word_unat_eq_iff [of _ u] unat_ucast_small)
  then show "CBS_get_utf32_be s = (Ok u, rest)"
    using u cbs_get_u_be_bytes [of 4 "ucast u" rest] by (simp add: CBS_get_utf32_be_def CBS_get_u32_def bnd_simps)
qed

lemma writes_ucs2:
  assumes "unat u \<le> 0xffff" "is_valid_code_point u"
  shows "writes A d (be_bytes 2 (ucast u)) () (CBB_add_ucs2_be A d u)"
proof -
  have "drop_bit 16 (ucast u :: u64) = 0" "(ucast (ucast u :: u16) :: u64) = ucast u"
    using assms(1) drop_ucast [of u 16] by (simp_all add: word_unat_eq_iff [of "ucast _" "ucast u"] unat_ucast_small)
  then show ?thesis
    using assms writes_add_u [of 2 "ucast u" A d]
    by (simp add: CBB_add_ucs2_be_def CBB_add_u16_def bnd_def check_def word_le_nat_alt)
qed

lemma writes_utf32:
  assumes "is_valid_code_point u"
  shows "writes A d (be_bytes 4 (ucast u)) () (CBB_add_utf32_be A d u)"
proof -
  have "drop_bit 32 (ucast u :: u64) = 0"
    using unsigned_less [of u, where ?'a = nat] by (simp add: drop_ucast)
  then show ?thesis
    using assms writes_add_u [of 4 "ucast u" A d] by (simp add: CBB_add_utf32_be_def CBB_add_u32_def bnd_def check_def)
qed

end
