(* ===== verification/Ber.thy ===== *)
theory Ber
  imports Cbb_Asn1
begin

text \<open>
  \<^verbatim>\<open>crypto/bytestring/ber.c\<close>: the conversion of BER to DER, and \<^verbatim>\<open>CBB_finish_i2d\<close> of
  \<^verbatim>\<open>crypto/bytestring/asn1_compat.c\<close>. \<open>ber_content\<close> is the conversion as a function on bytes;
  \<open>convert_tracks\<close> shows that \<open>cbs_convert_ber\<close>, which writes through nested CBBs, computes it.
  \<open>der_items\<close> describes nested DER without constructed strings: the scan answers no exactly on it, and
  every result of the conversion is of that form.
\<close>

subsection \<open>Elements\<close>

definition kMaxDepth :: nat where "kMaxDepth = 128"

definition is_string_type :: "asn1_tag \<Rightarrow> bool" where
  "is_string_type tag \<longleftrightarrow>
     tag AND NOT CBS_ASN1_CONSTRUCTED \<in> {0x4, 0xc, 0x12, 0x13, 0x14, 0x15, 0x16, 0x19, 0x1a, 0x1b, 0x1c, 0x1e}"

text \<open>What every element read has: the facts the loops below terminate by.\<close>

lemma ber_element_facts:
  assumes "cbs_get_any_asn1_element True s = (Ok e, rest)"
  shows "s = el_contents e @ rest \<and> valid_tag (el_tag e) \<and> 2 \<le> el_header_len e \<and>
    el_header_len e \<le> length (el_contents e) \<and>
    (el_indefinite e \<longrightarrow> el_tag e AND CBS_ASN1_CONSTRUCTED \<noteq> 0 \<and> el_header_len e = length (el_contents e) \<and> el_ber_found e) \<and>
    (el_ber_found e \<or> CBS_get_any_asn1_element s = (Ok e, rest))"
proof -
  obtain tag h where h: "parse_asn1_tag s = (Ok tag, h)"
    using assms by (auto simp: cbs_get_any_asn1_element_def split: res.splits prod.splits)
  note tag = parse_asn1_tag_Ok [OF h]
  obtain b h' where b: "h = b # h'"
    using assms h by (cases h) (auto simp: cbs_get_any_asn1_element_def)
  define hl where "hl = Suc (length (der_tag tag))"
  have hl: "2 \<le> hl" "hl \<le> 12" using der_tag_length [of tag] by (simp_all add: hl_def)
  have s: "length s - length h' = hl" using tag b by (simp add: hl_def)
  define element where "element = (\<lambda>len hlen ber indef.
    bnd (CBS_get_bytes len) (\<lambda>out. ret \<lparr>el_contents = out, el_tag = tag, el_header_len = hlen, el_ber_found = ber, el_indefinite = indef\<rparr>) s)"
  have step: "s = el_contents e @ rest \<and> length (el_contents e) = n \<and> el_tag e = tag \<and> el_header_len e = k \<and>
    el_ber_found e = f \<and> el_indefinite e = g" if "element n k f g = (Ok e, rest)" for n k f g
    using that by (auto simp: element_def bnd_Ok_iff CBS_get_bytes_Ok)
  have len: "unat (b AND 0x7f) < 128" using mask_bound [of 7 b] by (simp add: and_7f)
  show ?thesis
  proof (cases "b AND 0x80 = 0")
    case True
    then have "take_bit 7 b = b"
      by (intro bit_word_eqI) (auto simp: and_80 bit_simps less_Suc_eq numeral_nat)
    then have bl: "unat b < 128" using mask_bound [of 7 b] by simp
    have e: "cbs_get_any_asn1_element ok s = element (size_add (unat b) hl) hl False False" for ok
      using True by (simp add: cbs_get_any_asn1_element_def h b s element_def)
    show ?thesis
      using step [of "size_add (unat b) hl" hl False False] assms hl tag bl e
      by (simp add: CBS_get_any_asn1_element_def size_add_small)
  next
    case False
    let ?num = "unat (b AND 0x7f)"
    show ?thesis
    proof (cases "tag AND CBS_ASN1_CONSTRUCTED \<noteq> 0 \<and> ?num = 0")
      case True
      have "cbs_get_any_asn1_element True s = element hl hl True True"
        using False True by (simp add: cbs_get_any_asn1_element_def h b s element_def Let_def)
      then show ?thesis using step [of hl hl True True] assms hl tag True by simp
    next
      case c: False
      then have num: "?num \<noteq> 0" "?num \<le> 4" 
        using assms False by (auto simp: cbs_get_any_asn1_element_def h b s Let_def split: if_splits)
      obtain len64 q where q: "cbs_get_u ?num h' = (Ok len64, q)"
        using assms False c num by (auto simp: cbs_get_any_asn1_element_def h b s Let_def split: res.splits prod.splits)
      have "unat len64 < 2 ^ (8 * ?num)" using cbs_get_u_Ok(2) [OF q] num by (simp add: drop_bit_eq_0_iff)
      also have "\<dots> \<le> 2 ^ 32" using num by (intro power_increasing) auto
      finally have l: "unat len64 < 2 ^ 32" .
      then have sz: "size_add (unat len64) (size_add hl ?num) = unat len64 + (hl + ?num)" "size_add hl ?num = hl + ?num"
        "size_add (size_add (unat len64) hl) ?num = unat len64 + (hl + ?num)"
        using num hl by (simp_all add: size_add_small)
      define f where "f = (len64 < 128 \<or> drop_bit ((?num - 1) * 8) len64 = 0)"
      have e: "cbs_get_any_asn1_element True s = element (unat len64 + (hl + ?num)) (hl + ?num) f False"
        "\<not> f \<Longrightarrow> cbs_get_any_asn1_element False s = element (unat len64 + (hl + ?num)) (hl + ?num) f False"
        using False c num q sz by (simp_all add: cbs_get_any_asn1_element_def h b s element_def f_def Let_def)
      show ?thesis
        using step [of "unat len64 + (hl + ?num)" "hl + ?num" f False] assms hl tag e
        by (auto simp: CBS_get_any_asn1_element_def)
    qed
  qed
qed

lemma ber_element_lengths:
  assumes "CBS_get_any_ber_asn1_element s = (Ok e, rest)"
  shows "length rest < length s" and "CBS_skip (el_header_len e) (el_contents e) = (Ok (), drop (el_header_len e) (el_contents e))"
    and "length (drop (el_header_len e) (el_contents e)) + length rest + 2 \<le> length s"
proof -
  note f = ber_element_facts [OF assms [unfolded CBS_get_any_ber_asn1_element_def]]
  have s: "s = el_contents e @ rest" using f by blast
  have "length s = length (el_contents e) + length rest" by (subst s) simp
  moreover have "2 \<le> el_header_len e" "el_header_len e \<le> length (el_contents e)" using f by simp_all
  ultimately show "length rest < length s" "CBS_skip (el_header_len e) (el_contents e) = (Ok (), drop (el_header_len e) (el_contents e))"
    "length (drop (el_header_len e) (el_contents e)) + length rest + 2 \<le> length s"
    by (auto simp: CBS_skip_def cbs_get_def bnd_def)
qed

lemma ber_skip_contents:
  assumes "(Ok e, rest) = CBS_get_any_ber_asn1_element s" "(Ok u, contents) = CBS_skip (el_header_len e) (el_contents e)"
  shows "length contents < length s"
  using ber_element_lengths [of s e rest] assms by simp

lemma ber_rest: "(Ok e, rest) = CBS_get_any_ber_asn1_element s \<Longrightarrow> length rest < length s"
  using ber_element_lengths(1) [of s e rest] by simp

subsection \<open>The scan for BER\<close>

text \<open>The result is \<^verbatim>\<open>*ber_found\<close>. An iteration of the loop is a call with the same depth.\<close>

function cbs_find_ber :: "nat \<Rightarrow> bytes \<Rightarrow> bool res" where
  "cbs_find_ber depth inp =
     (if depth > kMaxDepth then Fail
      else if length inp = 0 then Ok False
      else (case CBS_get_any_ber_asn1_element inp of
          (Fail, _) \<Rightarrow> Fail | (Undef, _) \<Rightarrow> Undef
        | (Ok el, inp') \<Rightarrow>
            if el_ber_found el then Ok True
            else if el_tag el AND CBS_ASN1_CONSTRUCTED \<noteq> 0 then
              if is_string_type (el_tag el) then Ok True
              else (case CBS_skip (el_header_len el) (el_contents el) of
                  (Ok _, contents) \<Rightarrow>
                    (case cbs_find_ber (depth + 1) contents of
                       Ok True \<Rightarrow> Ok True
                     | Ok False \<Rightarrow> cbs_find_ber depth inp'
                     | Fail \<Rightarrow> Fail | Undef \<Rightarrow> Undef)
                | (Fail, _) \<Rightarrow> Fail | (Undef, _) \<Rightarrow> Undef)
            else cbs_find_ber depth inp'))"
  by pat_completeness auto

termination
  by (relation "measure (\<lambda>(depth, inp). length inp)")
    (simp_all add: ber_skip_contents ber_rest)

declare cbs_find_ber.simps [simp del]

subsection \<open>The conversion\<close>

text \<open>The state of the conversion: the bytes still to be read and the CBB written to. Each operation
  works on one of them; the contents of a definite-length element are read as a string of their own.\<close>

definition on_in :: "(bytes, 'a) cfun \<Rightarrow> (bytes \<times> cbb, 'a) cfun" where
  "on_in m s = (case m (fst s) of (r, i) \<Rightarrow> (r, i, snd s))"

definition on_out :: "(cbb, 'a) cfun \<Rightarrow> (bytes \<times> cbb, 'a) cfun" where
  "on_out m s = (case m (snd s) of (r, t) \<Rightarrow> (r, fst s, t))"

definition on_contents :: "bytes \<Rightarrow> (bytes \<times> cbb, 'a) cfun \<Rightarrow> (bytes \<times> cbb, 'a) cfun" where
  "on_contents c m s = (case m (c, snd s) of (r, _, t) \<Rightarrow> (r, fst s, t))"

definition cbs_get_eoc :: "bytes \<Rightarrow> bytes option" where
  "cbs_get_eoc cbs = (if length cbs \<ge> 2 \<and> cbs ! 0 = 0 \<and> cbs ! 1 = 0 then Some (drop 2 cbs) else None)"

text \<open>Where the contents of an element go (the depth of that CBB) and the string tag of its children.\<close>

definition open_contents :: "allocator \<Rightarrow> nat \<Rightarrow> asn1_tag \<Rightarrow> asn1_tag \<Rightarrow> (cbb, nat \<times> asn1_tag) cfun" where
  "open_contents A d string_tag tag =
     (if string_tag \<noteq> 0 then
        bnd (check (tag AND NOT CBS_ASN1_CONSTRUCTED = string_tag)) (\<lambda>_. ret (d, string_tag))
      else
        let (out_tag, child_string_tag) =
              (if tag AND CBS_ASN1_CONSTRUCTED \<noteq> 0 \<and> is_string_type tag
               then (tag AND NOT CBS_ASN1_CONSTRUCTED, tag AND NOT CBS_ASN1_CONSTRUCTED) else (tag, string_tag))
        in bnd (CBB_add_asn1 A d out_tag) (\<lambda>_. ret (Suc d, child_string_tag)))"

text \<open>\<open>n\<close> bounds the number of iterations and nested calls; the bytes to read and one more are enough
  (\<open>convert_enough\<close>).\<close>

fun cbs_convert_ber ::
  "allocator \<Rightarrow> nat \<Rightarrow> nat \<Rightarrow> asn1_tag \<Rightarrow> bool \<Rightarrow> nat \<Rightarrow> (bytes \<times> cbb, unit) cfun" where
  "cbs_convert_ber A 0 d string_tag looking_for_eoc depth s = undef s"
| "cbs_convert_ber A (Suc n) d string_tag looking_for_eoc depth s =
    (if string_tag AND CBS_ASN1_CONSTRUCTED \<noteq> 0 then undef s
     else if depth > kMaxDepth then fail s
     else if length (fst s) = 0 then check (\<not> looking_for_eoc) s
     else case (if looking_for_eoc then cbs_get_eoc (fst s) else None) of
       Some inp' \<Rightarrow> (Ok (), inp', snd s)
     | None \<Rightarrow>
       bnd (on_in CBS_get_any_ber_asn1_element) (\<lambda>el.
       bnd (on_out (open_contents A d string_tag (el_tag el))) (\<lambda>(out_contents, child_string_tag).
       bnd (if el_indefinite el then
              bnd (cbs_convert_ber A n out_contents child_string_tag True (depth + 1)) (\<lambda>_.
              on_out (CBB_flush A d))
            else case CBS_skip (el_header_len el) (el_contents el) of
              (Ok _, contents) \<Rightarrow>
                bnd (if el_tag el AND CBS_ASN1_CONSTRUCTED \<noteq> 0
                     then on_contents contents (cbs_convert_ber A n out_contents child_string_tag False (depth + 1))
                     else on_out (CBB_add_bytes A out_contents contents)) (\<lambda>_.
                on_out (CBB_flush A d))
            | (Fail, _) \<Rightarrow> fail | (Undef, _) \<Rightarrow> undef) (\<lambda>_.
       cbs_convert_ber A n d string_tag looking_for_eoc depth))) s)"

text \<open>The result is \<^verbatim>\<open>*out\<close>, and whether it was allocated (\<^verbatim>\<open>*out_storage\<close> is not NULL).\<close>

definition CBS_asn1_ber_to_der :: "allocator \<Rightarrow> (bytes, bytes \<times> bool) cfun" where
  "CBS_asn1_ber_to_der A inp =
    (case cbs_find_ber 0 inp of
       Fail \<Rightarrow> (Fail, inp) | Undef \<Rightarrow> (Undef, inp)
     | Ok conversion_needed \<Rightarrow>
       if \<not> conversion_needed then bnd CBS_get_any_asn1_element (\<lambda>el. ret (el_contents el, False)) inp
       else (case CBB_init A (length inp) of
           Fail \<Rightarrow> (Fail, inp) | Undef \<Rightarrow> (Undef, inp)
         | Ok cbb \<Rightarrow>
           (case bnd (cbs_convert_ber A (Suc (length inp)) 0 0 False 0) (\<lambda>_. on_out (CBB_finish A 0 True)) (inp, cbb) of
              (Ok der, inp', _) \<Rightarrow> (Ok (der, True), inp')
            | (Fail, inp', cbb') \<Rightarrow> (case CBB_cleanup 0 cbb' of (Ok _, _) \<Rightarrow> (Fail, inp') | _ \<Rightarrow> (Undef, inp'))
            | (Undef, inp', _) \<Rightarrow> (Undef, inp'))))"

fun implicit_string_loop :: "allocator \<Rightarrow> asn1_tag \<Rightarrow> nat \<Rightarrow> (bytes \<times> cbb, unit) cfun" where
  "implicit_string_loop A inner_tag 0 s = undef s"
| "implicit_string_loop A inner_tag (Suc n) s =
     (if length (fst s) = 0 then ret () s
      else bnd (on_in (CBS_get_asn1 inner_tag)) (\<lambda>chunk.
           bnd (on_out (CBB_add_bytes A 0 chunk)) (\<lambda>_.
           implicit_string_loop A inner_tag n)) s)"

definition CBS_get_asn1_implicit_string ::
  "allocator \<Rightarrow> asn1_tag \<Rightarrow> asn1_tag \<Rightarrow> (bytes, bytes \<times> bool) cfun" where
  "CBS_get_asn1_implicit_string A outer_tag inner_tag inp =
    (if outer_tag AND CBS_ASN1_CONSTRUCTED \<noteq> 0 \<or> inner_tag AND CBS_ASN1_CONSTRUCTED \<noteq> 0 \<or> \<not> is_string_type inner_tag
     then (Undef, inp)
     else if CBS_peek_asn1_tag outer_tag inp then bnd (CBS_get_asn1 outer_tag) (\<lambda>body. ret (body, False)) inp
     else (case CBB_init A (length inp) of
         Fail \<Rightarrow> (Fail, inp) | Undef \<Rightarrow> (Undef, inp)
       | Ok result \<Rightarrow>
         (case CBS_get_asn1 (outer_tag OR CBS_ASN1_CONSTRUCTED) inp of
            (Fail, inp') \<Rightarrow> (Fail, inp') | (Undef, inp') \<Rightarrow> (Undef, inp')
          | (Ok child, inp') \<Rightarrow>
            (case bnd (implicit_string_loop A inner_tag (Suc (length child))) (\<lambda>_. on_out (CBB_finish A 0 True)) (child, result) of
               (Ok data, _) \<Rightarrow> (Ok (data, True), inp')
             | (Fail, _, cbb') \<Rightarrow> (case CBB_cleanup 0 cbb' of (Ok _, _) \<Rightarrow> (Fail, inp') | _ \<Rightarrow> (Undef, inp'))
             | (Undef, _) \<Rightarrow> (Undef, inp')))))"

subsection \<open>What the conversion computes\<close>

text \<open>The reference: the conversion as a function from bytes to bytes, without a buffer. It reads what
  \<open>cbs_convert_ber\<close> reads and returns the DER of the elements, or of the fragments of a string.\<close>

definition of_bytes :: "bytes \<Rightarrow> (bytes, 'a) cfun \<Rightarrow> ('s, 'a) cfun" where
  "of_bytes c m s = (fst (m c), s)"

definition wrap :: "asn1_tag \<Rightarrow> asn1_tag \<Rightarrow> bytes \<Rightarrow> ('s, bytes) cfun" where
  "wrap string_tag out_tag body =
     (if string_tag \<noteq> 0 then ret body
      else bnd (check (length body \<le> 0xfffffffe)) (\<lambda>_. ret (der_element out_tag body)))"

definition is_constructed :: "asn1_tag \<Rightarrow> bool" where
  "is_constructed tag \<longleftrightarrow> tag AND CBS_ASN1_CONSTRUCTED \<noteq> 0"

abbreviation primitive :: "asn1_tag \<Rightarrow> asn1_tag" where
  "primitive tag \<equiv> tag AND NOT CBS_ASN1_CONSTRUCTED"

definition out_tag :: "asn1_tag \<Rightarrow> asn1_tag" where
  "out_tag tag = (if is_constructed tag \<and> is_string_type tag then primitive tag else tag)"

definition child_tag :: "asn1_tag \<Rightarrow> asn1_tag \<Rightarrow> asn1_tag" where
  "child_tag string_tag tag =
     (if string_tag = 0 \<and> is_constructed tag \<and> is_string_type tag then primitive tag else string_tag)"

fun ber_content :: "nat \<Rightarrow> asn1_tag \<Rightarrow> bool \<Rightarrow> nat \<Rightarrow> (bytes, bytes) cfun" where
  "ber_content 0 string_tag eoc depth inp = undef inp"
| "ber_content (Suc n) string_tag eoc depth inp =
    (if depth > kMaxDepth then fail inp
     else if inp = [] then (if eoc then Fail else Ok [], inp)
     else case (if eoc then cbs_get_eoc inp else None) of
       Some inp' \<Rightarrow> (Ok [], inp')
     | None \<Rightarrow>
       bnd CBS_get_any_ber_asn1_element (\<lambda>el.
       bnd (check (string_tag \<noteq> 0 \<longrightarrow> primitive (el_tag el) = string_tag)) (\<lambda>_.
       bnd (bnd (if el_indefinite el then ber_content n (child_tag string_tag (el_tag el)) True (depth + 1)
                 else if is_constructed (el_tag el)
                 then of_bytes (drop (el_header_len el) (el_contents el))
                        (ber_content n (child_tag string_tag (el_tag el)) False (depth + 1))
                 else ret (drop (el_header_len el) (el_contents el)))
                (wrap string_tag (out_tag (el_tag el)))) (\<lambda>piece.
       bnd (ber_content n string_tag eoc depth) (\<lambda>more. ret (piece @ more))))) inp)"

text \<open>It leaves a suffix of its input, and the bytes to read and one more are enough.\<close>

definition drops :: "(bytes, 'a) cfun \<Rightarrow> bool" where
  "drops m \<longleftrightarrow> (\<forall>s. suffix (snd (m s)) s)"

lemma drops_bnd: "drops m \<Longrightarrow> (\<And>a. drops (f a)) \<Longrightarrow> drops (bnd m f)"
  by (auto simp: drops_def bnd_def split: prod.splits res.splits) (metis snd_conv suffix_order.order_trans)+

lemma drops_leaf: "drops (ret a)" "drops (check b)" "drops fail" "drops (of_bytes c m)" "drops (wrap st tag body)"
  by (simp_all add: drops_def check_def of_bytes_def wrap_def ret_def fail_def)

lemma drops_if: "drops f \<Longrightarrow> drops g \<Longrightarrow> drops (if b then f else g)"
  by simp

lemma drops_ber: "drops CBS_get_any_ber_asn1_element"
  unfolding drops_def CBS_get_any_ber_asn1_element_def by (metis get_element.rd_suffix prod.collapse)

lemma drops_ber_content: "drops (ber_content n st eoc depth)"
proof (induction n arbitrary: st eoc depth)
  case 0
  show ?case by (simp add: drops_def)
next
  case (Suc n)
  have "drops (bnd CBS_get_any_ber_asn1_element (\<lambda>el.
       bnd (check (st \<noteq> 0 \<longrightarrow> primitive (el_tag el) = st)) (\<lambda>_.
       bnd (bnd (if el_indefinite el then ber_content n (child_tag st (el_tag el)) True (depth + 1)
                 else if is_constructed (el_tag el)
                 then of_bytes (drop (el_header_len el) (el_contents el))
                        (ber_content n (child_tag st (el_tag el)) False (depth + 1))
                 else ret (drop (el_header_len el) (el_contents el)))
                (wrap st (out_tag (el_tag el)))) (\<lambda>piece.
       bnd (ber_content n st eoc depth) (\<lambda>more. ret (piece @ more))))))"
    by (intro drops_bnd drops_leaf drops_if drops_ber Suc)
  then show ?case
    by (auto simp: drops_def cbs_get_eoc_def suffix_drop split: option.splits)
qed

lemma drops_length: "drops p \<Longrightarrow> p s = (r, i) \<Longrightarrow> length s < k \<Longrightarrow> length i < k"
  unfolding drops_def by (metis snd_conv suffix_length_le order.strict_trans1)

lemma drops_inner:
  "drops (if b then ber_content n st True k else if b' then of_bytes c m else ret x)"
  by (intro drops_if drops_leaf drops_ber_content)

lemma ber_content_length: "ber_content n st eoc depth inp = (r, rest) \<Longrightarrow> length rest \<le> length inp"
  using drops_ber_content [of n st eoc depth] by (metis drops_def snd_conv suffix_length_le)

lemma ber_content_enough: "length inp < n \<Longrightarrow> fst (ber_content n st eoc depth inp) \<noteq> Undef"
proof (induction n arbitrary: st eoc depth inp)
  case 0
  then show ?case by simp
next
  case (Suc n)
  have go: "fst (bnd CBS_get_any_ber_asn1_element (\<lambda>el.
       bnd (check (st \<noteq> 0 \<longrightarrow> primitive (el_tag el) = st)) (\<lambda>_.
       bnd (bnd (if el_indefinite el then ber_content n (child_tag st (el_tag el)) True (depth + 1)
                 else if is_constructed (el_tag el)
                 then of_bytes (drop (el_header_len el) (el_contents el))
                        (ber_content n (child_tag st (el_tag el)) False (depth + 1))
                 else ret (drop (el_header_len el) (el_contents el)))
                (wrap st (out_tag (el_tag el)))) (\<lambda>piece.
       bnd (ber_content n st eoc depth) (\<lambda>more. ret (piece @ more))))) inp) \<noteq> Undef" (is "fst (bnd _ ?f inp) \<noteq> _")
  proof (cases "CBS_get_any_ber_asn1_element inp")
    case (Pair r inp')
    show ?thesis
    proof (cases r)
      case (Ok el)
      have el: "CBS_get_any_ber_asn1_element inp = (Ok el, inp')" using Pair Ok by simp
      have l: "length inp' < n" "length (drop (el_header_len el) (el_contents el)) < n"
        using ber_element_lengths [OF el] Suc.prems by simp_all
      let ?inner = "if el_indefinite el then ber_content n (child_tag st (el_tag el)) True (depth + 1)
                 else if is_constructed (el_tag el)
                 then of_bytes (drop (el_header_len el) (el_contents el))
                        (ber_content n (child_tag st (el_tag el)) False (depth + 1))
                 else ret (drop (el_header_len el) (el_contents el))"
      obtain r2 t where inner: "?inner inp' = (r2, t)" by fastforce
      have "r2 \<noteq> Undef" using inner Suc.IH l by (auto simp: of_bytes_def split: if_splits dest: arg_cong [of _ _ fst])
      moreover have "length t \<le> length inp'"
        using inner ber_content_length by (auto simp: of_bytes_def split: if_splits)
      then have "length t < n" using l by simp
      ultimately have "fst (?f el inp') \<noteq> Undef"
        using inner Suc.IH [of t st eoc depth] by (cases r2) (auto simp: bnd_def check_def wrap_def split: prod.splits res.splits)
      then show ?thesis by (simp add: bnd_simps el)
    next
      case Undef
      then show ?thesis using Pair get_element.rd_defined [of True inp] by (simp add: CBS_get_any_ber_asn1_element_def)
    qed (use Pair in \<open>simp add: bnd_simps\<close>)
  qed
  show ?case
  proof (cases "inp = [] \<or> depth > kMaxDepth \<or> eoc \<and> cbs_get_eoc inp \<noteq> None")
    case False
    then have "ber_content (Suc n) st eoc depth inp = bnd CBS_get_any_ber_asn1_element ?f inp" by (auto split: option.splits)
    then show ?thesis using go by simp
  qed (auto split: option.splits)
qed

text \<open>The conversion with the bytes left to read as its result, so that it is an operation on the CBB.\<close>

definition view :: "(bytes \<times> cbb, unit) cfun \<Rightarrow> bytes \<Rightarrow> (cbb, bytes) cfun" where
  "view m inp s = (case m (inp, s) of (Ok _, i, t) \<Rightarrow> (Ok i, t) | (Fail, _, t) \<Rightarrow> (Fail, t) | (Undef, _, t) \<Rightarrow> (Undef, t))"

lemma view_on_in:
  "view (bnd (on_in m) f) inp s =
     (case m inp of (Ok a, inp') \<Rightarrow> view (f a) inp' s | (Fail, _) \<Rightarrow> (Fail, s) | (Undef, _) \<Rightarrow> (Undef, s))"
  by (simp add: view_def bnd_def on_in_def split: prod.splits res.splits)

lemma view_on_out: "view (bnd (on_out m) f) inp = bnd m (\<lambda>a. view (f a) inp)"
  by (rule ext) (auto simp: view_def bnd_def on_out_def split: prod.splits res.splits)

lemma view_out: "view (on_out m) = (\<lambda>inp. bnd m (\<lambda>_. ret inp))"
  by (intro ext) (auto simp: view_def bnd_def on_out_def split: prod.splits res.splits)

lemma view_bnd: "view (bnd m f) inp = bnd (view m inp) (view (f ()))"
  by (rule ext) (auto simp: view_def bnd_def split: prod.splits res.splits)

lemma view_contents: "view (on_contents c m) inp = bnd (view m c) (\<lambda>_. ret inp)"
  by (rule ext) (auto simp: view_def bnd_def on_contents_def split: prod.splits res.splits)

lemma bnd_assoc: "bnd (bnd m f) g = bnd m (\<lambda>a. bnd (f a) g)"
  by (rule ext) (simp add: bnd_def split: prod.splits res.splits)

text \<open>An operation that fails whatever the buffer.\<close>

definition refuses :: "nat \<Rightarrow> (cbb, 'a) cfun \<Rightarrow> bool" where
  "refuses d m \<longleftrightarrow> (\<forall>s. shape s \<longrightarrow> \<not> error s \<longrightarrow> length (chain s) = d \<longrightarrow> (\<exists>s'. m s = (Fail, s')))"

lemma refusesI: "(\<And>s. shape s \<Longrightarrow> \<not> error s \<Longrightarrow> length (chain s) = d \<Longrightarrow> \<exists>s'. m s = (Fail, s')) \<Longrightarrow> refuses d m"
  by (simp add: refuses_def)

lemma refusesD:
  assumes "refuses d m" "shape s" "\<not> error s" "length (chain s) = d"
  obtains s' where "m s = (Fail, s')"
  using assms by (auto simp: refuses_def)

lemma refuses_fail: "refuses d fail"
  by (simp add: refuses_def)

lemma refuses_first: "refuses d m \<Longrightarrow> refuses d (bnd m f)"
  by (rule refusesI, erule refusesD) (auto simp: bnd_simps)

lemma refuses_second:
  assumes "writes A d bs r m" "refuses d (f r)"
  shows "refuses d (bnd m f)"
proof (rule refusesI)
  fix s assume s: "shape s" "\<not> error s" "length (chain s) = d"
  from assms(1) s show "\<exists>s'. bnd m f s = (Fail, s')"
  proof (cases rule: writesD)
    case (ok t)
    then have "shape t" "\<not> error t" "length (chain t) = d" using s by (auto simp: ext_def)
    with assms(2) obtain t' where "f r t = (Fail, t')" by (rule refusesD)
    then show ?thesis using ok by (simp add: bnd_simps)
  qed (auto simp: bnd_simps)
qed

definition element_with :: "allocator \<Rightarrow> nat \<Rightarrow> asn1_tag \<Rightarrow> (cbb, 'a) cfun \<Rightarrow> (cbb, 'a) cfun" where
  "element_with A d tag m = bnd (CBB_add_asn1 A d tag) (\<lambda>_. bnd m (\<lambda>r. bnd (CBB_flush A d) (\<lambda>_. ret r)))"

lemma writes_element_with:
  assumes "writes A (Suc d) body r m" "length body \<le> 0xfffffffe"
  shows "writes A d (der_element tag body) r (element_with A d tag m)"
  unfolding writes_def
proof (intro allI impI)
  fix s assume s: "shape s" "\<not> error s" "length (chain s) = d"
  show "(\<exists>s'. element_with A d tag m s = (Ok r, s') \<and> ext s s' (der_element tag body)) \<or>
        (\<exists>s'. element_with A d tag m s = (Fail, s') \<and> failed d s' \<and> \<not> room A s (length (der_element tag body)))"
    using assms s
    by (cases rule: child_cases [where tag = tag]) (auto simp: element_with_def bnd_simps failed_def)
qed

lemma refuses_element_body:
  assumes "refuses (Suc d) m"
  shows "refuses d (element_with A d tag m)"
proof (rule refusesI)
  fix s assume "shape s" "\<not> error s" "length (chain s) = d"
  then show "\<exists>s'. element_with A d tag m s = (Fail, s')"
  proof (cases rule: add_asn1_cases [where A = A and tag = tag])
    case (ok s1)
    from assms ok(2-4) obtain t where "m s1 = (Fail, t)" by (rule refusesD)
    then show ?thesis using ok(1) by (simp add: element_with_def bnd_simps)
  qed (auto simp: element_with_def bnd_simps)
qed

lemma refuses_element_long:
  assumes "writes A (Suc d) body r m" "length body > 0xfffffffe"
  shows "refuses d (element_with A d tag m)"
proof (rule refusesI)
  fix s assume s: "shape s" "\<not> error s" "length (chain s) = d"
  obtain s' where "bnd (CBB_add_asn1 A d tag) (\<lambda>_. bnd m (\<lambda>_. CBB_flush A d)) s = (Fail, s')"
    using child_too_long [OF assms s, of tag] by blast
  then show "\<exists>s'. element_with A d tag m s = (Fail, s')"
    by (auto simp: element_with_def bnd_def split: prod.splits res.splits)
qed


text \<open>\<open>tracks\<close>: an operation on the CBB does what a function on bytes computes.\<close>

definition tracks :: "allocator \<Rightarrow> nat \<Rightarrow> bytes res \<times> bytes \<Rightarrow> (cbb, bytes) cfun \<Rightarrow> bool" where
  "tracks A d p m = (case p of (Ok bs, i) \<Rightarrow> writes A d bs i m | (Fail, _) \<Rightarrow> refuses d m | (Undef, _) \<Rightarrow> True)"

lemma tracks_seq:
  assumes "tracks A d (p inp) m" and "\<And>bs i. p inp = (Ok bs, i) \<Longrightarrow> tracks A d (q i) (f i)"
  shows "tracks A d (bnd p (\<lambda>bs. bnd q (\<lambda>more. ret (bs @ more))) inp) (bnd m f)"
proof (cases "p inp")
  case (Pair r i)
  show ?thesis
  proof (cases r)
    case (Ok bs)
    then have w: "writes A d bs i m" and q: "tracks A d (q i) (f i)" using assms Pair by (simp_all add: tracks_def)
    show ?thesis
    proof (cases "q i")
      case p2: (Pair r2 i2)
      then show ?thesis
        using w q Pair Ok by (cases r2) (auto simp: tracks_def bnd_simps intro: writes_bnd refuses_second)
    qed
  qed (use assms(1) Pair in \<open>auto simp: tracks_def bnd_simps intro: refuses_first\<close>)
qed

lemma tracks_element:
  assumes "tracks A (Suc d) (p inp) m"
  shows "tracks A d (bnd p (wrap 0 tag) inp) (element_with A d tag m)"
  using assms
  by (cases "p inp"; cases "fst (p inp)")
    (auto simp: tracks_def bnd_simps wrap_def not_le intro: writes_element_with refuses_element_body refuses_element_long)

lemma writes_flush_leaf: "writes A d [] () (CBB_flush A d)"
  by (auto simp: writes_def flush_leaf intro: ext_refl)

lemma tracks_flush: "tracks A d (p inp) m \<Longrightarrow> tracks A d (bnd p ret inp) (bnd m (\<lambda>i. bnd (CBB_flush A d) (\<lambda>_. ret i)))"
proof (cases "p inp")
  case (Pair r i)
  have "writes A d [] i (bnd (CBB_flush A d) (\<lambda>_. ret i))"
    using writes_bnd_unit [OF writes_flush_leaf writes_ret, of A d i] by simp
  moreover assume "tracks A d (p inp) m"
  ultimately show ?thesis
    using Pair writes_bnd [where f = "\<lambda>i. bnd (CBB_flush A d) (\<lambda>_. ret i)" and ys = "[]"]
    by (cases r) (fastforce simp: tracks_def bnd_simps intro: refuses_first)+
qed

lemma child_tag_primitive: "st AND CBS_ASN1_CONSTRUCTED = 0 \<Longrightarrow> child_tag st tag AND CBS_ASN1_CONSTRUCTED = 0"
  by (simp add: child_tag_def and.assoc)

text \<open>The contents of one element, at the depth of the CBB they go to.\<close>

definition convert_contents :: "allocator \<Rightarrow> nat \<Rightarrow> nat \<Rightarrow> asn1_tag \<Rightarrow> nat \<Rightarrow> asn1_element \<Rightarrow> bytes \<Rightarrow> (cbb, bytes) cfun" where
  "convert_contents A n oc cst depth el inp' =
     (let contents = drop (el_header_len el) (el_contents el)
      in if el_indefinite el then view (cbs_convert_ber A n oc cst True (depth + 1)) inp'
         else if is_constructed (el_tag el)
         then bnd (view (cbs_convert_ber A n oc cst False (depth + 1)) contents) (\<lambda>_. ret inp')
         else bnd (CBB_add_bytes A oc contents) (\<lambda>_. ret inp'))"

lemma view_convert_element:
  assumes "st AND CBS_ASN1_CONSTRUCTED = 0" "depth \<le> kMaxDepth" "inp \<noteq> []" "\<not> (eoc \<and> cbs_get_eoc inp \<noteq> None)"
    and el: "CBS_get_any_ber_asn1_element inp = (Ok el, inp')"
  shows "view (cbs_convert_ber A (Suc n) d st eoc depth) inp =
    (if st \<noteq> 0 then
       bnd (check (primitive (el_tag el) = st)) (\<lambda>_.
       bnd (bnd (convert_contents A n d st depth el inp') (\<lambda>i. bnd (CBB_flush A d) (\<lambda>_. ret i)))
         (view (cbs_convert_ber A n d st eoc depth)))
     else bnd (element_with A d (out_tag (el_tag el)) (convert_contents A n (Suc d) (child_tag 0 (el_tag el)) depth el inp'))
         (view (cbs_convert_ber A n d st eoc depth)))"
proof -
  note skip = ber_element_lengths(2) [OF el]
  have inner: "view (if el_indefinite el then
              bnd (cbs_convert_ber A n oc cst True (depth + 1)) (\<lambda>_. on_out (CBB_flush A d))
            else case CBS_skip (el_header_len el) (el_contents el) of
              (Ok _, contents) \<Rightarrow>
                bnd (if el_tag el AND CBS_ASN1_CONSTRUCTED \<noteq> 0
                     then on_contents contents (cbs_convert_ber A n oc cst False (depth + 1))
                     else on_out (CBB_add_bytes A oc contents)) (\<lambda>_. on_out (CBB_flush A d))
            | (Fail, _) \<Rightarrow> fail | (Undef, _) \<Rightarrow> undef) inp' =
      bnd (convert_contents A n oc cst depth el inp') (\<lambda>i. bnd (CBB_flush A d) (\<lambda>_. ret i))" for oc cst
    unfolding skip convert_contents_def
    by (simp add: view_bnd view_out view_contents is_constructed_def bnd_assoc Let_def view_on_out)
  let ?inner = "\<lambda>oc cst. if el_indefinite el then
              bnd (cbs_convert_ber A n oc cst True (depth + 1)) (\<lambda>_. on_out (CBB_flush A d))
            else case CBS_skip (el_header_len el) (el_contents el) of
              (Ok _, contents) \<Rightarrow>
                bnd (if el_tag el AND CBS_ASN1_CONSTRUCTED \<noteq> 0
                     then on_contents contents (cbs_convert_ber A n oc cst False (depth + 1))
                     else on_out (CBB_add_bytes A oc contents)) (\<lambda>_. on_out (CBB_flush A d))
            | (Fail, _) \<Rightarrow> fail | (Undef, _) \<Rightarrow> undef"
  let ?rest = "cbs_convert_ber A n d st eoc depth"
  have same: "view m inp s = view m' inp s" if "m (inp, s) = m' (inp, s)" for m m' s
    using that by (simp add: view_def)
  have none: "(if eoc then cbs_get_eoc inp else None) = None" using assms(4) by auto
  have guards: "(st AND CBS_ASN1_CONSTRUCTED \<noteq> 0) = False" "(kMaxDepth < depth) = False" "(length inp = 0) = False"
    using assms(1-3) by auto
  let ?F = "\<lambda>el. bnd (on_out (open_contents A d st (el_tag el))) (\<lambda>(out_contents, child_string_tag).
       bnd (if el_indefinite el then
              bnd (cbs_convert_ber A n out_contents child_string_tag True (depth + 1)) (\<lambda>_.
              on_out (CBB_flush A d))
            else case CBS_skip (el_header_len el) (el_contents el) of
              (Ok _, contents) \<Rightarrow>
                bnd (if el_tag el AND CBS_ASN1_CONSTRUCTED \<noteq> 0
                     then on_contents contents (cbs_convert_ber A n out_contents child_string_tag False (depth + 1))
                     else on_out (CBB_add_bytes A out_contents contents)) (\<lambda>_.
                on_out (CBB_flush A d))
            | (Fail, _) \<Rightarrow> fail | (Undef, _) \<Rightarrow> undef) (\<lambda>_. ?rest))"
  have body: "cbs_convert_ber A (Suc n) d st eoc depth (inp, s) = bnd (on_in CBS_get_any_ber_asn1_element) ?F (inp, s)" for s
    by (simp only: cbs_convert_ber.simps guards none fst_conv if_False option.case)
  have "view (cbs_convert_ber A (Suc n) d st eoc depth) inp s = view (bnd (on_in CBS_get_any_ber_asn1_element) ?F) inp s" for s
    by (rule same) (rule body)
  then have "view (cbs_convert_ber A (Suc n) d st eoc depth) inp =
      view (bnd (on_out (open_contents A d st (el_tag el))) (\<lambda>(oc, cst). bnd (?inner oc cst) (\<lambda>_. ?rest))) inp'"
    by (intro ext) (simp only: view_on_in el res.case prod.case)
  also have "\<dots> = bnd (open_contents A d st (el_tag el)) (\<lambda>(oc, cst). bnd (view (?inner oc cst) inp') (view ?rest))"
    unfolding view_on_out by (rule arg_cong [where f = "bnd _"]) (auto simp: view_bnd)
  also have "\<dots> = bnd (open_contents A d st (el_tag el)) (\<lambda>(oc, cst).
      bnd (bnd (convert_contents A n oc cst depth el inp') (\<lambda>i. bnd (CBB_flush A d) (\<lambda>_. ret i))) (view ?rest))"
    unfolding inner ..
  finally show ?thesis
    by (simp add: open_contents_def bnd_assoc child_tag_def out_tag_def is_constructed_def element_with_def Let_def)
qed


lemma tracks_contents:
  assumes IH: "\<And>d st eoc depth inp. st AND CBS_ASN1_CONSTRUCTED = 0 \<Longrightarrow> length inp < 2 ^ 64 \<Longrightarrow>
      tracks A d (ber_content n st eoc depth inp) (view (cbs_convert_ber A n d st eoc depth) inp)"
    and el: "CBS_get_any_ber_asn1_element inp = (Ok el, inp')" and cst: "cst AND CBS_ASN1_CONSTRUCTED = 0" and len: "length inp < 2 ^ 64"
  shows "tracks A oc ((if el_indefinite el then ber_content n cst True (depth + 1)
                 else if is_constructed (el_tag el)
                 then of_bytes (drop (el_header_len el) (el_contents el)) (ber_content n cst False (depth + 1))
                 else ret (drop (el_header_len el) (el_contents el))) inp') (convert_contents A n oc cst depth el inp')"
proof -
  let ?c = "drop (el_header_len el) (el_contents el)"
  have l: "length inp' < 2 ^ 64" "length ?c < 2 ^ 64" using ber_element_lengths [OF el] len by simp_all
  consider "el_indefinite el" | "\<not> el_indefinite el" "is_constructed (el_tag el)" | "\<not> el_indefinite el" "\<not> is_constructed (el_tag el)"
    by blast
  then show ?thesis
  proof cases
    case 1
    then show ?thesis using IH [OF cst l(1)] by (simp add: convert_contents_def)
  next
    case 2
    have "tracks A oc (ber_content n cst False (depth + 1) ?c) (view (cbs_convert_ber A n oc cst False (depth + 1)) ?c)"
      by (rule IH [OF cst l(2)])
    then have "tracks A oc (of_bytes ?c (ber_content n cst False (depth + 1)) inp')
      (bnd (view (cbs_convert_ber A n oc cst False (depth + 1)) ?c) (\<lambda>_. ret inp'))"
      by (cases "ber_content n cst False (depth + 1) ?c"; cases "fst (ber_content n cst False (depth + 1) ?c)")
        (auto simp: tracks_def of_bytes_def intro: refuses_first writes_bnd [where ys = "[]", simplified] writes_ret)
    with 2 show ?thesis by (simp add: convert_contents_def)
  next
    case 3
    have "writes A oc ?c inp' (bnd (CBB_add_bytes A oc ?c) (\<lambda>_. ret inp'))"
      using writes_bnd_unit [OF writes_add_bytes [OF l(2)] writes_ret, of A oc inp'] by simp
    with 3 show ?thesis by (simp add: convert_contents_def tracks_def)
  qed
qed

lemma convert_tracks:
  "st AND CBS_ASN1_CONSTRUCTED = 0 \<Longrightarrow> length inp < 2 ^ 64 \<Longrightarrow>
   tracks A d (ber_content n st eoc depth inp) (view (cbs_convert_ber A n d st eoc depth) inp)"
proof (induction n arbitrary: d st eoc depth inp)
  case 0
  then show ?case by (simp add: tracks_def)
next
  case (Suc n)
  note IH = Suc.IH
  have st: "\<not> st AND CBS_ASN1_CONSTRUCTED \<noteq> 0" using Suc.prems by simp
  consider "depth > kMaxDepth" | "depth \<le> kMaxDepth" "inp = []"
    | inp' where "depth \<le> kMaxDepth" "inp \<noteq> []" "eoc" "cbs_get_eoc inp = Some inp'"
    | "depth \<le> kMaxDepth" "inp \<noteq> []" "\<not> (eoc \<and> cbs_get_eoc inp \<noteq> None)" by fastforce
  then show ?case
  proof cases
    case 4
    then have c: "ber_content (Suc n) st eoc depth inp = bnd CBS_get_any_ber_asn1_element (\<lambda>el.
       bnd (check (st \<noteq> 0 \<longrightarrow> primitive (el_tag el) = st)) (\<lambda>_.
       bnd (bnd (if el_indefinite el then ber_content n (child_tag st (el_tag el)) True (depth + 1)
                 else if is_constructed (el_tag el)
                 then of_bytes (drop (el_header_len el) (el_contents el))
                        (ber_content n (child_tag st (el_tag el)) False (depth + 1))
                 else ret (drop (el_header_len el) (el_contents el)))
                (wrap st (out_tag (el_tag el)))) (\<lambda>piece.
       bnd (ber_content n st eoc depth) (\<lambda>more. ret (piece @ more))))) inp"
      by (auto split: option.splits)
    show ?thesis
    proof (cases "CBS_get_any_ber_asn1_element inp")
      case (Pair r inp')
      show ?thesis
      proof (cases r)
        case (Ok el)
        have el: "CBS_get_any_ber_asn1_element inp = (Ok el, inp')" using Pair Ok by simp
        have l: "length inp' < 2 ^ 64" using ber_element_lengths(1) [OF el] Suc.prems(2) by simp
        note view = view_convert_element [OF Suc.prems(1) 4 el, of A n d]
        note contents = tracks_contents [OF IH el _ Suc.prems(2)]
        show ?thesis
        proof (cases "st = 0")
          case True
          have "tracks A d (bnd (bnd (if el_indefinite el then ber_content n (child_tag 0 (el_tag el)) True (depth + 1)
                 else if is_constructed (el_tag el)
                 then of_bytes (drop (el_header_len el) (el_contents el))
                        (ber_content n (child_tag 0 (el_tag el)) False (depth + 1))
                 else ret (drop (el_header_len el) (el_contents el)))
                (wrap 0 (out_tag (el_tag el)))) (\<lambda>piece. bnd (ber_content n 0 eoc depth) (\<lambda>more. ret (piece @ more))) inp')
             (bnd (element_with A d (out_tag (el_tag el)) (convert_contents A n (Suc d) (child_tag 0 (el_tag el)) depth el inp'))
               (view (cbs_convert_ber A n d 0 eoc depth)))"
            by (intro tracks_seq tracks_element contents IH child_tag_primitive)
              (assumption+, simp, simp, rule drops_length [OF drops_bnd [OF drops_inner drops_leaf(5)] _ l])
          then show ?thesis
            unfolding view c bnd_simps(1) [where m = CBS_get_any_ber_asn1_element, OF el] unfolding True
            by (simp only: simp_thms bnd_check if_True if_False)
        next
          case False
          then have ct: "child_tag st (el_tag el) = st" by (simp add: child_tag_def)
          have "tracks A d (bnd (bnd (if el_indefinite el then ber_content n st True (depth + 1)
                 else if is_constructed (el_tag el)
                 then of_bytes (drop (el_header_len el) (el_contents el)) (ber_content n st False (depth + 1))
                 else ret (drop (el_header_len el) (el_contents el))) ret)
                (\<lambda>piece. bnd (ber_content n st eoc depth) (\<lambda>more. ret (piece @ more))) inp')
             (bnd (bnd (convert_contents A n d st depth el inp') (\<lambda>i. bnd (CBB_flush A d) (\<lambda>_. ret i)))
               (view (cbs_convert_ber A n d st eoc depth)))"
            by (intro tracks_seq tracks_flush contents IH Suc.prems(1))
              (assumption+, rule drops_length [OF drops_bnd [OF drops_inner drops_leaf(1)] _ l])
          moreover have "wrap st (out_tag (el_tag el)) = (ret :: bytes \<Rightarrow> (bytes, bytes) cfun)" using False by (intro ext) (simp add: wrap_def ret_def)
          ultimately show ?thesis
            unfolding view c bnd_simps(1) [where m = CBS_get_any_ber_asn1_element, OF el] ct
            by (cases "primitive (el_tag el) = st")
              (simp_all add: False bnd_check tracks_def [of A d "(Fail, _)"] refuses_def split del: if_split)
        qed
      next
        case Fail
        
        have "view (cbs_convert_ber A (Suc n) d st eoc depth) inp = fail"
          using 4 st Pair Fail by (intro ext) (auto simp: view_def bnd_def on_in_def split: option.splits)
        moreover have "ber_content (Suc n) st eoc depth inp = (Fail, inp')"
          unfolding c using Pair Fail by (simp add: bnd_simps)
        ultimately show ?thesis by (simp only: tracks_def refuses_def prod.case res.case) simp
      next
        case Undef
        then have "ber_content (Suc n) st eoc depth inp = (Undef, inp')"
          unfolding c using Pair by (simp add: bnd_simps)
        then show ?thesis by (simp only: tracks_def prod.case res.case)
      qed
    qed
  next
    case 1
    then have v: "view (cbs_convert_ber A (Suc n) d st eoc depth) inp = fail"
      using st by (intro ext) (simp add: view_def)
    have "ber_content (Suc n) st eoc depth inp = (Fail, inp)" using 1 by simp
    then show ?thesis unfolding v by (simp only: tracks_def prod.case res.case refuses_fail)
  next
    case 2
    then have v: "view (cbs_convert_ber A (Suc n) d st eoc depth) inp = (if eoc then fail else ret [])"
      using st by (intro ext) (simp add: view_def check_def)
    have "ber_content (Suc n) st eoc depth inp = (if eoc then Fail else Ok [], [])" using 2 by simp
    then show ?thesis unfolding v
      by (cases eoc) (simp_all only: tracks_def prod.case res.case refuses_fail writes_ret if_True if_False)
  next
    case (3 inp')
    then have v: "view (cbs_convert_ber A (Suc n) d st eoc depth) inp = ret inp'"
      using st by (intro ext) (simp add: view_def)
    have "ber_content (Suc n) st eoc depth inp = (Ok [], inp')" using 3 by simp
    then show ?thesis unfolding v by (simp only: tracks_def prod.case res.case writes_ret)
  qed
qed

subsection \<open>The result is DER\<close>

text \<open>Sequences of DER elements, nested at most \<open>k\<close> deep, without constructed strings.\<close>

inductive der_items :: "nat \<Rightarrow> bytes \<Rightarrow> bool" where
  Nil: "der_items k []"
| Primitive: "valid_tag tag \<Longrightarrow> \<not> is_constructed tag \<Longrightarrow> length body \<le> max_der_len \<Longrightarrow> der_items k rest \<Longrightarrow>
    der_items k (der_element tag body @ rest)"
| Constructed: "valid_tag tag \<Longrightarrow> is_constructed tag \<Longrightarrow> \<not> is_string_type tag \<Longrightarrow> length body \<le> max_der_len \<Longrightarrow>
    der_items k body \<Longrightarrow> der_items (Suc k) rest \<Longrightarrow> der_items (Suc k) (der_element tag body @ rest)"

lemma ber_element_not_ber:
  assumes "CBS_get_any_ber_asn1_element s = (Ok el, rest)" "\<not> el_ber_found el"
  obtains body where "valid_tag (el_tag el)" "length body \<le> max_der_len" "s = der_element (el_tag el) body @ rest"
    "drop (el_header_len el) (el_contents el) = body"
proof -
  have "CBS_get_any_asn1_element s = (Ok el, rest)"
    using ber_element_facts [OF assms(1) [unfolded CBS_get_any_ber_asn1_element_def]] assms(2) by blast
  from get_element_Ok [OF this] obtain body where b: "valid_tag (el_tag el)" "length body \<le> max_der_len"
    "el = the_element (el_tag el) body" "s = der_element (el_tag el) body @ rest" by blast
  have "drop (el_header_len el) (el_contents el) = body"
    by (subst b(3), subst (2) b(3)) (simp add: the_element_def der_element_def)
  then show ?thesis using that b by blast
qed

lemma ber_element_der:
  assumes "valid_tag tag" "length body \<le> max_der_len"
  shows "CBS_get_any_ber_asn1_element (der_element tag body @ rest) = (Ok (the_element tag body), rest)"
  unfolding CBS_get_any_ber_asn1_element_def by (rule get_element_der_element [OF assms])

lemma der_items_append: "der_items k xs \<Longrightarrow> der_items k ys \<Longrightarrow> der_items k (xs @ ys)"
  by (induction rule: der_items.induct) (simp_all add: der_items.intros)

text \<open>The cases of one round of the scan.\<close>

lemma find_ber_round:
  assumes "depth \<le> kMaxDepth" "inp \<noteq> []"
  obtains (fail) "cbs_find_ber depth inp = Fail"
  | (ber) "cbs_find_ber depth inp = Ok True"
  | (primitive) tag body rest where "valid_tag tag" "\<not> is_constructed tag" "length body \<le> max_der_len"
      "inp = der_element tag body @ rest" "cbs_find_ber depth inp = cbs_find_ber depth rest"
  | (constructed) tag body rest where "valid_tag tag" "is_constructed tag" "\<not> is_string_type tag" "length body \<le> max_der_len"
      "inp = der_element tag body @ rest" "cbs_find_ber depth inp =
        (case cbs_find_ber (depth + 1) body of Ok True \<Rightarrow> Ok True | Ok False \<Rightarrow> cbs_find_ber depth rest | Fail \<Rightarrow> Fail | Undef \<Rightarrow> Undef)"
proof (cases "CBS_get_any_ber_asn1_element inp")
  case (Pair r rest)
  show ?thesis
  proof (cases r)
    case (Ok el)
    then have el: "CBS_get_any_ber_asn1_element inp = (Ok el, rest)" using Pair by simp
    note unf = cbs_find_ber.simps [of depth inp] el
    show ?thesis
    proof (cases "el_ber_found el \<or> is_constructed (el_tag el) \<and> is_string_type (el_tag el)")
      case True
      then show ?thesis using assms by (intro ber) (auto simp: unf is_constructed_def)
    next
      case False
      then obtain body where b: "valid_tag (el_tag el)" "length body \<le> max_der_len" "inp = der_element (el_tag el) body @ rest"
        "drop (el_header_len el) (el_contents el) = body" using ber_element_not_ber [OF el] by blast
      have skip: "CBS_skip (el_header_len el) (el_contents el) = (Ok (), body)"
        using ber_element_lengths(2) [OF el] b(4) by simp
      show ?thesis
      proof (cases "is_constructed (el_tag el)")
        case True
        show ?thesis
          by (rule constructed [OF b(1) True _ b(2,3)])
            (use False True assms skip in \<open>auto simp: unf is_constructed_def\<close>)
      next
        case prim: False
        show ?thesis
          by (rule primitive [OF b(1) prim b(2,3)]) (use False prim assms in \<open>auto simp: unf is_constructed_def\<close>)
      qed
    qed
  next
    case Fail
    then show ?thesis using assms Pair by (intro fail) (simp add: cbs_find_ber.simps [of depth inp])
  next
    case Undef
    then show ?thesis using Pair get_element.rd_defined [of True inp] by (simp add: CBS_get_any_ber_asn1_element_def)
  qed
qed

lemma find_ber_base:
  "cbs_find_ber depth [] = (if depth > kMaxDepth then Fail else Ok False)" "depth > kMaxDepth \<Longrightarrow> cbs_find_ber depth inp = Fail" "depth \<le> kMaxDepth \<Longrightarrow> cbs_find_ber depth [] = Ok False"
  by (simp_all add: cbs_find_ber.simps)

lemma element_shorter: "length rest < length (der_element tag body @ rest)" "length body < length (der_element tag body @ rest)"
  using element_length [of tag body] der_length_pos [of "length body"] by simp_all

lemma find_ber_defined: "cbs_find_ber depth inp \<noteq> Undef"
proof (induction "length inp" arbitrary: depth inp rule: less_induct)
  case less
  show ?case
  proof (cases "depth \<le> kMaxDepth \<and> inp \<noteq> []")
    case True
    then have "depth \<le> kMaxDepth" "inp \<noteq> []" by simp_all
    then show ?thesis
      by (cases rule: find_ber_round) (use less element_shorter in \<open>auto split: res.splits bool.splits\<close>)
  qed (auto simp: find_ber_base split: if_splits)
qed

lemma find_ber_items: "cbs_find_ber depth inp = Ok False \<Longrightarrow> depth \<le> kMaxDepth \<and> der_items (kMaxDepth - depth) inp"
proof (induction "length inp" arbitrary: depth inp rule: less_induct)
  case less
  show ?case
  proof (cases "depth \<le> kMaxDepth \<and> inp \<noteq> []")
    case True
    then have d: "depth \<le> kMaxDepth" "inp \<noteq> []" by simp_all
    then show ?thesis
    proof (cases rule: find_ber_round)
      case (primitive tag body rest)
      then show ?thesis using less(1) [of rest depth] less(2) element_shorter(1) [of rest tag body] d by (auto intro: der_items.Primitive)
    next
      case (constructed tag body rest)
      then have sub: "cbs_find_ber (depth + 1) body = Ok False" "cbs_find_ber depth rest = Ok False"
        using less(2) by (auto split: res.splits bool.splits)
      have "der_items (kMaxDepth - (depth + 1)) body" "depth + 1 \<le> kMaxDepth" "der_items (kMaxDepth - depth) rest"
        using less(1) [OF _ sub(1)] less(1) [OF _ sub(2)] element_shorter [of rest tag body] element_shorter [of body tag rest] constructed(5) by auto
      moreover then have "kMaxDepth - depth = Suc (kMaxDepth - (depth + 1))" by simp
      ultimately show ?thesis using constructed by (auto intro: der_items.Constructed)
    qed (use less in simp_all)
  qed (use less(2) in \<open>auto simp: find_ber_base cbs_find_ber.simps [of depth inp] intro: der_items.Nil split: if_splits\<close>)
qed

lemma element_nonempty: "der_element tag body \<noteq> []"
  using der_element_nonempty [of tag body] by auto

lemma the_element_fields [simp]:
  "el_tag (the_element tag body) = tag" "\<not> el_ber_found (the_element tag body)" "\<not> el_indefinite (the_element tag body)"
  "el_contents (the_element tag body) = der_element tag body"
  "CBS_skip (el_header_len (the_element tag body)) (der_element tag body) = (Ok (), body)"
  "drop (el_header_len (the_element tag body)) (der_element tag body) = body"
  by (simp_all add: the_element_def der_element_def CBS_skip_def bnd_simps)

lemma items_find_ber: "der_items k inp \<Longrightarrow> k \<le> kMaxDepth \<Longrightarrow> cbs_find_ber (kMaxDepth - k) inp = Ok False"
proof (induction rule: der_items.induct)
  case (Nil k)
  then show ?case by (simp add: find_ber_base)
next
  case (Primitive tag body k rest)
  then show ?case
    by (subst cbs_find_ber.simps)
      (simp add: ber_element_der is_constructed_def not_less [of kMaxDepth] element_nonempty)
next
  case (Constructed tag body k rest)
  have "kMaxDepth - Suc k + 1 = kMaxDepth - k" using Constructed.prems by simp
  with Constructed show ?case
    by (subst cbs_find_ber.simps)
      (simp add: ber_element_der is_constructed_def not_less [of kMaxDepth] element_nonempty)
qed

lemma out_tag_facts:
  "is_constructed tag \<and> is_string_type tag \<or> \<not> is_constructed tag \<Longrightarrow> \<not> is_constructed (out_tag tag)"
  "valid_tag tag \<Longrightarrow> valid_tag (out_tag tag)"
  "is_constructed (out_tag tag) \<Longrightarrow> out_tag tag = tag \<and> \<not> is_string_type tag"
  by (auto simp: out_tag_def is_constructed_def valid_tag_def and.assoc)

lemma ber_content_Suc:
  assumes "ber_content (Suc n) st eoc depth inp = (Ok bs, rest)"
  obtains (nil) "depth \<le> kMaxDepth" "bs = []" "inp = [] \<and> rest = [] \<and> \<not> eoc \<or> eoc \<and> cbs_get_eoc inp = Some rest"
  | (item) el inp' body mid bs' where "depth \<le> kMaxDepth" "CBS_get_any_ber_asn1_element inp = (Ok el, inp')"
      "st \<noteq> 0 \<Longrightarrow> primitive (el_tag el) = st"
      "(if el_indefinite el then ber_content n (child_tag st (el_tag el)) True (depth + 1)
        else if is_constructed (el_tag el)
        then of_bytes (drop (el_header_len el) (el_contents el)) (ber_content n (child_tag st (el_tag el)) False (depth + 1))
        else ret (drop (el_header_len el) (el_contents el))) inp' = (Ok body, mid)"
      "st = 0 \<Longrightarrow> length body \<le> 0xfffffffe"
      "ber_content n st eoc depth mid = (Ok bs', rest)"
      "bs = (if st \<noteq> 0 then body else der_element (out_tag (el_tag el)) body) @ bs'"
proof -
  consider "depth > kMaxDepth" | "depth \<le> kMaxDepth" "inp = []"
    | inp' where "depth \<le> kMaxDepth" "inp \<noteq> []" "eoc" "cbs_get_eoc inp = Some inp'"
    | "depth \<le> kMaxDepth" "inp \<noteq> []" "\<not> (eoc \<and> cbs_get_eoc inp \<noteq> None)" by fastforce
  then show ?thesis
  proof cases
    case 4
    have "(if eoc then cbs_get_eoc inp else None) = None" using 4(3) by auto
    then have c: "bnd CBS_get_any_ber_asn1_element (\<lambda>el.
       bnd (check (st \<noteq> 0 \<longrightarrow> primitive (el_tag el) = st)) (\<lambda>_.
       bnd (bnd (if el_indefinite el then ber_content n (child_tag st (el_tag el)) True (depth + 1)
                 else if is_constructed (el_tag el)
                 then of_bytes (drop (el_header_len el) (el_contents el))
                        (ber_content n (child_tag st (el_tag el)) False (depth + 1))
                 else ret (drop (el_header_len el) (el_contents el)))
                (wrap st (out_tag (el_tag el)))) (\<lambda>piece.
       bnd (ber_content n st eoc depth) (\<lambda>more. ret (piece @ more))))) inp = (Ok bs, rest)"
      using assms 4(1,2) by simp
    then obtain el inp' where el: "CBS_get_any_ber_asn1_element inp = (Ok el, inp')"
      and c1: "bnd (check (st \<noteq> 0 \<longrightarrow> primitive (el_tag el) = st)) (\<lambda>_.
       bnd (bnd (if el_indefinite el then ber_content n (child_tag st (el_tag el)) True (depth + 1)
                 else if is_constructed (el_tag el)
                 then of_bytes (drop (el_header_len el) (el_contents el))
                        (ber_content n (child_tag st (el_tag el)) False (depth + 1))
                 else ret (drop (el_header_len el) (el_contents el)))
                (wrap st (out_tag (el_tag el)))) (\<lambda>piece.
       bnd (ber_content n st eoc depth) (\<lambda>more. ret (piece @ more)))) inp' = (Ok bs, rest)"
      unfolding bnd_Ok_iff [where m = CBS_get_any_ber_asn1_element] by blast
    have st: "st \<noteq> 0 \<longrightarrow> primitive (el_tag el) = st" using c1 unfolding bnd_check by (simp split: if_splits)
    then obtain piece mid where p: "bnd (if el_indefinite el then ber_content n (child_tag st (el_tag el)) True (depth + 1)
                 else if is_constructed (el_tag el)
                 then of_bytes (drop (el_header_len el) (el_contents el))
                        (ber_content n (child_tag st (el_tag el)) False (depth + 1))
                 else ret (drop (el_header_len el) (el_contents el)))
                (wrap st (out_tag (el_tag el))) inp' = (Ok piece, mid)"
      and c2: "bnd (ber_content n st eoc depth) (\<lambda>more. ret (piece @ more)) mid = (Ok bs, rest)"
      using c1 unfolding bnd_check if_P [OF st] bnd_Ok_iff [where f = "\<lambda>piece. bnd _ (_ piece)"] by blast
    obtain body mid' where b: "(if el_indefinite el then ber_content n (child_tag st (el_tag el)) True (depth + 1)
                 else if is_constructed (el_tag el)
                 then of_bytes (drop (el_header_len el) (el_contents el))
                        (ber_content n (child_tag st (el_tag el)) False (depth + 1))
                 else ret (drop (el_header_len el) (el_contents el))) inp' = (Ok body, mid')"
      and w: "wrap st (out_tag (el_tag el)) body mid' = (Ok piece, mid)"
      using p unfolding bnd_Ok_iff [where f = "wrap _ _"] by blast
    have "mid' = mid" "piece = (if st \<noteq> 0 then body else der_element (out_tag (el_tag el)) body)" "st = 0 \<Longrightarrow> length body \<le> 0xfffffffe"
      using w by (auto simp: wrap_def split: if_splits)
    moreover obtain bs' where "ber_content n st eoc depth mid = (Ok bs', rest)" "bs = piece @ bs'"
      using c2 by (auto simp: bnd_Ok_iff)
    ultimately show ?thesis using item [OF 4(1) el] st b by blast
  qed (use assms nil in \<open>auto split: if_splits\<close>)
qed

lemma ber_content_der:
  "ber_content n 0 eoc depth inp = (Ok bs, rest) \<Longrightarrow> depth \<le> kMaxDepth \<and> der_items (kMaxDepth - depth) bs"
proof (induction n arbitrary: eoc depth inp bs rest)
  case 0
  then show ?case by simp
next
  case (Suc n)
  from Suc.prems show ?case
  proof (cases rule: ber_content_Suc)
    case nil
    then show ?thesis by (simp add: der_items.Nil)
  next
    case (item el inp' body mid bs')
    have more: "der_items (kMaxDepth - depth) bs'" using Suc.IH [OF item(6)] by simp
    have valid: "valid_tag (out_tag (el_tag el))"
      using ber_element_facts [OF item(2) [unfolded CBS_get_any_ber_asn1_element_def]] out_tag_facts(2) by blast
    have len: "length body \<le> max_der_len" using item(5) by simp
    show ?thesis
    proof (cases "is_constructed (out_tag (el_tag el))")
      case True
      then have ct: "child_tag 0 (el_tag el) = 0" and o: "out_tag (el_tag el) = el_tag el" "\<not> is_string_type (el_tag el)"
        using out_tag_facts(3) [OF True] by (simp_all add: child_tag_def)
      have "fst (ber_content n 0 e (depth + 1) x) = Ok body \<Longrightarrow> depth + 1 \<le> kMaxDepth \<and> der_items (kMaxDepth - (depth + 1)) body" for e x
        using Suc.IH [of e "depth + 1" x body "snd (ber_content n 0 e (depth + 1) x)"] by (metis prod.collapse)
      then have sub: "depth + 1 \<le> kMaxDepth \<and> der_items (kMaxDepth - (depth + 1)) body"
        using item(4) True o(1) by (auto simp: ct of_bytes_def split: if_splits) (metis fst_conv)+
      then have k: "kMaxDepth - depth = Suc (kMaxDepth - (depth + 1))" using conjunct1 [OF sub] by simp
      show ?thesis
        using der_items.Constructed [OF valid True _ len conjunct2 [OF sub], of bs'] more o item(1,7) unfolding k by simp
    next
      case False
      show ?thesis using der_items.Primitive [OF valid False len more] item(1,7) by simp
    qed
  qed
qed

lemma ber_content_whole: "ber_content n st False depth inp = (Ok bs, rest) \<Longrightarrow> rest = []"
proof (induction n arbitrary: depth inp bs)
  case (Suc n)
  from Suc.prems show ?case by (cases rule: ber_content_Suc) (use Suc.IH in auto)
qed simp

subsection \<open>The exported functions\<close>

lemma der_element_unique:
  assumes "valid_tag t" "length b \<le> max_der_len" "valid_tag t'" "length b' \<le> max_der_len"
    and "der_element t b @ r = der_element t' b' @ r'"
  shows "t = t' \<and> b = b' \<and> r = r'"
proof -
  have "CBS_get_any_asn1 (der_element t b @ r) = (Ok (t, b), r)" "CBS_get_any_asn1 (der_element t b @ r) = (Ok (t', b'), r')"
    using assms by (auto simp: CBS_get_any_asn1_Ok)
  then show ?thesis by simp
qed

lemma der_items_first:
  assumes "der_items k (der_element tag body @ rest)" "valid_tag tag" "length body \<le> max_der_len"
  shows "der_items k (der_element tag body)"
  using assms(1)
proof (cases rule: der_items.cases)
  case Nil
  then show ?thesis by (simp add: element_nonempty)
next
  case (Primitive tag' body' rest')
  then have "tag' = tag" "body' = body" using der_element_unique [OF assms(2,3), of tag' body' rest rest'] by auto
  then show ?thesis using der_items.Primitive [of tag body k "[]"] Primitive by (simp add: der_items.Nil)
next
  case (Constructed tag' body' k' rest')
  then have "tag' = tag" "body' = body" using der_element_unique [OF assms(2,3), of tag' body' rest rest'] by auto
  then show ?thesis using der_items.Constructed [of tag body k' "[]"] Constructed by (simp add: der_items.Nil)
qed

lemma view_finish:
  "bnd m (\<lambda>_. on_out (CBB_finish A 0 True)) (inp, s) =
    (case view m inp s of
       (Ok i, t) \<Rightarrow> (case CBB_finish A 0 True t of (r, t') \<Rightarrow> (r, i, t'))
     | (Fail, t) \<Rightarrow> (Fail, fst (snd (m (inp, s))), t) | (Undef, t) \<Rightarrow> (Undef, fst (snd (m (inp, s))), t))"
  by (auto simp: view_def bnd_def on_out_def split: prod.splits res.splits)

lemma ber_to_der_primitive:
  assumes "cbs_find_ber 0 inp = Ok False"
  shows "CBS_asn1_ber_to_der A inp = (Ok (der, owned), rest) \<longleftrightarrow>
     \<not> owned \<and> (\<exists>tag body. valid_tag tag \<and> length body \<le> max_der_len \<and> der = der_element tag body \<and> inp = der @ rest)"
proof -
  have "CBS_asn1_ber_to_der A inp = (Ok (der, owned), rest) \<longleftrightarrow>
     \<not> owned \<and> (\<exists>el. CBS_get_any_asn1_element inp = (Ok el, rest) \<and> der = el_contents el)"
    using assms by (auto simp: CBS_asn1_ber_to_der_def bnd_Ok_iff)
  also have "(\<exists>el. CBS_get_any_asn1_element inp = (Ok el, rest) \<and> der = el_contents el) \<longleftrightarrow>
     (\<exists>tag body. valid_tag tag \<and> length body \<le> max_der_len \<and> der = der_element tag body \<and> inp = der @ rest)"
    (is "?L = ?R")
  proof
    assume ?L
    then show ?R using get_element_Ok by (metis the_element_fields(4))
  next
    assume ?R
    then show ?L using get_element_der_element [of _ _ False rest] unfolding CBS_get_any_asn1_element_def
      by (metis the_element_fields(4))
  qed
  finally show ?thesis .
qed

lemma ber_to_der_cases:
  assumes "length inp < 2 ^ 64" "cbs_find_ber 0 inp = Ok True"
  obtains (ok) der where "ber_content (Suc (length inp)) 0 False 0 inp = (Ok der, [])"
      "CBS_asn1_ber_to_der A inp = (Ok (der, True), [])"
  | (malformed) i where "ber_content (Suc (length inp)) 0 False 0 inp = (Fail, i)" "fst (CBS_asn1_ber_to_der A inp) = Fail"
  | (memory) der where "ber_content (Suc (length inp)) 0 False 0 inp = (Ok der, [])" "fst (CBS_asn1_ber_to_der A inp) = Fail"
      "\<not> (always_grants A \<and> length der < 2 ^ 64)"
proof -
  let ?n = "Suc (length inp)"
  obtain r i where c: "ber_content ?n 0 False 0 inp = (r, i)" by fastforce
  have r: "r \<noteq> Undef" using ber_content_enough [of inp ?n 0 False 0] c by simp
  have t: "tracks A 0 (r, i) (view (cbs_convert_ber A ?n 0 0 False 0) inp)"
    using convert_tracks [of 0 inp A 0 ?n False 0] assms(1) c by simp
  note unf = CBS_asn1_ber_to_der_def assms(2) CBB_cleanup_def
  show ?thesis
    using assms(1)
  proof (cases rule: CBB_init_cases [where A = A])
    case (ok s)
    have leaf: "length (chain s) = 0" using ok(4) by simp
    show ?thesis
    proof (cases r)
      case (Ok der)
      have i: "i = []" using ber_content_whole [of ?n 0 0 inp der i] c Ok by (simp del: ber_content.simps)
      have w: "writes A 0 der [] (view (cbs_convert_ber A ?n 0 0 False 0) inp)" using t Ok i by (simp add: tracks_def)
      from w ok(2,3) leaf show ?thesis
      proof (cases rule: writesD)
        case v: (ok s')
        then have "fst (CBB_finish A 0 True s') = Ok der" using ok by (subst CBB_finish_leaf) (auto simp: ext_def)
        then obtain s2 where "CBB_finish A 0 True s' = (Ok der, s2)" by (metis prod.collapse)
        then have "CBS_asn1_ber_to_der A inp = (Ok (der, True), [])"
          using ok(1) v(1) by (simp add: unf view_finish del: cbs_convert_ber.simps)
        then show ?thesis using that(1) c Ok i by simp
      next
        case v: (fail s')
        have "fst (CBS_asn1_ber_to_der A inp) = Fail"
          using ok(1) v(1) by (simp add: unf view_finish del: cbs_convert_ber.simps)
        moreover have "\<not> (always_grants A \<and> length der < 2 ^ 64)" using v(3) ok by (auto simp: room_def always_grants_def)
        ultimately show ?thesis using that(3) c Ok i by simp
      qed
    next
      case Fail
      have "refuses 0 (view (cbs_convert_ber A ?n 0 0 False 0) inp)" using t Fail by (simp add: tracks_def)
      from this ok(2,3) leaf obtain s' where "view (cbs_convert_ber A ?n 0 0 False 0) inp s = (Fail, s')" by (rule refusesD)
      then have "fst (CBS_asn1_ber_to_der A inp) = Fail"
        using ok(1) by (simp add: unf view_finish del: cbs_convert_ber.simps)
      then show ?thesis using that(2) c Fail by simp
    qed (use r in simp)
  next
    case fail
    have f: "fst (CBS_asn1_ber_to_der A inp) = Fail" using fail(1) by (simp add: unf)
    show ?thesis
    proof (cases r)
      case (Ok der)
      then show ?thesis using that(3) [OF _ f] fail(2) c ber_content_whole by blast
    qed (use that(2) [OF _ f] c r in auto)
  qed
qed

text \<open>Whatever the allocator does, what comes out is DER, and a second conversion finds nothing to do.\<close>

lemma ber_to_der_result:
  assumes "length inp < 2 ^ 64" "CBS_asn1_ber_to_der A inp = (Ok (der, owned), rest)"
  shows "der_items kMaxDepth der" "cbs_find_ber 0 der = Ok False"
proof -
  show items: "der_items kMaxDepth der"
  proof (cases "cbs_find_ber 0 inp")
    case (Ok b)
    show ?thesis
    proof (cases b)
      case True
      with Ok have "cbs_find_ber 0 inp = Ok True" by simp
      from assms(1) this show ?thesis
        by (cases rule: ber_to_der_cases [where A = A]) (use assms(2) ber_content_der in fastforce)+
    next
      case False
      with Ok have no: "cbs_find_ber 0 inp = Ok False" by simp
      obtain tag body where d: "valid_tag tag" "length body \<le> max_der_len" "der = der_element tag body" "inp = der @ rest"
        using iffD1 [OF ber_to_der_primitive [OF no] assms(2)] by blast
      have "der_items kMaxDepth inp" using find_ber_items [OF no] by simp
      then show ?thesis using der_items_first d by simp
    qed
  next
    case Fail
    then show ?thesis using assms(2) by (simp add: CBS_asn1_ber_to_der_def)
  next
    case Undef
    then show ?thesis using find_ber_defined by blast
  qed
  show "cbs_find_ber 0 der = Ok False" using items_find_ber [OF items] by simp
qed

lemmas ber_parse = CBS_ASN1_CONSTRUCTED_def CBS_ASN1_TAG_NUMBER_MASK_def parse_asn1_tag_def bnd_def
  CBS_get_u8_def Let_def cbs_get_any_asn1_element_def CBS_get_any_ber_asn1_element_def CBS_get_bytes_def
  cbs_get_def size_add_def check_def

lemmas ber_eval = kMaxDepth_def bnd_def cbs_get_eoc_def of_bytes_def is_string_type_def
  is_constructed_def wrap_def out_tag_def child_tag_def CBS_ASN1_CONSTRUCTED_def

lemmas der_eval = der_element_def der_header_def der_tag_def der_length_def tag_class_bits_def CBS_ASN1_TAG_NUMBER_MASK_def

text \<open>An empty SEQUENCE of indefinite length, followed by a NULL.\<close>

lemma ber_example_elements:
  "CBS_get_any_ber_asn1_element [0x30, 0x80, 0, 0, 5, 0] =
     (Ok \<lparr>el_contents = [0x30, 0x80], el_tag = 0x20000010, el_header_len = 2, el_ber_found = True, el_indefinite = True\<rparr>, [0, 0, 5, 0])"
  "CBS_get_any_ber_asn1_element [5, 0] =
     (Ok \<lparr>el_contents = [5, 0], el_tag = 5, el_header_len = 2, el_ber_found = False, el_indefinite = False\<rparr>, [])"
  by (simp_all add: ber_parse)

lemma ber_example_scan: "cbs_find_ber 0 [0x30, 0x80, 0, 0, 5, 0] = Ok True"
  by (subst cbs_find_ber.simps) (simp add: kMaxDepth_def ber_example_elements)

lemma ber_example_content:
  "ber_content (Suc (Suc (Suc n))) 0 False 0 [0x30, 0x80, 0, 0, 5, 0] = (Ok [0x30, 0, 5, 0], [])"
proof -
  have 1: "ber_content (Suc m) 0 True 1 [0, 0, 5, 0] = (Ok [], [5, 0])" for m
    by (simp add: kMaxDepth_def cbs_get_eoc_def)
  have 2: "ber_content (Suc (Suc m)) 0 False 0 [5, 0] = (Ok [5, 0], [])" for m
    by (simp add: ber_example_elements ber_eval der_eval)
  show ?thesis
    using 1 2 by (subst ber_content.simps) (simp add: ber_example_elements ber_eval der_eval del: ber_content.simps)
qed

lemma ber_example_result:
  assumes "always_grants A"
  shows "CBS_asn1_ber_to_der A [0x30, 0x80, 0, 0, 5, 0] = (Ok ([0x30, 0, 5, 0], True), [])"
proof -
  let ?inp = "[0x30, 0x80, 0, 0, 5, 0 :: u8]"
  have small: "length ?inp < 2 ^ 64" by simp
  have c: "ber_content (Suc (length ?inp)) 0 False 0 ?inp = (Ok [0x30, 0, 5, 0], [])"
    using ber_example_content [of 4] by (simp add: eval_nat_numeral del: ber_content.simps)
  from small ber_example_scan show ?thesis
  proof (cases rule: ber_to_der_cases [where A = A])
    case (ok der)
    then show ?thesis using trans [OF c [symmetric] ok(1)] by simp
  next
    case (malformed i)
    then show ?thesis using trans [OF c [symmetric] malformed(1)] by simp
  next
    case (memory der)
    show ?thesis using assms memory(3) trans [OF memory(1) [symmetric] c] by (simp del: ber_content.simps)
  qed
qed

text \<open>A string in fragments: each fragment is appended.\<close>

lemma implicit_loop_writes:
  assumes "valid_tag inner"
  shows "(\<forall>c\<in>set chunks. length c \<le> max_der_len) \<Longrightarrow> length chunks < n \<Longrightarrow>
    writes A 0 (concat chunks) [] (view (implicit_string_loop A inner n) (concat (map (der_element inner) chunks)))"
proof (induction chunks arbitrary: n)
  case Nil
  then obtain m where "n = Suc m" by (cases n) auto
  then have "view (implicit_string_loop A inner n) [] = ret []" by (intro ext) (simp add: view_def)
  with writes_ret [of A 0 "[]"] show ?case by (simp only: list.map concat.simps)
next
  case (Cons c chunks)
  then obtain m where m: "n = Suc m" by (cases n) auto
  let ?rest = "concat (map (der_element inner) chunks)"
  have get: "CBS_get_asn1 inner (der_element inner c @ ?rest) = (Ok c, ?rest)"
    using Cons.prems assms by (simp add: CBS_get_asn1_Ok)
  have "view (implicit_string_loop A inner n) (der_element inner c @ ?rest) =
     view (bnd (on_in (CBS_get_asn1 inner)) (\<lambda>chunk. bnd (on_out (CBB_add_bytes A 0 chunk)) (\<lambda>_. implicit_string_loop A inner m)))
      (der_element inner c @ ?rest)"
    by (rule ext) (simp add: view_def m element_nonempty)
  also have "\<dots> = bnd (CBB_add_bytes A 0 c) (\<lambda>_. view (implicit_string_loop A inner m) ?rest)"
    by (rule ext) (simp add: view_on_in get view_on_out)
  finally show ?case
    using writes_bnd_unit [OF writes_add_bytes [of c A 0] Cons.IH [of m]] Cons.prems m
    by (simp del: implicit_string_loop.simps)
qed

lemma peek_element: "valid_tag t \<Longrightarrow> CBS_peek_asn1_tag tag (der_element t b @ r) \<longleftrightarrow> tag = t"
  using parse_asn1_tag_der_tag [of t] by (simp add: CBS_peek_asn1_tag_def der_element_def der_header_def)

lemma implicit_string_primitive:
  assumes "valid_tag outer" "\<not> is_constructed outer" "\<not> is_constructed inner" "is_string_type inner" "length body \<le> max_der_len"
  shows "CBS_get_asn1_implicit_string A outer inner (der_element outer body @ rest) = (Ok (body, False), rest)"
proof -
  have "CBS_get_asn1 outer (der_element outer body @ rest) = (Ok body, rest)" using assms by (simp add: CBS_get_asn1_Ok)
  then show ?thesis
    using assms by (simp add: CBS_get_asn1_implicit_string_def peek_element is_constructed_def bnd_simps)
qed

lemma implicit_string_fragments:
  assumes "valid_tag outer" "\<not> is_constructed outer" "valid_tag inner" "\<not> is_constructed inner" "is_string_type inner"
    and "\<forall>c\<in>set chunks. length c \<le> max_der_len" "length (concat (map (der_element inner) chunks)) \<le> max_der_len"
    and "length rest < 2 ^ 63"
  shows "CBS_get_asn1_implicit_string A outer inner
      (der_element (outer OR CBS_ASN1_CONSTRUCTED) (concat (map (der_element inner) chunks)) @ rest) = (Ok (concat chunks, True), rest) \<or>
    \<not> always_grants A"
proof -
  let ?child = "concat (map (der_element inner) chunks)" and ?t = "outer OR CBS_ASN1_CONSTRUCTED"
  let ?inp = "der_element ?t ?child @ rest"
  have "?t AND NOT CBS_ASN1_CONSTRUCTED = outer AND NOT CBS_ASN1_CONSTRUCTED"
    by (rule bit_word_eqI) (auto simp: bit_simps)
  then have t: "valid_tag ?t" using assms(1) by (simp add: valid_tag_def)
  have ne: "outer \<noteq> ?t"
  proof
    assume "outer = ?t"
    then have "outer AND CBS_ASN1_CONSTRUCTED = CBS_ASN1_CONSTRUCTED"
      by (metis and.commute or.commute word_ao_absorbs(1))
    then show False using assms(2) by (simp add: is_constructed_def CBS_ASN1_CONSTRUCTED_def)
  qed
  have get: "CBS_get_asn1 ?t ?inp = (Ok ?child, rest)" using t assms(7) by (simp add: CBS_get_asn1_Ok)
  have chunks: "length chunks < Suc (length ?child)"
  proof -
    have "length chunks \<le> length ?child"
    proof (induction chunks)
      case (Cons c chunks)
      then show ?case using der_element_nonempty [of inner c] by (simp del: length_greater_0_conv)
    qed simp
    then show ?thesis by simp
  qed
  have w: "writes A 0 (concat chunks) [] (view (implicit_string_loop A inner (Suc (length ?child))) ?child)"
    by (rule implicit_loop_writes [OF assms(3,6) chunks])
  have "length (concat chunks) \<le> length ?child"
  proof (induction chunks)
    case (Cons c chunks)
    then show ?case by (simp add: element_length)
  qed simp
  then have small: "length (concat chunks) < 2 ^ 64" using assms(7) by simp
  have len: "length ?inp < 2 ^ 64"
    using assms(7,8) der_tag_length [of ?t] by (simp add: element_length der_length_def split: if_splits) (simp add: der_len_len_def)
  show ?thesis
    using len
  proof (cases rule: CBB_init_cases [where A = A])
    case (ok s)
    have "length (chain s) = 0" using ok(4) by simp
    from w ok(2,3) this show ?thesis
    proof (cases rule: writesD)
      case v: (ok s')
      then have "fst (CBB_finish A 0 True s') = Ok (concat chunks)" using ok by (subst CBB_finish_leaf) (auto simp: ext_def)
      then obtain s2 where "CBB_finish A 0 True s' = (Ok (concat chunks), s2)" by (metis prod.collapse)
      then show ?thesis
        using ok(1) v(1) assms ne t
        by (simp add: CBS_get_asn1_implicit_string_def is_constructed_def [symmetric] peek_element get view_finish
            del: implicit_string_loop.simps)
    next
      case v: (fail s')
      then have "\<not> (always_grants A \<and> length (concat chunks) < 2 ^ 64)" using ok by (auto simp: room_def always_grants_def)
      then show ?thesis using small by simp
    qed
  qed simp
qed

text \<open>The conversion comes back on every input, with an answer or a failure.\<close>

lemma ber_to_der_defined:
  assumes "length inp < 2 ^ 64"
  shows "fst (CBS_asn1_ber_to_der A inp) \<noteq> Undef"
proof (cases "cbs_find_ber 0 inp")
  case (Ok b)
  show ?thesis
  proof (cases b)
    case True
    with Ok have "cbs_find_ber 0 inp = Ok True" by simp
    from assms this show ?thesis by (cases rule: ber_to_der_cases [where A = A]) simp_all
  next
    case False
    then have "CBS_asn1_ber_to_der A inp = bnd CBS_get_any_asn1_element (\<lambda>el. ret (el_contents el, False)) inp"
      using Ok by (simp add: CBS_asn1_ber_to_der_def)
    then show ?thesis by (cases inp rule: element_cases) (simp_all add: bnd_simps)
  qed
qed (use find_ber_defined in \<open>auto simp: CBS_asn1_ber_to_der_def\<close>)

lemma implicit_loop_outcome:
  "length inp < n \<Longrightarrow>
     (\<exists>bs. writes A 0 bs [] (view (implicit_string_loop A inner n) inp)) \<or>
     refuses 0 (view (implicit_string_loop A inner n) inp)"
proof (induction n arbitrary: inp)
  case (Suc n)
  have v: "view (implicit_string_loop A inner (Suc n)) inp =
     (if inp = [] then ret [] else
      view (bnd (on_in (CBS_get_asn1 inner)) (\<lambda>chunk. bnd (on_out (CBB_add_bytes A 0 chunk)) (\<lambda>_. implicit_string_loop A inner n))) inp)"
    by (rule ext) (simp add: view_def bnd_simps)
  obtain r t where g: "CBS_get_asn1 inner inp = (r, t)" by fastforce
  show ?case
  proof (cases "inp = []")
    case True
    then show ?thesis unfolding v using writes_ret [of A 0 "[]"] by (simp only: simp_thms if_True) blast
  next
    case False
    show ?thesis
    proof (cases r)
      case (Ok c)
      then have w: "view (implicit_string_loop A inner (Suc n)) inp =
          bnd (CBB_add_bytes A 0 c) (\<lambda>_. view (implicit_string_loop A inner n) t)"
        unfolding v using False g by (intro ext) (simp add: view_on_in view_on_out)
      have "length t < n" using CBS_get_asn1.rd_strict [of inner inp c t] g Ok Suc.prems by simp
      from Suc.IH [OF this] consider bs where "writes A 0 bs [] (view (implicit_string_loop A inner n) t)"
        | "refuses 0 (view (implicit_string_loop A inner n) t)" by blast
      moreover have "length c < 2 ^ 64" using g Ok by (simp add: CBS_get_asn1_Ok)
      note add = writes_add_bytes [OF this, of A 0]
      ultimately show ?thesis unfolding w by cases (blast intro: writes_bnd_unit [OF add] refuses_second [OF add])+
    next
      case Fail
      then show ?thesis unfolding v using False g by (simp add: refuses_def view_on_in)
    next
      case Undef
      then show ?thesis using CBS_get_asn1.rd_defined [OF g] by simp
    qed
  qed
qed simp

lemma implicit_string_defined:
  assumes "length inp < 2 ^ 64" "\<not> is_constructed outer" "\<not> is_constructed inner" "is_string_type inner"
  shows "fst (CBS_get_asn1_implicit_string A outer inner inp) \<noteq> Undef"
proof -
  obtain r t where g: "CBS_get_asn1 outer inp = (r, t)" by fastforce
  obtain r' t' where g': "CBS_get_asn1 (outer OR CBS_ASN1_CONSTRUCTED) inp = (r', t')" by fastforce
  note d = CBS_get_asn1.rd_defined [OF g] CBS_get_asn1.rd_defined [OF g']
  note unf = CBS_get_asn1_implicit_string_def is_constructed_def [symmetric] CBB_cleanup_def
  show ?thesis
  proof (cases "CBS_peek_asn1_tag outer inp")
    case True
    then show ?thesis using assms(2-4) g d by (cases r) (simp_all add: unf bnd_simps)
  next
    case False
    show ?thesis
      using assms(1)
    proof (cases rule: CBB_init_cases [where A = A])
      case (ok s)
      have leaf: "length (chain s) = 0" using ok(4) by simp
      show ?thesis
      proof (cases r')
        case (Ok child)
        let ?loop = "view (implicit_string_loop A inner (Suc (length child))) child"
        consider bs where "writes A 0 bs [] ?loop" | "refuses 0 ?loop"
          using implicit_loop_outcome [of child "Suc (length child)" A inner] by blast
        then show ?thesis
        proof cases
          case 1
          from 1 ok(2,3) leaf show ?thesis
          proof (cases rule: writesD)
            case v: (ok s')
            then have "fst (CBB_finish A 0 True s') = Ok bs" using ok by (subst CBB_finish_leaf) (auto simp: ext_def)
            then obtain s2 where "CBB_finish A 0 True s' = (Ok bs, s2)" by (metis prod.collapse)
            then show ?thesis using ok(1) v(1) assms(2-4) False g' Ok
              by (simp add: unf view_finish del: implicit_string_loop.simps)
          next
            case v: (fail s')
            then show ?thesis using ok(1) assms(2-4) False g' Ok
              by (simp add: unf view_finish del: implicit_string_loop.simps)
          qed
        next
          case 2
          from 2 ok(2,3) leaf obtain s' where "?loop s = (Fail, s')" by (rule refusesD)
          then show ?thesis using ok(1) assms(2-4) False g' Ok
            by (simp add: unf view_finish del: implicit_string_loop.simps)
        qed
      qed (use ok(1) assms(2-4) False g' d in \<open>simp_all add: unf\<close>)
    next
      case fail
      then show ?thesis using assms(2-4) False by (simp add: unf)
    qed
  qed
qed

subsection \<open>Finishing for the i2d functions\<close>

text \<open>
  \<^verbatim>\<open>CBB_finish_i2d\<close> of \<^verbatim>\<open>asn1_compat.c\<close>. The caller passes no pointer, a pointer to NULL, or a pointer to
  memory of its own (the bytes that may be written there). The result is the returned length, and what
  the caller finds: nothing, a fresh buffer, or its memory with the bytes written to its front.
\<close>

datatype i2d_out = No_out | Null_out | Mem_out bytes

definition CBB_finish_i2d :: "allocator \<Rightarrow> nat \<Rightarrow> i2d_out \<Rightarrow> (cbb, int \<times> i2d_out) cfun" where
  "CBB_finish_i2d A d outp s =
    (if d \<noteq> 0 \<or> \<not> can_resize s then (Undef, s)
     else case CBB_finish A d True s of
       (Undef, s') \<Rightarrow> (Undef, s')
     | (Fail, s') \<Rightarrow> bnd (CBB_cleanup d) (\<lambda>_. ret (- 1, outp)) s'
     | (Ok der, s') \<Rightarrow>
       if length der > 2 ^ 31 - 1 then (Ok (- 1, outp), s')
       else (case outp of
           No_out \<Rightarrow> (Ok (int (length der), No_out), s')
         | Null_out \<Rightarrow> (Ok (int (length der), Mem_out der), s')
         | Mem_out mem \<Rightarrow>
             if length mem < length der then (Undef, s')
             else (Ok (int (length der), Mem_out (der @ drop (length der) mem)), s')))"

text \<open>The usual two calls: one to learn the length, one to write into memory of that length.\<close>

lemma finish_i2d:
  assumes "shape s" "\<not> error s" "chain s = []" "can_resize s" "length (out s) < 2 ^ 31"
  shows "fst (CBB_finish_i2d A 0 No_out s) = Ok (int (length (out s)), No_out)"
    "fst (CBB_finish_i2d A 0 Null_out s) = Ok (int (length (out s)), Mem_out (out s))"
    "length (out s) \<le> length mem \<Longrightarrow>
       fst (CBB_finish_i2d A 0 (Mem_out mem) s) = Ok (int (length (out s)), Mem_out (out s @ drop (length (out s)) mem))"
proof -
  obtain s' where "CBB_finish A 0 True s = (Ok (out s), s')"
    using CBB_finish_leaf [OF assms(1-3), of A] by (metis prod.collapse)
  then show "fst (CBB_finish_i2d A 0 No_out s) = Ok (int (length (out s)), No_out)"
    "fst (CBB_finish_i2d A 0 Null_out s) = Ok (int (length (out s)), Mem_out (out s))"
    "length (out s) \<le> length mem \<Longrightarrow>
       fst (CBB_finish_i2d A 0 (Mem_out mem) s) = Ok (int (length (out s)), Mem_out (out s @ drop (length (out s)) mem))"
    using assms(4,5) by (simp_all add: CBB_finish_i2d_def)
qed

end
