(* ===== verification/Internal.thy ===== *)
theory Internal
  imports Der
begin

text \<open>
  The inline helpers of \<^verbatim>\<open>crypto/internal.h\<close>: masks computed without branches, loads and stores of
  either byte order, rotations, addition and subtraction with carry, pointer ranges. Each lemma gives
  the plain meaning of the bit trick; the source checks two of them with an SMT solver, in comments.
\<close>

subsection \<open>Masks without branches\<close>

text \<open>\<^verbatim>\<open>crypto_word_t\<close> has 64 bits. The value barriers are the identity.\<close>

definition value_barrier_w :: "u64 \<Rightarrow> u64" where
  "value_barrier_w a = a"

definition constant_time_msb_w :: "u64 \<Rightarrow> u64" where
  "constant_time_msb_w a = 0 - drop_bit (64 - 1) a"

definition constant_time_lt_w :: "u64 \<Rightarrow> u64 \<Rightarrow> u64" where
  "constant_time_lt_w a b = constant_time_msb_w (a XOR ((a XOR b) OR ((a - b) XOR a)))"

definition constant_time_lt_8 :: "u64 \<Rightarrow> u64 \<Rightarrow> u8" where
  "constant_time_lt_8 a b = ucast (constant_time_lt_w a b)"

definition constant_time_ge_w :: "u64 \<Rightarrow> u64 \<Rightarrow> u64" where
  "constant_time_ge_w a b = NOT (constant_time_lt_w a b)"

definition constant_time_ge_8 :: "u64 \<Rightarrow> u64 \<Rightarrow> u8" where
  "constant_time_ge_8 a b = ucast (constant_time_ge_w a b)"

definition constant_time_is_zero_w :: "u64 \<Rightarrow> u64" where
  "constant_time_is_zero_w a = constant_time_msb_w (NOT a AND (a - 1))"

definition constant_time_is_zero_8 :: "u64 \<Rightarrow> u8" where
  "constant_time_is_zero_8 a = ucast (constant_time_is_zero_w a)"

definition constant_time_eq_w :: "u64 \<Rightarrow> u64 \<Rightarrow> u64" where
  "constant_time_eq_w a b = constant_time_is_zero_w (a XOR b)"

definition constant_time_eq_8 :: "u64 \<Rightarrow> u64 \<Rightarrow> u8" where
  "constant_time_eq_8 a b = ucast (constant_time_eq_w a b)"

text \<open>An \<^verbatim>\<open>int\<close> is a 32-bit pattern; its conversion to \<^verbatim>\<open>crypto_word_t\<close> extends the sign.\<close>

definition constant_time_eq_int :: "u32 \<Rightarrow> u32 \<Rightarrow> u64" where
  "constant_time_eq_int a b = constant_time_eq_w (scast a) (scast b)"

definition constant_time_eq_int_8 :: "u32 \<Rightarrow> u32 \<Rightarrow> u8" where
  "constant_time_eq_int_8 a b = constant_time_eq_8 (scast a) (scast b)"

definition constant_time_select_w :: "u64 \<Rightarrow> u64 \<Rightarrow> u64 \<Rightarrow> u64" where
  "constant_time_select_w msk a b =
     (let msk = value_barrier_w msk in (msk AND a) OR (NOT msk AND b))"

definition constant_time_select_8 :: "u64 \<Rightarrow> u8 \<Rightarrow> u8 \<Rightarrow> u8" where
  "constant_time_select_8 msk a b =
     (let m = ucast (value_barrier_w msk) in (m AND a) OR (NOT m AND b))"

definition constant_time_select_int :: "u64 \<Rightarrow> u32 \<Rightarrow> u32 \<Rightarrow> u32" where
  "constant_time_select_int msk a b = ucast (constant_time_select_w msk (scast a) (scast b))"

text \<open>The two arrays have \<open>n\<close> bytes each and do not overlap; the result is the new \<^verbatim>\<open>dst\<close>.\<close>

definition constant_time_conditional_memcpy :: "bytes \<Rightarrow> bytes \<Rightarrow> u64 \<Rightarrow> bytes" where
  "constant_time_conditional_memcpy dst src msk = map2 (\<lambda>i out. constant_time_select_8 msk i out) src dst"

definition constant_time_conditional_memxor :: "bytes \<Rightarrow> bytes \<Rightarrow> u64 \<Rightarrow> bytes" where
  "constant_time_conditional_memxor dst src msk =
     map2 (\<lambda>i out. out XOR ucast (value_barrier_w msk AND ucast i)) src dst"

subsection \<open>Loads, stores and rotations\<close>

text \<open>The host is little-endian: copying the bytes of an integer gives its low byte first.\<close>

fun le_bytes :: "nat \<Rightarrow> u64 \<Rightarrow> bytes" where
  "le_bytes 0 v = []"
| "le_bytes (Suc n) v = ucast v # le_bytes n (drop_bit 8 v)"

fun le_value :: "bytes \<Rightarrow> u64" where
  "le_value [] = 0"
| "le_value (b # bs) = ucast b OR push_bit 8 (le_value bs)"

definition CRYPTO_load_u32_le :: "bytes \<Rightarrow> u32" where
  "CRYPTO_load_u32_le inp = ucast (le_value (take 4 inp))"

definition CRYPTO_store_u32_le :: "u32 \<Rightarrow> bytes" where
  "CRYPTO_store_u32_le v = le_bytes 4 (ucast v)"

definition CRYPTO_load_u32_be :: "bytes \<Rightarrow> u32" where
  "CRYPTO_load_u32_be inp = CRYPTO_bswap4 (CRYPTO_load_u32_le inp)"

definition CRYPTO_store_u32_be :: "u32 \<Rightarrow> bytes" where
  "CRYPTO_store_u32_be v = CRYPTO_store_u32_le (CRYPTO_bswap4 v)"

definition CRYPTO_load_u64_le :: "bytes \<Rightarrow> u64" where
  "CRYPTO_load_u64_le inp = le_value (take 8 inp)"

definition CRYPTO_store_u64_le :: "u64 \<Rightarrow> bytes" where
  "CRYPTO_store_u64_le v = le_bytes 8 v"

definition CRYPTO_load_u64_be :: "bytes \<Rightarrow> u64" where
  "CRYPTO_load_u64_be ptr = CRYPTO_bswap8 (CRYPTO_load_u64_le ptr)"

definition CRYPTO_store_u64_be :: "u64 \<Rightarrow> bytes" where
  "CRYPTO_store_u64_be v = CRYPTO_store_u64_le (CRYPTO_bswap8 v)"

text \<open>A shift by the width or more, or by a negative amount, is undefined.\<close>

definition CRYPTO_rotl_u32 :: "u32 \<Rightarrow> int \<Rightarrow> u32 option" where
  "CRYPTO_rotl_u32 value shift =
     (if shift < 0 \<or> shift \<ge> 32 then None
      else Some (push_bit (nat shift) value OR drop_bit (nat (- shift AND 31)) value))"

definition CRYPTO_rotr_u32 :: "u32 \<Rightarrow> int \<Rightarrow> u32 option" where
  "CRYPTO_rotr_u32 value shift =
     (if shift < 0 \<or> shift \<ge> 32 then None
      else Some (drop_bit (nat shift) value OR push_bit (nat (- shift AND 31)) value))"

definition CRYPTO_rotl_u64 :: "u64 \<Rightarrow> int \<Rightarrow> u64 option" where
  "CRYPTO_rotl_u64 value shift =
     (if shift < 0 \<or> shift \<ge> 64 then None
      else Some (push_bit (nat shift) value OR drop_bit (nat (- shift AND 63)) value))"

definition CRYPTO_rotr_u64 :: "u64 \<Rightarrow> int \<Rightarrow> u64 option" where
  "CRYPTO_rotr_u64 value shift =
     (if shift < 0 \<or> shift \<ge> 64 then None
      else Some (drop_bit (nat shift) value OR push_bit (nat (- shift AND 63)) value))"

subsection \<open>Addition and subtraction with carry\<close>

text \<open>The portable versions. The results are the word and the outgoing carry or borrow.\<close>

definition CRYPTO_addc_u32 :: "u32 \<Rightarrow> u32 \<Rightarrow> u32 \<Rightarrow> (u32 \<times> u32) res" where
  "CRYPTO_addc_u32 x y carry =
     (if \<not> carry \<le> 1 then Undef
      else let r = (ucast carry :: u64) + (ucast x + ucast y)
           in Ok (ucast r, ucast (drop_bit 32 r)))"

definition CRYPTO_addc_u64 :: "u64 \<Rightarrow> u64 \<Rightarrow> u64 \<Rightarrow> (u64 \<times> u64) res" where
  "CRYPTO_addc_u64 x y carry =
     (if \<not> carry \<le> 1 then Undef
      else let x = x + carry;
               carry = of_bool (x < carry);
               r = x + y;
               carry = carry + of_bool (r < x)
           in Ok (r, carry))"

definition CRYPTO_subc_u32 :: "u32 \<Rightarrow> u32 \<Rightarrow> u32 \<Rightarrow> (u32 \<times> u32) res" where
  "CRYPTO_subc_u32 x y borrow =
     (if \<not> borrow \<le> 1 then Undef
      else Ok (x - y - borrow, of_bool (x < y) OR (of_bool (x = y) AND borrow)))"

definition CRYPTO_subc_u64 :: "u64 \<Rightarrow> u64 \<Rightarrow> u64 \<Rightarrow> (u64 \<times> u64) res" where
  "CRYPTO_subc_u64 x y borrow =
     (if \<not> borrow \<le> 1 then Undef
      else Ok (x - y - borrow, of_bool (x < y) OR (of_bool (x = y) AND borrow)))"

subsection \<open>Pointers\<close>

text \<open>Addresses are 64-bit words.\<close>

definition buffers_alias :: "u64 \<Rightarrow> u64 \<Rightarrow> u64 \<Rightarrow> u64 \<Rightarrow> bool" where
  "buffers_alias a a_bytes b b_bytes \<longleftrightarrow> a + a_bytes > b \<and> b + b_bytes > a"

definition align_pointer :: "u64 \<Rightarrow> u64 \<Rightarrow> u64 res" where
  "align_pointer ptr alignment =
     (if \<not> (alignment \<noteq> 0 \<and> alignment AND (alignment - 1) = 0) then Undef
      else let offset = (0 - ptr) AND (alignment - 1);
               ptr = ptr + offset
           in if ptr AND (alignment - 1) = 0 then Ok ptr else Undef)"

subsection \<open>The masks are what their comments say\<close>

lemma drop_63: "drop_bit 63 (a :: u64) = of_bool (bit a 63)"
proof (rule bit_word_eqI)
  fix n :: nat assume "n < LENGTH(64)"
  show "bit (drop_bit 63 a) n \<longleftrightarrow> bit (of_bool (bit a 63) :: u64) n"
    using bit_imp_le_length [of a "63 + n"] by (cases n) (auto simp: bit_simps)
qed

lemma msb_w: "constant_time_msb_w a = (if bit a 63 then - 1 else 0)"
  by (simp add: constant_time_msb_w_def drop_63)

lemma bit_63: "bit (a :: u64) 63 \<longleftrightarrow> 2 ^ 63 \<le> unat a"
  using drop_bit_eq_0_iff [of 63 a] unfolding drop_63 by (cases "bit a 63") auto

lemma lt_bit: "bit (a XOR ((a XOR b) OR ((a - b) XOR a))) 63 \<longleftrightarrow> (if bit a 63 = bit b 63 then bit (a - b) 63 else bit b 63)"
  for a b :: u64
  by (auto simp: bit_simps)

lemma lt_halves:
  fixes a b :: nat
  assumes "a < 2 * h" "b < 2 * h"
  shows "(if h \<le> a \<longleftrightarrow> h \<le> b then h \<le> (if b \<le> a then a - b else a + 2 * h - b) else h \<le> b) \<longleftrightarrow> a < b"
proof (cases "(h \<le> a) = (h \<le> b)")
  case same: True
  have "b \<le> a \<Longrightarrow> \<not> h \<le> a - b"
  proof (cases "h \<le> b")
    case True
    then show ?thesis using assms(1) by linarith
  next
    case False
    then have "\<not> h \<le> a" using same by simp
    then show ?thesis by linarith
  qed
  moreover have "\<not> b \<le> a \<Longrightarrow> h \<le> a + 2 * h - b"
  proof (cases "h \<le> b")
    case True
    then have "h \<le> a" using same by simp
    then show ?thesis using assms(2) by linarith
  next
    case False
    then show ?thesis by linarith
  qed
  ultimately show ?thesis using same by (cases "b \<le> a") simp_all
next
  case False
  then have "h \<le> b \<longleftrightarrow> a < b" by linarith
  with False show ?thesis by (simp only: if_False)
qed

lemma lt_w: "constant_time_lt_w a b = (if a < b then - 1 else 0)"
proof -
  have sub: "unat (a - b) = (if unat b \<le> unat a then unat a - unat b else unat a + 2 * 2 ^ 63 - unat b)"
    unfolding unat_sub_if' word_size by simp
  have "bit (a XOR ((a XOR b) OR ((a - b) XOR a))) 63 \<longleftrightarrow> unat a < unat b"
    unfolding lt_bit unfolding bit_63 sub
  proof (rule lt_halves)
    show "unat a < 2 * 2 ^ 63" "unat b < 2 * 2 ^ 63"
      using unsigned_less [of a, where ?'a = nat] unsigned_less [of b, where ?'a = nat] by simp_all
  qed
  then show ?thesis by (simp add: constant_time_lt_w_def msb_w word_less_nat_alt)
qed

lemma is_zero_w: "constant_time_is_zero_w a = (if a = 0 then - 1 else 0)"
proof -
  have "bit (NOT a AND (a - 1)) 63 \<longleftrightarrow> \<not> bit a 63 \<and> bit (a - 1) 63" by (simp add: bit_simps)
  also have "\<dots> \<longleftrightarrow> a = 0"
  proof (cases "a = 0")
    case False
    then have "unat (a - 1) = unat a - 1" by (simp add: unat_minus_one)
    moreover have "0 < unat a" using False by (simp add: unat_gt_0)
    ultimately show ?thesis unfolding bit_63 using False by (simp add: not_le) linarith
  qed simp
  finally show ?thesis by (simp add: constant_time_is_zero_w_def msb_w)
qed

lemma eq_w: "constant_time_eq_w a b = (if a = b then - 1 else 0)"
proof -
  have "a = (a XOR b) XOR b" by (simp add: xor.assoc)
  then have "a XOR b = 0 \<longleftrightarrow> a = b" by (metis xor.left_neutral xor_self_eq)
  then show ?thesis by (simp add: constant_time_eq_w_def is_zero_w)
qed

lemma ge_w: "constant_time_ge_w a b = (if a \<ge> b then - 1 else 0)"
  by (auto simp: constant_time_ge_w_def lt_w not_less)

lemma ucast_mask: "(ucast (- 1 :: u64) :: u8) = - 1"
  by (rule bit_word_eqI) (simp add: bit_simps)

lemma bytes_masks:
  "constant_time_lt_8 a b = (if a < b then - 1 else 0)" "constant_time_ge_8 a b = (if a \<ge> b then - 1 else 0)"
  "constant_time_is_zero_8 a = (if a = 0 then - 1 else 0)" "constant_time_eq_8 a b = (if a = b then - 1 else 0)"
  by (simp_all add: constant_time_lt_8_def constant_time_ge_8_def constant_time_is_zero_8_def constant_time_eq_8_def
      lt_w ge_w is_zero_w eq_w ucast_mask)

lemma ucast_scast: "ucast (scast x :: u64) = (x :: u32)"
  by (rule bit_word_eqI) (auto simp: bit_simps)

lemma scast_inj: "(scast (a :: u32) :: u64) = scast b \<longleftrightarrow> a = b"
  by (metis ucast_scast)

lemma eq_ints:
  "constant_time_eq_int a b = (if a = b then - 1 else 0)" "constant_time_eq_int_8 a b = (if a = b then - 1 else 0)"
  by (simp_all add: constant_time_eq_int_def constant_time_eq_int_8_def eq_w bytes_masks scast_inj)

lemma select_w: "constant_time_select_w (if c then - 1 else 0) a b = (if c then a else b)"
  by (simp add: constant_time_select_w_def value_barrier_w_def)

lemma select_8: "constant_time_select_8 (if c then - 1 else 0) a b = (if c then a else b)"
  by (simp add: constant_time_select_8_def value_barrier_w_def ucast_mask Let_def)

lemma select_int: "constant_time_select_int (if c then - 1 else 0) a b = (if c then a else b)"
  by (simp add: constant_time_select_int_def select_w ucast_scast)

lemma conditional_memcpy:
  "length src = length dst \<Longrightarrow>
   constant_time_conditional_memcpy dst src (if c then - 1 else 0) = (if c then src else dst)"
  unfolding constant_time_conditional_memcpy_def select_8
  by (induction src dst rule: list_induct2) simp_all

lemma conditional_memxor:
  "length src = length dst \<Longrightarrow>
   constant_time_conditional_memxor dst src (if c then - 1 else 0) = (if c then map2 (XOR) dst src else dst)"
  unfolding constant_time_conditional_memxor_def value_barrier_w_def
  by (induction src dst rule: list_induct2) (simp_all add: ucast_ucast_id)

subsection \<open>Loads, stores, rotations, carries\<close>

lemma le_value_bytes: "drop_bit (8 * n) v = 0 \<Longrightarrow> le_value (le_bytes n v) = v"
proof (induction n arbitrary: v)
  case (Suc n)
  then have "le_value (le_bytes n (drop_bit 8 v)) = drop_bit 8 v" by (simp add: drop_bit_drop_bit add.commute)
  moreover have "ucast (ucast v :: u8) OR push_bit 8 (drop_bit 8 v) = v"
    using be_step [of 0 v] by (simp add: or.commute)
  ultimately show ?case by simp
qed simp

lemma length_le_bytes [simp]: "length (le_bytes n v) = n"
  by (induction n arbitrary: v) simp_all

lemma be_bytes_le: "be_bytes n v = rev (le_bytes n v)"
  by (induction n arbitrary: v) (simp_all add: be_bytes_snoc del: be_bytes.simps(2))

text \<open>The swap masks, by the bits they have.\<close>

lemma swap_masks [bit_consts]:
  "bit (0xff00ff00 :: int) n \<longleftrightarrow> 8 \<le> n \<and> n < 16 \<or> 24 \<le> n \<and> n < 32"
  "bit (0x00ff00ff :: int) n \<longleftrightarrow> n < 8 \<or> 16 \<le> n \<and> n < 24"
proof -
  have e: "(0xff00ff00 :: int) = push_bit 8 (mask 8) OR push_bit 24 (mask 8)" "(0x00ff00ff :: int) = mask 8 OR push_bit 16 (mask 8)"
    by (simp_all add: mask_eq_exp_minus_1)
  show "bit (0xff00ff00 :: int) n \<longleftrightarrow> 8 \<le> n \<and> n < 16 \<or> 24 \<le> n \<and> n < 32"
    unfolding e(1) by (simp only: bit_or_iff bit_push_bit_iff bit_mask_iff) auto
  show "bit (0x00ff00ff :: int) n \<longleftrightarrow> n < 8 \<or> 16 \<le> n \<and> n < 24"
    unfolding e(2) by (simp only: bit_or_iff bit_push_bit_iff bit_mask_iff) auto
qed

lemma bit_bswap4:
  assumes "i < 8"
  shows "bit (CRYPTO_bswap4 x) i \<longleftrightarrow> bit x (24 + i)" "bit (CRYPTO_bswap4 x) (8 + i) \<longleftrightarrow> bit x (16 + i)"
    "bit (CRYPTO_bswap4 x) (16 + i) \<longleftrightarrow> bit x (8 + i)" "bit (CRYPTO_bswap4 x) (24 + i) \<longleftrightarrow> bit x i"
proof -
  define y where "y = drop_bit 16 x OR push_bit 16 x"
  have y: "bit y n \<longleftrightarrow> n < 32 \<and> (bit x (16 + n) \<or> 16 \<le> n \<and> bit x (n - 16))" for n
    by (auto simp: y_def bit_simps dest: bit_imp_le_length)
  have b: "CRYPTO_bswap4 x = drop_bit 8 (y AND 0xff00ff00) OR push_bit 8 (y AND 0x00ff00ff)"
    by (simp add: CRYPTO_bswap4_def y_def Let_def)
  have "bit (CRYPTO_bswap4 x) n \<longleftrightarrow> bit y (8 + n) \<and> (n < 8 \<or> 16 \<le> n \<and> n < 24) \<or>
     8 \<le> n \<and> n < 32 \<and> bit y (n - 8) \<and> (n < 16 \<or> 24 \<le> n)" for n
    unfolding b by (auto simp: bit_simps bit_consts)
  note c = this [unfolded y]
  have no: "\<not> bit x (32 + k)" for k using bit_imp_le_length [of x "32 + k"] by auto
  show "bit (CRYPTO_bswap4 x) i \<longleftrightarrow> bit x (24 + i)" "bit (CRYPTO_bswap4 x) (8 + i) \<longleftrightarrow> bit x (16 + i)"
    "bit (CRYPTO_bswap4 x) (16 + i) \<longleftrightarrow> bit x (8 + i)" "bit (CRYPTO_bswap4 x) (24 + i) \<longleftrightarrow> bit x i"
    unfolding c using assms no [of i] no [of "8 + i"] by simp_all
qed

lemma word_eq_bytesI:
  fixes x y :: "'a::len word"
  assumes "LENGTH('a) = 8 * k" "\<And>j i. j < k \<Longrightarrow> i < 8 \<Longrightarrow> bit x (8 * j + i) \<longleftrightarrow> bit y (8 * j + i)"
  shows "x = y"
proof (rule bit_word_eqI)
  fix n assume "n < LENGTH('a)"
  then have "n div 8 < k" "n mod 8 < 8" using assms(1) by auto
  from assms(2) [OF this] show "bit x n \<longleftrightarrow> bit y n" by simp
qed

lemma byte_of: "i < 8 \<Longrightarrow> bit (ucast (drop_bit k x) :: u8) i \<longleftrightarrow> bit x (k + i)"
  by (simp add: bit_simps)

lemma less_4_cases: "(j :: nat) < 4 \<longleftrightarrow> j = 0 \<or> j = 1 \<or> j = 2 \<or> j = 3"
  by auto

lemma bswap4_swap: "CRYPTO_bswap4 (CRYPTO_bswap4 x) = x"
  by (rule word_eq_bytesI [where k = 4]) (auto simp: less_4_cases bit_bswap4 bit_bswap4 [where i = "_ + 0"])

lemma bit_bswap8:
  assumes "i < 8"
  shows "bit (CRYPTO_bswap8 x) i \<longleftrightarrow> bit x (56 + i)" "bit (CRYPTO_bswap8 x) (8 + i) \<longleftrightarrow> bit x (48 + i)"
    "bit (CRYPTO_bswap8 x) (16 + i) \<longleftrightarrow> bit x (40 + i)" "bit (CRYPTO_bswap8 x) (24 + i) \<longleftrightarrow> bit x (32 + i)"
    "bit (CRYPTO_bswap8 x) (32 + i) \<longleftrightarrow> bit x (24 + i)" "bit (CRYPTO_bswap8 x) (40 + i) \<longleftrightarrow> bit x (16 + i)"
    "bit (CRYPTO_bswap8 x) (48 + i) \<longleftrightarrow> bit x (8 + i)" "bit (CRYPTO_bswap8 x) (56 + i) \<longleftrightarrow> bit x i"
proof -
  have lo: "bit (CRYPTO_bswap8 x) n \<longleftrightarrow> bit (CRYPTO_bswap4 (ucast (drop_bit 32 x))) n" if "n < 32" for n
    using that by (auto simp: CRYPTO_bswap8_def bit_simps)
  have hi: "bit (CRYPTO_bswap8 x) (32 + n) \<longleftrightarrow> bit (CRYPTO_bswap4 (ucast x)) n" if "n < 32" for n
    using that by (auto simp: CRYPTO_bswap8_def bit_simps dest: bit_imp_le_length)
  have dl: "bit (ucast (drop_bit 32 x) :: u32) n \<longleftrightarrow> bit x (32 + n)" "bit (ucast x :: u32) n \<longleftrightarrow> bit x n" if "n < 32" for n
    using that by (auto simp: bit_simps)
  show "bit (CRYPTO_bswap8 x) i \<longleftrightarrow> bit x (56 + i)" "bit (CRYPTO_bswap8 x) (8 + i) \<longleftrightarrow> bit x (48 + i)"
    "bit (CRYPTO_bswap8 x) (16 + i) \<longleftrightarrow> bit x (40 + i)" "bit (CRYPTO_bswap8 x) (24 + i) \<longleftrightarrow> bit x (32 + i)"
    using assms by (simp_all add: lo bit_bswap4 dl)
  show "bit (CRYPTO_bswap8 x) (32 + i) \<longleftrightarrow> bit x (24 + i)" "bit (CRYPTO_bswap8 x) (40 + i) \<longleftrightarrow> bit x (16 + i)"
    "bit (CRYPTO_bswap8 x) (48 + i) \<longleftrightarrow> bit x (8 + i)" "bit (CRYPTO_bswap8 x) (56 + i) \<longleftrightarrow> bit x i"
    using assms hi [of i] hi [of "8 + i"] hi [of "16 + i"] hi [of "24 + i"]
    by (simp_all add: bit_bswap4 dl del: bit_drop_bit_eq)
qed

lemma less_8_cases: "(j :: nat) < 8 \<longleftrightarrow> j = 0 \<or> j = 1 \<or> j = 2 \<or> j = 3 \<or> j = 4 \<or> j = 5 \<or> j = 6 \<or> j = 7"
  by auto

lemma bswap8_swap: "CRYPTO_bswap8 (CRYPTO_bswap8 x) = x"
proof (rule word_eq_bytesI [where k = 8])
  fix j i :: nat
  assume "j < 8" "i < 8"
  from less_8_cases [THEN iffD1, OF this(1)] this(2)
  show "bit (CRYPTO_bswap8 (CRYPTO_bswap8 x)) (8 * j + i) = bit x (8 * j + i)"
    by (elim disjE) (simp_all add: bit_bswap8)
qed simp

lemma byte_eqI: "(\<And>i. i < 8 \<Longrightarrow> bit x i = bit y i) \<Longrightarrow> x = (y :: u8)"
  by (rule bit_word_eqI) simp

lemma le_bytes_4: "le_bytes 4 v = map (\<lambda>k. ucast (drop_bit k v)) [0, 8, 16, 24]"
  by (simp add: eval_nat_numeral drop_bit_drop_bit)

lemma be_bytes_4: "be_bytes 4 v = map (\<lambda>k. ucast (drop_bit k v)) [24, 16, 8, 0]"
  by (simp add: eval_nat_numeral)

lemma le_bytes_8: "le_bytes 8 v = map (\<lambda>k. ucast (drop_bit k v)) [0, 8, 16, 24, 32, 40, 48, 56]"
  by (simp add: eval_nat_numeral drop_bit_drop_bit)

lemma be_bytes_8: "be_bytes 8 v = map (\<lambda>k. ucast (drop_bit k v)) [56, 48, 40, 32, 24, 16, 8, 0]"
  by (simp add: eval_nat_numeral)

lemma store_u32_be: "CRYPTO_store_u32_be v = be_bytes 4 (ucast v)"
proof -
  have up: "bit (ucast (w :: u32) :: u64) n \<longleftrightarrow> bit w n" for w n by (auto simp: bit_simps dest: bit_imp_le_length)
  show ?thesis
    unfolding CRYPTO_store_u32_be_def CRYPTO_store_u32_le_def le_bytes_4 be_bytes_4 list.map list.inject
    by (intro conjI byte_eqI refl) (simp_all only: byte_of up bit_bswap4 add_0)
qed

lemma store_u64_be: "CRYPTO_store_u64_be v = be_bytes 8 v"
  unfolding CRYPTO_store_u64_be_def CRYPTO_store_u64_le_def le_bytes_8 be_bytes_8 list.map list.inject
  by (intro conjI byte_eqI refl) (simp_all only: byte_of bit_bswap8 add_0)

lemma load_store_le: "CRYPTO_load_u32_le (CRYPTO_store_u32_le v @ rest) = v" "CRYPTO_load_u64_le (CRYPTO_store_u64_le w @ rest) = w"
proof -
  have "drop_bit (8 * 4) (ucast v :: u64) = 0" "drop_bit (8 * 8) w = 0"
    by (rule bit_word_eqI; auto simp: bit_simps dest: bit_imp_le_length)+
  then show "CRYPTO_load_u32_le (CRYPTO_store_u32_le v @ rest) = v" "CRYPTO_load_u64_le (CRYPTO_store_u64_le w @ rest) = w"
    using le_value_bytes [of 4 "ucast v"] le_value_bytes [of 8 w]
    by (simp_all add: CRYPTO_load_u32_le_def CRYPTO_store_u32_le_def CRYPTO_load_u64_le_def CRYPTO_store_u64_le_def ucast_ucast_id)
qed

lemma load_store_be: "CRYPTO_load_u32_be (CRYPTO_store_u32_be v @ rest) = v" "CRYPTO_load_u64_be (CRYPTO_store_u64_be w @ rest) = w"
  by (simp_all add: CRYPTO_load_u32_be_def CRYPTO_store_u32_be_def CRYPTO_load_u64_be_def CRYPTO_store_u64_be_def
      load_store_le bswap4_swap bswap8_swap)

text \<open>The little-endian getters of the byte strings read what the stores write.\<close>

lemma get_le:
  "CBS_get_u32le (CRYPTO_store_u32_le v @ rest) = (Ok v, rest)" "CBS_get_u64le (CRYPTO_store_u64_le w @ rest) = (Ok w, rest)"
proof -
  have s: "CRYPTO_store_u32_le v = be_bytes 4 (ucast (CRYPTO_bswap4 v))" "CRYPTO_store_u64_le w = be_bytes 8 (CRYPTO_bswap8 w)"
    using store_u32_be [of "CRYPTO_bswap4 v"] store_u64_be [of "CRYPTO_bswap8 w"]
    by (simp_all add: CRYPTO_store_u32_be_def CRYPTO_store_u64_be_def bswap4_swap bswap8_swap)
  have d: "drop_bit (8 * 4) (ucast (CRYPTO_bswap4 v) :: u64) = 0" "drop_bit (8 * 8) (CRYPTO_bswap8 w) = 0"
    by (rule bit_word_eqI; auto simp: bit_simps dest: bit_imp_le_length)+
  show "CBS_get_u32le (CRYPTO_store_u32_le v @ rest) = (Ok v, rest)" "CBS_get_u64le (CRYPTO_store_u64_le w @ rest) = (Ok w, rest)"
    unfolding s CBS_get_u32le_def CBS_get_u32_def CBS_get_u64le_def
    using cbs_get_u_be_bytes [OF d(1), of rest] cbs_get_u_be_bytes [OF d(2), of rest]
    by (simp_all add: bnd_simps bswap4_swap bswap8_swap ucast_ucast_id)
qed

text \<open>Rotations.\<close>

lemma minus_and_mask: "nat (- int k AND (2 ^ n - 1)) = (if k = 0 then 0 else 2 ^ n - k)" if "k < 2 ^ n"
proof -
  have "- int k AND (2 ^ n - 1) = - int k mod 2 ^ n" by (simp add: take_bit_eq_mod flip: take_bit_eq_mask mask_eq_exp_minus_1)
  then show ?thesis using that by (auto simp: zmod_zminus1_eq_if nat_diff_distrib nat_power_eq)
qed

lemma rotate_bits:
  fixes v :: "'a::len word"
  assumes "k < LENGTH('a)"
  shows "push_bit k v OR drop_bit (if k = 0 then 0 else LENGTH('a) - k) v = word_rotl k v"
    and "drop_bit k v OR push_bit (if k = 0 then 0 else LENGTH('a) - k) v = word_rotr k v"
proof -
  show "push_bit k v OR drop_bit (if k = 0 then 0 else LENGTH('a) - k) v = word_rotl k v"
  proof (rule bit_word_eqI)
    fix n assume n: "n < LENGTH('a)"
    have "(n + (LENGTH('a) - k)) mod LENGTH('a) = (if n < k then n + (LENGTH('a) - k) else n - k)"
      using n assms by (auto simp: mod_if)
    then show "bit (push_bit k v OR drop_bit (if k = 0 then 0 else LENGTH('a) - k) v) n = bit (word_rotl k v) n"
      using n assms by (auto simp: bit_simps add.commute dest: bit_imp_le_length)
  qed
  show "drop_bit k v OR push_bit (if k = 0 then 0 else LENGTH('a) - k) v = word_rotr k v"
  proof (rule bit_word_eqI)
    fix n assume n: "n < LENGTH('a)"
    have "(n + k) mod LENGTH('a) = (if n + k < LENGTH('a) then n + k else n + k - LENGTH('a))"
      using n assms by (auto simp: mod_if)
    moreover have "n + k - LENGTH('a) = n - (LENGTH('a) - k)" using assms by simp
    ultimately show "bit (drop_bit k v OR push_bit (if k = 0 then 0 else LENGTH('a) - k) v) n = bit (word_rotr k v) n"
      using n assms by (auto simp: bit_simps add.commute dest: bit_imp_le_length)
  qed
qed

lemma rotations:
  "k < 32 \<Longrightarrow> CRYPTO_rotl_u32 v (int k) = Some (word_rotl k v)" "k < 32 \<Longrightarrow> CRYPTO_rotr_u32 v (int k) = Some (word_rotr k v)"
  "k < 64 \<Longrightarrow> CRYPTO_rotl_u64 w (int k) = Some (word_rotl k w)" "k < 64 \<Longrightarrow> CRYPTO_rotr_u64 w (int k) = Some (word_rotr k w)"
  using minus_and_mask [of k 5] minus_and_mask [of k 6] rotate_bits [of k v] rotate_bits [of k w]
  by (cases "k = 0"; simp add: CRYPTO_rotl_u32_def CRYPTO_rotr_u32_def CRYPTO_rotl_u64_def CRYPTO_rotr_u64_def)+

text \<open>Carries and borrows: the result and the outgoing bit are the two digits of the exact sum.\<close>

lemma carry_le_1: "c \<le> (1 :: 'a::len word) \<Longrightarrow> c = 0 \<or> c = 1"
  by (metis add_0 inc_le linorder_not_le order.antisym word_gt_0)

lemma addc_u32:
  assumes "carry \<le> 1"
  shows "\<exists>r c. CRYPTO_addc_u32 x y carry = Ok (r, c) \<and> c \<le> 1 \<and>
    unat r + 2 ^ 32 * unat c = unat x + unat y + unat carry"
proof -
  let ?S = "unat x + unat y + unat carry"
  define s where "s = (ucast carry :: u64) + (ucast x + ucast y)"
  have c1: "unat carry \<le> 1" using assms by (simp add: word_le_nat_alt)
  have b: "unat x < 2 ^ 32" "unat y < 2 ^ 32"
    using unsigned_less [of x, where ?'a = nat] unsigned_less [of y, where ?'a = nat] by simp_all
  have u: "unat (ucast w :: u64) = unat w" for w :: u32
    using unsigned_less [of w, where ?'a = nat] by (simp add: unsigned_ucast_eq take_bit_nat_eq_self)
  have s: "unat s = ?S" using b c1 by (simp add: s_def unat_word_ariths u)
  have r: "unat (ucast s :: u32) = ?S mod 2 ^ 32" by (simp add: unsigned_ucast_eq s take_bit_eq_mod)
  have d: "unat (drop_bit 32 s) = ?S div 2 ^ 32" unfolding unat_drop_bit_eq s by (simp add: drop_bit_eq_div)
  have "?S div 2 ^ 32 \<le> 1" using b c1 by simp
  then have c: "unat (ucast (drop_bit 32 s) :: u32) = ?S div 2 ^ 32"
    by (simp only: unsigned_ucast_eq d) (simp add: take_bit_nat_eq_self)
  have "CRYPTO_addc_u32 x y carry = Ok (ucast s, ucast (drop_bit 32 s))"
    using assms by (simp add: CRYPTO_addc_u32_def s_def Let_def)
  moreover have "unat (ucast s :: u32) + 2 ^ 32 * unat (ucast (drop_bit 32 s) :: u32) = ?S"
    unfolding r c by (simp add: mod_mult_div_eq)
  moreover have "(ucast (drop_bit 32 s) :: u32) \<le> 1"
    using c \<open>?S div 2 ^ 32 \<le> 1\<close> unfolding word_le_nat_alt by simp
  ultimately show ?thesis by blast
qed

lemma carry_out: "unat (a + b) + 2 ^ LENGTH('a) * of_bool (a + b < a) = unat a + unat b" for a b :: "'a::len word"
proof (cases "unat a + unat b < 2 ^ LENGTH('a)")
  case True
  then have "unat (a + b) = unat a + unat b" by (simp add: unat_plus_if' word_size)
  then show ?thesis by (simp add: word_less_nat_alt)
next
  case False
  then have "unat (a + b) = unat a + unat b - 2 ^ LENGTH('a)" by (simp add: unat_plus_if' word_size)
  moreover have "unat b < 2 ^ LENGTH('a)" by (rule unsigned_less)
  ultimately have "unat (a + b) + 2 ^ LENGTH('a) = unat a + unat b" "unat (a + b) < unat a" using False by linarith+
  then show ?thesis by (simp add: word_less_nat_alt)
qed

lemma carry_out': "unat (a + b) + 2 ^ LENGTH('a) * of_bool (a + b < b) = unat a + unat b" for a b :: "'a::len word"
  using carry_out [of b a] by (simp only: add.commute [of b a] add.commute [of "unat b"])

lemma addc_u64:
  assumes "carry \<le> 1"
  shows "\<exists>r c. CRYPTO_addc_u64 x y carry = Ok (r, c) \<and> c \<le> 1 \<and>
    unat r + 2 ^ 64 * unat c = unat x + unat y + unat carry"
proof -
  define x1 where "x1 = x + carry"
  define r where "r = x1 + y"
  have cc: "carry = 0 \<or> carry = 1" using assms by (rule carry_le_1)
  have x1: "unat x1 + 2 ^ 64 * of_bool (x1 < carry) = unat x + unat carry"
    using carry_out' [of x carry] by (simp add: x1_def)
  have r: "unat r + 2 ^ 64 * of_bool (r < x1) = unat x1 + unat y"
    using carry_out [of x1 y] by (simp add: r_def)
  have "\<not> (x1 < carry \<and> r < x1)" using cc by (auto simp: word_less_1)
  then have c: "unat (of_bool (x1 < carry) + of_bool (r < x1) :: u64) = of_bool (x1 < carry) + of_bool (r < x1)"
    "of_bool (x1 < carry) + of_bool (r < x1) \<le> (1 :: u64)" by auto
  have "CRYPTO_addc_u64 x y carry = Ok (r, of_bool (x1 < carry) + of_bool (r < x1))"
    using assms by (simp add: CRYPTO_addc_u64_def x1_def r_def Let_def)
  then show ?thesis using c x1 r by (auto simp: algebra_simps)
qed

text \<open>The borrow is set exactly when the subtrahend and the incoming borrow exceed the minuend.\<close>

lemma borrow_out:
  fixes x y b :: "'a::len word"
  assumes "b \<le> 1"
  shows "of_bool (x < y) OR (of_bool (x = y) AND b) = (of_bool (uint x < uint y + uint b) :: 'a word)"
  using carry_le_1 [OF assms]
proof
  assume b: "b = 0"
  then show ?thesis by (simp add: word_less_def)
next
  assume b: "b = 1"
  have "uint x < uint y + 1 \<longleftrightarrow> x < y \<or> x = y" by (auto simp: word_less_def word_uint_eq_iff)
  then show ?thesis by (cases "x < y"; cases "x = y") (simp_all add: b)
qed

lemma subc_exact:
  fixes x y b :: "'a::len word"
  assumes "b \<le> 1"
  shows "uint (x - y - b) = uint x - uint y - uint b + 2 ^ LENGTH('a) * of_bool (uint x < uint y + uint b)"
proof -
  let ?S = "uint x - uint y - uint b" and ?M = "2 ^ LENGTH('a) :: int"
  have m: "uint (x - y - b) = ?S mod ?M" by (simp add: uint_word_ariths mod_simps)
  have b: "0 \<le> uint b" "uint b \<le> 1" using carry_le_1 [OF assms] by auto
  have r: "0 \<le> uint x" "uint x < ?M" "0 \<le> uint y" "uint y < ?M"
    using uint_ge_0 [of x] uint_ge_0 [of y] uint_lt2p [of x] uint_lt2p [of y] by simp_all
  show ?thesis
  proof (cases "uint x < uint y + uint b")
    case True
    have "(?S + ?M) mod ?M = ?S + ?M" using r b True by (intro mod_pos_pos_trivial) linarith+
    then show ?thesis unfolding m using True by simp
  next
    case False
    have "?S mod ?M = ?S" using r b False by (intro mod_pos_pos_trivial) linarith+
    then show ?thesis unfolding m using False by simp
  qed
qed

lemma subc_u32:
  "borrow \<le> 1 \<Longrightarrow> \<exists>r c. CRYPTO_subc_u32 x y borrow = Ok (r, of_bool c) \<and>
     uint r = uint x - uint y - uint borrow + 2 ^ 32 * of_bool c"
  using subc_exact [of borrow x y] borrow_out [of borrow x y] by (auto simp: CRYPTO_subc_u32_def)

lemma subc_u64:
  "borrow \<le> 1 \<Longrightarrow> \<exists>r c. CRYPTO_subc_u64 x y borrow = Ok (r, of_bool c) \<and>
     uint r = uint x - uint y - uint borrow + 2 ^ 64 * of_bool c"
  using subc_exact [of borrow x y] borrow_out [of borrow x y] by (auto simp: CRYPTO_subc_u64_def)

text \<open>Alignment moves a pointer forward by less than the alignment, to a multiple of it.\<close>

lemma align_pointer:
  assumes "k < 64"
  shows "\<exists>p. align_pointer ptr (push_bit k 1) = Ok (ptr + p) \<and> unat p < 2 ^ k \<and> 2 ^ k dvd unat (ptr + p)"
proof -
  have m: "push_bit k 1 - 1 = (mask k :: u64)" by (simp add: mask_eq_exp_minus_1)
  define p where "p = (0 - ptr) AND mask k"
  have p: "p = take_bit k (- ptr)" by (simp add: p_def take_bit_eq_mask)
  let ?q = "drop_bit k (- ptr)"
  have "- ptr = push_bit k ?q + p" unfolding p by (rule bits_ident [symmetric])
  then have "p = - ptr - push_bit k ?q" by (metis add_diff_cancel_left')
  then have "ptr + p = - push_bit k ?q" by (simp only: add_diff_eq add.right_inverse diff_0)
  also have "\<dots> = push_bit k (- ?q)" by (simp only: push_bit_eq_mult mult_minus_left)
  finally have "ptr + p = push_bit k (- ?q)" .
  then have z: "take_bit k (ptr + p) = 0" by (simp only: take_bit_push_bit) simp
  have "take_bit k (unat (ptr + p)) = 0" unfolding unsigned_take_bit_eq [symmetric] z by simp
  then have "2 ^ k dvd unat (ptr + p)" by (simp add: take_bit_eq_mod mod_eq_0_iff_dvd)
  moreover have "unat p < 2 ^ k" unfolding p unsigned_take_bit_eq by simp
  moreover have "push_bit k 1 AND mask k = (0 :: u64)" by (rule bit_word_eqI) (auto simp: bit_simps simp del: push_bit_of_1)
  then have "align_pointer ptr (push_bit k 1) = Ok (ptr + p)"
    using z assms unfolding align_pointer_def m p_def [symmetric] Let_def 
    by (simp add: take_bit_eq_mask)
  ultimately show ?thesis by blast
qed

text \<open>The test is the intersection of the two ranges, for ranges that do not wrap around.\<close>

lemma buffers_alias_iff:
  assumes "unat a + unat an < 2 ^ 64" "unat b + unat bn < 2 ^ 64"
  shows "buffers_alias a an b bn \<longleftrightarrow>
    unat b < unat a + unat an \<and> unat a < unat b + unat bn"
  using assms by (simp add: buffers_alias_def word_less_nat_alt unat_word_ariths)

end
