(* ===== verification/Base64.thy ===== *)
theory Base64
  imports Internal
begin

text \<open>
  \<^verbatim>\<open>crypto/base64/base64.c\<close>, one-shot part: the constant-time alphabet, which is shown to be the table
  of RFC 4648, the lengths, and the encoding and decoding of whole blocks, which are inverse.
\<close>


subsection \<open>The alphabet\<close>

definition constant_time_lt_args_8 :: "u8 \<Rightarrow> u8 \<Rightarrow> u8" where
  "constant_time_lt_args_8 a b = (let aw = ucast a; bw = ucast b in ucast (constant_time_msb_w (aw - bw)))"

definition constant_time_in_range_8 :: "u8 \<Rightarrow> u8 \<Rightarrow> u8 \<Rightarrow> u8" where
  "constant_time_in_range_8 a lo hi = (let a = a - lo in constant_time_lt_args_8 a (hi - lo + 1))"

text \<open>The characters are those of ASCII. The masks of the comparisons are bytes, widened to the word that
  \<^verbatim>\<open>constant_time_select_8\<close> takes.\<close>

definition conv_bin2ascii :: "u8 \<Rightarrow> u8" where
  "conv_bin2ascii a =
     (let a = a AND 0x3f;
          r = constant_time_select_8 (ucast (constant_time_eq_8 (ucast a) 62)) (byte_of_char CHR ''+'') (byte_of_char CHR ''/'');
          r = constant_time_select_8 (ucast (constant_time_lt_args_8 a 62)) (a - 52 + byte_of_char CHR ''0'') r;
          r = constant_time_select_8 (ucast (constant_time_lt_args_8 a 52)) (a - 26 + byte_of_char CHR ''a'') r;
          r = constant_time_select_8 (ucast (constant_time_lt_args_8 a 26)) (a + byte_of_char CHR ''A'') r
      in r)"

definition base64_ascii_to_bin :: "u8 \<Rightarrow> u8" where
  "base64_ascii_to_bin a =
     (let is_upper = constant_time_in_range_8 a (byte_of_char CHR ''A'') (byte_of_char CHR ''Z'');
          is_lower = constant_time_in_range_8 a (byte_of_char CHR ''a'') (byte_of_char CHR ''z'');
          is_digit = constant_time_in_range_8 a (byte_of_char CHR ''0'') (byte_of_char CHR ''9'');
          is_plus = constant_time_eq_8 (ucast a) (ucast (byte_of_char CHR ''+''));
          is_slash = constant_time_eq_8 (ucast a) (ucast (byte_of_char CHR ''/''));
          is_equals = constant_time_eq_8 (ucast a) (ucast (byte_of_char CHR ''=''));
          r = is_upper AND (a - byte_of_char CHR ''A'');
          r = r OR is_lower AND (a - byte_of_char CHR ''a'' + 26);
          r = r OR is_digit AND (a - byte_of_char CHR ''0'' + 52);
          r = r OR is_plus AND 62;
          r = r OR is_slash AND 63;
          is_valid = is_upper OR is_lower OR is_digit OR is_plus OR is_slash OR is_equals
      in r OR NOT is_valid)"

subsection \<open>Lengths\<close>

definition EVP_EncodedLength :: "nat \<Rightarrow> nat res" where
  "EVP_EncodedLength len =
     (if size_add len 2 < len then Fail
      else let len = size_add len 2; len = len div 3
           in if size_mul len 4 div 4 \<noteq> len then Fail
              else let len = size_mul len 4
                   in if size_add len 1 < len then Fail else Ok (size_add len 1))"

definition EVP_DecodedLength :: "nat \<Rightarrow> nat res" where
  "EVP_DecodedLength len = (if len mod 4 \<noteq> 0 then Fail else Ok (len div 4 * 3))"

subsection \<open>Blocks\<close>

text \<open>The characters written before the terminating NUL, of which \<^verbatim>\<open>EVP_EncodeBlock\<close> returns the number.\<close>

definition quad_chars :: "u32 \<Rightarrow> bytes" where
  "quad_chars l = map (\<lambda>k. conv_bin2ascii (ucast (drop_bit k l))) [18, 12, 6, 0]"

fun encode_loop :: "bytes \<Rightarrow> bytes" where
  "encode_loop [] = []"
| "encode_loop [a] =
     (let l = push_bit 16 (ucast a) in take 2 (quad_chars l) @ [byte_of_char CHR ''='', byte_of_char CHR ''=''])"
| "encode_loop [a, b] =
     (let l = push_bit 16 (ucast a) OR push_bit 8 (ucast b) in take 3 (quad_chars l) @ [byte_of_char CHR ''=''])"
| "encode_loop (a # b # c # src) =
     (let l = push_bit 16 (ucast a) OR push_bit 8 (ucast b) OR ucast c in quad_chars l @ encode_loop src)"

definition EVP_EncodeBlock :: "bytes \<Rightarrow> bytes \<times> nat" where
  "EVP_EncodeBlock src = (encode_loop src @ [0], length (encode_loop src))"

text \<open>The bytes decoded from four characters, or \<open>None\<close> for an error.\<close>

definition base64_decode_quad :: "bytes \<Rightarrow> bytes option" where
  "base64_decode_quad inp =
     (let a = base64_ascii_to_bin (inp ! 0); b = base64_ascii_to_bin (inp ! 1);
          c = base64_ascii_to_bin (inp ! 2); d = base64_ascii_to_bin (inp ! 3)
      in if a = 0xff \<or> b = 0xff \<or> c = 0xff \<or> d = 0xff then None
         else
           let v = push_bit 18 (ucast a) OR push_bit 12 (ucast b) OR push_bit 6 (ucast c) OR (ucast d :: u32);
               eq = (\<lambda>i. of_bool (inp ! i = byte_of_char CHR ''='') :: u32);
               padding_pattern = push_bit 3 (eq 0) OR push_bit 2 (eq 1) OR push_bit 1 (eq 2) OR eq 3
           in if padding_pattern = 0 then Some [ucast (drop_bit 16 v), ucast (drop_bit 8 v), ucast v]
              else if padding_pattern = 1 then Some [ucast (drop_bit 16 v), ucast (drop_bit 8 v)]
              else if padding_pattern = 3 then Some [ucast (drop_bit 16 v)]
              else None)"

text \<open>The loop of \<open>EVP_DecodeBase64\<close> over whole quads: a short quad must be the last.\<close>

fun decode_quads :: "bytes \<Rightarrow> bytes option" where
  "decode_quads (a # b # c # d # inp) =
     (case base64_decode_quad [a, b, c, d] of
        None \<Rightarrow> None
      | Some bs \<Rightarrow> if length bs \<noteq> 3 \<and> inp \<noteq> [] then None else map_option ((@) bs) (decode_quads inp))"
| "decode_quads inp = Some []"

definition EVP_DecodeBase64 :: "nat \<Rightarrow> bytes \<Rightarrow> bytes res" where
  "EVP_DecodeBase64 max_out inp =
     (if length inp mod 4 \<noteq> 0 then Fail
      else case EVP_DecodedLength (length inp) of
        Ok max_len \<Rightarrow>
          if max_out < max_len then Fail
          else (case decode_quads inp of None \<Rightarrow> Fail | Some out \<Rightarrow> Ok out)
      | _ \<Rightarrow> Fail)"

text \<open>The result of \<open>EVP_DecodeBlock\<close> is the returned length, and the bytes written (padded with zeros).\<close>

definition EVP_DecodeBlock :: "bytes \<Rightarrow> (int \<times> bytes)" where
  "EVP_DecodeBlock src =
     (let src = dropWhile (\<lambda>c. c \<in> byte_of_char ` {CHR '' '', CHR 0x09}) src;
          src = rev (dropWhile (\<lambda>c. c \<in> byte_of_char ` {CHR '' '', CHR 0x09, CHR 0x0D, CHR 0x0A}) (rev src))
      in case EVP_DecodedLength (length src) of
           Ok dst_len \<Rightarrow>
             if dst_len > 2 ^ 31 - 1 then (- 1, [])
             else (case EVP_DecodeBase64 dst_len src of
                 Ok dst \<Rightarrow> let dst = dst @ replicate ((3 - length dst mod 3) mod 3) 0 in (int (length dst), dst)
               | _ \<Rightarrow> (- 1, []))
         | _ \<Rightarrow> (- 1, []))"

subsection \<open>The alphabet in plain terms\<close>

lemma unat_up: "unat (ucast (x :: u8) :: u64) = unat x" "unat (ucast (x :: u8) :: u32) = unat x"
  using unsigned_less [of x, where ?'a = nat] by (simp_all add: unsigned_ucast_eq take_bit_nat_eq_self)

lemma ucast_up_eq: "(ucast (x :: u8) :: u64) = ucast (y :: u8) \<longleftrightarrow> x = y"
  by (simp only: word_unat_eq_iff unat_up)

lemma lt_args_8: "constant_time_lt_args_8 a b = (if a < b then - 1 else 0)"
proof -
  have small: "unat a < 256" "unat b < 256"
    using unsigned_less [of a, where ?'a = nat] unsigned_less [of b, where ?'a = nat] by simp_all
  have "unat (ucast a - ucast b :: u64) = (if unat b \<le> unat a then unat a - unat b else unat a + 2 ^ 64 - unat b)"
    unfolding unat_sub_if' word_size unat_up by simp
  then have "bit (ucast a - ucast b :: u64) 63 \<longleftrightarrow> a < b"
    unfolding bit_63 word_less_nat_alt using small by auto
  then show ?thesis by (simp add: constant_time_lt_args_8_def msb_w ucast_mask)
qed

lemma in_range_8:
  assumes "unat (hi - lo + 1) = unat hi - unat lo + 1" "unat lo \<le> unat hi"
  shows "constant_time_in_range_8 a lo hi = (if lo \<le> a \<and> a \<le> hi then - 1 else 0)"
proof -
  have "unat (a - lo) = (if unat lo \<le> unat a then unat a - unat lo else unat a + 2 ^ 8 - unat lo)"
    unfolding unat_sub_if' word_size by simp
  moreover have "unat a < 256" "unat hi < 256"
    using unsigned_less [of a, where ?'a = nat] unsigned_less [of hi, where ?'a = nat] by simp_all
  ultimately have "a - lo < hi - lo + 1 \<longleftrightarrow> lo \<le> a \<and> a \<le> hi"
    unfolding word_less_nat_alt word_le_nat_alt assms(1) using assms(2) by auto
  then show ?thesis by (simp add: constant_time_in_range_8_def lt_args_8)
qed

lemma select_8_byte: "constant_time_select_8 (ucast (if c then - 1 else 0 :: u8)) a b = (if c then a else b)"
proof -
  have "ucast (ucast x :: u64) = (x :: u8)" for x by (rule bit_word_eqI) (simp add: bit_simps)
  then show ?thesis by (simp add: constant_time_select_8_def value_barrier_w_def Let_def)
qed

text \<open>The alphabet of RFC 4648, table 1.\<close>

definition b64_char :: "nat \<Rightarrow> u8" where
  "b64_char n = bytes_of_string ''ABCDEFGHIJKLMNOPQRSTUVWXYZabcdefghijklmnopqrstuvwxyz0123456789+/'' ! n"

lemma ascii: "byte_of_char CHR ''A'' = 65" "byte_of_char CHR ''Z'' = 90" "byte_of_char CHR ''a'' = 97" "byte_of_char CHR ''z'' = 122"
  "byte_of_char CHR ''0'' = 48" "byte_of_char CHR ''9'' = 57" "byte_of_char CHR ''+'' = 43" "byte_of_char CHR ''/'' = 47"
  "byte_of_char CHR ''='' = 61" "byte_of_char CHR '' '' = 32" "byte_of_char CHR 0x09 = 9" "byte_of_char CHR 0x0A = 10" "byte_of_char CHR 0x0D = 13"
  by (simp_all add: byte_of_char_def)

lemma conv_plain:
  "conv_bin2ascii a =
    (let a = a AND 0x3f in if a < 26 then a + 65 else if a < 52 then a - 26 + 97 else if a < 62 then a - 52 + 48 else if a = 62 then 43 else 47)"
proof -
  have "constant_time_eq_8 (ucast x) 62 = (if x = 62 then - 1 else 0)" for x :: u8
    using ucast_up_eq [of x 62] unfolding bytes_masks by simp
  then show ?thesis
    unfolding conv_bin2ascii_def ascii lt_args_8 by (simp add: select_8_byte Let_def)
qed

lemma ascii_to_bin_plain:
  "base64_ascii_to_bin a =
    (if 65 \<le> a \<and> a \<le> 90 then a - 65 else if 97 \<le> a \<and> a \<le> 122 then a - 97 + 26 else if 48 \<le> a \<and> a \<le> 57 then a - 48 + 52
     else if a = 43 then 62 else if a = 47 then 63 else if a = 61 then 0 else 0xff)"
proof -
  have r: "constant_time_in_range_8 a 65 90 = (if 65 \<le> a \<and> a \<le> 90 then - 1 else 0)"
    "constant_time_in_range_8 a 97 122 = (if 97 \<le> a \<and> a \<le> 122 then - 1 else 0)"
    "constant_time_in_range_8 a 48 57 = (if 48 \<le> a \<and> a \<le> 57 then - 1 else 0)"
    by (simp_all add: in_range_8)
  consider (u) "65 \<le> a \<and> a \<le> 90" | (l) "97 \<le> a \<and> a \<le> 122" | (d) "48 \<le> a \<and> a \<le> 57" 
    | (o) "\<not> (65 \<le> a \<and> a \<le> 90)" "\<not> (97 \<le> a \<and> a \<le> 122)" "\<not> (48 \<le> a \<and> a \<le> 57)" by blast
  then show ?thesis
  proof cases
    case u
    then have n: "(97 \<le> a \<and> a \<le> 122) = False" "(48 \<le> a \<and> a \<le> 57) = False" "(a = 43) = False" "(a = 47) = False" "(a = 61) = False"
      "(65 \<le> a \<and> a \<le> 90) = True" by (auto simp: word_le_nat_alt)
    show ?thesis unfolding base64_ascii_to_bin_def ascii bytes_masks ucast_up_eq r Let_def n by simp
  next
    case l
    then have n: "(65 \<le> a \<and> a \<le> 90) = False" "(48 \<le> a \<and> a \<le> 57) = False" "(a = 43) = False" "(a = 47) = False" "(a = 61) = False"
      "(97 \<le> a \<and> a \<le> 122) = True" by (auto simp: word_le_nat_alt)
    show ?thesis unfolding base64_ascii_to_bin_def ascii bytes_masks ucast_up_eq r Let_def n by simp
  next
    case d
    then have n: "(65 \<le> a \<and> a \<le> 90) = False" "(97 \<le> a \<and> a \<le> 122) = False" "(a = 43) = False" "(a = 47) = False" "(a = 61) = False"
      "(48 \<le> a \<and> a \<le> 57) = True" by (auto simp: word_le_nat_alt)
    show ?thesis unfolding base64_ascii_to_bin_def ascii bytes_masks ucast_up_eq r Let_def n by simp
  next
    case o
    then have n: "(65 \<le> a \<and> a \<le> 90) = False" "(97 \<le> a \<and> a \<le> 122) = False" "(48 \<le> a \<and> a \<le> 57) = False" by blast+
    show ?thesis unfolding base64_ascii_to_bin_def ascii bytes_masks ucast_up_eq r Let_def n by simp
  qed
qed

lemma and_3f: "unat (a AND 0x3f :: u8) = unat a mod 64"
proof -
  have "a AND 0x3f = take_bit 6 a" by (simp add: take_bit_eq_mask mask_eq_exp_minus_1)
  then show ?thesis by (simp only: unsigned_take_bit_eq) (simp add: take_bit_eq_mod)
qed

lemma less_64_cases: "P 0 \<Longrightarrow> (\<And>n. n < 63 \<Longrightarrow> P (Suc n)) \<Longrightarrow> n < 64 \<Longrightarrow> P n"
  by (cases n) auto

lemma b64_plain:
  assumes "n < 64"
  shows "b64_char n = of_nat (if n < 26 then n + 65 else if n < 52 then n + 71 else if n < 62 then n - 4 else if n = 62 then 43 else 47)"
proof -
  have "\<forall>n<64. b64_char n = of_nat (if n < 26 then n + 65 else if n < 52 then n + 71 else if n < 62 then n - 4 else if n = 62 then 43 else 47)"
    by code_simp
  then show ?thesis using assms by blast
qed

lemma conv_b64: "conv_bin2ascii a = b64_char (unat a mod 64)"
proof -
  define n where "n = unat a mod 64"
  define x where "x = a AND 0x3f"
  have n: "n < 64" by (simp add: n_def)
  have un: "unat x = n" by (simp add: x_def and_3f n_def)
  have x: "x = of_nat n" unfolding un [symmetric] by simp
  have t: "x < 26 \<longleftrightarrow> n < 26" "x < 52 \<longleftrightarrow> n < 52" "x < 62 \<longleftrightarrow> n < 62" "x = 62 \<longleftrightarrow> n = 62"
    by (simp_all add: word_less_nat_alt word_unat_eq_iff un)
  have "\<not> n < 52 \<Longrightarrow> (of_nat (n - 4) :: u8) = of_nat n - 4" by (simp add: of_nat_diff)
  then have "conv_bin2ascii a = b64_char n"
    unfolding conv_plain x_def [symmetric] Let_def t b64_plain [OF n] by (simp add: x algebra_simps)
  then show ?thesis by (simp add: n_def)
qed

lemma bin_plain:
  "unat (base64_ascii_to_bin a) =
    (let k = unat a in if 65 \<le> k \<and> k \<le> 90 then k - 65 else if 97 \<le> k \<and> k \<le> 122 then k - 71 else if 48 \<le> k \<and> k \<le> 57 then k + 4
     else if k = 43 then 62 else if k = 47 then 63 else if k = 61 then 0 else 255)"
proof -
  have k: "unat a < 256" using unsigned_less [of a, where ?'a = nat] by simp
  have "65 \<le> unat a \<Longrightarrow> unat (a - 65) = unat a - 65" "97 \<le> unat a \<Longrightarrow> unat (a - 97 + 26) = unat a - 71"
    "48 \<le> unat a \<Longrightarrow> unat a \<le> 57 \<Longrightarrow> unat (a - 48 + 52) = unat a + 4"
    using k unfolding unat_plus_if' unat_sub_if' word_size by auto
  then show ?thesis
    unfolding ascii_to_bin_plain Let_def word_le_nat_alt word_unat_eq_iff by (simp split del: if_split split: if_split_asm)
      (simp split: if_splits)
qed

lemma unat_b64_char:
  assumes "n < 64"
  shows "unat (b64_char n) = (if n < 26 then n + 65 else if n < 52 then n + 71 else if n < 62 then n - 4 else if n = 62 then 43 else 47)"
  using assms unfolding b64_plain [OF assms] by (subst unat_byte) auto

lemma bin_b64:
  assumes "n < 64"
  shows "unat (base64_ascii_to_bin (b64_char n)) = n" "b64_char n \<noteq> 61" "b64_char n \<notin> {32, 9, 13, 10}"
  unfolding bin_plain unat_b64_char [OF assms] Let_def word_unat_eq_iff insert_iff using assms
  by (auto simp: unat_b64_char)

lemma bin_inverse:
  assumes "base64_ascii_to_bin c \<noteq> 0xff" "c \<noteq> 61"
  shows "unat (base64_ascii_to_bin c) < 64" "b64_char (unat (base64_ascii_to_bin c)) = c"
proof -
  have c: "unat c < 256" using unsigned_less [of c, where ?'a = nat] by simp
  have "unat (base64_ascii_to_bin c) \<noteq> 255" "unat c \<noteq> 61" using assms by (simp_all add: word_unat_eq_iff)
  then show l: "unat (base64_ascii_to_bin c) < 64" unfolding bin_plain Let_def by (auto split: if_splits)
  from \<open>unat (base64_ascii_to_bin c) \<noteq> 255\<close> \<open>unat c \<noteq> 61\<close> show "b64_char (unat (base64_ascii_to_bin c)) = c"
    unfolding word_unat_eq_iff unat_b64_char [OF l] unfolding bin_plain Let_def by (auto split: if_splits)
qed

text \<open>A quad of three bytes, as numbers.\<close>

lemma byte_bound: "unat (b :: u8) < 256"
  using unsigned_less [of b, where ?'a = nat] by simp

lemma quad_value:
  "unat (push_bit 16 (ucast a) OR push_bit 8 (ucast b) OR ucast c :: u32) = unat (a :: u8) * 65536 + unat (b :: u8) * 256 + unat (c :: u8)"
proof -
  have 1: "unat (push_bit 8 (ucast a) OR ucast b :: u32) = unat a * 256 + unat b"
    using byte_bound [of a] byte_bound [of b] by (subst unat_push_or) (simp_all add: unat_up)
  let ?ab = "push_bit 8 (ucast a) OR ucast b :: u32"
  have e: "push_bit 16 (ucast a) OR push_bit 8 (ucast b) OR ucast c = push_bit 8 ?ab OR (ucast c :: u32)"
    by (simp add: push_bit_or or.assoc)
  have "unat (push_bit 8 ?ab OR (ucast c :: u32)) = unat ?ab * 2 ^ 8 + unat (ucast c :: u32)"
    by (rule unat_push_or) (use 1 byte_bound [of a] byte_bound [of b] byte_bound [of c] in \<open>simp_all add: unat_up\<close>)
  then show ?thesis unfolding e 1 unat_up by simp
qed

lemma quad_chars_b64: "quad_chars l = map (\<lambda>k. b64_char (unat l div 2 ^ k mod 64)) [18, 12, 6, 0]"
proof -
  have "unat (ucast (drop_bit k l) :: u8) mod 64 = unat l div 2 ^ k mod 64" for k
  proof -
    have "unat (drop_bit k l) = unat l div 2 ^ k" unfolding unat_drop_bit_eq by (rule drop_bit_eq_div)
    moreover have "unat (ucast (drop_bit k l) :: u8) = unat (drop_bit k l) mod 256"
      by (simp only: unsigned_ucast_eq) (simp add: take_bit_eq_mod)
    ultimately show ?thesis by (simp add: mod_mod_cancel)
  qed
  then show ?thesis by (simp add: quad_chars_def conv_b64)
qed

subsection \<open>Decoding inverts encoding\<close>

lemma ucast_of_nat_byte: "ucast (of_nat x :: u32) = (of_nat x :: u8)"
  by (simp add: word_unat_eq_iff unsigned_ucast_eq unsigned_of_nat)

lemma decode_quad_value:
  assumes "unat (base64_ascii_to_bin ca) = i" "unat (base64_ascii_to_bin cb) = j"
    "unat (base64_ascii_to_bin cc) = k" "unat (base64_ascii_to_bin cd) = m"
    and "i < 64" "j < 64" "k < 64" "m < 64" "ca \<noteq> 61" "cb \<noteq> 61"
    and v: "v = i * 262144 + j * 4096 + k * 64 + m"
    and bs: "bs = [of_nat (v div 65536), of_nat (v div 256), of_nat v]"
  shows "base64_decode_quad (ca # cb # cc # cd # rest) =
    (if cc = 61 then if cd = 61 then Some (take 1 bs) else None else if cd = 61 then Some (take 2 bs) else Some bs)"
proof -
  let ?b = base64_ascii_to_bin
  let ?w = "push_bit 18 (ucast (?b ca)) OR push_bit 12 (ucast (?b cb)) OR push_bit 6 (ucast (?b cc)) OR (ucast (?b cd)) :: u32"
  have n: "?b ca \<noteq> 255" "?b cb \<noteq> 255" "?b cc \<noteq> 255" "?b cd \<noteq> 255"
    using assms by (auto simp: word_unat_eq_iff)
  have w: "unat ?w = v"
  proof -
    have 1: "unat (push_bit 6 (ucast (?b cc)) OR ucast (?b cd) :: u32) = k * 64 + m"
      using assms by (subst unat_push_or) (simp_all add: unat_up)
    have 2: "unat (push_bit 12 (ucast (?b cb)) OR (push_bit 6 (ucast (?b cc)) OR ucast (?b cd)) :: u32) = j * 4096 + (k * 64 + m)"
      using assms by (subst unat_push_or) (simp_all add: unat_up 1)
    show ?thesis
      using assms(1-8) unfolding v by (subst unat_push_or) (simp_all add: unat_up 2)
  qed
  have d: "ucast (drop_bit s ?w) = (of_nat (v div 2 ^ s) :: u8)" for s
  proof -
    have "drop_bit s ?w = of_nat (v div 2 ^ s)"
      unfolding w [symmetric] unat_drop_bit_eq [symmetric] drop_bit_eq_div [symmetric] by simp
    then show ?thesis by (simp only: ucast_of_nat_byte)
  qed
  have d0: "ucast ?w = (of_nat v :: u8)" using d [of 0] by simp
  have d8: "ucast (drop_bit 16 ?w) = (of_nat (v div 65536) :: u8)" "ucast (drop_bit 8 ?w) = (of_nat (v div 256) :: u8)"
    unfolding d by simp_all
  have at: "(ca # cb # cc # cd # rest) ! 0 = ca" "(ca # cb # cc # cd # rest) ! 1 = cb"
    "(ca # cb # cc # cd # rest) ! 2 = cc" "(ca # cb # cc # cd # rest) ! 3 = cd" by simp_all
  show ?thesis
    unfolding base64_decode_quad_def Let_def bs ascii at d8 d0 using n assms(9,10) by simp
qed

text \<open>The quad of a number below \<open>2 ^ 24\<close>.\<close>

definition b64_quad :: "nat \<Rightarrow> bytes" where
  "b64_quad v = map (\<lambda>k. b64_char (v div 2 ^ k mod 64)) [18, 12, 6, 0]"

lemma quad_digits:
  assumes "v < 16777216"
  shows "v = v div 262144 mod 64 * 262144 + v div 4096 mod 64 * 4096 + v div 64 mod 64 * 64 + v mod (64 :: nat)"
proof -
  have "v div 4096 = v div 64 div 64" "v div 262144 = v div 64 div 64 div 64" by (simp_all add: div_mult2_eq [symmetric])
  moreover have "v div 64 div 64 div 64 < 64" using assms by (simp add: div_mult2_eq [symmetric] less_mult_imp_div_less)
  moreover have "v = v div 64 * 64 + v mod 64" "v div 64 = v div 64 div 64 * 64 + v div 64 mod 64"
    "v div 64 div 64 = v div 64 div 64 div 64 * 64 + v div 64 div 64 mod 64" by simp_all
  ultimately show ?thesis by (simp only: mod_less)
qed

lemma pad_bin: "unat (base64_ascii_to_bin 61) = 0"
  by (simp add: bin_plain)

lemma digit_bin: "unat (base64_ascii_to_bin (b64_char (n mod 64))) = n mod 64" "b64_char (n mod 64) \<noteq> 61"
  by (rule bin_b64, simp)+

lemma decode_b64_quad:
  assumes "v < 16777216"
  defines "bs \<equiv> [of_nat (v div 65536), of_nat (v div 256), of_nat v] :: bytes"
  shows "base64_decode_quad (b64_quad v @ rest) = Some bs"
    and "v mod 64 = 0 \<Longrightarrow> base64_decode_quad (take 3 (b64_quad v) @ 61 # rest) = Some (take 2 bs)"
    and "v mod 4096 = 0 \<Longrightarrow> base64_decode_quad (take 2 (b64_quad v) @ 61 # 61 # rest) = Some (take 1 bs)"
proof -
  note q = b64_quad_def
  let ?d = "\<lambda>k. v div 2 ^ k mod 64"
  note D = decode_quad_value [where ca = "b64_char (?d 18)" and cb = "b64_char (?d 12)" and i = "?d 18" and j = "?d 12" and v = v and bs = bs and rest = rest]
  have v: "v = ?d 18 * 262144 + ?d 12 * 4096 + ?d 6 * 64 + ?d 0" 
  proof -
    have "(2 :: nat) ^ 18 = 262144" "(2 :: nat) ^ 12 = 4096" "(2 :: nat) ^ 6 = 64" "v div 2 ^ 0 = v" by simp_all
    then show ?thesis using quad_digits [OF assms(1)] by (simp only:)
  qed
  show "base64_decode_quad (b64_quad v @ rest) = Some bs"
    using D [where cc = "b64_char (?d 6)" and cd = "b64_char (?d 0)", OF digit_bin(1) digit_bin(1) digit_bin(1) digit_bin(1) _ _ _ _ _ _ v] digit_bin
    by (simp add: q bs_def)
  show "base64_decode_quad (take 3 (b64_quad v) @ 61 # rest) = Some (take 2 bs)" if "v mod 64 = 0"
    using D [where cc = "b64_char (?d 6)" and cd = 61 and m = "?d 0", OF digit_bin(1) digit_bin(1) digit_bin(1) _ _ _ _ _ _ _ v] that digit_bin pad_bin
    by (simp add: q bs_def)
  show "base64_decode_quad (take 2 (b64_quad v) @ 61 # 61 # rest) = Some (take 1 bs)" if "v mod 4096 = 0"
  proof -
    from that obtain q where "v = 4096 * q" by (auto simp: mod_eq_0_iff_dvd)
    then have v': "v = 64 * (64 * q)" by simp
    have "v mod 64 = 0" "v div 64 mod 64 = 0" unfolding v' by simp_all
    then show ?thesis
      using D [where cc = 61 and cd = 61 and k = "?d 6" and m = "?d 0", OF digit_bin(1) digit_bin(1) _ _ _ _ _ _ _ _ v] digit_bin pad_bin
      by (simp add: q bs_def)
  qed
qed

lemma quad_chars_quad: "quad_chars l = b64_quad (unat l)"
  by (simp only: quad_chars_b64 b64_quad_def)

text \<open>The three bytes of a group as a number, and its quad.\<close>

definition b64_value :: "u8 \<Rightarrow> u8 \<Rightarrow> u8 \<Rightarrow> nat" where
  "b64_value a b c = unat a * 65536 + unat b * 256 + unat c"

lemma b64_value_less: "b64_value a b c < 16777216"
  using byte_bound [of a] byte_bound [of b] byte_bound [of c] by (simp add: b64_value_def)

lemma b64_value_bytes:
  "of_nat (b64_value a b c div 65536) = a" "of_nat (b64_value a b c div 256) = b" "of_nat (b64_value a b c) = c"
proof -
  have "b64_value a b c div 65536 = unat a" "b64_value a b c div 256 = unat a * 256 + unat b"
    using byte_bound [of a] byte_bound [of b] byte_bound [of c] by (simp_all add: b64_value_def)
  moreover have "x * 256 = 0" "x * 65536 = 0" for x :: u8
  proof -
    have "(256 :: u8) = 0" "(65536 :: u8) = 0" by simp_all
    then show "x * 256 = 0" "x * 65536 = 0" by (simp_all only: mult_zero_right)
  qed
  ultimately show "of_nat (b64_value a b c div 65536) = a" "of_nat (b64_value a b c div 256) = b" "of_nat (b64_value a b c) = c"
    by (simp_all add: b64_value_def)
qed

lemma encode_loop_quads:
  "encode_loop [a] = take 2 (b64_quad (b64_value a 0 0)) @ [61, 61]"
  "encode_loop [a, b] = take 3 (b64_quad (b64_value a b 0)) @ [61]"
  "encode_loop (a # b # c # src) = b64_quad (b64_value a b c) @ encode_loop src"
  using quad_value [of a 0 0] quad_value [of a b 0] quad_value [of a b c]
  by (simp_all add: Let_def quad_chars_quad ascii b64_value_def)

lemma decode_groups:
  "base64_decode_quad (b64_quad (b64_value a b c) @ rest) = Some [a, b, c]"
  "base64_decode_quad (take 3 (b64_quad (b64_value a b 0)) @ 61 # rest) = Some [a, b]"
  "base64_decode_quad (take 2 (b64_quad (b64_value a 0 0)) @ 61 # 61 # rest) = Some [a]"
proof -
  have "b64_value a b 0 mod 64 = 0" "b64_value a 0 0 mod 4096 = 0"
    by (simp_all add: b64_value_def)
  then show "base64_decode_quad (b64_quad (b64_value a b c) @ rest) = Some [a, b, c]"
    "base64_decode_quad (take 3 (b64_quad (b64_value a b 0)) @ 61 # rest) = Some [a, b]"
    "base64_decode_quad (take 2 (b64_quad (b64_value a 0 0)) @ 61 # 61 # rest) = Some [a]"
    using decode_b64_quad [OF b64_value_less] b64_value_bytes by simp_all
qed

subsection \<open>Blocks\<close>

lemma length_quad [simp]: "length (b64_quad v) = 4"
  by (simp add: b64_quad_def)

lemma length_encode_loop: "length (encode_loop s) = 4 * ((length s + 2) div 3)"
proof (induction s rule: encode_loop.induct)
  case (4 a b c src)
  have "(length (a # b # c # src) + 2) div 3 = Suc ((length src + 2) div 3)" by simp
  with 4 show ?case by (simp only: encode_loop_quads length_append length_quad) simp
qed (simp_all add: quad_chars_quad Let_def)

lemma encode_loop_chars: "set (encode_loop s) \<inter> {32, 9, 13, 10} = {}"
proof (induction s rule: encode_loop.induct)
  case (4 a b c src)
  then show ?case
    using bin_b64(3) [of "n mod 64" for n] by (auto simp: encode_loop_quads b64_quad_def simp del: encode_loop.simps)
qed (use bin_b64(3) [of "n mod 64" for n] in \<open>auto simp: encode_loop_quads b64_quad_def take_Cons' simp del: encode_loop.simps(2-4)\<close>)

lemma encode_loop_append: "length s mod 3 = 0 \<Longrightarrow> encode_loop (s @ t) = encode_loop s @ encode_loop t"
  by (induction s rule: encode_loop.induct) auto

lemma decode_quads_append:
  assumes "length q = 4"
  shows "decode_quads (q @ rest) =
    (case base64_decode_quad q of None \<Rightarrow> None
     | Some bs \<Rightarrow> if length bs \<noteq> 3 \<and> rest \<noteq> [] then None else map_option ((@) bs) (decode_quads rest))"
proof -
  obtain a b c d where "q = [a, b, c, d]" using assms by (auto simp: eval_nat_numeral length_Suc_conv)
  then show ?thesis by simp
qed

lemma decode_encode_quads: "decode_quads (encode_loop s) = Some s"
proof (induction s rule: encode_loop.induct)
  case (2 a)
  show ?case
    using decode_groups(3) [of a "[]"] decode_quads_append [of "take 2 (b64_quad (b64_value a 0 0)) @ [61, 61]" "[]"]
    by (simp add: encode_loop_quads del: encode_loop.simps)
next
  case (3 a b)
  show ?case
    using decode_groups(2) [of a b "[]"] decode_quads_append [of "take 3 (b64_quad (b64_value a b 0)) @ [61]" "[]"]
    by (simp add: encode_loop_quads del: encode_loop.simps)
next
  case (4 a b c src)
  then show ?case
    using decode_groups(1) [of a b c "[]"] 
    by (simp add: encode_loop_quads decode_quads_append del: encode_loop.simps)
qed simp

lemma decode_base64_encode:
  assumes "length (encode_loop s) div 4 * 3 \<le> max_out"
  shows "EVP_DecodeBase64 max_out (encode_loop s) = Ok s"
  using assms decode_encode_quads [of s] by (simp add: EVP_DecodeBase64_def EVP_DecodedLength_def length_encode_loop)

lemma encoded_length:
  assumes "n < 2 ^ 64"
  shows "EVP_EncodedLength n = (if 4 * ((n + 2) div 3) + 1 < 2 ^ 64 then Ok (4 * ((n + 2) div 3) + 1) else Fail)"
proof (cases "n + 2 < 2 ^ 64")
  case True
  let ?m = "(n + 2) div 3"
  have add: "size_add n 2 = n + 2" "\<not> size_add n 2 < n" using True by (simp_all add: size_add_def)
  show ?thesis
  proof (cases "?m * 4 < 2 ^ 64")
    case small: True
    then have "?m < 2 ^ 62" by simp
    moreover have "m < 2 ^ 62 \<Longrightarrow> m * 4 + 1 < 2 ^ 64" for m :: nat by auto
    ultimately have "?m * 4 + 1 < 2 ^ 64" by blast
    moreover have "size_mul ?m 4 = ?m * 4" using small unfolding size_mul_def by (rule mod_less)
    ultimately show ?thesis using add by (simp add: EVP_EncodedLength_def Let_def size_add_def)
  next
    case False
    have "size_mul ?m 4 < 2 ^ 64" unfolding size_mul_def by simp
    then have "size_mul ?m 4 div 4 \<noteq> ?m" using False by linarith
    then show ?thesis using add False by (simp add: EVP_EncodedLength_def Let_def)
  qed
next
  case False
  then have "size_add n 2 < n" using size_add_cases(1) [of n 2] assms by simp
  moreover have "\<not> 4 * ((n + 2) div 3) + 1 < 2 ^ 64" using False by simp
  ultimately show ?thesis by (simp add: EVP_EncodedLength_def)
qed

lemma round_up_3: "n + (3 - n mod 3) mod 3 = 3 * ((n + 2) div 3)" for n :: nat
proof -
  define q r where "q = n div 3" and "r = n mod 3"
  have n: "n = 3 * q + r" and "r = 0 \<or> r = 1 \<or> r = 2" unfolding q_def r_def by auto
  then show ?thesis by auto
qed

lemma decode_block_encode:
  assumes "length s < 2 ^ 31 - 3"
  shows "EVP_DecodeBlock (encode_loop s) =
    (int (3 * ((length s + 2) div 3)), s @ replicate ((3 - length s mod 3) mod 3) 0)"
proof -
  let ?e = "encode_loop s" and ?n = "3 * ((length s + 2) div 3)"
  have ws: "c \<in> set ?e \<Longrightarrow> c \<notin> {32, 9, 13, 10}" for c using encode_loop_chars [of s] by blast
  have d1: "dropWhile (\<lambda>c. c \<in> {32, 9}) ?e = ?e" using ws by (cases ?e) auto
  have d2: "dropWhile (\<lambda>c. c \<in> {32, 9, 13, 10}) (rev ?e) = rev ?e"
    using ws [of "last ?e"] by (cases ?e rule: rev_cases) auto
  have pad: "length s + (3 - length s mod 3) mod 3 = ?n" by (rule round_up_3)
  have "EVP_DecodedLength (length ?e) = Ok ?n" "?n \<le> 2 ^ 31 - 1"
    using assms by (simp_all add: EVP_DecodedLength_def length_encode_loop)
  moreover have "EVP_DecodeBase64 ?n ?e = Ok s" by (rule decode_base64_encode) (simp add: length_encode_loop)
  ultimately show ?thesis
    unfolding EVP_DecodeBlock_def ascii image_insert image_empty d1 Let_def d2 rev_rev_ident
    by (simp add: pad)
qed

end
