(* ===== verification/Base64_Stream.thy ===== *)
theory Base64_Stream
  imports Base64
begin

text \<open>
  \<^verbatim>\<open>crypto/base64/base64.c\<close>, streaming part: the encoder and decoder of PEM with the buffer of
  \<^verbatim>\<open>EVP_ENCODE_CTX\<close>. Encoding in any chunks gives \<open>pem_lines\<close> of the whole input, decoding in any chunks
  gives what one pass gives, and the two are inverse.
\<close>

subsection \<open>Streaming\<close>

text \<open>\<^verbatim>\<open>struct evp_encode_ctx_st\<close>. \<open>store_at\<close> is \<^verbatim>\<open>OPENSSL_memcpy(&ctx->data[i], in, n)\<close>.\<close>

record EVP_ENCODE_CTX =
  data_used :: nat
  ctx_data :: bytes
  eof_seen :: bool
  error_encountered :: bool

definition EVP_EncodeInit :: EVP_ENCODE_CTX where
  "EVP_EncodeInit = \<lparr>data_used = 0, ctx_data = replicate 48 0, eof_seen = False, error_encountered = False\<rparr>"

definition EVP_DecodeInit :: EVP_ENCODE_CTX where
  "EVP_DecodeInit = \<lparr>data_used = 0, ctx_data = replicate 48 0, eof_seen = False, error_encountered = False\<rparr>"

definition store_at :: "nat \<Rightarrow> bytes \<Rightarrow> bytes \<Rightarrow> bytes" where
  "store_at i bs array = take i array @ bs @ drop (i + length bs) array"

text \<open>One line of output: the newline overwrites the NUL of the block. The result has the bytes in front of
  the NUL that is written after the newline, and the number of characters of the block.\<close>

abbreviation newline :: u8 where "newline \<equiv> 0x0a"

definition encode_line :: "bytes \<Rightarrow> bytes \<times> nat" where
  "encode_line line = (let (block, encoded) = EVP_EncodeBlock line in (take encoded block @ [newline], encoded))"

text \<open>The loop over whole lines, with the input left, the output, and \<^verbatim>\<open>total\<close>; \<open>None\<close> is the early return where
  \<^verbatim>\<open>total\<close> would wrap.\<close>

function encode_lines :: "bytes \<Rightarrow> bytes \<Rightarrow> nat \<Rightarrow> bytes \<times> bytes \<times> nat option" where
  "encode_lines inp out count =
     (if length inp < 48 then (inp, out, Some count)
      else let (line, encoded) = encode_line (take 48 inp); inp = drop 48 inp; out = out @ line
           in if size_add (size_add count encoded) 1 < count then (inp, out, None)
              else encode_lines inp out (size_add (size_add count encoded) 1))"
  by pat_completeness auto
termination by (relation "measure (\<lambda>(inp, out, count). length inp)") auto

declare encode_lines.simps [simp del]

text \<open>The results: the context, the bytes written in front of the final NUL, and \<^verbatim>\<open>*out_len\<close>.\<close>

definition EVP_EncodeUpdate :: "EVP_ENCODE_CTX \<Rightarrow> bytes \<Rightarrow> (EVP_ENCODE_CTX \<times> bytes \<times> nat) res" where
  "EVP_EncodeUpdate ctx inp =
     (if length inp = 0 then Ok (ctx, [], 0)
      else if \<not> data_used ctx < 48 then Undef
      else if 48 - data_used ctx > length inp then
        Ok (ctx\<lparr>ctx_data := store_at (data_used ctx) inp (ctx_data ctx), data_used := data_used ctx + length inp\<rparr>, [], 0)
      else
        let (ctx, inp, out, count) =
              (if data_used ctx \<noteq> 0 then
                 let todo = 48 - data_used ctx;
                     block = store_at (data_used ctx) (take todo inp) (ctx_data ctx);
                     (line, encoded) = encode_line block
                 in (ctx\<lparr>ctx_data := block, data_used := 0\<rparr>, drop todo inp, line, encoded + 1)
               else (ctx, inp, [], 0))
        in case encode_lines inp out count of
             (inp, out, None) \<Rightarrow> Ok (ctx, out, 0)
           | (inp, out, Some count) \<Rightarrow>
               (let ctx = ctx\<lparr>ctx_data := (if length inp \<noteq> 0 then store_at 0 inp (ctx_data ctx) else ctx_data ctx),
                              data_used := length inp\<rparr>
                in Ok (ctx, out, if count > 2 ^ 31 - 1 then 0 else count)))"

definition EVP_EncodeFinal :: "EVP_ENCODE_CTX \<Rightarrow> (EVP_ENCODE_CTX \<times> bytes \<times> nat) res" where
  "EVP_EncodeFinal ctx =
     (if data_used ctx = 0 then Ok (ctx, [], 0)
      else if \<not> data_used ctx \<le> length (ctx_data ctx) then Undef
      else let (line, encoded) = encode_line (take (data_used ctx) (ctx_data ctx)); encoded = encoded + 1
           in if \<not> encoded \<le> 2 ^ 31 - 1 then Undef else Ok (ctx\<lparr>data_used := 0\<rparr>, line, encoded))"

text \<open>The loop of \<open>EVP_DecodeUpdate\<close>: the context, the bytes written, and whether the loop ended without a
  return of \<^verbatim>\<open>-1\<close>. A character stored outside the array is undefined.\<close>

fun decode_chars :: "bytes \<Rightarrow> EVP_ENCODE_CTX \<Rightarrow> bytes \<Rightarrow> (EVP_ENCODE_CTX \<times> bytes \<times> bool) res" where
  "decode_chars [] ctx out = Ok (ctx, out, True)"
| "decode_chars (c # inp) ctx out =
     (if c \<in> {byte_of_char CHR '' '', byte_of_char CHR 0x09, byte_of_char CHR 0x0D, byte_of_char CHR 0x0A}
      then decode_chars inp ctx out
      else if eof_seen ctx then Ok (ctx\<lparr>error_encountered := True\<rparr>, out, False)
      else if \<not> data_used ctx < length (ctx_data ctx) then Undef
      else let ctx = ctx\<lparr>ctx_data := (ctx_data ctx)[data_used ctx := c], data_used := data_used ctx + 1\<rparr>
           in if data_used ctx = 4 then
                (case base64_decode_quad (ctx_data ctx) of
                   None \<Rightarrow> Ok (ctx\<lparr>error_encountered := True\<rparr>, out, False)
                 | Some bs \<Rightarrow>
                     (let ctx = ctx\<lparr>data_used := 0\<rparr>;
                          ctx = (if length bs < 3 then ctx\<lparr>eof_seen := True\<rparr> else ctx)
                      in decode_chars inp ctx (out @ bs)))
              else decode_chars inp ctx out)"

text \<open>The results: the context, the bytes written, \<^verbatim>\<open>*out_len\<close>, and the value returned.\<close>

definition EVP_DecodeUpdate :: "EVP_ENCODE_CTX \<Rightarrow> bytes \<Rightarrow> (EVP_ENCODE_CTX \<times> bytes \<times> nat \<times> int) res" where
  "EVP_DecodeUpdate ctx inp =
     (if error_encountered ctx then Ok (ctx, [], 0, - 1)
      else case decode_chars inp ctx [] of
        Fail \<Rightarrow> Fail | Undef \<Rightarrow> Undef
      | Ok (ctx, out, False) \<Rightarrow> Ok (ctx, out, 0, - 1)
      | Ok (ctx, out, True) \<Rightarrow>
          if length out > 2 ^ 31 - 1 then Ok (ctx\<lparr>error_encountered := True\<rparr>, out, 0, - 1)
          else Ok (ctx, out, length out, if eof_seen ctx then 0 else 1))"

definition EVP_DecodeFinal :: "EVP_ENCODE_CTX \<Rightarrow> int" where
  "EVP_DecodeFinal ctx = (if error_encountered ctx \<or> data_used ctx \<noteq> 0 then - 1 else 1)"


subsection \<open>The stream is the lines of the whole input\<close>

function pem_lines :: "bytes \<Rightarrow> bytes" where
  "pem_lines s = (if s = [] then [] else encode_loop (take 48 s) @ newline # pem_lines (drop 48 s))"
  by pat_completeness auto
termination by (relation "measure length") auto

declare pem_lines.simps [simp del]

lemma pem_Nil [simp]: "pem_lines [] = []"
  by (simp add: pem_lines.simps)

lemma pem_line: "s \<noteq> [] \<Longrightarrow> length s \<le> 48 \<Longrightarrow> pem_lines s = encode_loop s @ [newline]"
  by (subst pem_lines.simps) simp

lemma pem_step: "length s = 48 \<Longrightarrow> pem_lines (s @ t) = encode_loop s @ newline # pem_lines t"
  by (subst pem_lines.simps) auto

lemma encode_line_eq: "encode_line s = (encode_loop s @ [newline], length (encode_loop s))"
  by (simp add: encode_line_def EVP_EncodeBlock_def Let_def)

lemma pem_split: "length s mod 48 = 0 \<Longrightarrow> pem_lines (s @ t) = pem_lines s @ pem_lines t"
proof (induction s rule: length_induct)
  case (1 s)
  show ?case
  proof (cases "s = []")
    case False
    have "length s \<ge> 48"
    proof (rule ccontr)
      assume "\<not> length s \<ge> 48"
      then have "length s mod 48 = length s" by simp
      then show False using "1.prems" False by simp
    qed
    define a b where "a = take 48 s" and "b = drop 48 s"
    have s: "s = a @ b" "length a = 48" "length b < length s" using \<open>length s \<ge> 48\<close> by (simp_all add: a_def b_def)
    have "length s = 48 + length b" unfolding s(1) using s(2) by simp
    then have "length b mod 48 = 0" using "1.prems" by (simp only: mod_add_self1)
    then have "pem_lines (b @ t) = pem_lines b @ pem_lines t" by (rule "1.IH" [rule_format, OF s(3)])
    then show ?thesis unfolding s(1) using s(2) by (simp add: pem_step)
  qed simp
qed

text \<open>\<open>whole s\<close>: the length of the whole lines of \<open>s\<close>.\<close>

definition whole :: "bytes \<Rightarrow> nat" where
  "whole s = length s div 48 * 48"

lemma div_48: "(48 + n) div 48 = Suc (n div 48)" for n :: nat
  by (simp add: div_add_self1)

lemma whole_step: "length s = 48 \<Longrightarrow> whole (s @ t) = 48 + whole t"
  by (simp add: whole_def div_48)

lemma pem_whole: "pem_lines (s @ t) = pem_lines (take (whole s) s) @ pem_lines (drop (whole s) s @ t)"
proof -
  have "whole s \<le> length s" by (simp add: whole_def)
  then have "length (take (whole s) s) mod 48 = 0" by (simp add: whole_def)
  from pem_split [OF this, of "drop (whole s) s @ t"] show ?thesis unfolding append_assoc [symmetric] append_take_drop_id .
qed

lemma length_pem_whole: "length (pem_lines (take (whole s) s)) = 65 * (length s div 48)"
proof (induction s rule: length_induct)
  case (1 s)
  show ?case
  proof (cases "length s < 48")
    case False
    define a b where "a = take 48 s" and "b = drop 48 s"
    have s: "s = a @ b" "length a = 48" "length b < length s" using False by (simp_all add: a_def b_def)
    have "length (pem_lines (take (whole b) b)) = 65 * (length b div 48)" using "1.IH" s(3) by blast
    then show ?thesis
      unfolding s(1) whole_step [OF s(2)] using s(2) by (simp add: pem_step length_encode_loop div_48)
  qed (simp add: whole_def)
qed

lemma length_pem_le: "length (pem_lines s) \<le> 65 * (length s div 48) + 65"
proof -
  have "length (drop (whole s) s) < 48" by (simp add: whole_def minus_div_mult_eq_mod)
  then have "length (pem_lines (drop (whole s) s)) \<le> 65"
    by (cases "drop (whole s) s = []") (simp_all add: pem_line length_encode_loop)
  then show ?thesis using pem_whole [of s "[]"] length_pem_whole [of s] by simp
qed

lemma encode_lines_eq:
  "count + 65 * (length inp div 48) < 2 ^ 64 \<Longrightarrow>
   encode_lines inp out count =
     (drop (whole inp) inp, out @ pem_lines (take (whole inp) inp), Some (count + 65 * (length inp div 48)))"
proof (induction inp out count rule: encode_lines.induct)
  case (1 inp out count)
  show ?case
  proof (cases "length inp < 48")
    case True
    then show ?thesis by (simp add: encode_lines.simps [of inp] whole_def)
  next
    case False
    define a b where "a = take 48 inp" and "b = drop 48 inp"
    have s: "inp = a @ b" "length a = 48" using False by (simp_all add: a_def b_def)
    have n: "length inp div 48 = Suc (length b div 48)" using s by simp
    have e: "length (encode_loop a) = 64" using s(2) by (simp add: length_encode_loop)
    have c: "size_add (size_add count 64) 1 = count + 65" using "1.prems" n by (simp add: size_add_def)
    have "encode_lines b (out @ encode_loop a @ [newline]) (count + 65) =
      (drop (whole b) b, (out @ encode_loop a @ [newline]) @ pem_lines (take (whole b) b), Some (count + 65 + 65 * (length b div 48)))"
      using "1.IH" [OF False refl, of "encode_loop a @ [newline]" 64 b "out @ encode_loop a @ [newline]"] False "1.prems" n c e
      by (simp add: encode_line_eq a_def [symmetric] b_def)
    then show ?thesis
      using False c n e
      by (simp add: encode_lines.simps [of inp] encode_line_eq a_def [symmetric] b_def [symmetric])
        (simp add: s(1) whole_step [OF s(2)] pem_step [OF s(2)] s(2))
  qed
qed

definition enc_ok :: "EVP_ENCODE_CTX \<Rightarrow> bool" where
  "enc_ok ctx \<longleftrightarrow> data_used ctx < 48 \<and> length (ctx_data ctx) = 48"

definition pending :: "EVP_ENCODE_CTX \<Rightarrow> bytes" where
  "pending ctx = take (data_used ctx) (ctx_data ctx)"

lemma enc_ok_init: "enc_ok EVP_EncodeInit" "pending EVP_EncodeInit = []"
  by (simp_all add: enc_ok_def pending_def EVP_EncodeInit_def)

lemma store_at_pending:
  assumes "enc_ok ctx" "data_used ctx + length bs \<le> 48"
  shows "length (store_at (data_used ctx) bs (ctx_data ctx)) = 48"
    "take (data_used ctx + length bs) (store_at (data_used ctx) bs (ctx_data ctx)) = pending ctx @ bs"
  using assms by (simp_all add: enc_ok_def pending_def store_at_def)

definition keep_rest :: "EVP_ENCODE_CTX \<Rightarrow> bytes \<Rightarrow> EVP_ENCODE_CTX" where
  "keep_rest c i = (let r = drop (whole i) i in
     c\<lparr>ctx_data := (if length r \<noteq> 0 then store_at 0 r (ctx_data c) else ctx_data c), data_used := length r\<rparr>)"

lemma encode_rest:
  assumes "length (ctx_data c) = 48" and small: "n + 65 * (length i div 48) \<le> 2 ^ 31 - 1"
  shows "(case encode_lines i out n of
      (inp, out, None) \<Rightarrow> Ok (c, out, 0)
    | (inp, out, Some count) \<Rightarrow>
        (let ctx = c\<lparr>ctx_data := (if length inp \<noteq> 0 then store_at 0 inp (ctx_data c) else ctx_data c), data_used := length inp\<rparr>
         in Ok (ctx, out, if count > 2 ^ 31 - 1 then 0 else count))) =
    Ok (keep_rest c i, out @ pem_lines (take (whole i) i), n + 65 * (length i div 48))"
    and "enc_ok (keep_rest c i)" and "pending (keep_rest c i) = drop (whole i) i"
proof -
  have "(2 :: nat) ^ 31 - 1 < 2 ^ 64" by simp
  then have "n + 65 * (length i div 48) < 2 ^ 64" using small by (rule le_less_trans [rotated])
  moreover have "\<not> n + 65 * (length i div 48) > 2 ^ 31 - 1" using small by (rule leD)
  ultimately show "(case encode_lines i out n of
      (inp, out, None) \<Rightarrow> Ok (c, out, 0)
    | (inp, out, Some count) \<Rightarrow>
        (let ctx = c\<lparr>ctx_data := (if length inp \<noteq> 0 then store_at 0 inp (ctx_data c) else ctx_data c), data_used := length inp\<rparr>
         in Ok (ctx, out, if count > 2 ^ 31 - 1 then 0 else count))) =
    Ok (keep_rest c i, out @ pem_lines (take (whole i) i), n + 65 * (length i div 48))"
    by (simp only: encode_lines_eq prod.case option.case Let_def keep_rest_def if_False)
  have "length (drop (whole i) i) < 48" by (simp add: whole_def minus_div_mult_eq_mod)
  then show "enc_ok (keep_rest c i)" "pending (keep_rest c i) = drop (whole i) i"
    using assms(1) by (auto simp: keep_rest_def enc_ok_def pending_def store_at_def Let_def)
qed

text \<open>An update emits the whole lines of what was pending and what is given, and keeps the rest.\<close>

lemma encode_update:
  assumes ok: "enc_ok ctx" and small: "65 * (length (pending ctx @ inp) div 48) \<le> 2 ^ 31 - 1"
  obtains ctx' where "EVP_EncodeUpdate ctx inp = Ok (ctx', pem_lines (take (whole (pending ctx @ inp)) (pending ctx @ inp)),
      65 * (length (pending ctx @ inp) div 48))"
    "enc_ok ctx'" "pending ctx' = drop (whole (pending ctx @ inp)) (pending ctx @ inp)"
proof -
  let ?s = "pending ctx @ inp"
  have used: "data_used ctx < 48" "length (pending ctx) = data_used ctx" using ok by (simp_all add: enc_ok_def pending_def)
  consider (empty) "inp = []" | (fill) "inp \<noteq> []" "data_used ctx + length inp < 48" 
    | (full) "inp \<noteq> []" "\<not> data_used ctx + length inp < 48" by blast
  then show ?thesis
  proof cases
    case empty
    then show ?thesis using that [of ctx] ok used by (simp add: EVP_EncodeUpdate_def whole_def)
  next
    case fill
    let ?c = "ctx\<lparr>ctx_data := store_at (data_used ctx) inp (ctx_data ctx), data_used := data_used ctx + length inp\<rparr>"
    have "EVP_EncodeUpdate ctx inp = Ok (?c, [], 0)" using fill used by (simp add: EVP_EncodeUpdate_def less_diff_conv add.commute)
    moreover have "enc_ok ?c" "pending ?c = ?s"
      using fill store_at_pending [OF ok, of inp] by (simp_all add: enc_ok_def pending_def)
    ultimately show ?thesis using that [of ?c] fill used by (simp add: whole_def)
  next
    case full
    have start: "\<not> length inp = 0" "\<not> \<not> data_used ctx < 48" "\<not> 48 - data_used ctx > length inp" using full used by auto
    show ?thesis
    proof (cases "data_used ctx = 0")
      case True
      then have s: "?s = inp" and z: "(data_used ctx \<noteq> 0) = False" using used by simp_all
      have l: "length (ctx_data ctx) = 48" "0 + 65 * (length inp div 48) \<le> 2 ^ 31 - 1" using ok small s by (simp_all add: enc_ok_def)
      have "EVP_EncodeUpdate ctx inp = Ok (keep_rest ctx inp, [] @ pem_lines (take (whole inp) inp), 0 + 65 * (length inp div 48))"
        unfolding encode_rest(1) [OF l, symmetric]
        by (simp only: EVP_EncodeUpdate_def start z if_False Let_def prod.case)
      then show ?thesis using that [of "keep_rest ctx inp"] encode_rest(2,3) [OF l] unfolding s by simp
    next
      case False
      define a b where "a = pending ctx @ take (48 - data_used ctx) inp" and "b = drop (48 - data_used ctx) inp"
      have s: "?s = a @ b" "length a = 48" using used full by (simp_all add: a_def b_def)
      have block: "store_at (data_used ctx) (take (48 - data_used ctx) inp) (ctx_data ctx) = a"
        using store_at_pending [OF ok, of "take (48 - data_used ctx) inp"] full used by (simp add: a_def)
      have e: "encode_line a = (encode_loop a @ [newline], 64)" using s(2) by (simp add: encode_line_eq length_encode_loop)
      let ?c = "ctx\<lparr>ctx_data := a, data_used := 0\<rparr>"
      have l: "length (ctx_data ?c) = 48" "64 + 1 + 65 * (length b div 48) \<le> 2 ^ 31 - 1"
        using small unfolding s by (simp_all add: s div_48)
      have "EVP_EncodeUpdate ctx inp =
          Ok (keep_rest ?c b, (encode_loop a @ [newline]) @ pem_lines (take (whole b) b), 64 + 1 + 65 * (length b div 48))"
        unfolding encode_rest(1) [OF l, symmetric]
        by (simp only: EVP_EncodeUpdate_def start False if_False if_True not_False_eq_True Let_def prod.case block e b_def [symmetric])
      then show ?thesis
        using that [of "keep_rest ?c b"] encode_rest(2,3) [OF l] unfolding s(1) whole_step [OF s(2)]
        by (simp add: pem_step s(2) div_48)
    qed
  qed
qed

text \<open>A caller that encodes its input in chunks and keeps the first \<^verbatim>\<open>out_len\<close> bytes of each output.\<close>

fun encode_all :: "EVP_ENCODE_CTX \<Rightarrow> bytes list \<Rightarrow> bytes res" where
  "encode_all ctx [] = (case EVP_EncodeFinal ctx of Ok (_, out, n) \<Rightarrow> Ok (take n out) | Fail \<Rightarrow> Fail | Undef \<Rightarrow> Undef)"
| "encode_all ctx (chunk # chunks) =
     (case EVP_EncodeUpdate ctx chunk of
        Ok (ctx, out, n) \<Rightarrow> (case encode_all ctx chunks of Ok rest \<Rightarrow> Ok (take n out @ rest) | Fail \<Rightarrow> Fail | Undef \<Rightarrow> Undef)
      | Fail \<Rightarrow> Fail | Undef \<Rightarrow> Undef)"

lemma encode_final:
  assumes "enc_ok ctx"
  obtains ctx' where "EVP_EncodeFinal ctx = Ok (ctx', pem_lines (pending ctx), length (pem_lines (pending ctx)))"
proof (cases "data_used ctx = 0")
  case True
  then show ?thesis using that [of ctx] by (simp add: EVP_EncodeFinal_def pending_def)
next
  case False
  have p: "pending ctx \<noteq> []" "length (pending ctx) \<le> 48" "length (pending ctx) = data_used ctx"
    using assms False by (auto simp: enc_ok_def pending_def)
  have "length (encode_loop (pending ctx)) \<le> 64" using p(2) by (simp add: length_encode_loop)
  then show ?thesis
    using that [of "ctx\<lparr>data_used := 0\<rparr>"] False assms p
    by (simp add: EVP_EncodeFinal_def pending_def [symmetric] encode_line_eq Let_def pem_line enc_ok_def)
qed

lemma encode_all_lines:
  "enc_ok ctx \<Longrightarrow> 65 * (length (pending ctx @ concat chunks) div 48) \<le> 2 ^ 31 - 1 \<Longrightarrow>
   encode_all ctx chunks = Ok (pem_lines (pending ctx @ concat chunks))"
proof (induction chunks arbitrary: ctx)
  case Nil
  then show ?case by (cases rule: encode_final [of ctx]) simp_all
next
  case (Cons chunk chunks)
  let ?s = "pending ctx @ chunk"
  have "65 * (length ?s div 48) \<le> 65 * (length (pending ctx @ concat (chunk # chunks)) div 48)"
    by (intro mult_le_mono div_le_mono) simp_all
  then have small: "65 * (length ?s div 48) \<le> 2 ^ 31 - 1" using Cons.prems(2) by (rule le_trans)
  obtain ctx' where u: "EVP_EncodeUpdate ctx chunk = Ok (ctx', pem_lines (take (whole ?s) ?s), 65 * (length ?s div 48))"
    and ok: "enc_ok ctx'" and p: "pending ctx' = drop (whole ?s) ?s"
    using encode_update [OF Cons.prems(1) small] by blast
  have "length (pending ctx' @ concat chunks) \<le> length (pending ctx @ concat (chunk # chunks))" unfolding p by simp
  then have "65 * (length (pending ctx' @ concat chunks) div 48) \<le> 65 * (length (pending ctx @ concat (chunk # chunks)) div 48)"
    by (intro mult_le_mono div_le_mono) simp_all
  then have "65 * (length (pending ctx' @ concat chunks) div 48) \<le> 2 ^ 31 - 1" using Cons.prems(2) by (rule le_trans)
  with Cons.IH [OF ok] have "encode_all ctx' chunks = Ok (pem_lines (pending ctx' @ concat chunks))" .
  moreover have "pem_lines (?s @ concat chunks) = pem_lines (take (whole ?s) ?s) @ pem_lines (pending ctx' @ concat chunks)"
    unfolding p by (rule pem_whole)
  ultimately show ?case
    using length_pem_whole [of ?s] by (simp add: u)
qed

subsection \<open>Decoding\<close>

definition dec_ok :: "EVP_ENCODE_CTX \<Rightarrow> bool" where
  "dec_ok ctx \<longleftrightarrow> data_used ctx < 4 \<and> length (ctx_data ctx) = 48 \<and> \<not> error_encountered ctx"

lemma dec_ok_init: "dec_ok EVP_DecodeInit"
  by (simp add: dec_ok_def EVP_DecodeInit_def)

lemma decode_quad_length: "base64_decode_quad q = Some bs \<Longrightarrow> 1 \<le> length bs \<and> length bs \<le> 3"
  by (auto simp: base64_decode_quad_def Let_def split: if_splits)

text \<open>What the loop does on a prefix of its input.\<close>

lemma decode_chars_facts:
  "dec_ok ctx \<Longrightarrow> \<exists>ctx' new ok. decode_chars inp ctx out = Ok (ctx', out @ new, ok) \<and>
     (if ok then dec_ok ctx' else error_encountered ctx') \<and> length new + data_used ctx' \<le> data_used ctx + length inp \<and>
     (\<forall>out' rest. decode_chars (inp @ rest) ctx out' =
        (if ok then decode_chars rest ctx' (out' @ new) else Ok (ctx', out' @ new, False)))"
proof (induction inp ctx out rule: decode_chars.induct)
  case (1 ctx out)
  then show ?case by auto
next
  case (2 c inp ctx out)
  let ?ws = "c \<in> {byte_of_char CHR '' '', byte_of_char CHR 0x09, byte_of_char CHR 0x0D, byte_of_char CHR 0x0A}"
  let ?c = "ctx\<lparr>ctx_data := (ctx_data ctx)[data_used ctx := c], data_used := data_used ctx + 1\<rparr>"
  have d: "data_used ctx < 4" "length (ctx_data ctx) = 48" "\<not> error_encountered ctx" using "2.prems" by (simp_all add: dec_ok_def)
  consider (ws) ?ws | (eof) "\<not> ?ws" "eof_seen ctx" | (part) "\<not> ?ws" "\<not> eof_seen ctx" "data_used ctx \<noteq> 3"
    | (bad) "\<not> ?ws" "\<not> eof_seen ctx" "data_used ctx = 3" "base64_decode_quad (ctx_data ?c) = None"
    | (quad) bs where "\<not> ?ws" "\<not> eof_seen ctx" "data_used ctx = 3" "base64_decode_quad (ctx_data ?c) = Some bs" by auto
  then show ?case
  proof cases
    case ws
    obtain ctx' new k where ih: "decode_chars inp ctx out = Ok (ctx', out @ new, k)"
      "if k then dec_ok ctx' else error_encountered ctx'" "length new + data_used ctx' \<le> data_used ctx + length inp"
      "\<And>out' rest. decode_chars (inp @ rest) ctx out' = (if k then decode_chars rest ctx' (out' @ new) else Ok (ctx', out' @ new, False))"
      using "2.IH"(1) [OF ws "2.prems"] by blast
    show ?thesis by (intro exI [of _ ctx'] exI [of _ new] exI [of _ k]) (use ws ih in simp)
  next
    case eof
    then show ?thesis by (auto intro!: exI [of _ "[]"])
  next
    case part
    have ok: "dec_ok ?c" using part d by (simp add: dec_ok_def)
    have "\<not> \<not> data_used ctx < length (ctx_data ctx)" "data_used ?c \<noteq> 4" using d part by simp_all
    from "2.IH"(3) [OF part(1,2) this(1) refl this(2) ok]
    obtain ctx' new k where ih: "decode_chars inp ?c out = Ok (ctx', out @ new, k)"
      "if k then dec_ok ctx' else error_encountered ctx'" "length new + data_used ctx' \<le> data_used ?c + length inp"
      "\<And>out' rest. decode_chars (inp @ rest) ?c out' = (if k then decode_chars rest ctx' (out' @ new) else Ok (ctx', out' @ new, False))"
      by blast
    show ?thesis by (intro exI [of _ ctx'] exI [of _ new] exI [of _ k]) (use part d ih in \<open>simp add: Let_def\<close>)
  next
    case bad
    then show ?thesis using d by (auto intro!: exI [of _ "[]"])
  next
    case (quad bs)
    let ?d = "if length bs < 3 then ?c\<lparr>data_used := 0\<rparr>\<lparr>eof_seen := True\<rparr> else ?c\<lparr>data_used := 0\<rparr>"
    have ok: "dec_ok ?d" "data_used ?d = 0" using d by (simp_all add: dec_ok_def)
    have "\<not> \<not> data_used ctx < length (ctx_data ctx)" "data_used ?c = 4" using d quad by simp_all
    from "2.IH"(2) [OF quad(1,2) this(1) refl this(2) quad(4) refl refl ok(1)]
    obtain ctx' new k where ih: "decode_chars inp ?d (out @ bs) = Ok (ctx', (out @ bs) @ new, k)"
      "if k then dec_ok ctx' else error_encountered ctx'" "length new + data_used ctx' \<le> data_used ?d + length inp"
      "\<And>out' rest. decode_chars (inp @ rest) ?d out' = (if k then decode_chars rest ctx' (out' @ new) else Ok (ctx', out' @ new, False))"
      by blast
    have step: "decode_chars (c # i) ctx out' = decode_chars i ?d (out' @ bs)" for i out'
      using quad d by (cases "length bs < 3") (simp_all add: Let_def)
    have "decode_chars (c # inp) ctx out = Ok (ctx', out @ (bs @ new), k)"
      unfolding step ih(1) by simp
    moreover have "length (bs @ new) + data_used ctx' \<le> data_used ctx + length (c # inp)"
      using decode_quad_length [OF quad(4)] ih(3) ok(2) quad(3) by simp
    moreover have "decode_chars ((c # inp) @ rest) ctx out' =
        (if k then decode_chars rest ctx' (out' @ (bs @ new)) else Ok (ctx', out' @ (bs @ new), False))" for out' rest
      unfolding append_Cons step ih(4) by simp
    ultimately show ?thesis using ih(2) by blast
  qed
qed

text \<open>A caller that decodes its input in chunks, and keeps the bytes if no call reports an error.\<close>

fun decode_all :: "EVP_ENCODE_CTX \<Rightarrow> bytes list \<Rightarrow> bytes res" where
  "decode_all ctx [] = (if EVP_DecodeFinal ctx = 1 then Ok [] else Fail)"
| "decode_all ctx (chunk # chunks) =
     (case EVP_DecodeUpdate ctx chunk of
        Ok (ctx, out, n, r) \<Rightarrow>
          if r = - 1 then Fail
          else (case decode_all ctx chunks of Ok rest \<Rightarrow> Ok (take n out @ rest) | Fail \<Rightarrow> Fail | Undef \<Rightarrow> Undef)
      | Fail \<Rightarrow> Fail | Undef \<Rightarrow> Undef)"

text \<open>It gives what one pass over the whole input gives.\<close>

lemma decode_all_chunks:
  "dec_ok ctx \<Longrightarrow> data_used ctx + length (concat chunks) \<le> 2 ^ 31 - 1 \<Longrightarrow>
   decode_all ctx chunks =
     (case decode_chars (concat chunks) ctx [] of
        Ok (ctx', out, ok) \<Rightarrow> if ok \<and> data_used ctx' = 0 then Ok out else Fail
      | Fail \<Rightarrow> Fail | Undef \<Rightarrow> Undef)"
proof (induction chunks arbitrary: ctx)
  case Nil
  then show ?case by (simp add: EVP_DecodeFinal_def dec_ok_def)
next
  case (Cons chunk chunks)
  obtain c new k where one: "decode_chars chunk ctx [] = Ok (c, new, k)" "if k then dec_ok c else error_encountered c"
      "\<And>out' rest. decode_chars (chunk @ rest) ctx out' = (if k then decode_chars rest c (out' @ new) else Ok (c, out' @ new, False))"
    and l: "length new + data_used c \<le> data_used ctx + length chunk"
    using decode_chars_facts [OF Cons.prems(1), of chunk "[]"] by auto
  have e: "\<not> error_encountered ctx" using Cons.prems(1) by (simp add: dec_ok_def)
  show ?case
  proof (cases k)
    case False
    then show ?thesis using one e by (simp add: EVP_DecodeUpdate_def)
  next
    case True
    then have c: "dec_ok c" using one(2) by simp
    have "length new \<le> 2 ^ 31 - 1" "data_used c + length (concat chunks) \<le> 2 ^ 31 - 1" using l Cons.prems(2) by auto
    with Cons.IH [OF c] have ih: "decode_all c chunks =
       (case decode_chars (concat chunks) c [] of Ok (ctx', out, ok) \<Rightarrow> if ok \<and> data_used ctx' = 0 then Ok out else Fail
        | Fail \<Rightarrow> Fail | Undef \<Rightarrow> Undef)" by blast
    have u: "EVP_DecodeUpdate ctx chunk = Ok (c, new, length new, if eof_seen c then 0 else 1)"
      using one(1) True e \<open>length new \<le> 2 ^ 31 - 1\<close> by (simp add: EVP_DecodeUpdate_def)
    obtain c' suf k' where two: "decode_chars (concat chunks) c [] = Ok (c', [] @ suf, k')"
      "\<And>out' rest. decode_chars (concat chunks @ rest) c out' = (if k' then decode_chars rest c' (out' @ suf) else Ok (c', out' @ suf, False))"
      using decode_chars_facts [OF c, of "concat chunks" "[]"] by blast
    have three: "decode_chars (concat chunks) c new = Ok (c', new @ suf, k')"
      using two(2) [of "[]" new] by (cases k') simp_all
    show ?thesis using one(3) [of "concat chunks" "[]"] True two(1) three ih u by simp
  qed
qed

text \<open>The characters of one quad, from an empty buffer.\<close>

definition fresh :: "EVP_ENCODE_CTX \<Rightarrow> bool" where
  "fresh ctx \<longleftrightarrow> dec_ok ctx \<and> data_used ctx = 0 \<and> \<not> eof_seen ctx"

lemma decode_quad_prefix: "base64_decode_quad (a # b # c # d # es) = base64_decode_quad [a, b, c, d]"
proof -
  have at: "(a # b # c # d # r) ! 0 = a" "(a # b # c # d # r) ! 1 = b" "(a # b # c # d # r) ! 2 = c" "(a # b # c # d # r) ! 3 = d"
    for r by simp_all
  show ?thesis unfolding base64_decode_quad_def Let_def at ..
qed

lemma decode_chars_quad:
  assumes "fresh ctx" "length q = 4" "set q \<inter> {32, 9, 13, 10} = {}" "base64_decode_quad q = Some bs"
  obtains ctx' where "\<And>rest out. decode_chars (q @ rest) ctx out = decode_chars rest ctx' (out @ bs)"
    "dec_ok ctx'" "data_used ctx' = 0" "eof_seen ctx' \<longleftrightarrow> length bs < 3"
proof -
  obtain a b c d where q: "q = [a, b, c, d]" using assms(2) by (auto simp: eval_nat_numeral length_Suc_conv)
  have ws: "x \<in> set q \<Longrightarrow> x \<notin> {32, 9, 13, 10}" for x using assms(3) by blast
  have n: "x \<noteq> 32 \<and> x \<noteq> 9 \<and> x \<noteq> 13 \<and> x \<noteq> 10" if "x = a \<or> x = b \<or> x = c \<or> x = d" for x
    using ws [of x] that unfolding q by auto
  obtain e0 e1 e2 e3 es where e: "ctx_data ctx = e0 # e1 # e2 # e3 # es"
  proof -
    have "4 \<le> length (ctx_data ctx)" using assms(1) by (simp add: fresh_def dec_ok_def)
    then show thesis using that by (auto simp: numeral_eq_Suc Suc_le_length_iff)
  qed
  have dq: "base64_decode_quad (a # b # c # d # es) = Some bs"
    using assms(4) unfolding q decode_quad_prefix [of a b c d es] .
  let ?c = "(if length bs < 3 then ctx\<lparr>ctx_data := a # b # c # d # es, data_used := 0, eof_seen := True\<rparr>
      else ctx\<lparr>ctx_data := a # b # c # d # es, data_used := 0\<rparr>)"
  have u: "data_used ctx = 0" "\<not> eof_seen ctx" "dec_ok ctx" using assms(1) by (simp_all add: fresh_def)
  show ?thesis
  proof (rule that [of ?c])
    show "decode_chars (q @ rest) ctx out = decode_chars rest ?c (out @ bs)" for rest out
      using n [of a] n [of b] n [of c] n [of d] u dq
      by (cases "length bs < 3") (simp_all add: q e ascii Let_def)
    show "dec_ok ?c" using u e by (simp add: dec_ok_def)
  qed (use u in simp_all)
qed

lemma decode_chars_last:
  assumes "fresh ctx" "base64_decode_quad (encode_loop s) = Some s" "length (encode_loop s) = 4"
    "length s < 3 \<longleftrightarrow> length s mod 3 \<noteq> 0"
  shows "\<exists>ctx'. (\<forall>rest out. decode_chars (encode_loop s @ rest) ctx out = decode_chars rest ctx' (out @ s)) \<and>
     dec_ok ctx' \<and> data_used ctx' = 0 \<and> (eof_seen ctx' \<longleftrightarrow> length s mod 3 \<noteq> 0)"
proof -
  obtain c where "\<And>rest out. decode_chars (encode_loop s @ rest) ctx out = decode_chars rest c (out @ s)"
    "dec_ok c" "data_used c = 0" "eof_seen c \<longleftrightarrow> length s < 3"
    using decode_chars_quad [OF assms(1,3) encode_loop_chars assms(2)] by blast
  then show ?thesis using assms(4) by (intro exI [of _ c]) simp
qed

lemma decode_chars_encoded:
  "fresh ctx \<Longrightarrow> \<exists>ctx'. (\<forall>rest out. decode_chars (encode_loop s @ rest) ctx out = decode_chars rest ctx' (out @ s)) \<and>
     dec_ok ctx' \<and> data_used ctx' = 0 \<and> (eof_seen ctx' \<longleftrightarrow> length s mod 3 \<noteq> 0)"
proof (induction s arbitrary: ctx rule: encode_loop.induct)
  case 1
  then show ?case by (auto simp: fresh_def)
next
  case (2 a)
  have "base64_decode_quad (encode_loop [a]) = Some [a]" unfolding encode_loop_quads by (rule decode_groups)
  then show ?case by (rule decode_chars_last [OF 2]) (simp_all only: length_encode_loop, simp_all)
next
  case (3 a b)
  have "base64_decode_quad (encode_loop [a, b]) = Some [a, b]" unfolding encode_loop_quads by (rule decode_groups)
  then show ?case by (rule decode_chars_last [OF 3]) (simp_all only: length_encode_loop, simp_all)
next
  case (4 a b c src)
  let ?q = "b64_quad (b64_value a b c)"
  have ws: "set ?q \<inter> {32, 9, 13, 10} = {}" using encode_loop_chars [of "[a, b, c]"] encode_loop_quads(3) [of a b c "[]"] by auto
  have dq: "base64_decode_quad ?q = Some [a, b, c]" using decode_groups(1) [of a b c "[]"] by simp
  obtain c1 where c1: "\<And>rest out. decode_chars (?q @ rest) ctx out = decode_chars rest c1 (out @ [a, b, c])"
    "dec_ok c1" "data_used c1 = 0" "eof_seen c1 \<longleftrightarrow> length [a, b, c] < 3"
    by (rule decode_chars_quad [OF "4.prems" length_quad ws dq], rule that)
  have "fresh c1" using c1 by (simp add: fresh_def)
  from "4.IH" [OF refl this] obtain c2 where "\<And>rest out. decode_chars (encode_loop src @ rest) c1 out = decode_chars rest c2 (out @ src)"
    "dec_ok c2" "data_used c2 = 0" "eof_seen c2 \<longleftrightarrow> length src mod 3 \<noteq> 0" by blast
  then show ?case
  proof (intro exI [of _ c2] conjI allI)
    show "decode_chars (encode_loop (a # b # c # src) @ rest) ctx out = decode_chars rest c2 (out @ a # b # c # src)" for rest out
      unfolding encode_loop_quads append_assoc c1(1) \<open>\<And>rest out. decode_chars (encode_loop src @ rest) c1 out = decode_chars rest c2 (out @ src)\<close>
      by simp
    have "length (a # b # c # src) mod 3 = length src mod 3" by simp
    then show "eof_seen c2 \<longleftrightarrow> length (a # b # c # src) mod 3 \<noteq> 0" using \<open>eof_seen c2 \<longleftrightarrow> length src mod 3 \<noteq> 0\<close> by simp
  qed
qed

lemma decode_newline: "decode_chars (newline # rest) ctx out = decode_chars rest ctx out"
  by (simp add: ascii)

lemma decode_pem:
  "fresh ctx \<Longrightarrow> \<exists>ctx'. decode_chars (pem_lines s) ctx out = Ok (ctx', out @ s, True) \<and> data_used ctx' = 0"
proof (induction s arbitrary: ctx out rule: length_induct)
  case (1 s)
  show ?case
  proof (cases "s = []")
    case True
    then show ?thesis using "1.prems" by (simp add: fresh_def)
  next
    case False
    define a b where "a = take 48 s" and "b = drop 48 s"
    have s: "s = a @ b" "length b < length s" "pem_lines s = encode_loop a @ newline # pem_lines b"
      using False by (simp_all add: a_def b_def pem_lines.simps [of s])
    obtain c where c: "\<And>rest out. decode_chars (encode_loop a @ rest) ctx out = decode_chars rest c (out @ a)"
      "dec_ok c" "data_used c = 0" "eof_seen c \<longleftrightarrow> length a mod 3 \<noteq> 0"
      using decode_chars_encoded [OF "1.prems", of a] by blast
    have line: "decode_chars (pem_lines s) ctx out = decode_chars (pem_lines b) c (out @ a)"
      unfolding s(3) c(1) decode_newline ..
    show ?thesis
    proof (cases "b = []")
      case True
      then show ?thesis unfolding line using c(3) by (simp add: s(1))
    next
      case b: False
      then have "length a = 48" by (simp add: a_def b_def)
      then have "fresh c" using c by (simp add: fresh_def)
      from "1.IH" [rule_format, OF s(2) this, of "out @ a"] show ?thesis unfolding line by (simp add: s(1))
    qed
  qed
qed

text \<open>Encoding in any chunks, and decoding in any chunks.\<close>

lemma stream_round_trip:
  assumes "concat outs = pem_lines s" "length (pem_lines s) \<le> 2 ^ 31 - 1"
  shows "decode_all EVP_DecodeInit outs = Ok s"
proof -
  have f: "fresh EVP_DecodeInit" "data_used EVP_DecodeInit = 0" by (simp_all add: fresh_def dec_ok_init) (simp_all add: EVP_DecodeInit_def)
  obtain c where "decode_chars (pem_lines s) EVP_DecodeInit [] = Ok (c, s, True)" "data_used c = 0"
    using decode_pem [OF f(1), of s "[]"] by auto
  then show ?thesis
    using decode_all_chunks [OF dec_ok_init, of outs] assms f(2) by simp
qed

end
