(* ===== verification/C_Memory.thy ===== *)
theory C_Memory
  imports Internal
begin

text \<open>
  Memory as C code with pointers sees it: bytes at 64-bit addresses, and the blocks of the allocator. Reading or
  writing what is not there, and freeing what is not a block, is undefined. Messages of nanopb live in it.
\<close>

subsection \<open>Bytes at addresses\<close>

text \<open>The byte at an address, where it can be accessed. Addresses are 64-bit numbers, 0 for NULL.\<close>

type_synonym memory = "u64 \<Rightarrow> u8 option"

definition region :: "u64 \<Rightarrow> nat \<Rightarrow> u64 set" where
  "region p n = {a. unat (a - p) < n}"

definition memory_bytes :: "memory \<Rightarrow> u64 \<Rightarrow> nat \<Rightarrow> bytes option" where
  "memory_bytes mem p n = (let bs = map (\<lambda>i. mem (p + of_nat i)) [0..<n] in if None \<in> set bs then None else Some (map the bs))"

definition write_bytes :: "memory \<Rightarrow> u64 \<Rightarrow> bytes \<Rightarrow> memory" where
  "write_bytes mem p bs = (\<lambda>a. if unat (a - p) < length bs then Some (bs ! unat (a - p)) else mem a)"

definition forget_bytes :: "memory \<Rightarrow> u64 \<Rightarrow> nat \<Rightarrow> memory" where
  "forget_bytes mem p n = (\<lambda>a. if unat (a - p) < n then None else mem a)"

definition number_at :: "memory \<Rightarrow> u64 \<Rightarrow> nat \<Rightarrow> u64 option" where
  "number_at mem p n = map_option le_value (memory_bytes mem p n)"

text \<open>Loads from a memory that does not change.\<close>

definition load :: "memory \<Rightarrow> u64 \<Rightarrow> nat \<Rightarrow> ('s, bytes) cfun" where
  "load mem p n s = (case memory_bytes mem p n of None \<Rightarrow> (Undef, s) | Some bs \<Rightarrow> (Ok bs, s))"

definition load_number :: "memory \<Rightarrow> u64 \<Rightarrow> nat \<Rightarrow> ('s, u64) cfun" where
  "load_number mem p n = bnd (load mem p n) (\<lambda>bs. ret (le_value bs))"

definition load_pointer :: "memory \<Rightarrow> u64 \<Rightarrow> ('s, u64) cfun" where
  "load_pointer mem p = load_number mem p 8"

subsection \<open>The heap\<close>

text \<open>The memory of a running program, the blocks that \<^verbatim>\<open>malloc\<close> gave it with their sizes, and how often it asked.\<close>

record heap =
  ram :: memory
  blocks :: "u64 \<Rightarrow> nat option"
  requests :: nat

definition peek :: "u64 \<Rightarrow> nat \<Rightarrow> ('x heap_scheme, bytes) cfun" where
  "peek p n s = load (ram s) p n s"

definition peek_number :: "u64 \<Rightarrow> nat \<Rightarrow> ('x heap_scheme, u64) cfun" where
  "peek_number p n s = load_number (ram s) p n s"

abbreviation peek_pointer :: "u64 \<Rightarrow> ('x heap_scheme, u64) cfun" where
  "peek_pointer p \<equiv> peek_number p 8"

definition poke :: "u64 \<Rightarrow> bytes \<Rightarrow> ('x heap_scheme, unit) cfun" where
  "poke p bs s =
     (case memory_bytes (ram s) p (length bs) of
        None \<Rightarrow> (Undef, s)
      | Some _ \<Rightarrow> (Ok (), s\<lparr>ram := write_bytes (ram s) p bs\<rparr>))"

abbreviation poke_pointer :: "u64 \<Rightarrow> u64 \<Rightarrow> ('x heap_scheme, unit) cfun" where
  "poke_pointer p q \<equiv> poke p (le_bytes 8 q)"

text \<open>
  \<^verbatim>\<open>realloc\<close> and \<^verbatim>\<open>free\<close>. Beside what an \<open>allocator\<close> answers there is the address that it picks, \<open>pick\<close>. A block
  never overlaps what is in use, nor does it reach around the end of the addresses: an allocator that picks
  such an address is one that refuses. \<^verbatim>\<open>realloc\<close> may leave a block where it is.
\<close>

definition unused :: "memory \<Rightarrow> u64 \<Rightarrow> nat \<Rightarrow> bool" where
  "unused mem p n \<longleftrightarrow> p \<noteq> 0 \<and> unat p + n \<le> 2 ^ 64 \<and> (\<forall>i \<in> set [0..<n]. mem (p + of_nat i) = None)"

definition heap_realloc :: "allocator \<Rightarrow> (nat \<Rightarrow> nat \<Rightarrow> u64) \<Rightarrow> u64 \<Rightarrow> nat \<Rightarrow> ('x heap_scheme, u64) cfun" where
  "heap_realloc A pick p n s =
     (case (if p = 0 then Some [] else Option.bind (blocks s p) (memory_bytes (ram s) p)) of
        None \<Rightarrow> (Undef, s)
      | Some old \<Rightarrow>
          let k = requests s; q = pick k n; rest = forget_bytes (ram s) p (length old)
          in case c_realloc A k old n of
               Some new \<Rightarrow>
                 if unused rest q n
                 then (Ok q, s\<lparr>ram := write_bytes rest q new, blocks := (blocks s)(p := None, q := Some n), requests := Suc k\<rparr>)
                 else (Ok 0, s\<lparr>requests := Suc k\<rparr>)
             | None \<Rightarrow> (Ok 0, s\<lparr>requests := Suc k\<rparr>))"

definition heap_free :: "u64 \<Rightarrow> ('x heap_scheme, unit) cfun" where
  "heap_free p s =
     (if p = 0 then (Ok (), s)
      else case blocks s p of
             None \<Rightarrow> (Undef, s)
           | Some n \<Rightarrow> (Ok (), s\<lparr>ram := forget_bytes (ram s) p n, blocks := (blocks s)(p := None)\<rparr>))"

subsection \<open>Regions\<close>

lemma in_region: "a \<in> region p n \<longleftrightarrow> unat (a - p) < n"
  by (simp add: region_def)

lemma region_0 [simp]: "region p 0 = {}"
  by (simp add: region_def)

lemma region_mono: "m \<le> n \<Longrightarrow> region p m \<subseteq> region p n"
  by (auto simp: region_def)

lemma region_inside: "unat o' + m \<le> n \<Longrightarrow> region (p + o') m \<subseteq> region p n"
proof
  fix a assume "unat o' + m \<le> n" "a \<in> region (p + o') m"
  then have "unat o' + unat (a - (p + o')) < n" by (simp add: in_region)
  moreover have "a - p = o' + (a - (p + o'))" by simp
  then have "unat (a - p) \<le> unat o' + unat (a - (p + o'))" by (simp only: unat_word_ariths mod_less_eq_dividend)
  ultimately show "a \<in> region p n" by (simp add: in_region)
qed

lemma in_region_unat:
  assumes "a \<in> region p n" "unat p + n \<le> 2 ^ 64"
  shows "unat p \<le> unat a \<and> unat a < unat p + n"
proof -
  define d where "d = a - p"
  have a: "a = p + d" and d: "unat d < n" using assms(1) by (simp_all add: in_region d_def)
  then have "unat a = unat p + unat d" using assms(2) by (simp add: unat_word_ariths(1))
  then show ?thesis using d by simp
qed

lemma region_apart:
  assumes "unat p + n \<le> unat q" "unat q + m \<le> 2 ^ 64"
  shows "region p n \<inter> region q m = {}"
proof -
  have p: "unat p + n \<le> 2 ^ 64" using assms by simp
  have False if "a \<in> region p n" "a \<in> region q m" for a
    using in_region_unat [OF that(1) p] in_region_unat [OF that(2) assms(2)] assms(1) by simp
  then show ?thesis by blast
qed

lemma region_nat: "of_nat i + p \<in> region p n \<Longrightarrow> i < 2 ^ 64 \<Longrightarrow> i < n"
  by (simp add: in_region unsigned_of_nat take_bit_nat_eq_self)

lemma nat_in_region: "i < n \<Longrightarrow> p + of_nat i \<in> region p n"
  using le_less_trans [OF take_bit_nat_less_eq_self [of 64 i]] by (simp add: in_region unsigned_of_nat)

lemma region_index: "a \<in> region p n \<Longrightarrow> \<exists>i < n. a = p + of_nat i"
  by (intro exI [of _ "unat (a - p)"]) (simp add: in_region)

lemma region_list: "region p n = set (map (\<lambda>i. p + of_nat i) [0..<n])"
  using nat_in_region region_index by fastforce

subsection \<open>Reading and writing\<close>

lemma memory_bytes_None: "memory_bytes mem p n = None \<longleftrightarrow> \<not> region p n \<subseteq> dom mem"
proof -
  have "None \<in> set (map (\<lambda>i. mem (p + of_nat i)) [0..<n]) \<longleftrightarrow> (\<exists>i < n. mem (p + of_nat i) = None)"
    unfolding set_map set_upt image_iff atLeast0LessThan by (metis lessThan_iff)
  moreover have "region p n \<subseteq> dom mem \<longleftrightarrow> (\<forall>i < n. mem (p + of_nat i) \<noteq> None)"
    unfolding region_list set_map set_upt atLeast0LessThan by (auto simp: image_subset_iff domIff)
  ultimately show ?thesis by (simp add: memory_bytes_def Let_def)
qed

lemma memory_bytes_Some: "region p n \<subseteq> dom mem \<Longrightarrow> \<exists>bs. memory_bytes mem p n = Some bs \<and> length bs = n"
  using memory_bytes_None [of mem p n] by (cases "memory_bytes mem p n") (auto simp: memory_bytes_def Let_def split: if_splits)

lemma memory_bytes_length: "memory_bytes mem p n = Some bs \<Longrightarrow> length bs = n"
  by (auto simp: memory_bytes_def Let_def split: if_splits)

lemma memory_bytes_dom: "memory_bytes mem p n = Some bs \<Longrightarrow> region p n \<subseteq> dom mem"
  using memory_bytes_None [of mem p n] by simp

lemma memory_bytes_cong: "(\<And>a. a \<in> region p n \<Longrightarrow> mem a = mem' a) \<Longrightarrow> memory_bytes mem p n = memory_bytes mem' p n"
proof -
  assume "\<And>a. a \<in> region p n \<Longrightarrow> mem a = mem' a"
  then have "map (\<lambda>i. mem (p + of_nat i)) [0..<n] = map (\<lambda>i. mem' (p + of_nat i)) [0..<n]" by (simp add: nat_in_region)
  then show ?thesis by (simp only: memory_bytes_def)
qed

lemma memory_bytes_map: "memory_bytes mem p n = Some bs \<longleftrightarrow> length bs = n \<and> (\<forall>i < n. mem (p + of_nat i) = Some (bs ! i))"
proof
  assume "memory_bytes mem p n = Some bs"
  then have "None \<notin> set (map (\<lambda>i. mem (p + of_nat i)) [0..<n])" "bs = map the (map (\<lambda>i. mem (p + of_nat i)) [0..<n])"
    by (auto simp: memory_bytes_def Let_def split: if_splits)
  then show "length bs = n \<and> (\<forall>i < n. mem (p + of_nat i) = Some (bs ! i))" by (force simp: image_iff)
next
  assume bs: "length bs = n \<and> (\<forall>i < n. mem (p + of_nat i) = Some (bs ! i))"
  then have "map (\<lambda>i. mem (p + of_nat i)) [0..<n] = map Some bs" by (intro nth_equalityI) simp_all
  then show "memory_bytes mem p n = Some bs" by (simp add: memory_bytes_def Let_def image_iff comp_def)
qed

lemma dom_write: "dom (write_bytes mem p bs) = dom mem \<union> region p (length bs)"
  by (auto simp: write_bytes_def region_def split: if_splits)

lemma write_outside: "a \<notin> region p (length bs) \<Longrightarrow> write_bytes mem p bs a = mem a"
  by (simp add: write_bytes_def region_def)

lemma write_inside: "i < length bs \<Longrightarrow> length bs \<le> 2 ^ 64 \<Longrightarrow> write_bytes mem p bs (p + of_nat i) = Some (bs ! i)"
  by (simp add: write_bytes_def unsigned_of_nat take_bit_nat_eq_self)

lemma read_written: "length bs \<le> 2 ^ 64 \<Longrightarrow> memory_bytes (write_bytes mem p bs) p (length bs) = Some bs"
  by (simp add: memory_bytes_map write_inside)

lemma read_beside: "region q n \<inter> region p (length bs) = {} \<Longrightarrow> memory_bytes (write_bytes mem p bs) q n = memory_bytes mem q n"
  by (rule memory_bytes_cong) (auto intro!: write_outside)

lemma dom_forget: "dom (forget_bytes mem p n) = dom mem - region p n"
  by (auto simp: forget_bytes_def region_def split: if_splits)

lemma forget_outside: "a \<notin> region p n \<Longrightarrow> forget_bytes mem p n a = mem a"
  by (simp add: forget_bytes_def region_def)

lemma unused_iff: "unused mem p n \<longleftrightarrow> p \<noteq> 0 \<and> unat p + n \<le> 2 ^ 64 \<and> region p n \<inter> dom mem = {}"
  by (auto simp: unused_def region_list dom_def)

lemma peek_Ok: "region p n \<subseteq> dom (ram s) \<Longrightarrow> \<exists>bs. peek p n s = (Ok bs, s) \<and> length bs = n \<and> memory_bytes (ram s) p n = Some bs"
  using memory_bytes_Some [of p n "ram s"] by (auto simp: peek_def load_def)

lemma peek_number_eq: "number_at (ram s) p n = Some v \<Longrightarrow> peek_number p n s = (Ok v, s)"
  by (auto simp: number_at_def peek_number_def load_number_def bnd_def load_def)

lemma number_at_Some: "region p n \<subseteq> dom mem \<Longrightarrow> \<exists>v. number_at mem p n = Some v"
  using memory_bytes_Some [of p n mem] by (auto simp: number_at_def)

lemma poke_Ok: "region p (length bs) \<subseteq> dom (ram s) \<Longrightarrow> poke p bs s = (Ok (), s\<lparr>ram := write_bytes (ram s) p bs\<rparr>)"
  using memory_bytes_Some [of p "length bs" "ram s"] by (auto simp: poke_def)

subsection \<open>Blocks\<close>

text \<open>The blocks are there, and apart from each other.\<close>

definition heap_ok :: "'x heap_scheme \<Rightarrow> bool" where
  "heap_ok s \<longleftrightarrow> (\<forall>p n. blocks s p = Some n \<longrightarrow> p \<noteq> 0 \<and> region p n \<subseteq> dom (ram s)) \<and>
     (\<forall>p q n m. blocks s p = Some n \<longrightarrow> blocks s q = Some m \<longrightarrow> p \<noteq> q \<longrightarrow> region p n \<inter> region q m = {})"

text \<open>A pointer that owns what it points to: it is NULL, or the address of a block that it is not in.\<close>

definition cell_ok :: "u64 \<Rightarrow> 'x heap_scheme \<Rightarrow> bool" where
  "cell_ok p s \<longleftrightarrow> region p 8 \<subseteq> dom (ram s) \<and>
     (\<exists>q. number_at (ram s) p 8 = Some q \<and> (q = 0 \<or> (\<exists>n. blocks s q = Some n \<and> region p 8 \<inter> region q n = {})))"

definition block_of :: "u64 \<Rightarrow> 'x heap_scheme \<Rightarrow> u64 set" where
  "block_of q s = (case blocks s q of Some n \<Rightarrow> region q n | None \<Rightarrow> {})"

lemma heap_okD:
  "heap_ok s \<Longrightarrow> blocks s p = Some n \<Longrightarrow> p \<noteq> 0"
  "heap_ok s \<Longrightarrow> blocks s p = Some n \<Longrightarrow> region p n \<subseteq> dom (ram s)"
  "heap_ok s \<Longrightarrow> blocks s p = Some n \<Longrightarrow> blocks s q = Some m \<Longrightarrow> p \<noteq> q \<Longrightarrow> region p n \<inter> region q m = {}"
  by (auto simp: heap_ok_def)

lemma number_pointer: "length (le_bytes 8 q) \<le> 2 ^ 64" "le_value (le_bytes 8 q) = q"
  using le_value_bytes [of 8 q] by (simp_all add: drop_bit_word_beyond)

lemma number_written: "number_at (write_bytes mem p (le_bytes 8 q)) p 8 = Some q"
  using read_written [OF number_pointer(1), of mem p q] number_pointer(2) by (simp add: number_at_def)

lemma number_beside: "region q n \<inter> region p (length bs) = {} \<Longrightarrow> number_at (write_bytes mem p bs) q n = number_at mem q n"
  by (simp add: number_at_def read_beside)

definition block_size :: "u64 \<Rightarrow> 'x heap_scheme \<Rightarrow> nat" where
  "block_size q s = (case blocks s q of Some n \<Rightarrow> n | None \<Rightarrow> 0)"

lemma block_region: "block_of q s = region q (block_size q s)"
  by (simp add: block_of_def block_size_def split: option.split)

lemma realloc_cases:
  assumes h: "heap_ok s" and p: "p = 0 \<or> (\<exists>m. blocks s p = Some m)"
  obtains (refused) "heap_realloc A pick p n s = (Ok 0, s\<lparr>requests := Suc (requests s)\<rparr>)"
  | (moved) q new where "heap_realloc A pick p n s =
        (Ok q, s\<lparr>ram := write_bytes (forget_bytes (ram s) p (block_size p s)) q new, blocks := (blocks s)(p := None, q := Some n),
                 requests := Suc (requests s)\<rparr>)"
      "q \<noteq> 0" "length new = n" "unat q + n \<le> 2 ^ 64" "region q n \<inter> (dom (ram s) - block_of p s) = {}"
proof -
  have z: "blocks s 0 = None" using heap_okD(1) [OF h, of 0] by (cases "blocks s 0") auto
  obtain old where old: "(if p = 0 then Some [] else Option.bind (blocks s p) (memory_bytes (ram s) p)) = Some old" "length old = block_size p s"
  proof (cases "p = 0")
    case True
    then show ?thesis using that [of "[]"] z by (simp add: block_size_def)
  next
    case False
    then obtain m where m: "blocks s p = Some m" using p by auto
    obtain bs where "memory_bytes (ram s) p m = Some bs" "length bs = m" using memory_bytes_Some [OF heap_okD(2) [OF h m]] by auto
    then show ?thesis using that [of bs] False m by (simp add: block_size_def)
  qed
  let ?new = "take n old @ map (garbage A (requests s)) [length (take n old)..<n]" and ?q = "pick (requests s) n"
    and ?rest = "forget_bytes (ram s) p (block_size p s)"
  have new: "length ?new = n" by (simp add: min_def)
  show ?thesis
  proof (cases "grant A (requests s) n \<and> unused ?rest ?q n")
    case True
    then have "heap_realloc A pick p n s = (Ok ?q, s\<lparr>ram := write_bytes ?rest ?q ?new, blocks := (blocks s)(p := None, ?q := Some n), requests := Suc (requests s)\<rparr>)"
      using old by (simp add: heap_realloc_def c_realloc_def Let_def)
    moreover have "?q \<noteq> 0" "unat ?q + n \<le> 2 ^ 64" "region ?q n \<inter> (dom (ram s) - block_of p s) = {}"
      using True by (simp_all add: unused_iff dom_forget block_region)
    ultimately show ?thesis using new moved by blast
  next
    case False
    then have "heap_realloc A pick p n s = (Ok 0, s\<lparr>requests := Suc (requests s)\<rparr>)"
      using old by (auto simp: heap_realloc_def c_realloc_def Let_def)
    then show ?thesis by (rule refused)
  qed
qed

lemma realloc_heap_ok:
  assumes h: "heap_ok s" and q: "q \<noteq> 0" "region q n \<inter> (dom (ram s) - block_of p s) = {}" and new: "length new = n"
  shows "heap_ok (s\<lparr>ram := write_bytes (forget_bytes (ram s) p (block_size p s)) q new, blocks := (blocks s)(p := None, q := Some n), requests := k\<rparr>)"
proof -
  have d: "dom (write_bytes (forget_bytes (ram s) p (block_size p s)) q new) = (dom (ram s) - block_of p s) \<union> region q n"
    by (simp add: dom_write dom_forget block_region new)
  have other: "region a m \<subseteq> dom (ram s) - block_of p s" if "blocks s a = Some m" "a \<noteq> p" for a m
    using heap_okD(2) [OF h that(1)] heap_okD(3) [OF h that(1)] that(2) by (force simp: block_of_def split: option.splits)
  show ?thesis
    unfolding heap_ok_def
  proof (intro conjI allI impI)
    fix a m assume "blocks (s\<lparr>ram := write_bytes (forget_bytes (ram s) p (block_size p s)) q new, blocks := (blocks s)(p := None, q := Some n), requests := k\<rparr>) a = Some m"
    then show "a \<noteq> 0" "region a m \<subseteq> dom (ram (s\<lparr>ram := write_bytes (forget_bytes (ram s) p (block_size p s)) q new, blocks := (blocks s)(p := None, q := Some n), requests := k\<rparr>))"
      using q(1) other [of a m] heap_okD(1) [OF h, of a m] by (auto simp: d split: if_splits)
  next
    fix a b m l
    assume ab: "blocks (s\<lparr>ram := write_bytes (forget_bytes (ram s) p (block_size p s)) q new, blocks := (blocks s)(p := None, q := Some n), requests := k\<rparr>) a = Some m"
      "blocks (s\<lparr>ram := write_bytes (forget_bytes (ram s) p (block_size p s)) q new, blocks := (blocks s)(p := None, q := Some n), requests := k\<rparr>) b = Some l" "a \<noteq> b"
    have old: "c = q \<and> i = n \<or> c \<noteq> q \<and> c \<noteq> p \<and> blocks s c = Some i" if "((blocks s)(p := None, q := Some n)) c = Some i" for c i
      using that by (auto split: if_splits)
    have a: "a = q \<and> m = n \<or> a \<noteq> q \<and> a \<noteq> p \<and> blocks s a = Some m" and b: "b = q \<and> l = n \<or> b \<noteq> q \<and> b \<noteq> p \<and> blocks s b = Some l"
      by (rule old; use ab(1,2) in simp)+
    from a show "region a m \<inter> region b l = {}"
    proof
      assume a: "a = q \<and> m = n"
      then have "blocks s b = Some l" "b \<noteq> p" using b ab(3) by auto
      from other [OF this] show ?thesis using q(2) a by blast
    next
      assume a: "a \<noteq> q \<and> a \<noteq> p \<and> blocks s a = Some m"
      from b show ?thesis
      proof
        assume "b = q \<and> l = n"
        then show ?thesis using other [of a m] a q(2) by blast
      next
        assume "b \<noteq> q \<and> b \<noteq> p \<and> blocks s b = Some l"
        then show ?thesis using heap_okD(3) [OF h, of a m b l] a ab(3) by blast
      qed
    qed
  qed
qed

end
