(* ===== verification/Pb_Decode.thy ===== *)
theory Pb_Decode
  imports C_Memory
begin

text \<open>
  The wire layer of nanopb's decoder, \<^verbatim>\<open>pb_decode.c\<close>: input streams, variable-length and fixed-length
  integers, tags, skipping, substreams, and the descriptors of fields.
  The build has \<^verbatim>\<open>PB_FIELD_32BIT\<close> and \<^verbatim>\<open>PB_ENABLE_MALLOC\<close>, callbacks and error messages.
\<close>

subsection \<open>Input streams\<close>

text \<open>\<^verbatim>\<open>struct pb_istream_s\<close>. The callback and its state are a source: the buffer reader, with the memory
  from its pointer on, or a reader of the application, which is a parameter \<open>io\<close> of the definitions and
  may change the stream it is given.\<close>

datatype 's pb_source = Buffer bytes | Callback 's

record 's pb_istream =
  source :: "'s pb_source"
  bytes_left :: nat
  errmsg :: "string option"

type_synonym 's pb_io = "nat \<Rightarrow> ('s pb_istream, bytes) cfun"

definition size_sub :: "nat \<Rightarrow> nat \<Rightarrow> nat" where
  "size_sub a b = (if b \<le> a then a - b else 2 ^ 64 - (b - a))"

text \<open>The first message is kept.\<close>

definition PB_RETURN_ERROR :: "string \<Rightarrow> ('s pb_istream, 'a) cfun" where
  "PB_RETURN_ERROR msg s = (Fail, s\<lparr>errmsg := (case errmsg s of None \<Rightarrow> Some msg | Some m \<Rightarrow> Some m)\<rparr>)"

definition buf_read :: "'s pb_io" where
  "buf_read count s =
     (case source s of
        Buffer bs \<Rightarrow> if count \<le> length bs then (Ok (take count bs), s\<lparr>source := Buffer (drop count bs)\<rparr>) else (Undef, s)
      | Callback _ \<Rightarrow> (Undef, s))"

definition stream_callback :: "'s pb_io \<Rightarrow> 's pb_io" where
  "stream_callback io count s = (case source s of Buffer _ \<Rightarrow> buf_read count s | Callback _ \<Rightarrow> io count s)"

text \<open>\<open>pb_read\<close> into a buffer; \<open>pb_read_null\<close> is \<open>pb_read\<close> with a NULL buffer, which skips, in pieces of 16
  bytes unless the stream is a buffer.\<close>

definition pb_read :: "'s pb_io \<Rightarrow> nat \<Rightarrow> ('s pb_istream, bytes) cfun" where
  "pb_read io count s =
     (if count = 0 then ret [] s
      else if bytes_left s < count then PB_RETURN_ERROR ''end-of-stream'' s
      else case stream_callback io count s of
             (Fail, s) \<Rightarrow> PB_RETURN_ERROR ''io error'' s
           | (Undef, s) \<Rightarrow> (Undef, s)
           | (Ok bs, s) \<Rightarrow> (Ok bs, s\<lparr>bytes_left := size_sub (bytes_left s) count\<rparr>))"

function skip_pieces :: "'s pb_io \<Rightarrow> nat \<Rightarrow> ('s pb_istream, unit) cfun" where
  "skip_pieces io count =
     (if count > 16 then bnd (pb_read io 16) (\<lambda>_. skip_pieces io (count - 16))
      else bnd (pb_read io count) (\<lambda>_. ret ()))"
  by pat_completeness auto
termination by (relation "measure (\<lambda>(io, count). count)") auto

declare skip_pieces.simps [simp del]

definition pb_read_null :: "'s pb_io \<Rightarrow> nat \<Rightarrow> ('s pb_istream, unit) cfun" where
  "pb_read_null io count s =
     (if count = 0 then ret () s
      else case source s of
             Callback _ \<Rightarrow> skip_pieces io count s
           | Buffer _ \<Rightarrow> bnd (pb_read io count) (\<lambda>_. ret ()) s)"

definition pb_readbyte :: "'s pb_io \<Rightarrow> ('s pb_istream, u8) cfun" where
  "pb_readbyte io s =
     (if bytes_left s = 0 then PB_RETURN_ERROR ''end-of-stream'' s
      else case stream_callback io 1 s of
             (Fail, s) \<Rightarrow> PB_RETURN_ERROR ''io error'' s
           | (Undef, s) \<Rightarrow> (Undef, s)
           | (Ok bs, s) \<Rightarrow> (Ok (hd bs), s\<lparr>bytes_left := size_sub (bytes_left s) 1\<rparr>))"

definition pb_istream_from_buffer :: "bytes \<Rightarrow> nat \<Rightarrow> 's pb_istream" where
  "pb_istream_from_buffer buf bufsize = \<lparr>source = Buffer buf, bytes_left = bufsize, errmsg = None\<rparr>"

subsection \<open>Variable-length integers\<close>

text \<open>The loop of \<open>pb_decode_varint32_eof\<close> after the first byte. \<^verbatim>\<open>bitpos\<close> has eight bits and wraps. The
  fuel bounds the bytes read; the callers give one more than the stream holds.\<close>

fun varint32_loop :: "'s pb_io \<Rightarrow> nat \<Rightarrow> u8 \<Rightarrow> u32 \<Rightarrow> ('s pb_istream, u32) cfun" where
  "varint32_loop io 0 bitpos r = undef"
| "varint32_loop io (Suc n) bitpos r =
     bnd (pb_readbyte io) (\<lambda>byte.
     bnd (if bitpos \<ge> 32 then
            let sign_extension = if bitpos < 63 then 0xff else 0x01
            in if byte AND 0x7f \<noteq> 0 \<and> (drop_bit 31 r = 0 \<or> byte \<noteq> sign_extension)
               then PB_RETURN_ERROR ''varint overflow'' else ret r
          else ret (r OR push_bit (unat bitpos) (ucast (byte AND 0x7f)))) (\<lambda>r.
     let bitpos = bitpos + 7
     in if byte AND 0x80 \<noteq> 0 then varint32_loop io n bitpos r
        else if bitpos = 35 \<and> byte AND 0x70 \<noteq> 0 then PB_RETURN_ERROR ''varint overflow''
        else ret r))"

text \<open>The result, what is stored to \<^verbatim>\<open>*eof\<close> (false: nothing), and the stream.\<close>

definition pb_decode_varint32_eof :: "'s pb_io \<Rightarrow> 's pb_istream \<Rightarrow> u32 res \<times> bool \<times> 's pb_istream" where
  "pb_decode_varint32_eof io s =
     (case pb_readbyte io s of
        (Fail, s) \<Rightarrow> (Fail, bytes_left s = 0, s)
      | (Undef, s) \<Rightarrow> (Undef, False, s)
      | (Ok byte, s) \<Rightarrow>
          if byte AND 0x80 = 0 then (Ok (ucast byte), False, s)
          else (case varint32_loop io (Suc (bytes_left s)) 7 (ucast (byte AND 0x7f)) s of (r, s) \<Rightarrow> (r, False, s)))"

definition pb_decode_varint32 :: "'s pb_io \<Rightarrow> ('s pb_istream, u32) cfun" where
  "pb_decode_varint32 io s = (case pb_decode_varint32_eof io s of (r, _, s) \<Rightarrow> (r, s))"

function varint_loop :: "'s pb_io \<Rightarrow> nat \<Rightarrow> u64 \<Rightarrow> ('s pb_istream, u64) cfun" where
  "varint_loop io bitpos r =
     (if bitpos \<ge> 64 then PB_RETURN_ERROR ''varint overflow''
      else bnd (pb_readbyte io) (\<lambda>byte.
           let r = r OR push_bit bitpos (ucast (byte AND 0x7f))
           in if byte AND 0x80 \<noteq> 0 then varint_loop io (bitpos + 7) r else ret r))"
  by pat_completeness auto
termination by (relation "measure (\<lambda>(io, bitpos, r). 64 - bitpos)") auto

declare varint_loop.simps [simp del]

definition pb_decode_varint :: "'s pb_io \<Rightarrow> ('s pb_istream, u64) cfun" where
  "pb_decode_varint io = varint_loop io 0 0"

fun skip_varint_loop :: "'s pb_io \<Rightarrow> nat \<Rightarrow> ('s pb_istream, unit) cfun" where
  "skip_varint_loop io 0 = undef"
| "skip_varint_loop io (Suc n) =
     bnd (pb_read io 1) (\<lambda>bs. if hd bs AND 0x80 \<noteq> 0 then skip_varint_loop io n else ret ())"

definition pb_skip_varint :: "'s pb_io \<Rightarrow> ('s pb_istream, unit) cfun" where
  "pb_skip_varint io s = skip_varint_loop io (Suc (bytes_left s)) s"

definition pb_skip_string :: "'s pb_io \<Rightarrow> ('s pb_istream, unit) cfun" where
  "pb_skip_string io = bnd (pb_decode_varint32 io) (\<lambda>len. pb_read_null io (unat len))"

text \<open>\<^verbatim>\<open>pb_wire_type_t\<close>, and the tag: the wire type and field number, and \<^verbatim>\<open>*eof\<close>.\<close>

type_synonym pb_wire_type = u32

abbreviation (input) PB_WT_VARINT :: pb_wire_type where "PB_WT_VARINT \<equiv> 0"
abbreviation (input) PB_WT_64BIT :: pb_wire_type where "PB_WT_64BIT \<equiv> 1"
abbreviation (input) PB_WT_STRING :: pb_wire_type where "PB_WT_STRING \<equiv> 2"
abbreviation (input) PB_WT_32BIT :: pb_wire_type where "PB_WT_32BIT \<equiv> 5"

definition pb_decode_tag :: "'s pb_io \<Rightarrow> 's pb_istream \<Rightarrow> (pb_wire_type \<times> u32) res \<times> bool \<times> 's pb_istream" where
  "pb_decode_tag io s =
     (case pb_decode_varint32_eof io s of
        (Fail, eof, s) \<Rightarrow> (Fail, eof, s)
      | (Undef, eof, s) \<Rightarrow> (Undef, eof, s)
      | (Ok temp, _, s) \<Rightarrow>
          if temp = 0 then (Fail, True, s) else (Ok (temp AND 7, drop_bit 3 temp), False, s))"

definition pb_skip_field :: "'s pb_io \<Rightarrow> pb_wire_type \<Rightarrow> ('s pb_istream, unit) cfun" where
  "pb_skip_field io wire_type =
     (if wire_type = PB_WT_VARINT then pb_skip_varint io
      else if wire_type = PB_WT_64BIT then pb_read_null io 8
      else if wire_type = PB_WT_STRING then pb_skip_string io
      else if wire_type = PB_WT_32BIT then pb_read_null io 4
      else PB_RETURN_ERROR ''invalid wire_type'')"

text \<open>The bytes copied to the buffer; \<open>max_size\<close> is the value of \<^verbatim>\<open>*size\<close> on call, the length of the result
  its value on return.\<close>

function raw_varint :: "'s pb_io \<Rightarrow> nat \<Rightarrow> bytes \<Rightarrow> ('s pb_istream, bytes) cfun" where
  "raw_varint io max_size buf =
     (if length buf + 1 > max_size then fail
      else bnd (pb_read io 1) (\<lambda>bs. if hd bs AND 0x80 \<noteq> 0 then raw_varint io max_size (buf @ [hd bs]) else ret (buf @ [hd bs])))"
  by pat_completeness auto
termination by (relation "measure (\<lambda>(io, max_size, buf). max_size - length buf)") auto

declare raw_varint.simps [simp del]

definition read_raw_value :: "'s pb_io \<Rightarrow> pb_wire_type \<Rightarrow> nat \<Rightarrow> ('s pb_istream, bytes) cfun" where
  "read_raw_value io wire_type max_size =
     (if wire_type = PB_WT_VARINT then raw_varint io max_size []
      else if wire_type = PB_WT_64BIT then pb_read io 8
      else if wire_type = PB_WT_32BIT then pb_read io 4
      else PB_RETURN_ERROR ''invalid wire_type'')"

text \<open>Substreams: the new stream is the result.\<close>

definition pb_make_string_substream :: "'s pb_io \<Rightarrow> ('s pb_istream, 's pb_istream) cfun" where
  "pb_make_string_substream io =
     bnd (pb_decode_varint32 io) (\<lambda>size s.
       if bytes_left s < unat size then PB_RETURN_ERROR ''parent stream too short'' s
       else (Ok (s\<lparr>bytes_left := unat size\<rparr>), s\<lparr>bytes_left := size_sub (bytes_left s) (unat size)\<rparr>))"

definition pb_close_string_substream :: "'s pb_io \<Rightarrow> 's pb_istream \<Rightarrow> ('s pb_istream, 's pb_istream) cfun" where
  "pb_close_string_substream io substream s =
     (case if bytes_left substream \<noteq> 0 then pb_read_null io (bytes_left substream) substream else ret () substream of
        (Fail, sub) \<Rightarrow> (Fail, s)
      | (Undef, sub) \<Rightarrow> (Undef, s)
      | (Ok _, sub) \<Rightarrow> (Ok sub, s\<lparr>source := source sub, errmsg := errmsg sub\<rparr>))"

subsection \<open>Fixed-length and signed integers\<close>

text \<open>Signed results are the bit patterns of the \<^verbatim>\<open>int64_t\<close>.\<close>

definition pb_decode_svarint :: "'s pb_io \<Rightarrow> ('s pb_istream, u64) cfun" where
  "pb_decode_svarint io =
     bnd (pb_decode_varint io) (\<lambda>v. ret (if v AND 1 \<noteq> 0 then NOT (drop_bit 1 v) else drop_bit 1 v))"

definition pb_decode_fixed32 :: "'s pb_io \<Rightarrow> ('s pb_istream, u32) cfun" where
  "pb_decode_fixed32 io =
     bnd (pb_read io 4) (\<lambda>bs. ret (push_bit 0 (ucast (bs ! 0)) OR push_bit 8 (ucast (bs ! 1)) OR
       push_bit 16 (ucast (bs ! 2)) OR push_bit 24 (ucast (bs ! 3))))"

definition pb_decode_fixed64 :: "'s pb_io \<Rightarrow> ('s pb_istream, u64) cfun" where
  "pb_decode_fixed64 io =
     bnd (pb_read io 8) (\<lambda>bs. ret (push_bit 0 (ucast (bs ! 0)) OR push_bit 8 (ucast (bs ! 1)) OR
       push_bit 16 (ucast (bs ! 2)) OR push_bit 24 (ucast (bs ! 3)) OR push_bit 32 (ucast (bs ! 4)) OR
       push_bit 40 (ucast (bs ! 5)) OR push_bit 48 (ucast (bs ! 6)) OR push_bit 56 (ucast (bs ! 7))))"

subsection \<open>Field descriptors\<close>

text \<open>\<^verbatim>\<open>struct pb_field_s\<close>; the last member is the address of the default value or the submessage's table.\<close>

record pb_field =
  f_tag :: u32
  f_type :: u8
  data_offset :: u32
  size_offset :: "32 word"
  data_size :: u32
  array_size :: u32
  f_ptr :: u64

abbreviation (input) PB_SIZE_MAX :: u32 where "PB_SIZE_MAX \<equiv> 0xffffffff"

abbreviation (input) PB_LTYPE_BOOL :: u8 where "PB_LTYPE_BOOL \<equiv> 0x00"
abbreviation (input) PB_LTYPE_VARINT :: u8 where "PB_LTYPE_VARINT \<equiv> 0x01"
abbreviation (input) PB_LTYPE_UVARINT :: u8 where "PB_LTYPE_UVARINT \<equiv> 0x02"
abbreviation (input) PB_LTYPE_SVARINT :: u8 where "PB_LTYPE_SVARINT \<equiv> 0x03"
abbreviation (input) PB_LTYPE_FIXED32 :: u8 where "PB_LTYPE_FIXED32 \<equiv> 0x04"
abbreviation (input) PB_LTYPE_FIXED64 :: u8 where "PB_LTYPE_FIXED64 \<equiv> 0x05"
abbreviation (input) PB_LTYPE_BYTES :: u8 where "PB_LTYPE_BYTES \<equiv> 0x06"
abbreviation (input) PB_LTYPE_STRING :: u8 where "PB_LTYPE_STRING \<equiv> 0x07"
abbreviation (input) PB_LTYPE_SUBMESSAGE :: u8 where "PB_LTYPE_SUBMESSAGE \<equiv> 0x08"
abbreviation (input) PB_LTYPE_EXTENSION :: u8 where "PB_LTYPE_EXTENSION \<equiv> 0x09"
abbreviation (input) PB_LTYPE_FIXED_LENGTH_BYTES :: u8 where "PB_LTYPE_FIXED_LENGTH_BYTES \<equiv> 0x0A"

abbreviation (input) PB_HTYPE_REQUIRED :: u8 where "PB_HTYPE_REQUIRED \<equiv> 0x00"
abbreviation (input) PB_HTYPE_REPEATED :: u8 where "PB_HTYPE_REPEATED \<equiv> 0x20"
abbreviation (input) PB_HTYPE_ONEOF :: u8 where "PB_HTYPE_ONEOF \<equiv> 0x30"

abbreviation (input) PB_ATYPE_STATIC :: u8 where "PB_ATYPE_STATIC \<equiv> 0x00"
abbreviation (input) PB_ATYPE_POINTER :: u8 where "PB_ATYPE_POINTER \<equiv> 0x80"

definition PB_ATYPE :: "u8 \<Rightarrow> u8" where "PB_ATYPE x = x AND 0xC0"
definition PB_HTYPE :: "u8 \<Rightarrow> u8" where "PB_HTYPE x = x AND 0x30"
definition PB_LTYPE :: "u8 \<Rightarrow> u8" where "PB_LTYPE x = x AND 0x0F"

end
