(* ===== verification/Pb_Safe.thy ===== *)
theory Pb_Safe
  imports Pb_Decode
begin

text \<open>
  The contract between nanopb's decoder and the source of its bytes, as a locale: under it no operation
  reads past the end, every loop ends, and what is left only shrinks. Buffers keep the contract.
\<close>

subsection \<open>The contract of a source\<close>

text \<open>
  What the decoder relies on, and what it then promises: it asks the source for no more than is left,
  its loops end within their fuel, it never leaves the source's bounds, and what is left only shrinks.
  A source that fails may also declare the end of the stream. Substreams, streams with less left, are
  sources again.
\<close>

locale pb_contract =
  fixes io :: "'s pb_io"
    and inv :: "'s pb_istream \<Rightarrow> bool"
  assumes call_Ok: "inv s \<Longrightarrow> n \<le> bytes_left s \<Longrightarrow> stream_callback io n s = (Ok bs, s') \<Longrightarrow>
      length bs = n \<and> bytes_left s' = bytes_left s \<and> inv (s'\<lparr>bytes_left := bytes_left s - n\<rparr>)"
    and call_Fail: "inv s \<Longrightarrow> n \<le> bytes_left s \<Longrightarrow> stream_callback io n s = (Fail, s') \<Longrightarrow> inv s' \<and> bytes_left s' \<le> bytes_left s"
    and call_defined: "inv s \<Longrightarrow> n \<le> bytes_left s \<Longrightarrow> fst (stream_callback io n s) \<noteq> Undef"
    and inv_errmsg: "inv s \<Longrightarrow> inv (s\<lparr>errmsg := e\<rparr>)"
    and inv_shrink: "inv s \<Longrightarrow> n \<le> bytes_left s \<Longrightarrow> inv (s\<lparr>bytes_left := n\<rparr>)"
begin

definition kept :: "'s pb_istream \<Rightarrow> 'a res \<times> 's pb_istream \<Rightarrow> bool" where
  "kept s res \<longleftrightarrow> fst res \<noteq> Undef \<and> inv (snd res) \<and> bytes_left (snd res) \<le> bytes_left s"

definition fine :: "('s pb_istream, 'a) cfun \<Rightarrow> bool" where
  "fine m \<longleftrightarrow> (\<forall>s. inv s \<longrightarrow> kept s (m s))"

text \<open>The loops are fine on streams that their fuel outlasts.\<close>

definition lasts :: "nat \<Rightarrow> ('s pb_istream, 'a) cfun \<Rightarrow> bool" where
  "lasts n m \<longleftrightarrow> (\<forall>s. inv s \<longrightarrow> bytes_left s < n \<longrightarrow> kept s (m s))"

lemma kept_simps [simp]:
  "kept s (Ok a, t) \<longleftrightarrow> inv t \<and> bytes_left t \<le> bytes_left s"
  "kept s (Fail, t) \<longleftrightarrow> inv t \<and> bytes_left t \<le> bytes_left s"
  "\<not> kept s (Undef, t)"
  by (auto simp: kept_def)

lemma kept_trans: "kept s (Ok a, u) \<Longrightarrow> kept u res \<Longrightarrow> kept s res"
  by (auto simp: kept_def)

lemma kept_error: "inv s \<Longrightarrow> kept s (PB_RETURN_ERROR msg s)"
  by (simp add: PB_RETURN_ERROR_def inv_errmsg)

lemma kept_bnd:
  assumes "kept s (m s)" "\<And>a t. m s = (Ok a, t) \<Longrightarrow> kept t (f a t)"
  shows "kept s (bnd m f s)"
proof (cases "m s")
  case (Pair r t)
  then show ?thesis using assms by (cases r) (auto simp: bnd_def kept_def)
qed

lemma fine_intros: "fine (ret a)" "fine (PB_RETURN_ERROR msg)" "fine fail"
  by (simp_all add: fine_def kept_error)

lemma fineD: "fine m \<Longrightarrow> inv s \<Longrightarrow> kept s (m s)"
  by (simp add: fine_def)

lemma fine_bnd: "fine m \<Longrightarrow> (\<And>a. fine (f a)) \<Longrightarrow> fine (bnd m f)"
  unfolding fine_def by (intro allI impI kept_bnd) (auto simp: kept_def dest: spec)

lemma fine_if: "(b \<Longrightarrow> fine m) \<Longrightarrow> (\<not> b \<Longrightarrow> fine m') \<Longrightarrow> fine (if b then m else m')"
  by simp

lemma lasts_fine: "fine m \<Longrightarrow> lasts n m"
  by (simp add: fine_def lasts_def)

lemma lasts_if: "(b \<Longrightarrow> lasts n m) \<Longrightarrow> (\<not> b \<Longrightarrow> lasts n m') \<Longrightarrow> lasts n (if b then m else m')"
  by simp

lemma lasts_bnd:
  assumes "fine m" "\<And>a. lasts n (f a)"
  shows "lasts n (bnd m f)"
  unfolding lasts_def
proof (intro allI impI kept_bnd)
  fix s assume s: "inv s" "bytes_left s < n"
  show k: "kept s (m s)" using assms(1) s(1) by (rule fineD)
  fix a t assume "m s = (Ok a, t)"
  then have "inv t" "bytes_left t < n" using k s(2) by auto
  then show "kept t (f a t)" using assms(2) [of a] by (simp add: lasts_def)
qed

lemma lasts_consume:
  assumes "fine m" "\<And>s a t. inv s \<Longrightarrow> m s = (Ok a, t) \<Longrightarrow> bytes_left t < bytes_left s" "\<And>a. lasts n (f a)"
  shows "lasts (Suc n) (bnd m f)"
  unfolding lasts_def
proof (intro allI impI kept_bnd)
  fix s assume s: "inv s" "bytes_left s < Suc n"
  show k: "kept s (m s)" using assms(1) s(1) by (rule fineD)
  fix a t assume m: "m s = (Ok a, t)"
  then have "inv t" "bytes_left t < n" using k s assms(2) [OF s(1) m] by auto
  then show "kept t (f a t)" using assms(3) [of a] by (simp add: lasts_def)
qed

lemma call_cases:
  assumes s: "inv s" "n \<le> bytes_left s"
  obtains (ok) bs s' where "stream_callback io n s = (Ok bs, s')" "length bs = n" "bytes_left s' = bytes_left s"
      "inv (s'\<lparr>bytes_left := bytes_left s - n\<rparr>)"
  | (fail) s' where "stream_callback io n s = (Fail, s')" "inv s'" "bytes_left s' \<le> bytes_left s"
proof (cases "stream_callback io n s")
  case (Pair r s')
  show ?thesis
  proof (cases r)
    case (Ok bs)
    then show ?thesis using call_Ok [OF s, of bs s'] Pair by (intro ok [of bs s']) simp_all
  next
    case Fail
    then show ?thesis using call_Fail [OF s, of s'] Pair by (intro fail [of s']) simp_all
  next
    case Undef
    then show ?thesis using call_defined [OF s] Pair by simp
  qed
qed

lemma read_cases:
  assumes s: "inv s"
  obtains (ok) bs t where "pb_read io n s = (Ok bs, t)" "length bs = n" "inv t" "n \<le> bytes_left s" "bytes_left t = bytes_left s - n"
  | (fail) t where "pb_read io n s = (Fail, t)" "inv t" "bytes_left t \<le> bytes_left s"
proof (cases "n \<le> bytes_left s")
  case True
  show ?thesis
  proof (cases "n = 0")
    case True
    then show ?thesis using s by (intro ok [of "[]" s]) (simp_all add: pb_read_def)
  next
    case False
    from s True show ?thesis
    proof (cases rule: call_cases)
      case (ok bs t)
      then show ?thesis using that(1) [of bs "t\<lparr>bytes_left := bytes_left s - n\<rparr>"] False True
        by (simp add: pb_read_def size_sub_def)
    next
      case (fail t)
      then show ?thesis using that(2) False True by (simp add: pb_read_def PB_RETURN_ERROR_def inv_errmsg)
    qed
  qed
next
  case False
  then show ?thesis using that(2) s by (simp add: pb_read_def PB_RETURN_ERROR_def inv_errmsg)
qed

lemma fine_read: "fine (pb_read io n)"
  unfolding fine_def
proof (intro allI impI)
  fix s assume "inv s"
  then show "kept s (pb_read io n s)" by (cases rule: read_cases [where n = n]) simp_all
qed

lemma readbyte_read: "pb_readbyte io s = bnd (pb_read io 1) (\<lambda>bs. ret (hd bs)) s"
  by (auto simp: pb_readbyte_def pb_read_def bnd_def PB_RETURN_ERROR_def split: prod.splits res.splits)

lemma fine_readbyte: "fine (pb_readbyte io)"
  unfolding readbyte_read [abs_def] by (intro fine_bnd fine_read fine_intros)

lemma readbyte_consumes: "inv s \<Longrightarrow> pb_readbyte io s = (Ok a, t) \<Longrightarrow> bytes_left t < bytes_left s"
  unfolding readbyte_read by (erule read_cases [where n = 1]) (auto simp: bnd_def)

lemma read_consumes: "inv s \<Longrightarrow> pb_read io 1 s = (Ok a, t) \<Longrightarrow> bytes_left t < bytes_left s"
  by (erule read_cases [where n = 1]) auto

lemma fine_skip_pieces: "fine (skip_pieces io n)"
proof (induction n rule: less_induct)
  case (less n)
  show ?case
    by (subst skip_pieces.simps) (intro fine_if fine_bnd fine_read fine_intros less, simp)
qed

lemma fine_read_null: "fine (pb_read_null io n)"
  unfolding fine_def pb_read_null_def
  using fineD [OF fine_skip_pieces] fineD [OF fine_bnd [OF fine_read fine_intros(1)]]
  by (auto split: pb_source.split)

lemma lasts_varint32: "lasts n (varint32_loop io n b r)"
proof (induction n arbitrary: b r)
  case 0
  then show ?case by (simp add: lasts_def)
next
  case (Suc n)
  show ?case
    unfolding varint32_loop.simps Let_def
    by (intro lasts_consume fine_readbyte readbyte_consumes lasts_bnd lasts_if fine_if fine_intros Suc lasts_fine)
qed

lemma fine_varint: "fine (varint_loop io b r)"
proof (induction "64 - b" arbitrary: b r rule: less_induct)
  case less
  show ?case
    by (subst varint_loop.simps) (unfold Let_def, intro fine_if fine_bnd fine_intros fine_readbyte less, simp)
qed

lemma lasts_skip_varint: "lasts n (skip_varint_loop io n)"
proof (induction n)
  case 0
  then show ?case by (simp add: lasts_def)
next
  case (Suc n)
  show ?case
    unfolding skip_varint_loop.simps by (intro lasts_consume fine_read read_consumes lasts_if Suc lasts_fine fine_intros)
qed

lemma fine_raw_varint: "fine (raw_varint io m buf)"
proof (induction "m - length buf" arbitrary: buf rule: less_induct)
  case less
  show ?case
    by (subst raw_varint.simps) (intro fine_if fine_bnd fine_intros fine_read less, simp)
qed

lemma kept_varint32_eof:
  assumes s: "inv s" and v: "pb_decode_varint32_eof io s = (r, eof, t)"
  shows "kept s (r, t)" "eof \<Longrightarrow> bytes_left t = 0"
proof -
  obtain r1 u where b: "pb_readbyte io s = (r1, u)" by fastforce
  have k: "kept s (r1, u)" using fineD [OF fine_readbyte s] b by simp
  have l: "inv u \<Longrightarrow> kept u (varint32_loop io (Suc (bytes_left u)) 7 x u)" for x
    using lasts_varint32 by (simp add: lasts_def del: varint32_loop.simps)
  have "kept s (r, t) \<and> (eof \<longrightarrow> bytes_left t = 0)"
  proof (cases r1)
    case (Ok x)
    then have "inv u" using k by simp
    from l [OF this, of "ucast (x AND 0x7f)"] this have "kept u (r, t)"
      using v b Ok by (cases "x AND 0x80 = 0") (auto simp: pb_decode_varint32_eof_def simp del: varint32_loop.simps split: prod.splits)
    moreover have "\<not> eof" using v b Ok by (auto simp: pb_decode_varint32_eof_def simp del: varint32_loop.simps split: prod.splits if_splits)
    ultimately show ?thesis using k Ok by (auto simp: kept_def)
  qed (use k v b in \<open>auto simp: pb_decode_varint32_eof_def\<close>)
  then show "kept s (r, t)" "eof \<Longrightarrow> bytes_left t = 0" by blast+
qed

lemma fine_varint32: "fine (pb_decode_varint32 io)"
  unfolding fine_def pb_decode_varint32_def using kept_varint32_eof(1) by (auto split: prod.splits)

lemma kept_tag: "inv s \<Longrightarrow> pb_decode_tag io s = (r, eof, t) \<Longrightarrow> kept s (r, t)"
  using kept_varint32_eof(1) [of s]
  by (cases "pb_decode_varint32_eof io s"; cases "fst (pb_decode_varint32_eof io s)")
    (auto simp: pb_decode_tag_def kept_def split: if_splits)

lemma fine_skip_varint: "fine (pb_skip_varint io)"
  using lasts_skip_varint by (simp add: fine_def lasts_def pb_skip_varint_def del: skip_varint_loop.simps)

lemma fine_skip_string: "fine (pb_skip_string io)"
  unfolding pb_skip_string_def by (intro fine_bnd fine_varint32 fine_read_null)

lemmas fine_ops = fine_read fine_readbyte fine_read_null fine_varint32 fine_skip_varint fine_skip_string fine_raw_varint

lemma fine_skip_field: "fine (pb_skip_field io w)"
  unfolding pb_skip_field_def by (intro fine_if fine_ops fine_intros)

lemma fine_raw_value: "fine (read_raw_value io w m)"
  unfolding read_raw_value_def by (intro fine_if fine_ops fine_intros)

lemma fine_decode_varint: "fine (pb_decode_varint io)"
  unfolding pb_decode_varint_def by (rule fine_varint)

lemma fine_integers: "fine (pb_decode_svarint io)" "fine (pb_decode_fixed32 io)" "fine (pb_decode_fixed64 io)"
  unfolding pb_decode_svarint_def pb_decode_fixed32_def pb_decode_fixed64_def
  by (intro fine_bnd fine_decode_varint fine_read fine_intros)+

text \<open>A substream and its parent: together they have what the parent had after the length.\<close>

lemma substream:
  assumes "inv s"
  shows "kept s (pb_make_string_substream io s)"
    and "pb_make_string_substream io s = (Ok sub, t) \<Longrightarrow>
      inv sub \<and> source sub = source t \<and> bytes_left sub + bytes_left t \<le> bytes_left s"
proof -
  obtain r u where v: "pb_decode_varint32 io s = (r, u)" by fastforce
  have k: "kept s (r, u)" using fineD [OF fine_varint32 assms] v by simp
  show "kept s (pb_make_string_substream io s)"
    using k by (cases r) (auto simp: pb_make_string_substream_def v bnd_def PB_RETURN_ERROR_def inv_errmsg inv_shrink size_sub_def)
  show "pb_make_string_substream io s = (Ok sub, t) \<Longrightarrow>
      inv sub \<and> source sub = source t \<and> bytes_left sub + bytes_left t \<le> bytes_left s"
    using k by (cases r) (auto simp: pb_make_string_substream_def v bnd_def PB_RETURN_ERROR_def inv_shrink size_sub_def split: if_splits)
qed

end

subsection \<open>Buffers\<close>

text \<open>A stream over a buffer keeps the contract: it is never read past the end of its memory.\<close>

definition buffer_ok :: "'s pb_istream \<Rightarrow> bool" where
  "buffer_ok s \<longleftrightarrow> (case source s of Buffer mem \<Rightarrow> bytes_left s \<le> length mem | Callback _ \<Rightarrow> False)"

interpretation buffer: pb_contract io buffer_ok
  by unfold_locales
    (auto simp: buffer_ok_def stream_callback_def buf_read_def split: pb_source.splits if_splits)

lemma from_buffer_ok: "n \<le> length mem \<Longrightarrow> buffer_ok (pb_istream_from_buffer mem n)"
  by (simp add: buffer_ok_def pb_istream_from_buffer_def)

end
