(* ===== verification/Pb_Wire.thy ===== *)
theory Pb_Wire
  imports Pb_Safe
begin

text \<open>
  The formats that nanopb's decoder reads, as functions from values to bytes, and what it does on them.
\<close>

subsection \<open>Bytes in front of a stream\<close>

text \<open>\<open>feed bs s\<close> is the buffer stream \<open>s\<close> with \<open>bs\<close> in front of what is left. The formats below are
  codecs on such streams.\<close>

definition is_buffer :: "'s pb_istream \<Rightarrow> bool" where
  "is_buffer s \<longleftrightarrow> (\<exists>mem. source s = Buffer mem)"

definition feed :: "bytes \<Rightarrow> 's pb_istream \<Rightarrow> 's pb_istream" where
  "feed bs s = s\<lparr>source := (case source s of Buffer mem \<Rightarrow> Buffer (bs @ mem) | Callback st \<Rightarrow> Callback st),
                bytes_left := length bs + bytes_left s\<rparr>"

lemma feed_append: "feed (xs @ ys) s = feed xs (feed ys s)"
  by (simp add: feed_def split: pb_source.split)

lemma feed_Nil: "feed [] s = s"
  by (cases s) (simp add: feed_def split: pb_source.split)

lemma is_buffer_feed: "is_buffer s \<Longrightarrow> is_buffer (feed bs s)"
  by (auto simp: is_buffer_def feed_def)

lemma buffer_ok_is_buffer: "buffer_ok s \<Longrightarrow> is_buffer s"
  by (auto simp: buffer_ok_def is_buffer_def split: pb_source.splits)

lemma buffer_ok_feed: "buffer_ok s \<Longrightarrow> buffer_ok (feed bs s)"
  by (auto simp: buffer_ok_def feed_def split: pb_source.splits)

lemma buffer_ok_start: "buffer_ok (pb_istream_from_buffer [] 0)"
  by (simp add: from_buffer_ok)

lemma feed_from_buffer: "feed bs (pb_istream_from_buffer mem n) = pb_istream_from_buffer (bs @ mem) (length bs + n)"
  by (simp add: feed_def pb_istream_from_buffer_def)

lemma bytes_left_feed [simp]: "bytes_left (feed bs s) = length bs + bytes_left s"
  by (simp add: feed_def)

lemma read_feed:
  assumes "is_buffer s"
  shows "pb_read io (length bs) (feed bs s) = (Ok bs, s)"
proof -
  obtain mem where s: "source s = Buffer mem" using assms by (auto simp: is_buffer_def)
  show ?thesis
    by (cases s) (use s in \<open>auto simp: pb_read_def feed_def stream_callback_def buf_read_def size_sub_def\<close>)
qed

lemma readbyte_feed: "is_buffer s \<Longrightarrow> pb_readbyte io (feed (b # bs) s) = (Ok b, feed bs s)"
  using read_feed [of "feed bs s" io "[b]"] is_buffer_feed [of s bs]
  by (simp add: buffer.readbyte_read bnd_def feed_append [symmetric])

lemma read_null_feed:
  assumes "is_buffer s"
  shows "pb_read_null io (length bs) (feed bs s) = (Ok (), s)"
proof -
  obtain mem where "source (feed bs s) = Buffer mem" using is_buffer_feed [OF assms] by (auto simp: is_buffer_def)
  then show ?thesis using read_feed [OF assms, of io bs] by (auto simp: pb_read_null_def bnd_def feed_Nil)
qed

subsection \<open>Varints\<close>

function varint :: "u64 \<Rightarrow> bytes" where
  "varint v = (if v < 0x80 then [ucast v] else (ucast (v AND 0x7f) OR 0x80) # varint (drop_bit 7 v))"
  by pat_completeness auto
termination
proof (relation "measure unat")
  fix v :: u64 assume "\<not> v < 0x80"
  then have "v \<noteq> 0" by (auto simp: word_less_nat_alt)
  then show "(drop_bit 7 v, v) \<in> measure unat" using drop_bit_less [of v 7] by simp
qed simp

declare varint.simps [simp del]

lemma varint_small: "v < 0x80 \<Longrightarrow> varint v = [ucast v]"
  by (simp add: varint.simps [of v])

lemma varint_big: "\<not> v < 0x80 \<Longrightarrow> varint v = (ucast (v AND 0x7f) OR 0x80) # varint (drop_bit 7 v)"
  by (simp add: varint.simps [of v])

lemma varint_Cons: "\<exists>b bs. varint v = b # bs"
  by (cases "v < 0x80") (simp_all add: varint_small varint_big)

lemma less_80: "v < 0x80 \<longleftrightarrow> drop_bit 7 v = (0 :: u64)"
  by (simp add: drop_bit_eq_0_iff word_less_nat_alt)

lemma varint_length_bound: "unat v < 2 ^ (7 * Suc k) \<Longrightarrow> length (varint v) \<le> Suc k"
proof (induction k arbitrary: v)
  case 0
  then show ?case by (simp add: varint_small word_less_nat_alt)
next
  case (Suc k)
  show ?case
  proof (cases "v < 0x80")
    case False
    have "unat (drop_bit 7 v) = unat v div 2 ^ 7" unfolding unat_drop_bit_eq by (rule drop_bit_eq_div)
    moreover have "unat v < 2 ^ (7 * Suc k) * 2 ^ 7" using Suc.prems unfolding power_add [symmetric] by (simp add: algebra_simps)
    ultimately have "unat (drop_bit 7 v) < 2 ^ (7 * Suc k)" by (simp add: less_mult_imp_div_less)
    then show ?thesis using Suc.IH False by (simp add: varint_big)
  qed (simp add: varint_small)
qed

lemma varint_length: "length (varint v) \<le> 10"
proof -
  have "unat v < 2 ^ 64" using unsigned_less [of v, where ?'a = nat] by simp
  also have "\<dots> < 2 ^ (7 * Suc 9)" by (rule power_strict_increasing) simp_all
  finally show ?thesis using varint_length_bound [of v 9] by simp
qed

text \<open>The bytes of a varint.\<close>

lemma varint_byte:
  "(ucast (v AND 0x7f) OR 0x80 :: u8) AND 0x80 \<noteq> 0" "(ucast (v AND 0x7f) OR 0x80 :: u8) AND 0x7f = ucast (take_bit 7 (v :: u64))"
  "v < 0x80 \<Longrightarrow> (ucast v :: u8) AND 0x80 = 0" "v < 0x80 \<Longrightarrow> (ucast v :: u8) AND 0x7f = ucast (take_bit 7 v)"
proof -
  show "(ucast (v AND 0x7f) OR 0x80 :: u8) AND 0x80 \<noteq> 0"
    unfolding and_80 by (simp add: bit_simps bit_consts)
  show "(ucast (v AND 0x7f) OR 0x80 :: u8) AND 0x7f = ucast (take_bit 7 v)"
    by (rule bit_word_eqI) (auto simp: bit_simps bit_consts)
  assume "v < 0x80"
  then have "unat v < 2 ^ 7" by (simp add: word_less_nat_alt)
  then have small: "bit v n \<Longrightarrow> n < 7" for n using bits_below by blast
  show "(ucast v :: u8) AND 0x80 = 0" unfolding and_80 using small [of 7] by (auto simp: bit_simps)
  show "(ucast v :: u8) AND 0x7f = ucast (take_bit 7 v)"
    by (rule bit_word_eqI) (auto simp: bit_simps bit_consts dest: small)
qed

lemma ucast_take_7: "ucast (ucast (take_bit 7 (v :: u64)) :: u8) = take_bit 7 v"
  "ucast (ucast (take_bit 7 (v :: u64)) :: u8) = (take_bit 7 (ucast v) :: u32)"
  by (rule bit_word_eqI; auto simp: bit_simps)+

lemma join_7: "push_bit k (take_bit 7 v) OR push_bit (k + 7) (drop_bit 7 v) = push_bit k (v :: 'a::len word)"
proof -
  have "take_bit 7 v OR push_bit 7 (drop_bit 7 v) = v" using append_low_bits [of 7 0 v] by (simp add: or.commute)
  then show ?thesis by (metis push_bit_or push_bit_push_bit)
qed

lemma varint_loop_feed:
  "is_buffer s \<Longrightarrow> k < 64 \<Longrightarrow> drop_bit (64 - k) v = 0 \<Longrightarrow>
   varint_loop io k r (feed (varint v) s) = (Ok (r OR push_bit k v), s)"
proof (induction v arbitrary: k r rule: varint.induct)
  case (1 v)
  show ?case
  proof (cases "v < 0x80")
    case True
    then have "take_bit 7 v = v" using bits_ident [of 7 v] by (simp add: less_80)
    then show ?thesis
      using 1 True varint_byte [of v] ucast_take_7 [of v]
      by (simp add: varint_loop.simps varint_small bnd_def readbyte_feed feed_Nil)
  next
    case False
    have "drop_bit 7 v \<noteq> 0" using False less_80 by simp
    have "\<not> 64 - k \<le> 7"
    proof
      assume "64 - k \<le> 7"
      then have "drop_bit 7 v = drop_bit (7 - (64 - k)) (drop_bit (64 - k) v)" by simp
      then show False using 1(4) \<open>drop_bit 7 v \<noteq> 0\<close> by simp
    qed
    then have k: "k + 7 < 64" "64 - (k + 7) + 7 = 64 - k" by auto
    have "drop_bit (64 - (k + 7)) (drop_bit 7 v) = 0" using 1(4) k(2) by (simp add: add.commute)
    with 1(1) [OF False 1(2) k(1)] have ih: "varint_loop io (k + 7) r' (feed (varint (drop_bit 7 v)) s) = (Ok (r' OR push_bit (k + 7) (drop_bit 7 v)), s)" for r'
      by blast
    show ?thesis
      using 1(2,3) False varint_byte(1,2) [of v] ucast_take_7 [of v] ih
      by (subst varint_loop.simps) (simp add: varint_big bnd_def readbyte_feed is_buffer_feed or.assoc join_7)
  qed
qed

lemma decode_varint_feed: "is_buffer s \<Longrightarrow> pb_decode_varint io (feed (varint v) s) = (Ok v, s)"
  using varint_loop_feed [of s 0 v io 0] by (simp add: pb_decode_varint_def)

interpretation varint_codec: codec feed buffer_ok varint "pb_decode_varint io" "\<lambda>_. True" "pb_istream_from_buffer [] 0"
  by unfold_locales (simp_all add: feed_append feed_Nil buffer_ok_feed buffer_ok_start buffer_ok_is_buffer decode_varint_feed)

subsection \<open>Signed and fixed-length integers\<close>

text \<open>The zigzag coding: 0, -1, 1, -2, ... become 0, 1, 2, 3, ...\<close>

definition zigzag :: "u64 \<Rightarrow> u64" where
  "zigzag v = (if sint v < 0 then NOT (push_bit 1 v) else push_bit 1 v)"

definition svarint :: "u64 \<Rightarrow> bytes" where
  "svarint v = varint (zigzag v)"

lemma sint_neg: "sint (v :: u64) < 0 \<longleftrightarrow> bit v 63"
  using signed_take_bit_nonnegative_iff [of 63 "uint v"] by (auto simp: sint_uint bit_uint_iff)

lemma and_1: "(v :: u64) AND 1 \<noteq> 0 \<longleftrightarrow> bit v 0"
  by (simp add: bit_0 odd_iff_mod_2_eq_one and_one_eq)

lemma shift_back:
  fixes v :: u64
  assumes "63 + k = 64"
  shows "bit v 63 \<Longrightarrow> NOT (drop_bit k (NOT (push_bit k v))) = v" "\<not> bit v 63 \<Longrightarrow> drop_bit k (push_bit k v) = v"
proof -
  have n: "n < 64 \<Longrightarrow> \<not> k + n < 64 \<Longrightarrow> n = 63" for n using assms by arith
  show "NOT (drop_bit k (NOT (push_bit k v))) = v" if "bit v 63"
  proof (rule bit_word_eqI)
    fix i assume "i < LENGTH(64)"
    then show "bit (NOT (drop_bit k (NOT (push_bit k v)))) i \<longleftrightarrow> bit v i"
      using n [of i] that by (cases "k + i < 64") (auto simp: bit_simps)
  qed
  show "drop_bit k (push_bit k v) = v" if "\<not> bit v 63"
  proof (rule bit_word_eqI)
    fix i assume "i < LENGTH(64)"
    then show "bit (drop_bit k (push_bit k v)) i \<longleftrightarrow> bit v i"
      using n [of i] that by (cases "k + i < 64") (auto simp: bit_simps)
  qed
qed

lemma unzigzag: "(if zigzag v AND 1 \<noteq> 0 then NOT (drop_bit 1 (zigzag v)) else drop_bit 1 (zigzag v)) = v"
proof -
  have "bit (NOT (push_bit 1 v)) 0" "\<not> bit (push_bit 1 v) 0"
    unfolding bit_not_iff bit_push_bit_iff by simp_all
  then have "bit (zigzag v) 0 \<longleftrightarrow> bit v 63" by (simp only: zigzag_def sint_neg split: if_split) simp
  then show ?thesis unfolding and_1 using shift_back [of 1 v] by (simp only: zigzag_def sint_neg split: if_split) simp
qed

lemma decode_svarint_feed: "is_buffer s \<Longrightarrow> pb_decode_svarint io (feed (svarint v) s) = (Ok v, s)"
  by (simp add: pb_decode_svarint_def svarint_def bnd_def decode_varint_feed unzigzag del: not_not)

interpretation svarint_codec: codec feed buffer_ok svarint "pb_decode_svarint io" "\<lambda>_. True" "pb_istream_from_buffer [] 0"
  by unfold_locales (simp_all add: feed_append feed_Nil buffer_ok_feed buffer_ok_start buffer_ok_is_buffer decode_svarint_feed)

lemma join_bytes: "take_bit n v OR push_bit n (ucast (ucast (drop_bit n v) :: u8)) = take_bit (8 + n) (v :: 'a::len word)"
  by (rule bit_word_eqI) (auto simp: bit_simps)

lemma or_chain_4: "a OR b OR c OR d = ((a OR b) OR c) OR (d :: 'a::len word)"
  by (simp add: or.assoc)

lemma decode_fixed32_feed: "is_buffer s \<Longrightarrow> pb_decode_fixed32 io (feed (le_bytes 4 (ucast v)) s) = (Ok v, s)"
proof -
  assume s: "is_buffer s"
  have c: "ucast (drop_bit k (ucast v :: u64)) = (ucast (drop_bit k v) :: u8)" for k
    by (rule bit_word_eqI) (auto simp: bit_simps dest: bit_imp_le_length)
  have "push_bit 0 (ucast (ucast (drop_bit 0 v) :: u8)) = take_bit 8 v" by (rule bit_word_eqI) (simp add: bit_simps)
  moreover have "take_bit 32 v = v" by (rule bit_word_eqI) (simp add: bit_simps)
  ultimately have "push_bit 0 (ucast (ucast (drop_bit 0 v) :: u8)) OR push_bit 8 (ucast (ucast (drop_bit 8 v) :: u8)) OR
     push_bit 16 (ucast (ucast (drop_bit 16 v) :: u8)) OR push_bit 24 (ucast (ucast (drop_bit 24 v) :: u8)) = v"
    unfolding or_chain_4 using join_bytes [of 8 v] join_bytes [of 16 v] join_bytes [of 24 v] by simp
  moreover have "pb_read io 4 (feed (le_bytes 4 (ucast v)) s) = (Ok (le_bytes 4 (ucast v)), s)"
    using read_feed [OF s, of io "le_bytes 4 (ucast v)"] by (simp only: length_le_bytes)
  ultimately show ?thesis unfolding pb_decode_fixed32_def bnd_def by (simp add: le_bytes_4 c)
qed

lemma decode_fixed64_feed: "is_buffer s \<Longrightarrow> pb_decode_fixed64 io (feed (le_bytes 8 v) s) = (Ok v, s)"
proof -
  assume s: "is_buffer s"
  have "push_bit 0 (ucast (ucast (drop_bit 0 v) :: u8)) = take_bit 8 v" by (rule bit_word_eqI) (simp add: bit_simps)
  moreover have "take_bit 64 v = v" by (rule bit_word_eqI) (simp add: bit_simps)
  ultimately have "push_bit 0 (ucast (ucast (drop_bit 0 v) :: u8)) OR push_bit 8 (ucast (ucast (drop_bit 8 v) :: u8)) OR
     push_bit 16 (ucast (ucast (drop_bit 16 v) :: u8)) OR push_bit 24 (ucast (ucast (drop_bit 24 v) :: u8)) OR
     push_bit 32 (ucast (ucast (drop_bit 32 v) :: u8)) OR push_bit 40 (ucast (ucast (drop_bit 40 v) :: u8)) OR
     push_bit 48 (ucast (ucast (drop_bit 48 v) :: u8)) OR push_bit 56 (ucast (ucast (drop_bit 56 v) :: u8)) = v"
    using join_bytes [of 8 v] join_bytes [of 16 v] join_bytes [of 24 v] join_bytes [of 32 v] join_bytes [of 40 v]
      join_bytes [of 48 v] join_bytes [of 56 v] by (simp add: or.assoc [symmetric])
  moreover have "pb_read io 8 (feed (le_bytes 8 v) s) = (Ok (le_bytes 8 v), s)"
    using read_feed [OF s, of io "le_bytes 8 v"] by (simp only: length_le_bytes)
  ultimately show ?thesis unfolding pb_decode_fixed64_def bnd_def by (simp add: le_bytes_8)
qed

interpretation fixed32_codec: codec feed buffer_ok "\<lambda>v. le_bytes 4 (ucast v)" "pb_decode_fixed32 io" "\<lambda>_. True" "pb_istream_from_buffer [] 0"
  by unfold_locales (simp_all add: feed_append feed_Nil buffer_ok_feed buffer_ok_start buffer_ok_is_buffer decode_fixed32_feed)

interpretation fixed64_codec: codec feed buffer_ok "le_bytes 8" "pb_decode_fixed64 io" "\<lambda>_. True" "pb_istream_from_buffer [] 0"
  by unfold_locales (simp_all add: feed_append feed_Nil buffer_ok_feed buffer_ok_start buffer_ok_is_buffer decode_fixed64_feed)

subsection \<open>32-bit varints\<close>

lemma bnd_readbyte: "is_buffer s \<Longrightarrow> bnd (pb_readbyte io) f (feed (b # bs) s) = f b (feed bs s)"
  by (simp add: bnd_def readbyte_feed)

lemma varint32_step:
  assumes s: "is_buffer s" and v: "\<not> v < 0x80" and b: "b < 32"
  shows "varint32_loop io (Suc n) b r (feed (varint v) s) =
     varint32_loop io n (b + 7) (r OR push_bit (unat b) (take_bit 7 (ucast v))) (feed (varint (drop_bit 7 v)) s)"
proof -
  let ?x = "ucast (v AND 0x7f) OR 0x80 :: u8"
  have b': "(b \<ge> 32) = False" using b by (simp add: not_le)
  have x: "(?x AND 0x80 \<noteq> 0) = True" using varint_byte(1) [of v] by simp
  have l: "ucast (?x AND 0x7f) = (take_bit 7 (ucast v) :: u32)" unfolding varint_byte(2) by (rule ucast_take_7)
  show ?thesis
    unfolding varint_big [OF v] varint32_loop.simps bnd_readbyte [OF s] b' if_False Let_def bnd_ret x if_True l ..
qed

lemma bit_112: "bit (112 :: int) i \<longleftrightarrow> 4 \<le> i \<and> i < 7"
proof -
  have "(112 :: int) = push_bit 4 (mask 3)" by (simp add: mask_eq_exp_minus_1)
  then show ?thesis by (simp only: bit_push_bit_iff bit_mask_iff) auto
qed

text \<open>The sign bytes of a negative 32-bit number, sent as 64 bits.\<close>

lemma varint32_sign_step:
  assumes "is_buffer s" "32 \<le> b" "b < 63" "bit r 31"
  shows "varint32_loop io (Suc n) b r (feed (0xff # bs) s) = varint32_loop io n (b + 7) r (feed bs s)"
proof -
  have "drop_bit 31 r \<noteq> 0"
  proof
    assume "drop_bit 31 r = 0"
    then have "\<not> bit (drop_bit 31 r) 0" by simp
    then show False using assms(4) by (simp add: bit_simps)
  qed
  then show ?thesis
    unfolding varint32_loop.simps bnd_readbyte [OF assms(1)] using assms(2,3) by simp
qed

lemma varint32_sign:
  assumes s: "is_buffer s" and r: "bit r 31"
  shows "varint32_loop io (Suc (Suc (Suc (Suc (Suc n))))) 35 r (feed [0xff, 0xff, 0xff, 0xff, 0x01] s) = (Ok r, s)"
proof -
  note step = varint32_sign_step [OF s _ _ r]
  have last: "varint32_loop io (Suc n) 63 r (feed [0x01] s) = (Ok r, s)"
  proof -
    have "drop_bit 31 r \<noteq> 0"
    proof
      assume "drop_bit 31 r = 0"
      then have "\<not> bit (drop_bit 31 r) 0" by simp
      then show False using r by (simp add: bit_simps)
    qed
    then show ?thesis
      unfolding varint32_loop.simps bnd_readbyte [OF s] by (simp add: feed_Nil)
  qed
  have "varint32_loop io (Suc m) 35 r (feed (0xff # bs) s) = varint32_loop io m 42 r (feed bs s)"
    "varint32_loop io (Suc m) 42 r (feed (0xff # bs) s) = varint32_loop io m 49 r (feed bs s)"
    "varint32_loop io (Suc m) 49 r (feed (0xff # bs) s) = varint32_loop io m 56 r (feed bs s)"
    "varint32_loop io (Suc m) 56 r (feed (0xff # bs) s) = varint32_loop io m 63 r (feed bs s)" for m bs
    using step [of 35] step [of 42] step [of 49] step [of 56] by simp_all
  then show ?thesis using last by (simp only:)
qed

text \<open>The loop from the second byte on: \<open>w\<close> is the number sent, of which \<open>k\<close> bits were read.\<close>

definition rest32 :: "'s pb_io \<Rightarrow> nat \<Rightarrow> nat \<Rightarrow> u64 \<Rightarrow> 's pb_istream \<Rightarrow> bool" where
  "rest32 io m k w s \<longleftrightarrow> (\<forall>n. varint32_loop io (n + m) (of_nat k) (take_bit k (ucast w)) (feed (varint (drop_bit k w)) s) = (Ok (ucast w), s))"

lemma low_step: "take_bit k (ucast w) OR push_bit k (take_bit 7 (ucast (drop_bit k w))) = (take_bit (k + 7) (ucast (w :: u64)) :: u32)"
  by (rule bit_word_eqI) (auto simp: bit_simps)

lemma varint32_last:
  assumes s: "is_buffer s" and v: "v < 0x80" and b: "b < 32" "b = 28 \<Longrightarrow> v < 0x10"
  shows "varint32_loop io (Suc n) b r (feed (varint v) s) = (Ok (r OR push_bit (unat b) (take_bit 7 (ucast v))), s)"
proof -
  have b': "(b \<ge> 32) = False" using b(1) by (simp add: not_le)
  have x: "((ucast v :: u8) AND 0x80 \<noteq> 0) = False" using varint_byte(3) [OF v] by simp
  have l: "ucast ((ucast v :: u8) AND 0x7f) = (take_bit 7 (ucast v) :: u32)" unfolding varint_byte(4) [OF v] by (rule ucast_take_7)
  have "b + 7 = 35 \<longleftrightarrow> b = 28" using eq_diff_eq [of b 35 7] by simp
  moreover have "v < 0x10 \<Longrightarrow> (ucast v :: u8) AND 0x70 = 0"
  proof -
    assume "v < 0x10"
    then have "unat v < 2 ^ 4" by (simp add: word_less_nat_alt)
    then have "bit v n \<Longrightarrow> n < 4" for n using bits_below by blast
    then show "(ucast v :: u8) AND 0x70 = 0" by (intro bit_word_eqI) (auto simp: bit_simps bit_112 dest!: leD)
  qed
  ultimately have c: "(b + 7 = 35 \<and> (ucast v :: u8) AND 0x70 \<noteq> 0) = False" using b(2) by blast
  then show ?thesis
    unfolding varint_small [OF v] varint32_loop.simps bnd_readbyte [OF s] b' if_False Let_def bnd_ret x l c by (simp add: feed_Nil)
qed

lemma ucast_low: "take_bit k w = w \<Longrightarrow> take_bit k (ucast w) = (ucast (w :: u64) :: u32)"
proof -
  assume w: "take_bit k w = w"
  have "bit w i \<Longrightarrow> i < k" for i using arg_cong [OF w, of "\<lambda>x. bit x i"] by (simp add: bit_take_bit_iff)
  then show ?thesis by (intro bit_word_eqI) (auto simp: bit_simps)
qed

lemma ucast_drop_small:
  assumes "drop_bit k w < (0x80 :: u64)" "k + 7 \<le> 35"
  shows "take_bit k (ucast w) OR push_bit k (take_bit 7 (ucast (drop_bit k w))) = (ucast w :: u32)"
proof -
  have "drop_bit (k + 7) w = 0" using assms(1) unfolding less_80 by (simp add: add.commute)
  then have "take_bit (k + 7) w = w" using bits_ident [of "k + 7" w] by simp
  then have "take_bit (k + 7) (ucast w) = (ucast w :: u32)" by (rule ucast_low)
  then show ?thesis unfolding low_step by simp
qed

lemma rest32_step:
  assumes s: "is_buffer s" and k: "k \<le> 21" and more: "rest32 io m (k + 7) w s"
  shows "rest32 io (Suc m) k w s"
  unfolding rest32_def
proof
  fix n
  have u: "unat (of_nat k :: u8) = k" "(of_nat k :: u8) < 32" "(of_nat k :: u8) \<noteq> 28"
    using k by (simp_all add: word_less_nat_alt word_unat_eq_iff unsigned_of_nat take_bit_nat_eq_self)
  show "varint32_loop io (n + Suc m) (of_nat k) (take_bit k (ucast w)) (feed (varint (drop_bit k w)) s) = (Ok (ucast w), s)"
  proof (cases "drop_bit k w < 0x80")
    case True
    then show ?thesis
      using varint32_last [OF s True u(2), of io "n + m" "take_bit k (ucast w)"] u ucast_drop_small [OF True] k by simp
  next
    case False
    have "varint32_loop io (n + m) (of_nat (k + 7)) (take_bit (k + 7) (ucast w)) (feed (varint (drop_bit (k + 7) w)) s) = (Ok (ucast w), s)"
      using more by (simp only: rest32_def)
    then show ?thesis
      using varint32_step [OF s False u(2), of io "n + m" "take_bit k (ucast w)"] u(1) low_step [of k w]
      by (simp add: add.commute)
  qed
qed

lemma rest32_last_unsigned:
  assumes s: "is_buffer s" and v: "unat w < 2 ^ 32"
  shows "rest32 io (Suc m) 28 w s"
  unfolding rest32_def
proof
  fix n
  have "unat (drop_bit 28 w) = unat w div 2 ^ 28" unfolding unat_drop_bit_eq by (rule drop_bit_eq_div)
  then have d: "drop_bit 28 w < 0x10" using v by (simp add: word_less_nat_alt less_mult_imp_div_less)
  then have "drop_bit 28 w < 0x80" by (simp add: word_less_nat_alt)
  then show "varint32_loop io (n + Suc m) (of_nat 28) (take_bit 28 (ucast w)) (feed (varint (drop_bit 28 w)) s) = (Ok (ucast w), s)"
    using varint32_last [OF s _ _ d, of 28 io "n + m" "take_bit 28 (ucast w)"] ucast_drop_small [of 28 w] by simp
qed

lemma rest32_last_negative:
  assumes s: "is_buffer s" and v: "drop_bit 31 w = mask 33"
  shows "rest32 io (Suc (Suc (Suc (Suc (Suc (Suc m)))))) 28 w s"
  unfolding rest32_def
proof
  fix n
  have hi: "31 \<le> i \<Longrightarrow> i < 64 \<Longrightarrow> bit w i" for i
    using arg_cong [OF v, of "\<lambda>x. bit x (i - 31)"] by (auto simp: bit_simps)
  have "bit (drop_bit 28 w) 7" using hi [of 35] by (simp add: bit_simps)
  then have big: "\<not> drop_bit 28 w < 0x80" using bits_below [of "drop_bit 28 w" 7 7] by (auto simp: word_less_nat_alt)
  have ones: "drop_bit 35 w = mask 29" by (rule bit_word_eqI) (auto simp: bit_simps intro: hi dest: bit_imp_le_length)
  have "varint (mask 29) = [0xff, 0xff, 0xff, 0xff, 0x01]"
    by (simp add: varint.simps mask_eq_exp_minus_1)
  moreover have "bit (take_bit 35 (ucast w) :: u32) 31" using hi [of 31] by (simp add: bit_simps)
  ultimately have "varint32_loop io (n + Suc (Suc (Suc (Suc (Suc m))))) 35 (take_bit 35 (ucast w)) (feed (varint (drop_bit 35 w)) s) =
      (Ok (take_bit 35 (ucast w)), s)"
    unfolding ones using varint32_sign [OF s, of "take_bit 35 (ucast w)" io "n + m"] by simp
  moreover have "take_bit 35 (ucast w) = (ucast w :: u32)" by (rule bit_word_eqI) (auto simp: bit_simps)
  ultimately show "varint32_loop io (n + Suc (Suc (Suc (Suc (Suc (Suc m)))))) (of_nat 28) (take_bit 28 (ucast w))
      (feed (varint (drop_bit 28 w)) s) = (Ok (ucast w), s)"
    using varint32_step [OF s big, of 28 io "n + Suc (Suc (Suc (Suc (Suc m))))" "take_bit 28 (ucast w)"] low_step [of 28 w]
    by simp
qed

text \<open>More fuel than is needed changes nothing.\<close>

lemma varint32_fuel:
  "fst (varint32_loop io n b r s) \<noteq> Undef \<Longrightarrow> varint32_loop io (n + k) b r s = varint32_loop io n b r s"
proof (induction n arbitrary: b r s)
  case (Suc n)
  show ?case
    using Suc by (auto simp: bnd_def Let_def split: prod.splits res.splits if_splits)
qed simp

lemma decode_varint32_feed:
  assumes ok: "buffer_ok s" and v: "unat w < 2 ^ 32 \<or> drop_bit 31 w = mask 33"
  shows "pb_decode_varint32_eof io (feed (varint w) s) = (Ok (ucast w), False, s)"
proof (cases "w < 0x80")
  case True
  have s: "is_buffer s" using ok by (rule buffer_ok_is_buffer)
  have "take_bit 7 w = w" using True bits_ident [of 7 w] by (simp add: less_80)
  then have "ucast (ucast w :: u8) = (ucast w :: u32)" using ucast_take_7(2) [of w] ucast_low [of 7 w] by simp
  moreover have "((ucast w :: u8) AND 0x80 = 0) = True" using varint_byte(3) [OF True] by simp
  ultimately show ?thesis
    unfolding pb_decode_varint32_eof_def varint_small [OF True] readbyte_feed [OF s] by (simp add: feed_Nil)
next
  case False
  have s: "is_buffer s" using ok by (rule buffer_ok_is_buffer)
  let ?x = "ucast (w AND 0x7f) OR 0x80 :: u8" and ?t = "feed (varint (drop_bit 7 w)) s"
  have "Suc 5 = 6" "Suc (Suc (Suc (Suc (Suc (Suc 0))))) = 6" by simp_all
  then have "rest32 io 6 28 w s"
    using v rest32_last_unsigned [OF s, of w io 5] rest32_last_negative [OF s, of w io 0] by metis
  then have "rest32 io 9 7 w s"
    using rest32_step [OF s, of 21 io 6 w] rest32_step [OF s, of 14 io 7 w] rest32_step [OF s, of 7 io 8 w] by simp
  then have long: "varint32_loop io (Suc (bytes_left ?t) + 9) 7 (take_bit 7 (ucast w)) ?t = (Ok (ucast w), s)"
    unfolding rest32_def by (metis of_nat_numeral)
  have "fst (varint32_loop io (Suc (bytes_left ?t)) 7 (take_bit 7 (ucast w)) ?t) \<noteq> Undef"
    using buffer.lasts_varint32 [of "Suc (bytes_left ?t)" io 7 "take_bit 7 (ucast w)"] buffer_ok_feed [OF ok]
    by (simp add: buffer.lasts_def buffer.kept_def del: varint32_loop.simps)
  then have run: "varint32_loop io (Suc (bytes_left ?t)) 7 (take_bit 7 (ucast w)) ?t = (Ok (ucast w), s)"
    using varint32_fuel [of io "Suc (bytes_left ?t)" 7 "take_bit 7 (ucast w)" ?t 9] long by simp
  have x: "(?x AND 0x80 = 0) = False" using varint_byte(1) [of w] by simp
  have l: "ucast (?x AND 0x7f) = (take_bit 7 (ucast w) :: u32)" unfolding varint_byte(2) by (rule ucast_take_7)
  show ?thesis
    unfolding pb_decode_varint32_eof_def varint_big [OF False] readbyte_feed [OF s] prod.case res.case x if_False l run ..
qed

subsection \<open>Tags, and what they announce\<close>

definition tag_bytes :: "pb_wire_type \<Rightarrow> u32 \<Rightarrow> bytes" where
  "tag_bytes wire_type tag = varint (push_bit 3 (ucast tag) OR ucast wire_type)"

lemma tag_number_parts:
  fixes tag wire_type :: u32
  assumes "unat tag < 2 ^ 29" "unat wire_type < 8"
  defines "w \<equiv> push_bit 3 (ucast tag) OR ucast wire_type :: u64"
  shows "unat w = 8 * unat tag + unat wire_type" "ucast w AND 7 = wire_type" "drop_bit 3 (ucast w) = tag"
proof -
  have u: "unat (ucast x :: u64) = unat x" for x :: u32
    using unsigned_less [of x, where ?'a = nat] by (intro unat_ucast_small) simp
  show w: "unat w = 8 * unat tag + unat wire_type"
    unfolding w_def by (subst unat_push_or) (use assms(1,2) u [of tag] u [of wire_type] in simp_all)
  then have w32: "unat (ucast w :: u32) = 8 * unat tag + unat wire_type"
    using assms(1,2) by (subst unat_ucast_small) simp_all
  have "ucast w AND 7 = (take_bit 3 (ucast w) :: u32)" by (simp add: take_bit_eq_mask mask_eq_exp_minus_1)
  then have "unat (ucast w AND 7 :: u32) = unat (ucast w :: u32) mod 2 ^ 3"
    unfolding take_bit_eq_mod [of 3 "unat (ucast w :: u32)", symmetric] by (simp only: unsigned_take_bit_eq)
  then show "ucast w AND 7 = wire_type" using assms(2) w32 by (simp add: word_unat_eq_iff)
  have "unat (drop_bit 3 (ucast w :: u32)) = unat (ucast w :: u32) div 2 ^ 3" unfolding unat_drop_bit_eq by (rule drop_bit_eq_div)
  then show "drop_bit 3 (ucast w) = tag" using assms(2) w32 by (simp add: word_unat_eq_iff)
qed

lemma decode_tag_feed:
  assumes "buffer_ok s" "tag \<noteq> 0" "unat tag < 2 ^ 29" "unat wire_type < 8"
  shows "pb_decode_tag io (feed (tag_bytes wire_type tag) s) = (Ok (wire_type, tag), False, s)"
proof -
  note parts = tag_number_parts [OF assms(3,4)]
  let ?w = "push_bit 3 (ucast tag) OR ucast wire_type :: u64"
  have "unat ?w < 2 ^ 32" using parts(1) assms(3,4) by simp
  then have "pb_decode_varint32_eof io (feed (varint ?w) s) = (Ok (ucast ?w), False, s)"
    using decode_varint32_feed [OF assms(1)] by blast
  moreover have "(ucast ?w :: u32) \<noteq> 0" using parts(3) assms(2) by auto
  ultimately show ?thesis using parts(2,3) by (simp add: pb_decode_tag_def tag_bytes_def)
qed

lemma decode_tag_end: "bytes_left s = 0 \<Longrightarrow> \<exists>t. pb_decode_tag io s = (Fail, True, t) \<and> bytes_left t = 0"
  by (simp add: pb_decode_tag_def pb_decode_varint32_eof_def pb_readbyte_def PB_RETURN_ERROR_def)

text \<open>The values of each wire type.\<close>

definition delimited :: "bytes \<Rightarrow> bytes" where
  "delimited data = varint (of_nat (length data)) @ data"

inductive payload :: "pb_wire_type \<Rightarrow> bytes \<Rightarrow> bool" where
  Varint: "payload PB_WT_VARINT (varint v)"
| Fixed64: "length data = 8 \<Longrightarrow> payload PB_WT_64BIT data"
| Delimited: "length data < 2 ^ 32 \<Longrightarrow> payload PB_WT_STRING (delimited data)"
| Fixed32: "length data = 4 \<Longrightarrow> payload PB_WT_32BIT data"

inductive_cases payload_cases: "payload wire_type data"

lemma skip_varint_feed:
  "is_buffer s \<Longrightarrow> length (varint v) < n \<Longrightarrow> skip_varint_loop io n (feed (varint v) s) = (Ok (), s)"
proof (induction v arbitrary: n rule: varint.induct)
  case (1 v)
  from "1.prems"(2) obtain m where n: "n = Suc m" by (cases n) auto
  have one: "bnd (pb_read io 1) f (feed (b # bs) s) = f [b] (feed bs s)" for f :: "bytes \<Rightarrow> ('a pb_istream, unit) cfun" and b bs
    using read_feed [OF is_buffer_feed [OF "1.prems"(1), of bs], of io "[b]"] by (simp add: bnd_def feed_append [symmetric])
  show ?case
  proof (cases "v < 0x80")
    case True
    then show ?thesis
      unfolding n varint_small [OF True] skip_varint_loop.simps one using varint_byte(3) [OF True] by (simp add: feed_Nil)
  next
    case False
    have "length (varint (drop_bit 7 v)) < m" using "1.prems"(2) n varint_big [OF False] by simp
    from "1.IH" [OF False "1.prems"(1) this] show ?thesis
      unfolding n varint_big [OF False] skip_varint_loop.simps one using varint_byte(1) [of v] by simp
  qed
qed

lemma decode_varint32_small:
  "buffer_ok s \<Longrightarrow> n < 2 ^ 32 \<Longrightarrow> pb_decode_varint32 io (feed (varint (of_nat n)) s) = (Ok (of_nat n), s)"
proof -
  assume s: "buffer_ok s" and n: "n < 2 ^ 32"
  have "unat (of_nat n :: u64) = n" using n by (simp add: unsigned_of_nat take_bit_nat_eq_self)
  then have "unat (of_nat n :: u64) < 2 ^ 32" using n by simp
  moreover have "ucast (of_nat n :: u64) = (of_nat n :: u32)" by (simp add: word_unat_eq_iff unsigned_ucast_eq unsigned_of_nat)
  ultimately show ?thesis
    using decode_varint32_feed [OF s, of "of_nat n"] by (simp add: pb_decode_varint32_def)
qed

lemma unat_of_nat_32: "n < 2 ^ 32 \<Longrightarrow> unat (of_nat n :: u32) = n"
  by (simp add: unsigned_of_nat take_bit_nat_eq_self)

lemma skip_field_feed:
  assumes s: "buffer_ok s" and p: "payload wire_type data"
  shows "pb_skip_field io wire_type (feed data s) = (Ok (), s)"
  using p
proof cases
  case (Varint v)
  then show ?thesis
    using skip_varint_feed [OF buffer_ok_is_buffer [OF s], of v] by (simp add: pb_skip_field_def pb_skip_varint_def del: skip_varint_loop.simps)
next
  case (Delimited d)
  then show ?thesis
    using decode_varint32_small [OF buffer_ok_feed [OF s]] read_null_feed [OF buffer_ok_is_buffer [OF s], of io d]
    by (simp add: pb_skip_field_def pb_skip_string_def bnd_def delimited_def feed_append unat_of_nat_32)
qed (use read_null_feed [OF buffer_ok_is_buffer [OF s], of io data] in \<open>simp_all add: pb_skip_field_def\<close>)

text \<open>A substream is exactly the announced bytes, and closing it, however much of it was read, leaves the
  parent behind them.\<close>

lemma make_substream_feed:
  assumes s: "buffer_ok s" and d: "length data < 2 ^ 32"
  shows "pb_make_string_substream io (feed (delimited data) s) =
    (Ok (feed data s\<lparr>bytes_left := length data\<rparr>), feed data s\<lparr>bytes_left := bytes_left s\<rparr>)"
  using decode_varint32_small [OF buffer_ok_feed [OF s] d]
  by (simp add: pb_make_string_substream_def delimited_def feed_append bnd_def unat_of_nat_32 [OF d] size_sub_def)

text \<open>The bit position of a long varint wraps: after 36 continuation bytes that carry nothing, the next byte
  is added to the number at bit 3.\<close>

lemma varint32_zero_bytes:
  "is_buffer s \<Longrightarrow> varint32_loop io (k + n) b r (feed (replicate k 0x80 @ bs) s) = varint32_loop io n (b + of_nat (7 * k)) r (feed bs s)"
proof (induction k arbitrary: b)
  case (Suc k)
  have "(0x80 :: u8) AND 0x7f = 0" "(0x80 :: u8) AND 0x80 \<noteq> 0" by simp_all
  then have "varint32_loop io (Suc (k + n)) b r (feed (0x80 # replicate k 0x80 @ bs) s) =
      varint32_loop io (k + n) (b + 7) r (feed (replicate k 0x80 @ bs) s)"
    unfolding varint32_loop.simps(2) bnd_readbyte [OF Suc.prems] by simp
  then show ?case using Suc by (simp add: algebra_simps)
qed simp

lemma overlong_varint32:
  assumes "is_buffer s"
  shows "pb_decode_varint32 io (feed (replicate 37 0x80 @ [0x7f]) s) = (Ok 0x3f8, s)"
proof -
  have "pb_readbyte io (feed (0x80 # replicate 36 0x80 @ [0x7f]) s) = (Ok 0x80, feed (replicate 36 0x80 @ [0x7f]) s)"
    using assms by (rule readbyte_feed)
  moreover have "varint32_loop io (36 + (2 + bytes_left s)) 7 0 (feed (replicate 36 0x80 @ [0x7f]) s) = (Ok 0x3f8, s)"
    unfolding varint32_zero_bytes [OF assms] by (simp add: eval_nat_numeral(2) bnd_readbyte [OF assms] feed_Nil del: eval_nat_numeral)
  moreover have "replicate 37 (0x80 :: u8) = 0x80 # replicate 36 0x80" by (simp add: eval_nat_numeral)
  ultimately show ?thesis
    by (simp add: pb_decode_varint32_def pb_decode_varint32_eof_def del: varint32_loop.simps)
qed

subsection \<open>Extremes, and closing a substream\<close>

lemma negative_32:
  fixes w :: u64
  assumes "- (2 ^ 31) \<le> sint w" "sint w < 0"
  shows "drop_bit 31 w = mask 33"
proof -
  have "uint w = sint w mod 2 ^ 64" using uint_sint [of w] by (simp add: take_bit_eq_mod)
  also have "\<dots> = (sint w + 2 ^ 64) mod 2 ^ 64" by simp
  also have "\<dots> = sint w + 2 ^ 64" using assms by (intro mod_pos_pos_trivial) simp_all
  finally have u: "uint w = sint w + 2 ^ 64" .
  then have "uint w div 2 ^ 31 = 2 ^ 33 - 1" using assms u by simp
  moreover have "take_bit 64 (uint w) = uint w" using uint_lt2p [of w] by (intro take_bit_int_eq_self) simp_all
  then have "uint (drop_bit 31 w) = uint w div 2 ^ 31" unfolding unsigned_drop_bit_eq by (simp add: drop_bit_eq_div)
  moreover have "uint (mask 33 :: u64) = 2 ^ 33 - 1" by (simp add: mask_eq_exp_minus_1)
  ultimately have "uint (drop_bit 31 w) = uint (mask 33 :: u64)" by simp
  then show ?thesis by (simp only: word_uint_eq_iff)
qed

lemma varint_overlong:
  "is_buffer s \<Longrightarrow> \<forall>b \<in> set bs. b AND 0x80 \<noteq> 0 \<Longrightarrow> 64 \<le> pos + 7 * length bs \<Longrightarrow>
   \<exists>t. varint_loop io pos r (feed bs s) = (Fail, t) \<and> errmsg t = Some (case errmsg s of None \<Rightarrow> ''varint overflow'' | Some m \<Rightarrow> m)"
proof (induction bs arbitrary: pos r)
  case Nil
  then show ?case by (simp add: varint_loop.simps feed_Nil PB_RETURN_ERROR_def split: option.split)
next
  case (Cons b bs)
  show ?case
  proof (cases "64 \<le> pos")
    case True
    moreover have "errmsg (feed (b # bs) s) = errmsg s" by (simp add: feed_def)
    ultimately show ?thesis by (simp add: varint_loop.simps PB_RETURN_ERROR_def split: option.split)
  next
    case False
    have "varint_loop io pos r (feed (b # bs) s) = varint_loop io (pos + 7) (r OR push_bit pos (ucast (b AND 0x7f))) (feed bs s)"
      by (subst varint_loop.simps) (use False Cons.prems in \<open>simp add: bnd_readbyte\<close>)
    then show ?thesis using Cons by simp
  qed
qed

lemma substream_close:
  assumes s: "buffer_ok s" and d: "length (xs @ ys) < 2 ^ 32"
  shows "\<exists>sub t. pb_make_string_substream io (feed (delimited (xs @ ys)) s) = (Ok sub, t) \<and> bytes_left sub = length (xs @ ys) \<and>
     (\<exists>u. pb_read io (length xs) sub = (Ok xs, u) \<and> (\<exists>v. pb_close_string_substream io u t = (Ok v, s)))"
proof (intro exI conjI)
  let ?e = "s\<lparr>bytes_left := 0\<rparr>"
  have e: "is_buffer ?e" using s by (auto simp: is_buffer_def buffer_ok_def split: pb_source.splits)
  have sub: "feed (xs @ ys) s\<lparr>bytes_left := length (xs @ ys)\<rparr> = feed xs (feed ys ?e)"
    unfolding feed_append [symmetric] by (simp add: feed_def)
  show "pb_make_string_substream io (feed (delimited (xs @ ys)) s) =
      (Ok (feed (xs @ ys) s\<lparr>bytes_left := length (xs @ ys)\<rparr>), feed (xs @ ys) s\<lparr>bytes_left := bytes_left s\<rparr>)"
    by (rule make_substream_feed [OF s d])
  show "bytes_left (feed (xs @ ys) s\<lparr>bytes_left := length (xs @ ys)\<rparr>) = length (xs @ ys)" by simp
  show "pb_read io (length xs) (feed (xs @ ys) s\<lparr>bytes_left := length (xs @ ys)\<rparr>) = (Ok xs, feed ys ?e)"
    unfolding sub by (rule read_feed [OF is_buffer_feed [OF e]])
  have "(if bytes_left (feed ys ?e) \<noteq> 0 then pb_read_null io (bytes_left (feed ys ?e)) (feed ys ?e) else ret () (feed ys ?e)) = (Ok (), ?e)"
    using read_null_feed [OF e, of io ys] by (auto simp: feed_Nil)
  moreover have "feed (xs @ ys) s\<lparr>bytes_left := bytes_left s, source := source s, errmsg := errmsg s\<rparr> = s"
    by (simp add: feed_def)
  ultimately show "pb_close_string_substream io (feed ys ?e) (feed (xs @ ys) s\<lparr>bytes_left := bytes_left s\<rparr>) = (Ok ?e, s)"
    by (simp add: pb_close_string_substream_def)
qed

end
