(* ===== verification/Pb_Encode.thy ===== *)
theory Pb_Encode
  imports Pb_Wire
begin

text \<open>
  The wire layer of nanopb's encoder, \<^verbatim>\<open>pb_encode.c\<close>: output streams, sizing streams included, the
  encoders of the values and of the field types. \<open>emits\<close> says at once what an encoder counts on a sizing
  stream, writes to a buffer, and when it fails.
\<close>

subsection \<open>Output streams\<close>

text \<open>\<^verbatim>\<open>struct pb_ostream_s\<close>. A NULL callback is \<open>Sizing\<close>; the buffer writer has its memory and the
  position in it; the writer of an application is the parameter \<open>io\<close>.\<close>

datatype 's pb_sink = Sizing | Memory bytes nat | Sink 's

record 's pb_ostream =
  sink :: "'s pb_sink"
  max_size :: nat
  bytes_written :: nat
  o_errmsg :: "string option"

type_synonym 's pb_oio = "bytes \<Rightarrow> ('s pb_ostream, unit) cfun"

definition pb_o_error :: "string \<Rightarrow> ('s pb_ostream, 'a) cfun" where
  "pb_o_error msg s = (Fail, s\<lparr>o_errmsg := (case o_errmsg s of None \<Rightarrow> Some msg | Some m \<Rightarrow> Some m)\<rparr>)"

definition PB_OSTREAM_SIZING :: "'s pb_ostream" where
  "PB_OSTREAM_SIZING = \<lparr>sink = Sizing, max_size = 0, bytes_written = 0, o_errmsg = None\<rparr>"

definition pb_ostream_from_buffer :: "bytes \<Rightarrow> nat \<Rightarrow> 's pb_ostream" where
  "pb_ostream_from_buffer mem bufsize = \<lparr>sink = Memory mem 0, max_size = bufsize, bytes_written = 0, o_errmsg = None\<rparr>"

definition pb_buf_write :: "'s pb_oio" where
  "pb_buf_write bs s =
     (case sink s of
        Memory mem off \<Rightarrow>
          if off + length bs \<le> length mem
          then (Ok (), s\<lparr>sink := Memory (take off mem @ bs @ drop (off + length bs) mem) (off + length bs)\<rparr>)
          else (Undef, s)
      | _ \<Rightarrow> (Undef, s))"

definition pb_write :: "'s pb_oio \<Rightarrow> 's pb_oio" where
  "pb_write io bs s =
     (if length bs > 0 \<and> sink s \<noteq> Sizing then
        if size_add (bytes_written s) (length bs) < bytes_written s \<or> size_add (bytes_written s) (length bs) > max_size s
        then pb_o_error ''stream full'' s
        else case (case sink s of Sink _ \<Rightarrow> io bs s | _ \<Rightarrow> pb_buf_write bs s) of
               (Fail, s) \<Rightarrow> pb_o_error ''io error'' s
             | (Undef, s) \<Rightarrow> (Undef, s)
             | (Ok _, s) \<Rightarrow> (Ok (), s\<lparr>bytes_written := size_add (bytes_written s) (length bs)\<rparr>)
      else (Ok (), s\<lparr>bytes_written := size_add (bytes_written s) (length bs)\<rparr>))"

subsection \<open>Values\<close>

text \<open>The loop fills a buffer of ten bytes.\<close>

function varint_groups :: "u64 \<Rightarrow> bytes" where
  "varint_groups v = (if v = 0 then [] else (ucast (v AND 0x7f) OR 0x80) # varint_groups (drop_bit 7 v))"
  by pat_completeness auto
termination by (relation "measure unat") (simp_all add: drop_bit_less)

declare varint_groups.simps [simp del]

definition pb_encode_varint :: "'s pb_oio \<Rightarrow> u64 \<Rightarrow> ('s pb_ostream, unit) cfun" where
  "pb_encode_varint io v =
     (if v \<le> 0x7f then pb_write io [ucast v]
      else let buffer = varint_groups v; i = length buffer
           in if i > 10 then undef else pb_write io (buffer[i - 1 := buffer ! (i - 1) AND 0x7f]))"

definition pb_encode_svarint :: "'s pb_oio \<Rightarrow> u64 \<Rightarrow> ('s pb_ostream, unit) cfun" where
  "pb_encode_svarint io v =
     (let zigzagged = (if sint v < 0 then NOT (push_bit 1 v) else push_bit 1 v) in pb_encode_varint io zigzagged)"

definition pb_encode_fixed32 :: "'s pb_oio \<Rightarrow> u32 \<Rightarrow> ('s pb_ostream, unit) cfun" where
  "pb_encode_fixed32 io v =
     pb_write io [ucast (v AND 0xFF), ucast (drop_bit 8 v AND 0xFF), ucast (drop_bit 16 v AND 0xFF), ucast (drop_bit 24 v AND 0xFF)]"

definition pb_encode_fixed64 :: "'s pb_oio \<Rightarrow> u64 \<Rightarrow> ('s pb_ostream, unit) cfun" where
  "pb_encode_fixed64 io v =
     pb_write io [ucast (v AND 0xFF), ucast (drop_bit 8 v AND 0xFF), ucast (drop_bit 16 v AND 0xFF), ucast (drop_bit 24 v AND 0xFF),
       ucast (drop_bit 32 v AND 0xFF), ucast (drop_bit 40 v AND 0xFF), ucast (drop_bit 48 v AND 0xFF), ucast (drop_bit 56 v AND 0xFF)]"

definition pb_encode_tag :: "'s pb_oio \<Rightarrow> pb_wire_type \<Rightarrow> u32 \<Rightarrow> ('s pb_ostream, unit) cfun" where
  "pb_encode_tag io wiretype field_number = pb_encode_varint io (push_bit 3 (ucast field_number) OR ucast wiretype)"

definition pb_encode_tag_for_field :: "'s pb_oio \<Rightarrow> pb_field \<Rightarrow> ('s pb_ostream, unit) cfun" where
  "pb_encode_tag_for_field io field =
     (let t = PB_LTYPE (f_type field)
      in if t = PB_LTYPE_BOOL \<or> t = PB_LTYPE_VARINT \<or> t = PB_LTYPE_UVARINT \<or> t = PB_LTYPE_SVARINT
         then pb_encode_tag io PB_WT_VARINT (f_tag field)
         else if t = PB_LTYPE_FIXED32 then pb_encode_tag io PB_WT_32BIT (f_tag field)
         else if t = PB_LTYPE_FIXED64 then pb_encode_tag io PB_WT_64BIT (f_tag field)
         else if t = PB_LTYPE_BYTES \<or> t = PB_LTYPE_STRING \<or> t = PB_LTYPE_SUBMESSAGE \<or> t = PB_LTYPE_FIXED_LENGTH_BYTES
         then pb_encode_tag io PB_WT_STRING (f_tag field)
         else pb_o_error ''invalid field type'')"

definition pb_encode_string :: "'s pb_oio \<Rightarrow> bytes \<Rightarrow> ('s pb_ostream, unit) cfun" where
  "pb_encode_string io buffer = bnd (pb_encode_varint io (of_nat (length buffer))) (\<lambda>_. pb_write io buffer)"

subsection \<open>Field encoders\<close>

text \<open>The field, and the address of its data. The bytes that a call passes to \<open>pb_write\<close> are loaded before the
  call, also on a sizing stream, which ignores them.\<close>

type_synonym 's pb_encoder = "pb_field \<Rightarrow> u64 \<Rightarrow> ('s pb_ostream, unit) cfun"

definition safe_read_bool :: "memory \<Rightarrow> u64 \<Rightarrow> ('s, bool) cfun" where
  "safe_read_bool mem pSize = bnd (load mem pSize 1) (\<lambda>p. ret (p ! 0 \<noteq> 0))"

definition pb_enc_bool :: "memory \<Rightarrow> 's pb_oio \<Rightarrow> 's pb_encoder" where
  "pb_enc_bool mem io field src = bnd (safe_read_bool mem src) (\<lambda>b. pb_encode_varint io (if b then 1 else 0))"

text \<open>The load of an integer field, sign-extended or not.\<close>

definition load_integer :: "memory \<Rightarrow> bool \<Rightarrow> pb_field \<Rightarrow> u64 \<Rightarrow> ('s pb_ostream, u64) cfun" where
  "load_integer mem sx field src =
     (if data_size field = 1 then bnd (load_number mem src 1) (\<lambda>v. ret (if sx then scast (ucast v :: u8) else ucast (ucast v :: u8)))
      else if data_size field = 2 then bnd (load_number mem src 2) (\<lambda>v. ret (if sx then scast (ucast v :: u16) else ucast (ucast v :: u16)))
      else if data_size field = 4 then bnd (load_number mem src 4) (\<lambda>v. ret (if sx then scast (ucast v :: u32) else ucast (ucast v :: u32)))
      else if data_size field = 8 then load_number mem src 8
      else pb_o_error ''invalid data_size'')"

definition pb_enc_varint :: "memory \<Rightarrow> 's pb_oio \<Rightarrow> 's pb_encoder" where
  "pb_enc_varint mem io field src = bnd (load_integer mem True field src) (pb_encode_varint io)"

definition pb_enc_uvarint :: "memory \<Rightarrow> 's pb_oio \<Rightarrow> 's pb_encoder" where
  "pb_enc_uvarint mem io field src = bnd (load_integer mem False field src) (pb_encode_varint io)"

definition pb_enc_svarint :: "memory \<Rightarrow> 's pb_oio \<Rightarrow> 's pb_encoder" where
  "pb_enc_svarint mem io field src = bnd (load_integer mem True field src) (pb_encode_svarint io)"

definition pb_enc_fixed64 :: "memory \<Rightarrow> 's pb_oio \<Rightarrow> 's pb_encoder" where
  "pb_enc_fixed64 mem io field src = bnd (load_number mem src 8) (pb_encode_fixed64 io)"

definition pb_enc_fixed32 :: "memory \<Rightarrow> 's pb_oio \<Rightarrow> 's pb_encoder" where
  "pb_enc_fixed32 mem io field src = bnd (load_number mem src 4) (\<lambda>v. pb_encode_fixed32 io (ucast v))"

definition pb_enc_bytes :: "memory \<Rightarrow> 's pb_oio \<Rightarrow> 's pb_encoder" where
  "pb_enc_bytes mem io field src =
     (if src = 0 then pb_encode_string io []
      else bnd (load_number mem src 4) (\<lambda>v.
           let size = unat v
           in if PB_ATYPE (f_type field) = PB_ATYPE_STATIC \<and> size > size_sub (unat (data_size field)) 4
              then pb_o_error ''bytes size exceeded''
              else bnd (load mem (src + 4) size) (pb_encode_string io)))"

text \<open>The loop that looks for the NUL within \<^verbatim>\<open>max_size\<close> bytes.\<close>

fun string_length :: "memory \<Rightarrow> nat \<Rightarrow> u64 \<Rightarrow> ('s, nat) cfun" where
  "string_length mem 0 p = ret 0"
| "string_length mem (Suc n) p =
     bnd (load mem p 1) (\<lambda>c. if c ! 0 = 0 then ret 0 else bnd (string_length mem n (p + 1)) (\<lambda>k. ret (Suc k)))"

definition pb_enc_string :: "memory \<Rightarrow> 's pb_oio \<Rightarrow> 's pb_encoder" where
  "pb_enc_string mem io field src =
     (let max_size = (if PB_ATYPE (f_type field) = PB_ATYPE_POINTER then 2 ^ 64 - 1 else unat (data_size field))
      in bnd (if src = 0 then ret 0 else string_length mem max_size src) (\<lambda>size.
         bnd (load mem src size) (pb_encode_string io)))"

definition pb_enc_fixed_length_bytes :: "memory \<Rightarrow> 's pb_oio \<Rightarrow> 's pb_encoder" where
  "pb_enc_fixed_length_bytes mem io field src = bnd (load mem src (unat (data_size field))) (pb_encode_string io)"

subsection \<open>What an encoder emits\<close>

text \<open>\<open>emits bs m\<close>: on a sizing stream \<open>m\<close> counts the bytes \<open>bs\<close>, on a buffer with room it writes them, and
  on one without room it fails; the memory behind the position it leaves alone. No size wraps.\<close>

definition emits :: "bytes \<Rightarrow> ('s pb_ostream, unit) cfun \<Rightarrow> bool" where
  "emits bs m \<longleftrightarrow> (\<forall>s. o_errmsg s = None \<longrightarrow>
     (sink s = Sizing \<longrightarrow> bytes_written s + length bs < 2 ^ 64 \<longrightarrow> m s = (Ok (), s\<lparr>bytes_written := bytes_written s + length bs\<rparr>)) \<and>
     (\<forall>mem off. sink s = Memory mem off \<longrightarrow> off + (max_size s - bytes_written s) \<le> length mem \<longrightarrow> max_size s + length bs < 2 ^ 64 \<longrightarrow>
        bytes_written s \<le> max_size s \<longrightarrow>
        (if bytes_written s + length bs \<le> max_size s
         then m s = (Ok (), s\<lparr>sink := Memory (take off mem @ bs @ drop (off + length bs) mem) (off + length bs),
                              bytes_written := bytes_written s + length bs\<rparr>)
         else fst (m s) = Fail)))"

lemma emits_write: "emits bs (pb_write io bs)"
proof (cases "bs = []")
  case True
  have "s\<lparr>sink := Memory mem off\<rparr> = s" if "sink s = Memory mem off" for s :: "'a pb_ostream" and mem off
    using that by (cases s) simp
  then show ?thesis using True by (auto simp: emits_def pb_write_def size_add_def)
next
  case False
  show ?thesis
    unfolding emits_def
  proof (intro allI conjI impI)
    fix s :: "'a pb_ostream" and mem off
    assume s: "sink s = Memory mem off" "off + (max_size s - bytes_written s) \<le> length mem" "max_size s + length bs < 2 ^ 64"
      "bytes_written s \<le> max_size s"
    have full: "size_add (bytes_written s) (length bs) < bytes_written s \<or> size_add (bytes_written s) (length bs) > max_size s \<longleftrightarrow>
        \<not> bytes_written s + length bs \<le> max_size s"
      using size_add_cases [of "bytes_written s" "length bs"] s by (cases "bytes_written s + length bs < 2 ^ 64") auto
    show "if bytes_written s + length bs \<le> max_size s
         then pb_write io bs s = (Ok (), s\<lparr>sink := Memory (take off mem @ bs @ drop (off + length bs) mem) (off + length bs),
                              bytes_written := bytes_written s + length bs\<rparr>)
         else fst (pb_write io bs s) = Fail"
      using s False full unfolding pb_write_def full
      by (auto simp: pb_buf_write_def pb_o_error_def size_add_def)
  qed (use False in \<open>simp add: pb_write_def size_add_def\<close>)
qed

lemma emitsD:
  assumes "emits bs m" "o_errmsg s = None"
  shows "sink s = Sizing \<Longrightarrow> bytes_written s + length bs < 2 ^ 64 \<Longrightarrow> m s = (Ok (), s\<lparr>bytes_written := bytes_written s + length bs\<rparr>)"
    and "sink s = Memory mem off \<Longrightarrow> off + (max_size s - bytes_written s) \<le> length mem \<Longrightarrow> max_size s + length bs < 2 ^ 64 \<Longrightarrow>
      bytes_written s + length bs \<le> max_size s \<Longrightarrow>
      m s = (Ok (), s\<lparr>sink := Memory (take off mem @ bs @ drop (off + length bs) mem) (off + length bs), bytes_written := bytes_written s + length bs\<rparr>)"
    and "sink s = Memory mem off \<Longrightarrow> off + (max_size s - bytes_written s) \<le> length mem \<Longrightarrow> max_size s + length bs < 2 ^ 64 \<Longrightarrow>
      bytes_written s \<le> max_size s \<Longrightarrow> \<not> bytes_written s + length bs \<le> max_size s \<Longrightarrow> fst (m s) = Fail"
proof -
  note d = assms(1) [unfolded emits_def, rule_format, OF assms(2)]
  show "sink s = Sizing \<Longrightarrow> bytes_written s + length bs < 2 ^ 64 \<Longrightarrow> m s = (Ok (), s\<lparr>bytes_written := bytes_written s + length bs\<rparr>)"
    using d by blast
  show "sink s = Memory mem off \<Longrightarrow> off + (max_size s - bytes_written s) \<le> length mem \<Longrightarrow> max_size s + length bs < 2 ^ 64 \<Longrightarrow>
      bytes_written s + length bs \<le> max_size s \<Longrightarrow>
      m s = (Ok (), s\<lparr>sink := Memory (take off mem @ bs @ drop (off + length bs) mem) (off + length bs), bytes_written := bytes_written s + length bs\<rparr>)"
    using d by simp
  show "sink s = Memory mem off \<Longrightarrow> off + (max_size s - bytes_written s) \<le> length mem \<Longrightarrow> max_size s + length bs < 2 ^ 64 \<Longrightarrow>
      bytes_written s \<le> max_size s \<Longrightarrow> \<not> bytes_written s + length bs \<le> max_size s \<Longrightarrow> fst (m s) = Fail"
    using d by simp
qed

lemma emits_bnd:
  assumes m: "emits xs m" and m': "emits ys m'"
  shows "emits (xs @ ys) (bnd m (\<lambda>_. m'))"
  unfolding emits_def
proof (intro allI conjI impI)
  fix s :: "'a pb_ostream"
  assume e: "o_errmsg s = None" and s: "sink s = Sizing" "bytes_written s + length (xs @ ys) < 2 ^ 64"
  then show "bnd m (\<lambda>_. m') s = (Ok (), s\<lparr>bytes_written := bytes_written s + length (xs @ ys)\<rparr>)"
    using emitsD(1) [OF m e] emitsD(1) [OF m', of "s\<lparr>bytes_written := bytes_written s + length xs\<rparr>"] e by (simp add: bnd_def add.assoc)
next
  fix s :: "'a pb_ostream" and mem off
  assume e: "o_errmsg s = None" and s: "sink s = Memory mem off" "off + (max_size s - bytes_written s) \<le> length mem" "max_size s + length (xs @ ys) < 2 ^ 64"
    "bytes_written s \<le> max_size s"
  let ?mem = "take off mem @ xs @ drop (off + length xs) mem"
  let ?s = "s\<lparr>sink := Memory ?mem (off + length xs), bytes_written := bytes_written s + length xs\<rparr>"
  show "if bytes_written s + length (xs @ ys) \<le> max_size s
        then bnd m (\<lambda>_. m') s = (Ok (), s\<lparr>sink := Memory (take off mem @ (xs @ ys) @ drop (off + length (xs @ ys)) mem)
            (off + length (xs @ ys)), bytes_written := bytes_written s + length (xs @ ys)\<rparr>)
        else fst (bnd m (\<lambda>_. m') s) = Fail"
  proof (cases "bytes_written s + length xs \<le> max_size s")
    case False
    then have "fst (m s) = Fail" using emitsD(3) [OF m e s(1,2) _ s(4)] s(3) by simp
    then show ?thesis using False by (cases "m s") (simp add: bnd_def)
  next
    case True
    then have "m s = (Ok (), ?s)" using emitsD(2) [OF m e s(1,2)] s(3) by simp
    moreover have o: "off + length xs \<le> length mem" using s(2) True by simp
    then have l: "length ?mem = length mem" by simp
    have l': "off + length xs + (max_size ?s - bytes_written ?s) \<le> length ?mem" unfolding l using s(2) True by simp
    ultimately show ?thesis
    proof (cases "bytes_written s + length (xs @ ys) \<le> max_size s")
      case fits: True
      have "take (off + length xs) ?mem = take off mem @ xs" using o by simp
      moreover have "drop (off + length xs + length ys) ?mem = drop (off + length (xs @ ys)) mem" using o by (simp add: ac_simps)
      ultimately show ?thesis
        using \<open>m s = (Ok (), ?s)\<close> fits emitsD(2) [OF m' _ _ l'] s(3) e by (simp add: bnd_def add.assoc)
    next
      case no: False
      then show ?thesis using \<open>m s = (Ok (), ?s)\<close> emitsD(3) [OF m' _ _ l'] s(3) e True by (simp add: bnd_def)
    qed
  qed
qed

lemma groups_varint:
  "v \<noteq> 0 \<Longrightarrow> varint_groups v \<noteq> [] \<and>
     (varint_groups v)[length (varint_groups v) - 1 := varint_groups v ! (length (varint_groups v) - 1) AND 0x7f] = varint v"
proof (induction v rule: varint.induct)
  case (1 v)
  have g: "varint_groups v = (ucast (v AND 0x7f) OR 0x80) # varint_groups (drop_bit 7 v)"
    using 1 by (simp add: varint_groups.simps [of v])
  show ?case
  proof (cases "v < 0x80")
    case True
    then have "drop_bit 7 v = 0" by (simp add: less_80)
    moreover have "varint_groups 0 = []" by (simp add: varint_groups.simps)
    moreover have "take_bit 7 v = v" using \<open>drop_bit 7 v = 0\<close> bits_ident [of 7 v] by simp
    ultimately show ?thesis unfolding g using varint_byte(2) [of v] by (simp add: varint_small [OF True])
  next
    case False
    then have "drop_bit 7 v \<noteq> 0" by (simp add: less_80)
    from "1.IH" [OF False this] show ?thesis
      unfolding g varint_big [OF False] by (cases "varint_groups (drop_bit 7 v)") simp_all
  qed
qed

lemma emits_varint: "emits (varint v) (pb_encode_varint io v)"
proof (cases "v < 0x80")
  case True
  then have "v \<le> 0x7f" by (simp add: word_less_nat_alt word_le_nat_alt)
  then show ?thesis unfolding pb_encode_varint_def varint_small [OF True] using emits_write by simp
next
  case False
  then have "\<not> v \<le> 0x7f" "v \<noteq> 0" by (auto simp: word_less_nat_alt word_le_nat_alt)
  moreover have "length (varint_groups v) = length (varint v)" using groups_varint [OF \<open>v \<noteq> 0\<close>] by (metis length_list_update)
  ultimately show ?thesis
    unfolding pb_encode_varint_def Let_def using groups_varint [of v] varint_length [of v] emits_write [of "varint v" io] by simp
qed

lemma emits_svarint: "emits (svarint v) (pb_encode_svarint io v)"
  unfolding pb_encode_svarint_def svarint_def zigzag_def Let_def by (rule emits_varint)

lemma and_ff: "(ucast (x AND 0xFF) :: u8) = ucast (x :: 'a::len word)"
  by (rule bit_word_eqI) (auto simp: bit_simps bit_consts dest: bit_imp_le_length)

lemma emits_fixed32: "emits (le_bytes 4 (ucast v)) (pb_encode_fixed32 io v)"
proof -
  have c: "ucast (drop_bit k (ucast v :: u64)) = (ucast (drop_bit k v) :: u8)" for k
    by (rule bit_word_eqI) (auto simp: bit_simps dest: bit_imp_le_length)
  have "le_bytes 4 (ucast v) = [ucast v, ucast (drop_bit 8 v), ucast (drop_bit 16 v), ucast (drop_bit 24 v)]"
    using c [of 0] by (simp add: le_bytes_4 c)
  then show ?thesis unfolding pb_encode_fixed32_def and_ff using emits_write by simp
qed

lemma emits_fixed64: "emits (le_bytes 8 v) (pb_encode_fixed64 io v)"
proof -
  have "le_bytes 8 v = [ucast v, ucast (drop_bit 8 v), ucast (drop_bit 16 v), ucast (drop_bit 24 v), ucast (drop_bit 32 v),
      ucast (drop_bit 40 v), ucast (drop_bit 48 v), ucast (drop_bit 56 v)]"
    by (simp add: le_bytes_8)
  then show ?thesis unfolding pb_encode_fixed64_def and_ff using emits_write by simp
qed

lemma emits_tag: "emits (tag_bytes w t) (pb_encode_tag io w t)"
  unfolding pb_encode_tag_def tag_bytes_def by (rule emits_varint)

lemma emits_string: "emits (delimited data) (pb_encode_string io data)"
  unfolding pb_encode_string_def delimited_def by (intro emits_bnd emits_varint emits_write)

subsection \<open>Messages\<close>

text \<open>The values a field can have on the wire, and a message as the list of its fields.\<close>

datatype pb_value = Uint u64 | Sint u64 | Word32 u32 | Word64 u64 | Data bytes

fun value_wire :: "pb_value \<Rightarrow> pb_wire_type" where
  "value_wire (Uint _) = PB_WT_VARINT" | "value_wire (Sint _) = PB_WT_VARINT" | "value_wire (Word32 _) = PB_WT_32BIT"
| "value_wire (Word64 _) = PB_WT_64BIT" | "value_wire (Data _) = PB_WT_STRING"

fun value_bytes :: "pb_value \<Rightarrow> bytes" where
  "value_bytes (Uint v) = varint v" | "value_bytes (Sint v) = svarint v" | "value_bytes (Word32 v) = le_bytes 4 (ucast v)"
| "value_bytes (Word64 v) = le_bytes 8 v" | "value_bytes (Data d) = delimited d"

fun value_ok :: "pb_value \<Rightarrow> bool" where
  "value_ok (Data d) \<longleftrightarrow> length d < 2 ^ 32" | "value_ok _ \<longleftrightarrow> True"

text \<open>Reading a value of the kind of the given one.\<close>

fun decode_like :: "'s pb_io \<Rightarrow> pb_value \<Rightarrow> ('s pb_istream, pb_value) cfun" where
  "decode_like io (Uint _) = bnd (pb_decode_varint io) (\<lambda>v. ret (Uint v))"
| "decode_like io (Sint _) = bnd (pb_decode_svarint io) (\<lambda>v. ret (Sint v))"
| "decode_like io (Word32 _) = bnd (pb_decode_fixed32 io) (\<lambda>v. ret (Word32 v))"
| "decode_like io (Word64 _) = bnd (pb_decode_fixed64 io) (\<lambda>v. ret (Word64 v))"
| "decode_like io (Data _) = bnd (pb_decode_varint32 io) (\<lambda>n. bnd (pb_read io (unat n)) (\<lambda>d. ret (Data d)))"

fun message_bytes :: "(u32 \<times> pb_value) list \<Rightarrow> bytes" where
  "message_bytes [] = []"
| "message_bytes ((tag, v) # fs) = (tag_bytes (value_wire v) tag @ value_bytes v) @ message_bytes fs"

definition fields_ok :: "(u32 \<times> pb_value) list \<Rightarrow> bool" where
  "fields_ok fs \<longleftrightarrow> (\<forall>(tag, v) \<in> set fs. tag \<noteq> 0 \<and> unat tag < 2 ^ 29 \<and> value_ok v)"

lemma emits_nothing: "emits [] (ret ())"
proof -
  have "s\<lparr>sink := Memory mem off\<rparr> = s" if "sink s = Memory mem off" for s :: "'a pb_ostream" and mem off
    using that by (cases s) simp
  then show ?thesis by (auto simp: emits_def)
qed

lemma value_payload: "value_ok v \<Longrightarrow> payload (value_wire v) (value_bytes v)"
  by (cases v) (auto simp: svarint_def intro: payload.intros)

lemma value_wire_small: "unat (value_wire v) < 8"
  by (cases v) simp_all

lemma decode_like_feed:
  assumes s: "buffer_ok s" and v: "value_ok v"
  shows "decode_like io v (feed (value_bytes v) s) = (Ok v, s)"
proof (cases v)
  case (Data d)
  then show ?thesis
    using decode_varint32_small [OF buffer_ok_feed [OF s], of "length d" io d] v read_feed [OF buffer_ok_is_buffer [OF s], of io d]
    by (simp add: delimited_def feed_append bnd_def unat_of_nat_32)
qed (use s in \<open>simp_all add: bnd_def decode_varint_feed decode_svarint_feed decode_fixed32_feed decode_fixed64_feed buffer_ok_is_buffer\<close>)

text \<open>Reading the fields of a message in the order and with the kinds they were written.\<close>

fun read_fields :: "'s pb_io \<Rightarrow> (u32 \<times> pb_value) list \<Rightarrow> ('s pb_istream, (u32 \<times> pb_value) list) cfun" where
  "read_fields io [] s = ret [] s"
| "read_fields io ((_, v) # fs) s =
     (case pb_decode_tag io s of
        (Ok (_, tag), _, s) \<Rightarrow> bnd (decode_like io v) (\<lambda>v. bnd (read_fields io fs) (\<lambda>vs. ret ((tag, v) # vs))) s
      | (Fail, _, s) \<Rightarrow> (Fail, s) | (Undef, _, s) \<Rightarrow> (Undef, s))"

lemma read_fields_feed:
  "buffer_ok s \<Longrightarrow> fields_ok fs \<Longrightarrow> read_fields io fs (feed (message_bytes fs) s) = (Ok fs, s)"
proof (induction fs rule: message_bytes.induct)
  case 1
  then show ?case by (simp add: feed_Nil)
next
  case (2 tag v fs)
  have ok: "tag \<noteq> 0" "unat tag < 2 ^ 29" "value_ok v" "fields_ok fs" using "2.prems"(2) by (auto simp: fields_ok_def)
  have "pb_decode_tag io (feed (tag_bytes (value_wire v) tag) (feed (value_bytes v) (feed (message_bytes fs) s))) =
      (Ok (value_wire v, tag), False, feed (value_bytes v) (feed (message_bytes fs) s))"
    by (rule decode_tag_feed) (use ok "2.prems"(1) in \<open>simp_all add: buffer_ok_feed value_wire_small\<close>)
  then show ?case
    using decode_like_feed [OF buffer_ok_feed [OF "2.prems"(1)] ok(3)] "2.IH" [OF "2.prems"(1) ok(4)]
    by (simp add: feed_append bnd_def)
qed

text \<open>A reader that knows no field: it reads every tag and skips what follows, up to the end.\<close>

fun scan_fields :: "'s pb_io \<Rightarrow> nat \<Rightarrow> 's pb_istream \<Rightarrow> (u32 \<times> pb_wire_type) list res" where
  "scan_fields io 0 s = Undef"
| "scan_fields io (Suc n) s =
     (case pb_decode_tag io s of
        (Fail, eof, s) \<Rightarrow> if eof then Ok [] else Fail
      | (Undef, eof, s) \<Rightarrow> Undef
      | (Ok (wire_type, tag), eof, s) \<Rightarrow>
          (case pb_skip_field io wire_type s of
             (Ok _, s) \<Rightarrow> res_map ((#) (tag, wire_type)) (scan_fields io n s)
           | (Fail, s) \<Rightarrow> Fail | (Undef, s) \<Rightarrow> Undef))"

lemma scan_message:
  "buffer_ok s \<Longrightarrow> bytes_left s = 0 \<Longrightarrow> fields_ok fs \<Longrightarrow>
   scan_fields io (Suc (length fs)) (feed (message_bytes fs) s) = Ok (map (\<lambda>(tag, v). (tag, value_wire v)) fs)"
proof (induction fs rule: message_bytes.induct)
  case 1
  then show ?case using decode_tag_end [of s io] by (auto simp: feed_Nil)
next
  case (2 tag v fs)
  have ok: "tag \<noteq> 0" "unat tag < 2 ^ 29" "value_ok v" "fields_ok fs" using "2.prems"(3) by (auto simp: fields_ok_def)
  let ?s = "feed (message_bytes fs) s"
  have "pb_decode_tag io (feed (tag_bytes (value_wire v) tag) (feed (value_bytes v) ?s)) =
      (Ok (value_wire v, tag), False, feed (value_bytes v) ?s)"
    by (rule decode_tag_feed) (use ok "2.prems"(1) in \<open>simp_all add: buffer_ok_feed value_wire_small\<close>)
  moreover have "pb_skip_field io (value_wire v) (feed (value_bytes v) ?s) = (Ok (), ?s)"
    by (rule skip_field_feed) (use ok "2.prems"(1) in \<open>simp_all add: buffer_ok_feed value_payload\<close>)
  moreover have "scan_fields io (Suc (length fs)) ?s = Ok (map (\<lambda>(tag, v). (tag, value_wire v)) fs)"
    using 2 ok by blast
  ultimately show ?case by (simp add: feed_append)
qed

text \<open>On any stream, well-formed or not, the reader comes to an end within one step per byte.\<close>

context pb_contract
begin

lemma tag_consumes:
  assumes s: "inv s" and "pb_decode_tag io s = (Ok a, eof, t)"
  shows "inv t" "bytes_left t < bytes_left s"
proof -
  obtain x u where b: "pb_readbyte io s = (Ok x, u)"
    using assms(2) by (auto simp: pb_decode_tag_def pb_decode_varint32_eof_def simp del: varint32_loop.simps split: prod.splits res.splits if_splits)
  then have u: "inv u" "bytes_left u < bytes_left s"
    using fineD [OF fine_readbyte s] readbyte_consumes [OF s] by auto
  have "kept u (varint32_loop io (Suc (bytes_left u)) 7 y u)" for y
    using lasts_varint32 u(1) by (simp add: lasts_def del: varint32_loop.simps)
  moreover have "t = u \<or> (\<exists>y v. varint32_loop io (Suc (bytes_left u)) 7 y u = (Ok v, t))"
    using assms(2) b by (auto simp: pb_decode_tag_def pb_decode_varint32_eof_def simp del: varint32_loop.simps split: prod.splits res.splits if_splits)
  ultimately show "inv t" "bytes_left t < bytes_left s" using u by (metis kept_simps(1) le_less_trans)+
qed

lemma scan_ends: "inv s \<Longrightarrow> bytes_left s < n \<Longrightarrow> scan_fields io n s \<noteq> Undef"
proof (induction n arbitrary: s)
  case (Suc n)
  obtain r eof t where tag: "pb_decode_tag io s = (r, eof, t)" by (metis prod_cases3)
  have k: "kept s (r, t)" using kept_tag [OF Suc.prems(1) tag] .
  show ?case
  proof (cases r)
    case (Ok a)
    have t: "inv t" "bytes_left t < bytes_left s" using tag_consumes [OF Suc.prems(1)] tag Ok by blast+
    obtain w n' where a: "a = (w, n')" by (cases a)
    have f: "kept t (pb_skip_field io w t)" using fineD [OF fine_skip_field t(1)] .
    show ?thesis
    proof (cases "pb_skip_field io w t")
      case (Pair r' u)
      have "scan_fields io n u \<noteq> Undef" if "r' = Ok ()"
        using f Pair that t(2) Suc.prems(2) by (intro Suc.IH) auto
      then show ?thesis using f Pair tag Ok a by (cases r'; cases "scan_fields io n u") auto
    qed
  qed (use k tag in auto)
qed simp

end

text \<open>Writing a message to a buffer.\<close>

lemma encode_to_buffer:
  assumes "length bs \<le> n" "n \<le> length mem" "n < 2 ^ 63" "emits bs m"
  obtains t where "m (pb_ostream_from_buffer mem n) = (Ok (), t)" "bytes_written t = length bs"
    "sink t = Memory (bs @ drop (length bs) mem) (length bs)"
  using emitsD(2) [OF assms(4), of "pb_ostream_from_buffer mem n" mem 0] assms(1-3)
  by (simp add: pb_ostream_from_buffer_def)

lemma encode_sizing:
  assumes "length bs < 2 ^ 64" "emits bs m"
  shows "m PB_OSTREAM_SIZING = (Ok (), PB_OSTREAM_SIZING\<lparr>bytes_written := length bs\<rparr>)"
  using emitsD(1) [OF assms(2), of PB_OSTREAM_SIZING] assms(1) by (simp add: PB_OSTREAM_SIZING_def)

end
