(* ===== verification/Pb_Fields.thy ===== *)
theory Pb_Fields
  imports Pb_Encode
begin

text \<open>
  nanopb's decoders of field types, \<^verbatim>\<open>pb_decode.c\<close>, into a message in memory, and their table \<^verbatim>\<open>PB_DECODERS\<close>. On
  every input a decoder stays within the place that the type of its field describes; a string behind a
  pointer gets a block of its own.
\<close>

subsection \<open>The machine\<close>

text \<open>The memory, and the stream that is read. When a read fails, the bytes that the application's reader stored
  before it failed are not modelled.\<close>

record 's pb_machine = heap +
  m_stream :: "'s pb_istream"

text \<open>The field, and the address of its destination.\<close>

type_synonym 's pb_decoder = "pb_field \<Rightarrow> u64 \<Rightarrow> ('s pb_machine, unit) cfun"

text \<open>
  The program around the decoder: the tables of submessages and extensions, by address; the reader of streams
  that are not buffers; the allocator, and the addresses that it picks; the address of the local variable
  \<^verbatim>\<open>fixed_count_size\<close> of a call of \<open>pb_decode_noinit\<close>, by the depth of the call; and the functions that the
  application registers to decode fields and extensions, by their addresses. A list of extensions is followed for
  \<open>h_extensions\<close> steps: the code has no such bound, and a circular list is an endless loop.
\<close>

record 's pb_host =
  h_tables :: "u64 \<Rightarrow> pb_field list option"
  reader :: "'s pb_io"
  h_alloc :: allocator
  h_pick :: "nat \<Rightarrow> nat \<Rightarrow> u64"
  h_frame :: "nat \<Rightarrow> u64"
  h_extensions :: nat
  decode_callback :: "u64 \<Rightarrow> pb_field \<Rightarrow> u64 \<Rightarrow> ('s pb_machine, unit) cfun"
  decode_extension_with :: "u64 \<Rightarrow> u64 \<Rightarrow> u32 \<Rightarrow> pb_wire_type \<Rightarrow> ('s pb_machine, unit) cfun"

definition on_stream :: "('s pb_istream, 'a) cfun \<Rightarrow> ('s pb_machine, 'a) cfun" where
  "on_stream m s = (case m (m_stream s) of (r, t) \<Rightarrow> (r, s\<lparr>m_stream := t\<rparr>))"

abbreviation m_error :: "string \<Rightarrow> ('s pb_machine, 'a) cfun" where
  "m_error msg \<equiv> on_stream (PB_RETURN_ERROR msg)"

subsection \<open>The decoders\<close>

definition pb_dec_bool :: "'s pb_host \<Rightarrow> 's pb_decoder" where
  "pb_dec_bool E field dest =
     bnd (on_stream (pb_decode_varint32 (reader E))) (\<lambda>v. poke dest [if v \<noteq> 0 then 1 else 0])"

definition pb_decode_bool :: "'s pb_host \<Rightarrow> pb_field \<Rightarrow> u64 \<Rightarrow> ('s pb_machine, unit) cfun" where
  "pb_decode_bool E any_field dest = pb_dec_bool E any_field dest"

text \<open>The stores of the integer decoders: the little-endian bytes of the value cast to the size of the
  field, and the value cast back.\<close>

definition store_clamped :: "bool \<Rightarrow> pb_field \<Rightarrow> u64 \<Rightarrow> u64 \<Rightarrow> ('s pb_machine, u64) cfun" where
  "store_clamped sx field dest v =
     (if data_size field = 8 then bnd (poke dest (le_bytes 8 v)) (\<lambda>_. ret v)
      else if data_size field = 4 then
        bnd (poke dest (le_bytes 4 v)) (\<lambda>_. ret (if sx then scast (ucast v :: u32) else ucast (ucast v :: u32)))
      else if data_size field = 2 then
        bnd (poke dest (le_bytes 2 v)) (\<lambda>_. ret (if sx then scast (ucast v :: u16) else ucast (ucast v :: u16)))
      else if data_size field = 1 then
        bnd (poke dest (le_bytes 1 v)) (\<lambda>_. ret (if sx then scast (ucast v :: u8) else ucast (ucast v :: u8)))
      else m_error ''invalid data_size'')"

definition pb_dec_varint :: "'s pb_host \<Rightarrow> 's pb_decoder" where
  "pb_dec_varint E field dest =
     bnd (on_stream (pb_decode_varint (reader E))) (\<lambda>v.
     let svalue = if data_size field = 8 then v else scast (ucast v :: u32)
     in bnd (store_clamped True field dest svalue) (\<lambda>clamped.
        if clamped \<noteq> svalue then m_error ''integer too large'' else ret ()))"

definition pb_dec_uvarint :: "'s pb_host \<Rightarrow> 's pb_decoder" where
  "pb_dec_uvarint E field dest =
     bnd (on_stream (pb_decode_varint (reader E))) (\<lambda>v.
     bnd (store_clamped False field dest v) (\<lambda>clamped.
     if clamped \<noteq> v then m_error ''integer too large'' else ret ()))"

definition pb_dec_svarint :: "'s pb_host \<Rightarrow> 's pb_decoder" where
  "pb_dec_svarint E field dest =
     bnd (on_stream (pb_decode_svarint (reader E))) (\<lambda>v.
     bnd (store_clamped True field dest v) (\<lambda>clamped.
     if clamped \<noteq> v then m_error ''integer too large'' else ret ()))"

definition pb_dec_fixed32 :: "'s pb_host \<Rightarrow> 's pb_decoder" where
  "pb_dec_fixed32 E field dest = bnd (on_stream (pb_decode_fixed32 (reader E))) (\<lambda>v. poke dest (le_bytes 4 (ucast v)))"

definition pb_dec_fixed64 :: "'s pb_host \<Rightarrow> 's pb_decoder" where
  "pb_dec_fixed64 E field dest = bnd (on_stream (pb_decode_fixed64 (reader E))) (\<lambda>v. poke dest (le_bytes 8 v))"

text \<open>A block for the pointer at \<open>pData\<close>; when there is none, the old one stays.\<close>

definition allocate_field :: "'s pb_host \<Rightarrow> u64 \<Rightarrow> nat \<Rightarrow> nat \<Rightarrow> ('s pb_machine, unit) cfun" where
  "allocate_field E pData dsize asize =
     bnd (peek_pointer pData) (\<lambda>ptr.
     if dsize = 0 \<or> asize = 0 then m_error ''invalid size''
     else if (dsize \<ge> 2 ^ 32 \<or> asize \<ge> 2 ^ 32) \<and> (2 ^ 64 - 1) div asize < dsize then m_error ''size too large''
     else bnd (heap_realloc (h_alloc E) (h_pick E) ptr (size_mul asize dsize)) (\<lambda>ptr.
          if ptr = 0 then m_error ''realloc failed'' else poke_pointer pData ptr))"

text \<open>\<^verbatim>\<open>pb_bytes_array_t\<close> has its size in four bytes, and the data behind it.\<close>

definition pb_dec_bytes :: "'s pb_host \<Rightarrow> 's pb_decoder" where
  "pb_dec_bytes E field dest =
     bnd (on_stream (pb_decode_varint32 (reader E))) (\<lambda>size.
     if size > PB_SIZE_MAX then m_error ''bytes overflow''
     else
       let alloc_size = size_add (unat size) 4
       in if unat size > alloc_size then m_error ''size too large''
          else bnd (if PB_ATYPE (f_type field) = PB_ATYPE_POINTER then
                      (\<lambda>s. if bytes_left (m_stream s) < unat size then m_error ''end-of-stream'' s
                           else bnd (allocate_field E dest alloc_size 1) (\<lambda>_. peek_pointer dest) s)
                    else if alloc_size > unat (data_size field) then m_error ''bytes overflow''
                    else ret dest) (\<lambda>bdest.
               bnd (poke bdest (le_bytes 4 (ucast size))) (\<lambda>_.
               bnd (on_stream (pb_read (reader E) (unat size))) (poke (bdest + 4)))))"

text \<open>The terminating NUL is written whether the read succeeds or not.\<close>

definition pb_dec_string :: "'s pb_host \<Rightarrow> 's pb_decoder" where
  "pb_dec_string E field dest =
     bnd (on_stream (pb_decode_varint32 (reader E))) (\<lambda>size.
     let alloc_size = unat (size + 1)
     in if alloc_size < unat size then m_error ''size too large''
        else bnd (if PB_ATYPE (f_type field) = PB_ATYPE_POINTER then
                    (\<lambda>s. if bytes_left (m_stream s) < unat size then m_error ''end-of-stream'' s
                         else bnd (allocate_field E dest alloc_size 1) (\<lambda>_. peek_pointer dest) s)
                  else if alloc_size > unat (data_size field) then m_error ''string overflow''
                  else ret dest) (\<lambda>dest s.
             case bnd (on_stream (pb_read (reader E) (unat size))) (poke dest) s of
               (Undef, s) \<Rightarrow> (Undef, s)
             | (status, s) \<Rightarrow> bnd (poke (dest + ucast size) [0]) (\<lambda>_ s. (status, s)) s))"

definition pb_dec_fixed_length_bytes :: "'s pb_host \<Rightarrow> 's pb_decoder" where
  "pb_dec_fixed_length_bytes E field dest =
     bnd (on_stream (pb_decode_varint32 (reader E))) (\<lambda>size.
     if size > PB_SIZE_MAX then m_error ''bytes overflow''
     else if size = 0 then poke dest (replicate (unat (data_size field)) 0)
     else if size \<noteq> data_size field then m_error ''incorrect fixed length bytes size''
     else bnd (on_stream (pb_read (reader E) (unat (data_size field)))) (poke dest))"

text \<open>\<^verbatim>\<open>PB_DECODERS\<close>, the table from types to decoders; the decoder of submessages is a parameter, extensions have
  none, and calling another entry is undefined.\<close>

definition PB_DECODERS :: "'s pb_host \<Rightarrow> 's pb_decoder \<Rightarrow> u8 \<Rightarrow> 's pb_decoder" where
  "PB_DECODERS E pb_dec_submessage t =
     (if t = PB_LTYPE_BOOL then pb_dec_bool E
      else if t = PB_LTYPE_VARINT then pb_dec_varint E
      else if t = PB_LTYPE_UVARINT then pb_dec_uvarint E
      else if t = PB_LTYPE_SVARINT then pb_dec_svarint E
      else if t = PB_LTYPE_FIXED32 then pb_dec_fixed32 E
      else if t = PB_LTYPE_FIXED64 then pb_dec_fixed64 E
      else if t = PB_LTYPE_BYTES then pb_dec_bytes E
      else if t = PB_LTYPE_STRING then pb_dec_string E
      else if t = PB_LTYPE_SUBMESSAGE then pb_dec_submessage
      else if t = PB_LTYPE_FIXED_LENGTH_BYTES then pb_dec_fixed_length_bytes E
      else (\<lambda>_ _. undef))"

subsection \<open>Sources within sources\<close>

text \<open>A source whose contract also holds when the decoder is to leave the last bytes of it alone, as in a
  substream: it does for each number \<open>k\<close> of such bytes. Buffers are such sources.\<close>

locale pb_nested =
  fixes io :: "'s pb_io"
    and inv :: "'s pb_istream \<Rightarrow> bool"
  assumes contract: "pb_contract io (\<lambda>s. inv (s\<lparr>bytes_left := bytes_left s + k\<rparr>))"
begin

definition good :: "nat \<Rightarrow> 's pb_istream \<Rightarrow> bool" where
  "good k s \<longleftrightarrow> inv (s\<lparr>bytes_left := bytes_left s + k\<rparr>)"

definition steady :: "('s pb_istream, 'a) cfun \<Rightarrow> bool" where
  "steady m \<longleftrightarrow> (\<forall>k s. good k s \<longrightarrow> (case m s of (r, t) \<Rightarrow> r \<noteq> Undef \<and> good k t \<and> bytes_left t \<le> bytes_left s))"

lemma good_contract: "pb_contract io (good k)"
  using contract [of k] by (simp add: good_def [abs_def])

lemma steady_fine: "(\<And>k. pb_contract.fine (good k) m) \<Longrightarrow> steady m"
  unfolding steady_def
proof (intro allI impI)
  fix k s assume "\<And>k. pb_contract.fine (good k) m" "good k s"
  then show "case m s of (r, t) \<Rightarrow> r \<noteq> Undef \<and> good k t \<and> bytes_left t \<le> bytes_left s"
    using pb_contract.fineD [OF good_contract, of k m s] by (cases "m s") (simp add: pb_contract.kept_def [OF good_contract])
qed

lemma steady_ops:
  "steady (pb_read io n)" "steady (pb_decode_varint32 io)" "steady (pb_decode_varint io)" "steady (pb_decode_svarint io)"
  "steady (pb_decode_fixed32 io)" "steady (pb_decode_fixed64 io)" "steady (pb_skip_field io w)" "steady (read_raw_value io w n)"
  "steady (PB_RETURN_ERROR msg)"
  by (intro steady_fine pb_contract.fine_read pb_contract.fine_varint32 pb_contract.fine_decode_varint pb_contract.fine_integers
      pb_contract.fine_skip_field pb_contract.fine_raw_value pb_contract.fine_intros(2) [OF good_contract] good_contract)+

lemma read_length: "good k s \<Longrightarrow> pb_read io n s = (Ok bs, t) \<Longrightarrow> length bs = n"
  using pb_contract.read_cases [OF good_contract, of k s n] by auto

subsection \<open>Steps that stay in a region\<close>

text \<open>\<open>stays k R s t\<close>: from \<open>s\<close> to \<open>t\<close> the memory changed within \<open>R\<close> only, no block came or went, and the source is
  still good and has no more than it had.\<close>

definition stays :: "nat \<Rightarrow> u64 set \<Rightarrow> 's pb_machine \<Rightarrow> 's pb_machine \<Rightarrow> bool" where
  "stays k R s t \<longleftrightarrow> good k (m_stream t) \<and> bytes_left (m_stream t) \<le> bytes_left (m_stream s) \<and>
     dom (ram t) = dom (ram s) \<and> (\<forall>a. a \<notin> R \<longrightarrow> ram t a = ram s a) \<and> blocks t = blocks s \<and> requests t = requests s"

text \<open>\<open>confined n D R m\<close>: with a good source of less than \<open>n\<close> bytes, and memory at the addresses \<open>D\<close>, the step \<open>m\<close> is
  defined and stays in \<open>R\<close>.\<close>

definition confined :: "nat \<Rightarrow> u64 set \<Rightarrow> u64 set \<Rightarrow> ('s pb_machine, 'a) cfun \<Rightarrow> bool" where
  "confined n D R m \<longleftrightarrow>
     (\<forall>k s. good k (m_stream s) \<longrightarrow> bytes_left (m_stream s) < n \<longrightarrow> D \<subseteq> dom (ram s) \<longrightarrow>
       (case m s of (r, t) \<Rightarrow> r \<noteq> Undef \<and> stays k R s t))"

lemma stays_refl: "good k (m_stream s) \<Longrightarrow> stays k R s s"
  by (simp add: stays_def)

lemma stays_trans: "stays k R s t \<Longrightarrow> stays k R t u \<Longrightarrow> stays k R s u"
  by (auto simp: stays_def)

lemma stays_mono: "stays k R s t \<Longrightarrow> R \<subseteq> R' \<Longrightarrow> stays k R' s t"
  by (auto simp: stays_def)

lemma staysD: "stays k R s t \<Longrightarrow> good k (m_stream t)" "stays k R s t \<Longrightarrow> bytes_left (m_stream t) \<le> bytes_left (m_stream s)"
  "stays k R s t \<Longrightarrow> dom (ram t) = dom (ram s)"
  by (simp_all add: stays_def)

lemma confinedD:
  assumes "confined n D R m" "good k (m_stream s)" "bytes_left (m_stream s) < n" "D \<subseteq> dom (ram s)" "m s = (r, t)"
  shows "r \<noteq> Undef \<and> stays k R s t"
  using assms(1) [unfolded confined_def, rule_format, OF assms(2-4)] assms(5) by simp

lemma confinedI:
  assumes "\<And>k s r t. good k (m_stream s) \<Longrightarrow> bytes_left (m_stream s) < n \<Longrightarrow> D \<subseteq> dom (ram s) \<Longrightarrow> m s = (r, t) \<Longrightarrow>
    r \<noteq> Undef \<and> stays k R s t"
  shows "confined n D R m"
  unfolding confined_def using assms by (intro allI impI) (auto split: prod.split)

lemma confined_after:
  assumes "confined n D R m" "stays k R s u" "bytes_left (m_stream s) < n" "D \<subseteq> dom (ram s)" "m u = (r, t)"
  shows "r \<noteq> Undef \<and> stays k R s t"
  using confinedD [OF assms(1) staysD(1) [OF assms(2)] le_less_trans [OF staysD(2) [OF assms(2)] assms(3)] _ assms(5)]
    stays_trans [OF assms(2)] staysD(3) [OF assms(2)] assms(4) by simp

lemma confined_bnd:
  assumes m: "confined n D R m" and f: "\<And>a. confined n D R (f a)"
  shows "confined n D R (bnd m f)"
proof (rule confinedI)
  fix k and s t :: "'s pb_machine" and r
  assume s: "good k (m_stream s)" "bytes_left (m_stream s) < n" "D \<subseteq> dom (ram s)" and b: "bnd m f s = (r, t)"
  obtain q u where u: "m s = (q, u)" by fastforce
  note k = confinedD [OF m s u]
  show "r \<noteq> Undef \<and> stays k R s t"
  proof (cases q)
    case (Ok a)
    then have "f a u = (r, t)" using b u by (simp add: bnd_def)
    from confined_after [OF f conjunct2 [OF k] s(2,3) this] show ?thesis .
  qed (use k u b in \<open>auto simp: bnd_def\<close>)
qed

lemma confined_if: "(b \<Longrightarrow> confined n D R m) \<Longrightarrow> (\<not> b \<Longrightarrow> confined n D R m') \<Longrightarrow> confined n D R (if b then m else m')"
  by simp

lemma confined_mono:
  assumes "confined n D R m" "D \<subseteq> D'" "R \<subseteq> R'" "n' \<le> n"
  shows "confined n' D' R' m"
proof (rule confinedI)
  fix k and s t :: "'s pb_machine" and r
  assume "good k (m_stream s)" "bytes_left (m_stream s) < n'" "D' \<subseteq> dom (ram s)" "m s = (r, t)"
  then show "r \<noteq> Undef \<and> stays k R' s t"
    using confinedD [OF assms(1), of k s r t] stays_mono [OF _ assms(3)] assms(2,4) by auto
qed

lemma confined_value: "confined n D R (ret a)" "confined n D R fail"
  by (simp_all add: confined_def stays_refl)

lemma confined_stream: "steady m \<Longrightarrow> confined n D R (on_stream m)"
  unfolding steady_def on_stream_def by (rule confinedI) (fastforce simp: stays_def split: prod.splits)

lemma confined_error: "confined n D R (m_error msg)"
  by (intro confined_stream steady_ops)

lemma confined_poke:
  assumes "region p (length bs) \<subseteq> R" "R \<subseteq> D"
  shows "confined n D R (poke p bs)"
proof (rule confinedI)
  fix k and s t :: "'s pb_machine" and r
  assume s: "good k (m_stream s)" "D \<subseteq> dom (ram s)" and b: "poke p bs s = (r, t)"
  have d: "region p (length bs) \<subseteq> dom (ram s)" using assms s(2) by blast
  then have t: "r = Ok ()" "t = s\<lparr>ram := write_bytes (ram s) p bs\<rparr>" using poke_Ok [OF d] b by simp_all
  have "\<forall>a. a \<notin> R \<longrightarrow> write_bytes (ram s) p bs a = ram s a" using assms(1) write_outside by blast
  then show "r \<noteq> Undef \<and> stays k R s t" using s(1) d t by (auto simp: stays_def dom_write)
qed

lemma confined_peek:
  assumes "region p j \<subseteq> D" "\<And>bs. length bs = j \<Longrightarrow> confined n D R (f bs)"
  shows "confined n D R (bnd (peek p j) f)"
proof (rule confinedI)
  fix k and s t :: "'s pb_machine" and r
  assume s: "good k (m_stream s)" "bytes_left (m_stream s) < n" "D \<subseteq> dom (ram s)" and b: "bnd (peek p j) f s = (r, t)"
  obtain bs where bs: "peek p j s = (Ok bs, s)" "length bs = j" using peek_Ok [of p j s] assms(1) s(3) by auto
  then have "f bs s = (r, t)" using b by (simp add: bnd_def)
  from confinedD [OF assms(2) [OF bs(2)] s this] show "r \<noteq> Undef \<and> stays k R s t" .
qed

lemma peek_number_peek: "peek_number p j = bnd (peek p j) (\<lambda>bs. ret (le_value bs))"
  by (rule ext) (simp add: peek_number_def load_number_def peek_def bnd_def)

lemma confined_peek_number: "region p j \<subseteq> D \<Longrightarrow> confined n D R (peek_number p j)"
  unfolding peek_number_peek by (rule confined_peek) (simp_all only: confined_value)

lemma confined_read:
  assumes "\<And>bs. length bs = j \<Longrightarrow> confined n D R (f bs)"
  shows "confined n D R (bnd (on_stream (pb_read io j)) f)"
proof (rule confinedI)
  fix k and s t :: "'s pb_machine" and r
  assume s: "good k (m_stream s)" "bytes_left (m_stream s) < n" "D \<subseteq> dom (ram s)" and b: "bnd (on_stream (pb_read io j)) f s = (r, t)"
  obtain q u where u: "on_stream (pb_read io j) s = (q, u)" by fastforce
  note k = confinedD [OF confined_stream [OF steady_ops(1)] s u, of R]
  show "r \<noteq> Undef \<and> stays k R s t"
  proof (cases q)
    case (Ok bs)
    then have "pb_read io j (m_stream s) = (Ok bs, m_stream u)" using u by (auto simp: on_stream_def split: prod.splits)
    then have l: "length bs = j" by (rule read_length [OF s(1)])
    have "f bs u = (r, t)" using b u Ok by (simp add: bnd_def)
    from confined_after [OF assms [OF l] conjunct2 [OF k] s(2,3) this] show ?thesis .
  qed (use k u b in \<open>auto simp: bnd_def\<close>)
qed

lemmas confined_intros = confined_bnd confined_if confined_value confined_stream confined_poke steady_ops

end

subsection \<open>The decoders stay in their place\<close>

text \<open>The room that the type of a field asks for, when the data is not behind a pointer.\<close>

definition field_room :: "pb_field \<Rightarrow> nat" where
  "field_room field =
     (let t = PB_LTYPE (f_type field)
      in if t = PB_LTYPE_BOOL then 1 else if t = PB_LTYPE_FIXED32 then 4 else if t = PB_LTYPE_FIXED64 then 8
         else unat (data_size field))"

definition behind_pointer :: "pb_field \<Rightarrow> bool" where
  "behind_pointer field \<longleftrightarrow> PB_ATYPE (f_type field) = PB_ATYPE_POINTER \<and>
     (PB_LTYPE (f_type field) = PB_LTYPE_BYTES \<or> PB_LTYPE (f_type field) = PB_LTYPE_STRING)"

context pb_nested
begin

lemma confined_bool: "reader E = io \<Longrightarrow> region p 1 \<subseteq> R \<Longrightarrow> R \<subseteq> D \<Longrightarrow> confined n D R (pb_dec_bool E field p)"
  unfolding pb_dec_bool_def by (simp only:) (intro confined_intros; simp)

lemma confined_clamped: "region p (unat (data_size field)) \<subseteq> R \<Longrightarrow> R \<subseteq> D \<Longrightarrow> confined n D R (store_clamped sx field p v)"
  unfolding store_clamped_def by (intro confined_intros) simp_all

lemma confined_integers:
  assumes "reader E = io" "region p (unat (data_size field)) \<subseteq> R" "R \<subseteq> D"
  shows "confined n D R (pb_dec_varint E field p)" "confined n D R (pb_dec_uvarint E field p)" "confined n D R (pb_dec_svarint E field p)"
  unfolding pb_dec_varint_def pb_dec_uvarint_def pb_dec_svarint_def Let_def assms(1)
  by (intro confined_intros confined_clamped [OF assms(2,3)])+

lemma confined_fixed:
  assumes "reader E = io" "R \<subseteq> D"
  shows "region p 4 \<subseteq> R \<Longrightarrow> confined n D R (pb_dec_fixed32 E field p)" "region p 8 \<subseteq> R \<Longrightarrow> confined n D R (pb_dec_fixed64 E field p)"
  unfolding pb_dec_fixed32_def pb_dec_fixed64_def assms(1)
  by (intro confined_intros assms(2); simp)+

lemma confined_fixed_length:
  assumes "reader E = io" "region p (unat (data_size field)) \<subseteq> R" "R \<subseteq> D"
  shows "confined n D R (pb_dec_fixed_length_bytes E field p)"
  unfolding pb_dec_fixed_length_bytes_def assms(1)
  by (intro confined_intros confined_read; simp add: assms)

text \<open>Bytes and strings, once there is room for them at \<open>p\<close>.\<close>

lemma confined_bytes_tail:
  assumes "unat sz + 4 \<le> m" "region p m \<subseteq> R" "R \<subseteq> D"
  shows "confined n D R (bnd (poke p (le_bytes 4 v)) (\<lambda>_. bnd (on_stream (pb_read io (unat (sz :: u32)))) (poke (p + 4))))"
proof -
  have "region p 4 \<subseteq> R" using region_mono [of 4 m p] assms by simp
  moreover have "region (p + 4) (unat sz) \<subseteq> R" using region_inside [of 4 "unat sz" m p] assms by simp
  ultimately show ?thesis using assms(3) by (intro confined_bnd confined_read confined_poke) simp_all
qed

lemma confined_then_always:
  assumes "confined n D R m" "confined n D R (w :: ('s pb_machine, unit) cfun)"
  shows "confined n D R (\<lambda>s. case m s of (Undef, s) \<Rightarrow> (Undef, s) | (status, s) \<Rightarrow> bnd w (\<lambda>_ s. (status, s)) s)"
proof (rule confinedI)
  fix k and s t :: "'s pb_machine" and r
  assume s: "good k (m_stream s)" "bytes_left (m_stream s) < n" "D \<subseteq> dom (ram s)"
    and b: "(case m s of (Undef, s) \<Rightarrow> (Undef, s) | (status, s) \<Rightarrow> bnd w (\<lambda>_ s. (status, s)) s) = (r, t)"
  obtain q u where u: "m s = (q, u)" by fastforce
  obtain q' u' where w: "w u = (q', u')" by fastforce
  note k = confinedD [OF assms(1) s u]
  note k' = confined_after [OF assms(2) conjunct2 [OF k] s(2,3) w]
  show "r \<noteq> Undef \<and> stays k R s t"
    using k k' b u w by (cases q; cases q') (auto simp: bnd_def)
qed

lemma confined_string_tail:
  assumes "unat sz + 1 \<le> m" "region p m \<subseteq> R" "R \<subseteq> D"
  shows "confined n D R (\<lambda>s. case bnd (on_stream (pb_read io (unat (sz :: u32)))) (poke p) s of
      (Undef, s) \<Rightarrow> (Undef, s)
    | (status, s) \<Rightarrow> bnd (poke (p + ucast sz) [0]) (\<lambda>_ s. (status, s)) s)"
proof (rule confined_then_always)
  have "region p (unat sz) \<subseteq> R" using region_mono [of "unat sz" m p] assms by simp
  then show "confined n D R (bnd (on_stream (pb_read io (unat sz))) (poke p))"
    using assms(3) by (intro confined_read confined_poke) simp_all
  have "unat (ucast sz :: u64) = unat sz" by (simp add: unsigned_ucast_eq take_bit_nat_eq_self unsigned_less [THEN less_trans])
  then have "region (p + ucast sz) 1 \<subseteq> R" using region_inside [of "ucast sz" 1 m p] assms by simp
  then show "confined n D R (poke (p + ucast sz) [0])" using assms(3) by (intro confined_poke) simp_all
qed

lemma string_size: "unat (sz + 1) = unat sz + 1 \<or> unat (sz + 1) < unat (sz :: u32)"
  using unsigned_less [of sz, where ?'a = nat] by (cases "unat sz + 1 < 2 ^ 32") (auto simp: unat_word_ariths not_less mod_if)

lemma bytes_size: "size_add (unat (sz :: u32)) 4 = unat sz + 4"
  using unsigned_less [of sz, where ?'a = nat] by (simp add: size_add_def)

lemma bnd_if: "bnd (if b then m else m') f = (if b then bnd m f else bnd m' f)"
  by simp

lemma confined_error_bnd: "confined n D R (bnd (m_error msg) f)"
proof -
  have "bnd (m_error msg) f = m_error msg" by (rule ext) (simp add: bnd_def on_stream_def PB_RETURN_ERROR_def)
  then show ?thesis by (simp only: confined_error)
qed

lemma confined_inline:
  assumes "reader E = io" "region p (unat (data_size field)) \<subseteq> R" "R \<subseteq> D" "PB_ATYPE (f_type field) \<noteq> PB_ATYPE_POINTER"
  shows "confined n D R (pb_dec_bytes E field p)" "confined n D R (pb_dec_string E field p)"
proof -
  show "confined n D R (pb_dec_bytes E field p)"
    unfolding pb_dec_bytes_def Let_def assms(1) bytes_size if_not_P [OF assms(4)] bnd_if bnd_ret
    by (intro confined_error_bnd confined_bnd confined_if confined_error confined_stream steady_ops confined_bytes_tail [OF _ assms(2,3)]) simp
  show "confined n D R (pb_dec_string E field p)"
    unfolding pb_dec_string_def Let_def assms(1) if_not_P [OF assms(4)] bnd_if bnd_ret
  proof (intro confined_error_bnd confined_bnd confined_if confined_error confined_stream steady_ops confined_string_tail [OF _ assms(2,3)])
    fix sz :: u32 assume "\<not> unat (sz + 1) < unat sz" "\<not> unat (data_size field) < unat (sz + 1)"
    then show "unat sz + 1 \<le> unat (data_size field)" using string_size [of sz] by linarith
  qed
qed

end

subsection \<open>Strings behind pointers\<close>

text \<open>What a pointer field owns: its own place, and its block.\<close>

definition cell_region :: "u64 \<Rightarrow> 'x heap_scheme \<Rightarrow> u64 set" where
  "cell_region p s = region p 8 \<union> (case number_at (ram s) p 8 of Some q \<Rightarrow> block_of q s | None \<Rightarrow> {})"

text \<open>What the type of a field says of its destination, and where its decoder may write.\<close>

definition dest_ok :: "pb_field \<Rightarrow> u64 \<Rightarrow> 'x heap_scheme \<Rightarrow> bool" where
  "dest_ok field p s \<longleftrightarrow>
     (if behind_pointer field then cell_ok p s \<and> heap_ok s else region p (field_room field) \<subseteq> dom (ram s))"

definition dest_region :: "pb_field \<Rightarrow> u64 \<Rightarrow> 'x heap_scheme \<Rightarrow> u64 set" where
  "dest_region field p s = (if behind_pointer field then cell_region p s else region p (field_room field))"

text \<open>A pointer with a block of \<open>n\<close> bytes.\<close>

definition holds_block :: "u64 \<Rightarrow> nat \<Rightarrow> u64 \<Rightarrow> 'x heap_scheme \<Rightarrow> bool" where
  "holds_block p n q s \<longleftrightarrow> heap_ok s \<and> region p 8 \<subseteq> dom (ram s) \<and> number_at (ram s) p 8 = Some q \<and> blocks s q = Some n \<and>
     region p 8 \<inter> region q n = {}"

definition untouched :: "u64 set \<Rightarrow> 'x heap_scheme \<Rightarrow> 'x heap_scheme \<Rightarrow> bool" where
  "untouched R s t \<longleftrightarrow> (\<forall>a \<in> dom (ram s) - R. ram t a = ram s a)"

lemma holds_block_cell: "holds_block p n q s \<Longrightarrow> cell_ok p s \<and> heap_ok s"
  by (auto simp: holds_block_def cell_ok_def)

lemma allocate_field_cases:
  assumes c: "cell_ok p s" "heap_ok s" and n: "0 < n" "n < 2 ^ 64"
  obtains (ok) q t where "allocate_field E p n 1 s = (Ok (), t)" "m_stream t = m_stream s" "holds_block p n q t" "untouched (cell_region p s) s t"
      "region q n \<inter> (dom (ram s) - cell_region p s) = {}"
  | (fail) t where "allocate_field E p n 1 s = (Fail, t)" "\<exists>e. m_stream t = (m_stream s)\<lparr>errmsg := e\<rparr>" "ram t = ram s" "blocks t = blocks s"
proof -
  obtain old where old: "region p 8 \<subseteq> dom (ram s)" "number_at (ram s) p 8 = Some old" "old = 0 \<or> (\<exists>m. blocks s old = Some m)"
      "region p 8 \<inter> block_of old s = {}"
    using c(1) heap_okD(1) [OF c(2), of 0] by (cases "blocks s 0") (auto simp: cell_ok_def block_of_def)
  have step: "allocate_field E p n 1 s = bnd (heap_realloc (h_alloc E) (h_pick E) old n) (\<lambda>ptr.
      if ptr = 0 then m_error ''realloc failed'' else poke_pointer p ptr) s"
    using peek_number_eq [OF old(2)] n by (simp add: allocate_field_def bnd_def size_mul_def)
  from c(2) old(3) show ?thesis
  proof (cases rule: realloc_cases [where n = n and A = "h_alloc E" and pick = "h_pick E"])
    case refused
    then have f: "allocate_field E p n 1 s = (Fail, s\<lparr>requests := Suc (requests s), m_stream := (m_stream s)
        \<lparr>errmsg := (case errmsg (m_stream s) of None \<Rightarrow> Some ''realloc failed'' | Some m \<Rightarrow> Some m)\<rparr>\<rparr>)"
      using step by (simp add: bnd_def on_stream_def PB_RETURN_ERROR_def)
    show ?thesis by (rule fail [OF f]) auto
  next
    case (moved q new)
    let ?mem = "write_bytes (forget_bytes (ram s) old (block_size old s)) q new"
    let ?s = "s\<lparr>ram := ?mem, blocks := (blocks s)(old := None, q := Some n), requests := Suc (requests s)\<rparr>"
    let ?t = "?s\<lparr>ram := write_bytes ?mem p (le_bytes 8 q)\<rparr>"
    have dom: "dom ?mem = (dom (ram s) - block_of old s) \<union> region q n"
      by (simp add: dom_write dom_forget block_region moved(3))
    have p: "region p 8 \<subseteq> dom (ram s) - block_of old s" using old by blast
    then have apart: "region p 8 \<inter> region q n = {}" using moved(5) by blast
    have "allocate_field E p n 1 s = (Ok (), ?t)"
      using step moved(1,2) poke_Ok [of p "le_bytes 8 q" ?s] p dom by (auto simp: bnd_def)
    moreover have "holds_block p n q ?t"
    proof -
      have "heap_ok ?s" by (rule realloc_heap_ok [OF c(2) moved(2,5,3)])
      moreover have "dom (ram ?t) = dom (ram ?s)" using p dom by (auto simp: dom_write)
      ultimately have "heap_ok ?t" by (simp add: heap_ok_def)
      then show ?thesis using p dom apart number_written by (auto simp: holds_block_def dom_write)
    qed
    moreover have "untouched (cell_region p s) s ?t"
      unfolding untouched_def
    proof
      fix a assume a: "a \<in> dom (ram s) - cell_region p s"
      then have "a \<notin> region p 8" "a \<notin> block_of old s" using old(2) by (simp_all add: cell_region_def)
      moreover from this a moved(5) have "a \<notin> region q n" by blast
      ultimately show "ram ?t a = ram s a"
        by (simp add: write_outside forget_outside block_region moved(3))
    qed
    moreover have "region q n \<inter> (dom (ram s) - cell_region p s) = {}"
      using moved(5) old(2) by (auto simp: cell_region_def)
    ultimately show ?thesis by (intro ok) simp_all
  qed
qed

context pb_nested
begin

lemma good_errmsg: "good k s \<Longrightarrow> good k (s\<lparr>errmsg := e\<rparr>)"
  using pb_contract.inv_errmsg [OF good_contract] by blast

text \<open>A step that writes to the block only.\<close>

lemma holds_block_stays:
  assumes "holds_block p n q s" "stays k (region q n) s t"
  shows "holds_block p n q t"
proof -
  have "number_at (ram t) p 8 = number_at (ram s) p 8"
    unfolding number_at_def using assms by (intro arg_cong [where f = "map_option le_value"] memory_bytes_cong) (auto simp: stays_def holds_block_def)
  then show "holds_block p n q t" using assms by (simp add: holds_block_def stays_def heap_ok_def)
qed

lemma pointer_tail:
  assumes c: "cell_ok p s" "heap_ok s" "good k (m_stream s)" and n: "0 < n" "n < 2 ^ 64"
    and tail: "\<And>q. confined (Suc (bytes_left (m_stream s))) (region q n) (region q n) (tail q :: ('s pb_machine, unit) cfun)"
    and e: "bnd (bnd (allocate_field E p n 1) (\<lambda>_. peek_pointer p)) tail s = (r, t)"
  shows "r \<noteq> Undef \<and> cell_ok p t \<and> heap_ok t \<and> good k (m_stream t) \<and> bytes_left (m_stream t) \<le> bytes_left (m_stream s) \<and>
    untouched (cell_region p s) s t"
  using c(1,2) n
proof (cases rule: allocate_field_cases [where E = E])
  case (ok q u)
  have q: "number_at (ram u) p 8 = Some q" "region q n \<subseteq> dom (ram u)"
    using ok(3) heap_okD(2) [of u q n] by (auto simp: holds_block_def)
  then have "tail q u = (r, t)" using e ok peek_number_eq [OF q(1)] by (simp add: bnd_def)
  from confinedD [OF tail _ _ q(2) this, of k] have t: "r \<noteq> Undef" "stays k (region q n) u t" using ok(2) c(3) by simp_all
  have "untouched (cell_region p s) s t"
    unfolding untouched_def
  proof
    fix a assume a: "a \<in> dom (ram s) - cell_region p s"
    then have "a \<notin> region q n" using ok(5) by blast
    moreover have "ram u a = ram s a" using ok(4) a by (simp add: untouched_def)
    ultimately show "ram t a = ram s a" using t(2) by (simp add: stays_def)
  qed
  then show ?thesis using t ok holds_block_cell [OF holds_block_stays [OF ok(3) t(2)]] by (auto simp: stays_def)
next
  case (fail u)
  then have "r = Fail" "t = u" using e by (auto simp: bnd_def)
  then show ?thesis using fail c by (auto simp: cell_ok_def heap_ok_def good_errmsg untouched_def)
qed

end

text \<open>The types below those of submessages.\<close>

lemma small_types: "t < 8 \<Longrightarrow> t = 0 \<or> t = 1 \<or> t = 2 \<or> t = 3 \<or> t = 4 \<or> t = 5 \<or> t = 6 \<or> t = (7 :: u8)"
proof -
  assume "t < 8"
  then have "unat t < 8" by (simp add: word_less_nat_alt)
  then have "unat t \<in> {0, 1, 2, 3, 4, 5, 6, 7}" by auto
  then show ?thesis by (auto simp: word_unat_eq_iff)
qed

lemma cell_ok_stream [simp]: "cell_ok p (s\<lparr>m_stream := u\<rparr>) = cell_ok p s" "heap_ok (s\<lparr>m_stream := u\<rparr>) = heap_ok s"
  "cell_region p (s\<lparr>m_stream := u\<rparr>) = cell_region p s" "untouched R (s\<lparr>m_stream := u\<rparr>) t = untouched R s t"
  "untouched R s (t\<lparr>m_stream := u\<rparr>) = untouched R s t"
  by (simp_all add: cell_ok_def heap_ok_def cell_region_def block_of_def untouched_def split: option.split)

lemma untouched_refl [simp]: "untouched R s s"
  by (simp add: untouched_def)

context pb_nested
begin

text \<open>What a decoder behind a pointer keeps.\<close>

definition pointer_kept :: "u64 \<Rightarrow> nat \<Rightarrow> 's pb_machine \<Rightarrow> 'a res \<times> 's pb_machine \<Rightarrow> bool" where
  "pointer_kept p k s res \<longleftrightarrow> fst res \<noteq> Undef \<and> cell_ok p (snd res) \<and> heap_ok (snd res) \<and> good k (m_stream (snd res)) \<and>
     bytes_left (m_stream (snd res)) \<le> bytes_left (m_stream s) \<and> untouched (cell_region p s) s (snd res)"

lemma pointer_error: "cell_ok p s \<Longrightarrow> heap_ok s \<Longrightarrow> good k (m_stream s) \<Longrightarrow> pointer_kept p k s (m_error msg s)"
  by (simp add: pointer_kept_def on_stream_def PB_RETURN_ERROR_def good_errmsg)

lemma pointer_length:
  assumes s: "cell_ok p s" "heap_ok s" "good k (m_stream s)"
    and f: "\<And>sz t. cell_ok p t \<Longrightarrow> heap_ok t \<Longrightarrow> good k (m_stream t) \<Longrightarrow> pointer_kept p k t (f sz t)"
  shows "pointer_kept p k s (bnd (on_stream (pb_decode_varint32 io)) f s)"
proof (cases "pb_decode_varint32 io (m_stream s)")
  case (Pair r u)
  have u: "r \<noteq> Undef \<and> good k u \<and> bytes_left u \<le> bytes_left (m_stream s)"
    using steady_ops(2) [unfolded steady_def, rule_format, OF s(3)] Pair by simp
  show ?thesis
  proof (cases r)
    case (Ok sz)
    have "pointer_kept p k (s\<lparr>m_stream := u\<rparr>) (f sz (s\<lparr>m_stream := u\<rparr>))" using s u by (intro f) simp_all
    then show ?thesis using u Ok Pair by (auto simp: bnd_def on_stream_def pointer_kept_def)
  qed (use u s Pair in \<open>auto simp: bnd_def on_stream_def pointer_kept_def\<close>)
qed

lemma pointer_room:
  assumes c: "cell_ok p s" "heap_ok s" "good k (m_stream s)" and n: "0 < n" "n < 2 ^ 64"
    and tail: "\<And>q m. confined m (region q n) (region q n) (tail q :: ('s pb_machine, unit) cfun)"
  shows "pointer_kept p k s (bnd (\<lambda>s. if bytes_left (m_stream s) < j then m_error msg s
       else bnd (allocate_field E p n 1) (\<lambda>_. peek_pointer p) s) tail s)"
proof (cases "bytes_left (m_stream s) < j")
  case True
  then show ?thesis using pointer_error [OF c, of msg] by (simp add: bnd_def on_stream_def PB_RETURN_ERROR_def)
next
  case False
  obtain r t where e: "bnd (bnd (allocate_field E p n 1) (\<lambda>_. peek_pointer p)) tail s = (r, t)" by fastforce
  then have "bnd (\<lambda>s. if bytes_left (m_stream s) < j then m_error msg s
       else bnd (allocate_field E p n 1) (\<lambda>_. peek_pointer p) s) tail s = (r, t)" using False by (simp add: bnd_def)
  then show ?thesis using pointer_tail [OF c n tail e] by (simp add: pointer_kept_def)
qed

lemma pointer_strings:
  assumes "reader E = io" and a: "PB_ATYPE (f_type field) = PB_ATYPE_POINTER" and s: "cell_ok p s" "heap_ok s" "good k (m_stream s)"
  shows "pointer_kept p k s (pb_dec_bytes E field p s)" "pointer_kept p k s (pb_dec_string E field p s)"
proof -
  have small: "unat (sz :: u32) < 2 ^ 32" for sz using unsigned_less [of sz, where ?'a = nat] by simp
  show "pointer_kept p k s (pb_dec_bytes E field p s)"
    unfolding pb_dec_bytes_def Let_def assms(1) bytes_size if_P [OF a]
  proof (rule pointer_length [OF s])
    fix sz :: u32 and t :: "'s pb_machine" assume t: "cell_ok p t" "heap_ok t" "good k (m_stream t)"
    have "unat sz + 4 < 2 ^ 64" using small [of sz] by simp
    then have "pointer_kept p k t (bnd (\<lambda>s. if bytes_left (m_stream s) < unat sz then m_error ''end-of-stream'' s
           else bnd (allocate_field E p (unat sz + 4) 1) (\<lambda>_. peek_pointer p) s) (\<lambda>bdest.
         bnd (poke bdest (le_bytes 4 (ucast sz))) (\<lambda>_. bnd (on_stream (pb_read io (unat sz))) (poke (bdest + 4)))) t)"
      by (intro pointer_room t confined_bytes_tail [OF order_refl]) simp_all
    then show "pointer_kept p k t ((if PB_SIZE_MAX < sz then m_error ''bytes overflow''
        else if unat sz + 4 < unat sz then m_error ''size too large''
        else bnd (\<lambda>s. if bytes_left (m_stream s) < unat sz then m_error ''end-of-stream'' s
              else bnd (allocate_field E p (unat sz + 4) 1) (\<lambda>_. peek_pointer p) s)
            (\<lambda>bdest. bnd (poke bdest (le_bytes 4 (ucast sz))) (\<lambda>_. bnd (on_stream (pb_read io (unat sz))) (poke (bdest + 4))))) t)"
      using pointer_error [OF t] by auto
  qed
  show "pointer_kept p k s (pb_dec_string E field p s)"
    unfolding pb_dec_string_def Let_def assms(1) if_P [OF a]
  proof (rule pointer_length [OF s])
    fix sz :: u32 and t :: "'s pb_machine" assume t: "cell_ok p t" "heap_ok t" "good k (m_stream t)"
    let ?tail = "\<lambda>dest s. case bnd (on_stream (pb_read io (unat sz))) (poke dest) s of
          (Undef, s) \<Rightarrow> (Undef, s)
        | (status, s) \<Rightarrow> bnd (poke (dest + ucast sz) [0]) (\<lambda>_ s. (status, s)) s"
    show "pointer_kept p k t ((if unat (sz + 1) < unat sz then m_error ''size too large''
        else bnd (\<lambda>s. if bytes_left (m_stream s) < unat sz then m_error ''end-of-stream'' s
              else bnd (allocate_field E p (unat (sz + 1)) 1) (\<lambda>_. peek_pointer p) s) ?tail) t)"
    proof (cases "unat (sz + 1) < unat sz")
      case True
      then show ?thesis using pointer_error [OF t] by simp
    next
      case False
      then have n: "unat (sz + 1) = unat sz + 1" using string_size [of sz] by simp
      have "pointer_kept p k t (bnd (\<lambda>s. if bytes_left (m_stream s) < unat sz then m_error ''end-of-stream'' s
              else bnd (allocate_field E p (unat (sz + 1)) 1) (\<lambda>_. peek_pointer p) s) ?tail t)"
        unfolding n using small [of sz] by (intro pointer_room t confined_string_tail [OF order_refl]) simp_all
      then show ?thesis using False by simp
    qed
  qed
qed

lemma confined_decoders:
  assumes "reader E = io" "PB_LTYPE (f_type field) < PB_LTYPE_SUBMESSAGE \<or> PB_LTYPE (f_type field) = PB_LTYPE_FIXED_LENGTH_BYTES"
    "\<not> behind_pointer field" "region p (field_room field) \<subseteq> R" "R \<subseteq> D"
  shows "confined n D R (PB_DECODERS E sub (PB_LTYPE (f_type field)) field p)"
proof -
  let ?t = "PB_LTYPE (f_type field)"
  have "?t = 0 \<or> ?t = 1 \<or> ?t = 2 \<or> ?t = 3 \<or> ?t = 4 \<or> ?t = 5 \<or> ?t = 6 \<or> ?t = 7 \<or> ?t = 10"
    using assms(2) small_types [of ?t] by argo
  moreover note confined_bool [OF assms(1) _ assms(5), of p] confined_integers [OF assms(1) _ assms(5), of p field]
    confined_fixed [OF assms(1,5), of p] confined_fixed_length [OF assms(1) _ assms(5), of p field]
    confined_inline [OF assms(1) _ assms(5), of p field]
  ultimately show ?thesis
    using assms(3,4) by (auto simp: PB_DECODERS_def field_room_def behind_pointer_def)
qed

lemma decoders_kept:
  assumes "reader E = io" "PB_LTYPE (f_type field) < PB_LTYPE_SUBMESSAGE \<or> PB_LTYPE (f_type field) = PB_LTYPE_FIXED_LENGTH_BYTES"
    "good k (m_stream s)" "dest_ok field p s" "PB_DECODERS E sub (PB_LTYPE (f_type field)) field p s = (r, t)"
  shows "r \<noteq> Undef \<and> dest_ok field p t \<and> good k (m_stream t) \<and> bytes_left (m_stream t) \<le> bytes_left (m_stream s) \<and>
    untouched (dest_region field p s) s t"
proof (cases "behind_pointer field")
  case True
  then have a: "PB_ATYPE (f_type field) = PB_ATYPE_POINTER" "PB_LTYPE (f_type field) = PB_LTYPE_BYTES \<or> PB_LTYPE (f_type field) = PB_LTYPE_STRING"
    by (simp_all add: behind_pointer_def)
  have "pointer_kept p k s (r, t)"
    using pointer_strings [OF assms(1) a(1) _ _ assms(3), of p] assms(4,5) True a(2) by (auto simp: PB_DECODERS_def dest_ok_def)
  then show ?thesis using True by (simp add: pointer_kept_def dest_ok_def dest_region_def)
next
  case False
  then have d: "region p (field_room field) \<subseteq> dom (ram s)" using assms(4) by (simp add: dest_ok_def)
  from confinedD [OF confined_decoders [OF assms(1,2) False order_refl order_refl] assms(3) lessI d assms(5)]
  show ?thesis using False d by (simp add: dest_ok_def dest_region_def stays_def untouched_def)
qed

end

subsection \<open>Buffers\<close>

lemma buffer_within: "pb_contract io (\<lambda>s. buffer_ok (s\<lparr>bytes_left := bytes_left s + k\<rparr>))"
  by unfold_locales
    (auto simp: buffer_ok_def stream_callback_def buf_read_def split: pb_source.splits if_splits)

interpretation buffer_nested: pb_nested io buffer_ok
  by (rule pb_nested.intro) (rule buffer_within)

end
