(* ===== verification/Pb_Iter.thy ===== *)
theory Pb_Iter
  imports Pb_Fields
begin

text \<open>
  nanopb's field iterator, \<^verbatim>\<open>pb_common.c\<close>: it walks the table of a message's fields, round and round, and
  keeps the addresses of the field it is at. The table has only offsets from one field to the next, so
  these addresses are right only if they depend on nothing but the field: that is the invariant.
\<close>

subsection \<open>The code\<close>

text \<open>\<^verbatim>\<open>struct pb_field_iter_s\<close>. The table is the list of its entries, with the terminator of tag 0, and a
  position in it is an index; addresses are 64-bit numbers, 0 for NULL.\<close>

record pb_field_iter =
  start :: "pb_field list"
  pos :: nat
  required_field_index :: u32
  dest_struct :: u64
  pData :: u64
  pSize :: u64

definition entry :: "(pb_field_iter, pb_field) cfun" where
  "entry it = (if pos it < length (start it) then (Ok (start it ! pos it), it) else (Undef, it))"

definition pb_field_iter_begin :: "pb_field list \<Rightarrow> u64 \<Rightarrow> (pb_field_iter, bool) cfun" where
  "pb_field_iter_begin tab dest it =
     bnd entry (\<lambda>f it.
       let it = (if dest = 0 then it\<lparr>pData := 0, pSize := 0\<rparr>
                 else let d = dest + ucast (data_offset f) in it\<lparr>pData := d, pSize := d + scast (size_offset f)\<rparr>)
       in (Ok (f_tag f \<noteq> 0), it))
     (it\<lparr>start := tab, pos := 0, required_field_index := 0, dest_struct := dest\<rparr>)"

definition prev_size :: "pb_field \<Rightarrow> u64" where
  "prev_size prev_field =
     (if PB_ATYPE (f_type prev_field) = PB_ATYPE_STATIC \<and> PB_HTYPE (f_type prev_field) = PB_HTYPE_REPEATED
      then ucast (data_size prev_field) * ucast (array_size prev_field)
      else if PB_ATYPE (f_type prev_field) = PB_ATYPE_POINTER then 8
      else ucast (data_size prev_field))"

definition pb_field_iter_next :: "(pb_field_iter, bool) cfun" where
  "pb_field_iter_next =
     bnd entry (\<lambda>prev_field.
     if f_tag prev_field = 0 then ret False
     else (\<lambda>it. bnd entry (\<lambda>f it.
       if f_tag f = 0 then bnd (pb_field_iter_begin (start it) (dest_struct it)) (\<lambda>_. ret False) it
       else if PB_HTYPE (f_type prev_field) = PB_HTYPE_ONEOF \<and> PB_HTYPE (f_type f) = PB_HTYPE_ONEOF \<and> data_offset f = PB_SIZE_MAX
       then (Ok True, it)
       else
         let i = (if PB_HTYPE (f_type prev_field) = PB_HTYPE_REQUIRED then required_field_index it + 1 else required_field_index it);
             d = pData it + prev_size prev_field + ucast (data_offset f)
         in (Ok True, it\<lparr>required_field_index := i, pData := d, pSize := d + scast (size_offset f)\<rparr>))
       (it\<lparr>pos := pos it + 1\<rparr>)))"

text \<open>The loop of \<open>pb_field_iter_find\<close>; its fuel is one more than the entries of the table.\<close>

fun iter_find_loop :: "nat \<Rightarrow> nat \<Rightarrow> u32 \<Rightarrow> (pb_field_iter, bool) cfun" where
  "iter_find_loop 0 start_pos tag = undef"
| "iter_find_loop (Suc n) start_pos tag =
     bnd entry (\<lambda>f.
     if f_tag f = tag \<and> PB_LTYPE (f_type f) \<noteq> PB_LTYPE_EXTENSION then ret True
     else bnd pb_field_iter_next (\<lambda>_ it.
       if pos it \<noteq> start_pos then iter_find_loop n start_pos tag it else (Ok False, it)))"

definition pb_field_iter_find :: "u32 \<Rightarrow> (pb_field_iter, bool) cfun" where
  "pb_field_iter_find tag it = iter_find_loop (Suc (length (start it))) (pos it) tag it"

subsection \<open>Where the fields are\<close>

text \<open>A table ends with its first entry of tag 0; \<open>n\<close> entries are before it.\<close>

definition table_ok :: "pb_field list \<Rightarrow> nat \<Rightarrow> bool" where
  "table_ok tab n \<longleftrightarrow> n < length tab \<and> f_tag (tab ! n) = 0 \<and> (\<forall>i < n. f_tag (tab ! i) \<noteq> 0)"

text \<open>Whether an entry shares the place of the one before it, in a union.\<close>

definition in_union :: "pb_field \<Rightarrow> pb_field \<Rightarrow> bool" where
  "in_union prev_field f \<longleftrightarrow> PB_HTYPE (f_type prev_field) = PB_HTYPE_ONEOF \<and> PB_HTYPE (f_type f) = PB_HTYPE_ONEOF \<and> data_offset f = PB_SIZE_MAX"

text \<open>The offsets of an entry's data and of its size, in the message.\<close>

fun field_offset :: "pb_field list \<Rightarrow> nat \<Rightarrow> u64" where
  "field_offset tab 0 = ucast (data_offset (tab ! 0))"
| "field_offset tab (Suc k) =
     (if in_union (tab ! k) (tab ! Suc k) then field_offset tab k
      else field_offset tab k + prev_size (tab ! k) + ucast (data_offset (tab ! Suc k)))"

fun size_at :: "pb_field list \<Rightarrow> nat \<Rightarrow> u64" where
  "size_at tab 0 = field_offset tab 0 + scast (size_offset (tab ! 0))"
| "size_at tab (Suc k) =
     (if in_union (tab ! k) (tab ! Suc k) then size_at tab k
      else field_offset tab (Suc k) + scast (size_offset (tab ! Suc k)))"

fun required_before :: "pb_field list \<Rightarrow> nat \<Rightarrow> u32" where
  "required_before tab 0 = 0"
| "required_before tab (Suc k) =
     required_before tab k + (if PB_HTYPE (f_type (tab ! k)) = PB_HTYPE_REQUIRED then 1 else 0)"

text \<open>The iterator at an entry, of the message at \<open>dest\<close>.\<close>

definition iter_at :: "pb_field list \<Rightarrow> u64 \<Rightarrow> nat \<Rightarrow> pb_field_iter" where
  "iter_at tab dest k =
     \<lparr>start = tab, pos = k, required_field_index = required_before tab k, dest_struct = dest,
      pData = dest + field_offset tab k, pSize = dest + size_at tab k\<rparr>"

lemma entry_at: "k < length tab \<Longrightarrow> bnd entry f (iter_at tab dest k) = f (tab ! k) (iter_at tab dest k)"
  by (simp add: bnd_def entry_def iter_at_def)

lemma entry_bnd: "entry it = (Ok f, it) \<Longrightarrow> bnd entry g it = g f it"
  by (simp add: bnd_def)

lemma iter_begin:
  assumes "table_ok tab n" "dest \<noteq> 0"
  shows "pb_field_iter_begin tab dest it = (Ok (n \<noteq> 0), iter_at tab dest 0)"
proof -
  have t: "(f_tag (tab ! 0) \<noteq> 0) = (n \<noteq> 0)" and l: "0 < length tab" using assms(1) by (auto simp: table_ok_def intro: gr0I)
  let ?it = "it\<lparr>start := tab, pos := 0, required_field_index := 0, dest_struct := dest\<rparr>"
  have "entry ?it = (Ok (tab ! 0), ?it)" using l by (simp add: entry_def)
  then show ?thesis using t assms(2) by (simp add: pb_field_iter_begin_def bnd_simps(1) iter_at_def add.assoc)
qed

lemma union_not_required: "in_union f g \<Longrightarrow> PB_HTYPE (f_type f) \<noteq> PB_HTYPE_REQUIRED"
  by (simp add: in_union_def)

lemma iter_next_step:
  assumes "table_ok tab n" "Suc k < n"
  shows "pb_field_iter_next (iter_at tab dest k) = (Ok True, iter_at tab dest (Suc k))"
proof -
  let ?it = "iter_at tab dest k\<lparr>pos := pos (iter_at tab dest k) + 1\<rparr>"
  have l: "k < length tab" "Suc k < length tab" using assms by (auto simp: table_ok_def)
  have t: "f_tag (tab ! k) \<noteq> 0" "f_tag (tab ! Suc k) \<noteq> 0" using assms by (auto simp: table_ok_def)
  have e: "entry ?it = (Ok (tab ! Suc k), ?it)" using l by (simp add: entry_def iter_at_def)
  have "pb_field_iter_next (iter_at tab dest k) =
      (if in_union (tab ! k) (tab ! Suc k) then (Ok True, ?it)
       else let i = (if PB_HTYPE (f_type (tab ! k)) = PB_HTYPE_REQUIRED then required_field_index ?it + 1 else required_field_index ?it);
                d = pData ?it + prev_size (tab ! k) + ucast (data_offset (tab ! Suc k))
            in (Ok True, ?it\<lparr>required_field_index := i, pData := d, pSize := d + scast (size_offset (tab ! Suc k))\<rparr>))"
    unfolding pb_field_iter_next_def entry_at [OF l(1)] if_not_P [OF t(1)] entry_bnd [OF e] if_not_P [OF t(2)] in_union_def ..
  then show ?thesis
    using union_not_required [of "tab ! k" "tab ! Suc k"] by (auto simp: iter_at_def Let_def add.assoc)
qed

lemma iter_next_wrap:
  assumes "table_ok tab n" "Suc k = n" "dest \<noteq> 0"
  shows "pb_field_iter_next (iter_at tab dest k) = (Ok False, iter_at tab dest 0)"
proof -
  let ?it = "iter_at tab dest k\<lparr>pos := pos (iter_at tab dest k) + 1\<rparr>"
  have l: "k < length tab" "Suc k < length tab" using assms by (auto simp: table_ok_def)
  have t: "f_tag (tab ! k) \<noteq> 0" "f_tag (tab ! Suc k) = 0" using assms by (auto simp: table_ok_def)
  have e: "entry ?it = (Ok (tab ! Suc k), ?it)" using l by (simp add: entry_def iter_at_def)
  have s: "start ?it = tab" "dest_struct ?it = dest" by (simp_all add: iter_at_def)
  show ?thesis
    unfolding pb_field_iter_next_def entry_at [OF l(1)] if_not_P [OF t(1)] entry_bnd [OF e] if_P [OF t(2)] s
    using iter_begin [OF assms(1,3)] by (simp add: bnd_simps(1))
qed

lemma iter_next_empty: "table_ok tab 0 \<Longrightarrow> pb_field_iter_next (iter_at tab dest 0) = (Ok False, iter_at tab dest 0)"
  unfolding pb_field_iter_next_def by (subst entry_at) (auto simp: table_ok_def)

text \<open>All steps at once: the position goes round, and the addresses with it.\<close>

lemma iter_next:
  assumes "table_ok tab n" "k < n \<or> k = 0 \<and> n = 0" "dest \<noteq> 0"
  shows "pb_field_iter_next (iter_at tab dest k) = (Ok (Suc k < n), iter_at tab dest (if Suc k < n then Suc k else 0))"
proof (cases "Suc k < n")
  case True
  then show ?thesis using iter_next_step [OF assms(1)] by simp
next
  case False
  then have "n = 0 \<and> k = 0 \<or> Suc k = n" using assms(2) by auto
  then show ?thesis using False iter_next_wrap [OF assms(1) _ assms(3)] iter_next_empty assms(1) by auto
qed

subsection \<open>Searching\<close>

definition is_field :: "u32 \<Rightarrow> pb_field \<Rightarrow> bool" where
  "is_field tag f \<longleftrightarrow> f_tag f = tag \<and> PB_LTYPE (f_type f) \<noteq> PB_LTYPE_EXTENSION"

lemma all_from_Suc: "\<forall>l. Suc i \<le> l \<and> l < j \<longrightarrow> P l \<Longrightarrow> P i \<Longrightarrow> \<forall>l. i \<le> l \<and> l < j \<longrightarrow> P l"
  by (metis Suc_leI le_neq_implies_less)

text \<open>From the entry \<open>(k + i) mod n\<close> on, the entries before it having been passed.\<close>

lemma iter_find_loop_spec:
  assumes t: "table_ok tab n" and k: "k < n" and d: "dest \<noteq> 0"
  shows "i < n \<Longrightarrow> n - i < m \<Longrightarrow>
    (\<exists>j. i \<le> j \<and> j < n \<and> is_field tag (tab ! ((k + j) mod n)) \<and>
         (\<forall>l. i \<le> l \<and> l < j \<longrightarrow> \<not> is_field tag (tab ! ((k + l) mod n))) \<and>
         iter_find_loop m k tag (iter_at tab dest ((k + i) mod n)) = (Ok True, iter_at tab dest ((k + j) mod n))) \<or>
    ((\<forall>l. i \<le> l \<and> l < n \<longrightarrow> \<not> is_field tag (tab ! ((k + l) mod n))) \<and>
         iter_find_loop m k tag (iter_at tab dest ((k + i) mod n)) = (Ok False, iter_at tab dest k))"
proof (induction m arbitrary: i)
  case (Suc m)
  let ?p = "(k + i) mod n"
  have p: "?p < n" using k by simp
  then have l: "?p < length tab" using t by (simp add: table_ok_def)
  show ?case
  proof (cases "is_field tag (tab ! ?p)")
    case True
    then have "iter_find_loop (Suc m) k tag (iter_at tab dest ?p) = (Ok True, iter_at tab dest ?p)"
      unfolding iter_find_loop.simps entry_at [OF l] by (simp add: is_field_def)
    then show ?thesis using True Suc.prems(1) by (intro disjI1 exI [of _ i]) auto
  next
    case False
    let ?q = "if Suc ?p < n then Suc ?p else 0"
    have q: "?q = (k + Suc i) mod n" using p by (auto simp: mod_Suc)
    have "iter_find_loop (Suc m) k tag (iter_at tab dest ?p) =
        bnd pb_field_iter_next (\<lambda>_ it. if pos it \<noteq> k then iter_find_loop m k tag it else (Ok False, it)) (iter_at tab dest ?p)"
      unfolding iter_find_loop.simps entry_at [OF l] is_field_def [symmetric] using False by simp
    also have "\<dots> = (if ?q \<noteq> k then iter_find_loop m k tag (iter_at tab dest ?q) else (Ok False, iter_at tab dest ?q))"
      using iter_next [OF t _ d, of ?p] p by (simp add: bnd_simps(1)) (simp add: iter_at_def)
    finally have step: "iter_find_loop (Suc m) k tag (iter_at tab dest ?p) =
        (if ?q \<noteq> k then iter_find_loop m k tag (iter_at tab dest ?q) else (Ok False, iter_at tab dest k))" by simp
    show ?thesis
    proof (cases "Suc i < n")
      case True
      have "?q \<noteq> k"
      proof
        assume "?q = k"
        then have "(k + Suc i) mod n = k mod n" unfolding q using k by simp
        then have "n dvd Suc i" using mod_eq_dvd_iff_nat [of k "k + Suc i" n] by simp
        then show False using True by (auto dest: dvd_imp_le)
      qed
      then have go: "iter_find_loop (Suc m) k tag (iter_at tab dest ?p) = iter_find_loop m k tag (iter_at tab dest ((k + Suc i) mod n))"
        unfolding step q by simp
      have "n - Suc i < m" using Suc.prems by simp
      from Suc.IH [OF True this] show ?thesis
      proof (elim disjE exE conjE)
        fix j assume j: "Suc i \<le> j" "j < n" "is_field tag (tab ! ((k + j) mod n))"
          "\<forall>l. Suc i \<le> l \<and> l < j \<longrightarrow> \<not> is_field tag (tab ! ((k + l) mod n))"
          "iter_find_loop m k tag (iter_at tab dest ((k + Suc i) mod n)) = (Ok True, iter_at tab dest ((k + j) mod n))"
        then have "i \<le> j" by simp
        then show ?thesis unfolding go using j(2,3,5) all_from_Suc [OF j(4) False] by (intro disjI1 exI [of _ j] conjI)
      next
        assume a: "\<forall>l. Suc i \<le> l \<and> l < n \<longrightarrow> \<not> is_field tag (tab ! ((k + l) mod n))"
          "iter_find_loop m k tag (iter_at tab dest ((k + Suc i) mod n)) = (Ok False, iter_at tab dest k)"
        then show ?thesis unfolding go using all_from_Suc [OF a(1) False] by (intro disjI2 conjI)
      qed
    next
      case last: False
      then have "Suc i = n" using Suc.prems(1) by simp
      then have "?q = k" unfolding q using k by simp
      have "\<forall>l. Suc i \<le> l \<and> l < n \<longrightarrow> \<not> is_field tag (tab ! ((k + l) mod n))" using \<open>Suc i = n\<close> by auto
      from all_from_Suc [OF this False] \<open>?q = k\<close> show ?thesis unfolding step by (intro disjI2 conjI) simp_all
    qed
  qed
qed simp


text \<open>The search finds the first field of the tag, going round from where the iterator is, and it comes back
  to where it was if there is none.\<close>

lemma iter_find:
  assumes t: "table_ok tab n" and k: "k < n" and d: "dest \<noteq> 0"
  shows "(\<exists>j < n. is_field tag (tab ! ((k + j) mod n)) \<and> (\<forall>l < j. \<not> is_field tag (tab ! ((k + l) mod n))) \<and>
            pb_field_iter_find tag (iter_at tab dest k) = (Ok True, iter_at tab dest ((k + j) mod n))) \<or>
         (\<forall>i < n. \<not> is_field tag (tab ! i)) \<and> pb_field_iter_find tag (iter_at tab dest k) = (Ok False, iter_at tab dest k)"
proof -
  have "n - 0 < Suc (length tab)" using t by (simp add: table_ok_def)
  from iter_find_loop_spec [OF t k d _ this] k
  have spec: "(\<exists>j. 0 \<le> j \<and> j < n \<and> is_field tag (tab ! ((k + j) mod n)) \<and>
         (\<forall>l. 0 \<le> l \<and> l < j \<longrightarrow> \<not> is_field tag (tab ! ((k + l) mod n))) \<and>
         pb_field_iter_find tag (iter_at tab dest k) = (Ok True, iter_at tab dest ((k + j) mod n))) \<or>
    ((\<forall>l. 0 \<le> l \<and> l < n \<longrightarrow> \<not> is_field tag (tab ! ((k + l) mod n))) \<and>
         pb_field_iter_find tag (iter_at tab dest k) = (Ok False, iter_at tab dest k))"
    using mod_less [OF k] by (simp add: pb_field_iter_find_def iter_at_def del: iter_find_loop.simps)
  have all: "\<forall>i < n. \<not> is_field tag (tab ! i)" if none: "\<forall>l. 0 \<le> l \<and> l < n \<longrightarrow> \<not> is_field tag (tab ! ((k + l) mod n))"
  proof (intro allI impI)
    fix i assume i: "i < n"
    have "(k + (n - k + i) mod n) mod n = i" using i k by (simp add: mod_add_right_eq)
    moreover have "(n - k + i) mod n < n" using k by simp
    ultimately show "\<not> is_field tag (tab ! i)" using none [rule_format, of "(n - k + i) mod n"] by simp
  qed
  from spec show ?thesis
  proof (elim disjE exE conjE)
    fix j assume j: "j < n" "is_field tag (tab ! ((k + j) mod n))" "\<forall>l. 0 \<le> l \<and> l < j \<longrightarrow> \<not> is_field tag (tab ! ((k + l) mod n))"
      "pb_field_iter_find tag (iter_at tab dest k) = (Ok True, iter_at tab dest ((k + j) mod n))"
    have "\<forall>l < j. \<not> is_field tag (tab ! ((k + l) mod n))" using j(3) by simp
    then show ?thesis using j by (intro disjI1 exI [of _ j] conjI)
  qed (use all in \<open>intro disjI2 conjI\<close>)
qed

lemma iter_find_empty:
  assumes "table_ok tab 0" "tag \<noteq> 0"
  shows "pb_field_iter_find tag (iter_at tab dest 0) = (Ok False, iter_at tab dest 0)"
proof -
  have l: "0 < length tab" and t: "f_tag (tab ! 0) \<noteq> tag" using assms by (auto simp: table_ok_def)
  have "pb_field_iter_find tag (iter_at tab dest 0) = iter_find_loop (Suc (length tab)) 0 tag (iter_at tab dest 0)"
    by (simp add: pb_field_iter_find_def iter_at_def del: iter_find_loop.simps)
  also have "\<dots> = (Ok False, iter_at tab dest 0)"
    unfolding iter_find_loop.simps entry_at [OF l] using t iter_next_empty [OF assms(1)] by (simp add: bnd_simps(1)) (simp add: iter_at_def)
  finally show ?thesis .
qed

end
