(* ===== verification/Pb_Message.thy ===== *)
theory Pb_Message
  imports Pb_Iter
begin

text \<open>
  The message level of nanopb's encoder, \<^verbatim>\<open>pb_encode.c\<close>: arrays, optional fields and oneofs, submessages with
  their two passes, callbacks and extensions, and the loop over the table of a message. \<open>message_fields\<close>
  specifies what a message in memory says, without streams; \<open>pb_encode\<close> emits exactly its bytes.
\<close>

subsection \<open>The code\<close>

text \<open>The rest of the program: the tables of submessages at their addresses, the encoders that an application
  registers, by the address of the function, for fields and for extensions, and the memory. A list of extensions is
  followed for \<open>e_extensions\<close> steps: the code has no such bound, and a circular list is an endless loop.\<close>

record 's pb_env =
  tables :: "u64 \<Rightarrow> pb_field list option"
  encode_callback :: "u64 \<Rightarrow> 's pb_encoder"
  encode_extension :: "u64 \<Rightarrow> u64 \<Rightarrow> ('s pb_ostream, unit) cfun"
  message_memory :: memory
  e_extensions :: nat
  writer :: "'s pb_oio"

abbreviation (input) PB_HTYPE_OPTIONAL :: u8 where "PB_HTYPE_OPTIONAL \<equiv> 0x10"
abbreviation (input) PB_ATYPE_CALLBACK :: u8 where "PB_ATYPE_CALLBACK \<equiv> 0x40"
abbreviation (input) PB_LTYPE_LAST_PACKABLE :: u8 where "PB_LTYPE_LAST_PACKABLE \<equiv> 0x05"

text \<open>\<open>pb_encode_submessage\<close>; \<open>inner\<close> is the call of \<open>pb_encode\<close> on the submessage, which \<open>second_pass\<close> repeats
  after the size was written. On a sizing stream, \<^verbatim>\<open>pb_write(stream, NULL, size)\<close> only counts.\<close>

definition second_pass :: "('s pb_ostream, unit) cfun \<Rightarrow> nat \<Rightarrow> ('s pb_ostream, unit) cfun" where
  "second_pass inner sz stream =
     (if sink stream = Sizing then (Ok (), stream\<lparr>bytes_written := size_add (bytes_written stream) sz\<rparr>)
      else if size_add (bytes_written stream) sz > max_size stream then pb_o_error ''stream full'' stream
      else case inner \<lparr>sink = sink stream, max_size = sz, bytes_written = 0, o_errmsg = None\<rparr> of
             (Undef, _) \<Rightarrow> (Undef, stream)
           | (status, sub) \<Rightarrow>
               let stream = stream\<lparr>bytes_written := size_add (bytes_written stream) (bytes_written sub),
                                   sink := sink sub, o_errmsg := o_errmsg sub\<rparr>
               in if bytes_written sub \<noteq> sz then pb_o_error ''submsg size changed'' stream
                  else (status, stream))"

definition pb_encode_submessage :: "'s pb_env \<Rightarrow> ('s pb_ostream, unit) cfun \<Rightarrow> ('s pb_ostream, unit) cfun" where
  "pb_encode_submessage E inner stream =
     (case inner PB_OSTREAM_SIZING of
        (Undef, _) \<Rightarrow> (Undef, stream)
      | (Fail, substream) \<Rightarrow> (Fail, stream\<lparr>o_errmsg := o_errmsg substream\<rparr>)
      | (Ok _, substream) \<Rightarrow>
          let size = bytes_written substream
          in bnd (pb_encode_varint (writer E) (of_nat size)) (\<lambda>_. second_pass inner size) stream)"

definition pb_enc_submessage :: "'s pb_env \<Rightarrow> (pb_field list \<Rightarrow> u64 \<Rightarrow> ('s pb_ostream, unit) cfun) \<Rightarrow> 's pb_encoder" where
  "pb_enc_submessage E pb_encode field src =
     (if f_ptr field = 0 then pb_o_error ''invalid field descriptor''
      else case tables E (f_ptr field) of None \<Rightarrow> undef | Some tab \<Rightarrow> pb_encode_submessage E (pb_encode tab src))"

text \<open>\<^verbatim>\<open>PB_ENCODERS\<close>, the table from types to encoders; calling another entry is undefined.\<close>

definition PB_ENCODERS :: "'s pb_env \<Rightarrow> (pb_field list \<Rightarrow> u64 \<Rightarrow> ('s pb_ostream, unit) cfun) \<Rightarrow> u8 \<Rightarrow> 's pb_encoder" where
  "PB_ENCODERS E pb_encode t =
     (let mem = message_memory E; io = writer E
      in if t = PB_LTYPE_BOOL then pb_enc_bool mem io
         else if t = PB_LTYPE_VARINT then pb_enc_varint mem io
         else if t = PB_LTYPE_UVARINT then pb_enc_uvarint mem io
         else if t = PB_LTYPE_SVARINT then pb_enc_svarint mem io
         else if t = PB_LTYPE_FIXED32 then pb_enc_fixed32 mem io
         else if t = PB_LTYPE_FIXED64 then pb_enc_fixed64 mem io
         else if t = PB_LTYPE_BYTES then pb_enc_bytes mem io
         else if t = PB_LTYPE_STRING then pb_enc_string mem io
         else if t = PB_LTYPE_SUBMESSAGE then pb_enc_submessage E pb_encode
         else if t = PB_LTYPE_FIXED_LENGTH_BYTES then pb_enc_fixed_length_bytes mem io
         else (\<lambda>_ _. undef))"

text \<open>The loops over the entries of an array, \<open>step\<close> bytes apart.\<close>

fun encode_entries :: "(u64 \<Rightarrow> ('s pb_ostream, unit) cfun) \<Rightarrow> u64 \<Rightarrow> nat \<Rightarrow> u64 \<Rightarrow> ('s pb_ostream, unit) cfun" where
  "encode_entries f step 0 p = ret ()"
| "encode_entries f step (Suc k) p = bnd (f p) (\<lambda>_. encode_entries f step k (p + step))"

definition encode_array :: "'s pb_env \<Rightarrow> pb_field \<Rightarrow> u64 \<Rightarrow> nat \<Rightarrow> 's pb_encoder \<Rightarrow> ('s pb_ostream, unit) cfun" where
  "encode_array E field data count func =
     (let t = PB_LTYPE (f_type field); io = writer E; step = ucast (data_size field)
      in if count = 0 then ret ()
         else if PB_ATYPE (f_type field) \<noteq> PB_ATYPE_POINTER \<and> count > unat (array_size field)
         then pb_o_error ''array max size exceeded''
         else if t \<le> PB_LTYPE_LAST_PACKABLE then
           bnd (pb_encode_tag io PB_WT_STRING (f_tag field)) (\<lambda>_.
           bnd (if t = PB_LTYPE_FIXED32 then ret (size_mul 4 count)
                else if t = PB_LTYPE_FIXED64 then ret (size_mul 8 count)
                else (\<lambda>s. case encode_entries (func field) step count data PB_OSTREAM_SIZING of
                            (Ok _, sizestream) \<Rightarrow> (Ok (bytes_written sizestream), s)
                          | (Fail, _) \<Rightarrow> (Fail, s) | (Undef, _) \<Rightarrow> (Undef, s))) (\<lambda>size.
           bnd (pb_encode_varint io (of_nat size)) (\<lambda>_ s.
           if sink s = Sizing then (Ok (), s\<lparr>bytes_written := size_add (bytes_written s) size\<rparr>)
           else encode_entries (func field) step count data s)))
         else
           encode_entries (\<lambda>p.
             bnd (pb_encode_tag_for_field io field) (\<lambda>_.
             if PB_ATYPE (f_type field) = PB_ATYPE_POINTER \<and> (t = PB_LTYPE_STRING \<or> t = PB_LTYPE_BYTES)
             then bnd (load_pointer (message_memory E) p) (func field)
             else func field p)) step count data)"

text \<open>A loop \<^verbatim>\<open>do ... while (pb_field_iter_next(&iter))\<close>, which the body leaves with False. The callers give
  the length of the table as fuel.\<close>

fun iter_do :: "nat \<Rightarrow> (pb_field \<Rightarrow> u64 \<Rightarrow> ('s, bool) cfun) \<Rightarrow> pb_field_iter \<Rightarrow> ('s, bool) cfun" where
  "iter_do 0 body it s = (Undef, s)"
| "iter_do (Suc n) body it s =
     (case entry it of
        (Ok field, _) \<Rightarrow>
          bnd (body field (pData it)) (\<lambda>go s.
            if \<not> go then (Ok False, s)
            else case pb_field_iter_next it of
                   (Ok True, it) \<Rightarrow> iter_do n body it s
                 | (Ok False, _) \<Rightarrow> (Ok True, s)
                 | _ \<Rightarrow> (Undef, s)) s
      | _ \<Rightarrow> (Undef, s))"

definition no_iter :: pb_field_iter where
  "no_iter = \<lparr>start = [], pos = 0, required_field_index = 0, dest_struct = 0, pData = 0, pSize = 0\<rparr>"

text \<open>\<open>pb_field_iter_begin\<close> and the loop, unless the message type is empty.\<close>

definition each_field :: "pb_field list \<Rightarrow> u64 \<Rightarrow> (pb_field \<Rightarrow> u64 \<Rightarrow> ('s, bool) cfun) \<Rightarrow> ('s, bool) cfun" where
  "each_field tab src body s =
     (case pb_field_iter_begin tab src no_iter of
        (Ok True, it) \<Rightarrow> iter_do (length tab) body it s
      | (Ok False, _) \<Rightarrow> (Ok True, s)
      | _ \<Rightarrow> (Undef, s))"

text \<open>\<open>pb_check_proto3_default_value\<close>; it has no state of its own, and the fuel bounds the
  nesting of static submessages.\<close>

fun pb_check_proto3_default_value :: "'s pb_env \<Rightarrow> nat \<Rightarrow> pb_field \<Rightarrow> u64 \<Rightarrow> (unit, bool) cfun" where
  "pb_check_proto3_default_value E 0 field data = undef"
| "pb_check_proto3_default_value E (Suc n) field data =
     (let type = f_type field; mem = message_memory E; size_ptr = data + scast (size_offset field);
          rest =
            (if PB_ATYPE type = PB_ATYPE_STATIC \<and> PB_LTYPE type = PB_LTYPE_BYTES
             then bnd (load_number mem data 4) (\<lambda>size. ret (size = 0))
             else if PB_ATYPE type = PB_ATYPE_STATIC \<and> PB_LTYPE type = PB_LTYPE_STRING
             then bnd (load mem data 1) (\<lambda>c. ret (c ! 0 = 0))
             else if PB_ATYPE type = PB_ATYPE_STATIC \<and> PB_LTYPE type = PB_LTYPE_FIXED_LENGTH_BYTES
             then ret (data_size field = 0)
             else if PB_ATYPE type = PB_ATYPE_STATIC \<and> PB_LTYPE type = PB_LTYPE_SUBMESSAGE
             then (case tables E (f_ptr field) of
                     None \<Rightarrow> undef
                   | Some tab \<Rightarrow> each_field tab data (pb_check_proto3_default_value E n))
             else if PB_ATYPE type = PB_ATYPE_POINTER \<and> PB_LTYPE type > PB_LTYPE_LAST_PACKABLE
             then bnd (load_pointer mem data) (\<lambda>p. ret (p = 0))
             else bnd (load mem data (unat (data_size field))) (\<lambda>bs. ret (\<forall>b \<in> set bs. b = 0)))
      in if PB_HTYPE type = PB_HTYPE_REQUIRED then ret False
         else if PB_HTYPE type = PB_HTYPE_REPEATED \<and> size_offset field \<noteq> 0
         then bnd (load_number mem size_ptr 4) (\<lambda>count. ret (count = 0))
         else if PB_HTYPE type = PB_HTYPE_REPEATED \<and> PB_ATYPE type = PB_ATYPE_STATIC then ret False
         else if PB_HTYPE type = PB_HTYPE_ONEOF then bnd (load_number mem size_ptr 4) (\<lambda>which. ret (which = 0))
         else if PB_HTYPE type = PB_HTYPE_OPTIONAL \<and> size_offset field \<noteq> 0
         then bnd (safe_read_bool mem size_ptr) (\<lambda>has. ret (\<not> has))
         else rest)"

text \<open>\<open>encode_basic_field\<close>. Where \<^verbatim>\<open>pSize\<close> is the address of the local \<^verbatim>\<open>implicit_has\<close>, a oneof reads past it.
  \<open>depth\<close> is the fuel of the check for default values.\<close>

definition encode_basic_field ::
  "'s pb_env \<Rightarrow> nat \<Rightarrow> (pb_field list \<Rightarrow> u64 \<Rightarrow> ('s pb_ostream, unit) cfun) \<Rightarrow> 's pb_encoder" where
  "encode_basic_field E depth pb_encode field data =
     (let type = f_type field; mem = message_memory E; io = writer E;
          func = PB_ENCODERS E pb_encode (PB_LTYPE type);
          size_ptr = data + scast (size_offset field)
      in bnd (if size_offset field \<noteq> 0 then ret False
              else if PB_HTYPE type = PB_HTYPE_OPTIONAL
              then (\<lambda>s. (res_map Not (fst (pb_check_proto3_default_value E depth field data ())), s))
              else ret True) (\<lambda>implicit_has.
         bnd (if PB_ATYPE type = PB_ATYPE_POINTER
              then bnd (load_pointer mem data) (\<lambda>p. ret (p, p \<noteq> 0)) else ret (data, implicit_has)) (\<lambda>(data, implicit_has).
         if PB_HTYPE type = PB_HTYPE_REQUIRED then
           if data = 0 then pb_o_error ''missing required field''
           else bnd (pb_encode_tag_for_field io field) (\<lambda>_. func field data)
         else if PB_HTYPE type = PB_HTYPE_OPTIONAL then
           bnd (if size_offset field \<noteq> 0 then safe_read_bool mem size_ptr else ret implicit_has) (\<lambda>has.
           if has then bnd (pb_encode_tag_for_field io field) (\<lambda>_. func field data) else ret ())
         else if PB_HTYPE type = PB_HTYPE_REPEATED then
           bnd (if size_offset field \<noteq> 0 then load_number mem size_ptr 4 else ret (ucast (array_size field))) (\<lambda>count.
           encode_array E field data (unat count) func)
         else
           bnd (if size_offset field \<noteq> 0 then load_number mem size_ptr 4 else undef) (\<lambda>which.
           if which = ucast (f_tag field) then bnd (pb_encode_tag_for_field io field) (\<lambda>_. func field data) else ret ()))))"

text \<open>\<^verbatim>\<open>pb_callback_t\<close> is the address of the function and the argument behind it.\<close>

definition encode_callback_field :: "'s pb_env \<Rightarrow> 's pb_encoder" where
  "encode_callback_field E field data =
     bnd (load_pointer (message_memory E) data) (\<lambda>func s.
       if func = 0 then (Ok (), s)
       else case encode_callback E func field (data + 8) s of
              (Fail, s) \<Rightarrow> pb_o_error ''callback error'' s | r \<Rightarrow> r)"

definition encode_field ::
  "'s pb_env \<Rightarrow> nat \<Rightarrow> (pb_field list \<Rightarrow> u64 \<Rightarrow> ('s pb_ostream, unit) cfun) \<Rightarrow> 's pb_encoder" where
  "encode_field E depth pb_encode field data =
     (let a = PB_ATYPE (f_type field)
      in if a = PB_ATYPE_STATIC \<or> a = PB_ATYPE_POINTER then encode_basic_field E depth pb_encode field data
         else if a = PB_ATYPE_CALLBACK then encode_callback_field E field data
         else pb_o_error ''invalid field type'')"

text \<open>\<^verbatim>\<open>pb_extension_t\<close>: the addresses of its type, destination and successor; the type has the addresses of the
  decoder, the encoder and the argument, here a field.\<close>

definition default_extension_encoder ::
  "'s pb_env \<Rightarrow> nat \<Rightarrow> (pb_field list \<Rightarrow> u64 \<Rightarrow> ('s pb_ostream, unit) cfun) \<Rightarrow> u64 \<Rightarrow> u64 \<Rightarrow> ('s pb_ostream, unit) cfun" where
  "default_extension_encoder E depth pb_encode type extension =
     bnd (load_pointer (message_memory E) (type + 16)) (\<lambda>arg.
     case tables E arg of
       Some (field # _) \<Rightarrow>
         if PB_ATYPE (f_type field) = PB_ATYPE_POINTER then encode_field E depth pb_encode field (extension + 8)
         else bnd (load_pointer (message_memory E) (extension + 8)) (encode_field E depth pb_encode field)
     | _ \<Rightarrow> undef)"

text \<open>The list of extensions may be circular: the last number bounds its length.\<close>

fun encode_extensions ::
  "'s pb_env \<Rightarrow> nat \<Rightarrow> (pb_field list \<Rightarrow> u64 \<Rightarrow> ('s pb_ostream, unit) cfun) \<Rightarrow> nat \<Rightarrow> u64 \<Rightarrow> ('s pb_ostream, unit) cfun" where
  "encode_extensions E depth pb_encode 0 extension = undef"
| "encode_extensions E depth pb_encode (Suc n) extension =
     (if extension = 0 then ret ()
      else bnd (load_pointer (message_memory E) extension) (\<lambda>type.
           bnd (load_pointer (message_memory E) (type + 8)) (\<lambda>encode.
           bnd (if encode \<noteq> 0 then encode_extension E encode extension
                else default_extension_encoder E depth pb_encode type extension) (\<lambda>_.
           bnd (load_pointer (message_memory E) (extension + 16)) (encode_extensions E depth pb_encode n)))))"

definition encode_extension_field ::
  "'s pb_env \<Rightarrow> nat \<Rightarrow> (pb_field list \<Rightarrow> u64 \<Rightarrow> ('s pb_ostream, unit) cfun) \<Rightarrow> 's pb_encoder" where
  "encode_extension_field E depth pb_encode field data =
     bnd (load_pointer (message_memory E) data) (encode_extensions E depth pb_encode (Suc (e_extensions E)))"

text \<open>\<open>pb_encode\<close>; the fuel bounds the nesting of submessages.\<close>

fun pb_encode :: "'s pb_env \<Rightarrow> nat \<Rightarrow> pb_field list \<Rightarrow> u64 \<Rightarrow> ('s pb_ostream, unit) cfun" where
  "pb_encode E 0 tab src = undef"
| "pb_encode E (Suc n) tab src =
     bnd (each_field tab src (\<lambda>field data.
       bnd (if PB_LTYPE (f_type field) = PB_LTYPE_EXTENSION then encode_extension_field E n (pb_encode E n) field data
            else encode_field E n (pb_encode E n) field data) (\<lambda>_. ret True))) (\<lambda>_. ret ())"

definition pb_encode_delimited :: "'s pb_env \<Rightarrow> nat \<Rightarrow> pb_field list \<Rightarrow> u64 \<Rightarrow> ('s pb_ostream, unit) cfun" where
  "pb_encode_delimited E n tab src = pb_encode_submessage E (pb_encode E n tab src)"

definition pb_encode_nullterminated :: "'s pb_env \<Rightarrow> nat \<Rightarrow> pb_field list \<Rightarrow> u64 \<Rightarrow> ('s pb_ostream, unit) cfun" where
  "pb_encode_nullterminated E n tab src = bnd (pb_encode E n tab src) (\<lambda>_. pb_write (writer E) [0])"

definition pb_get_encoded_size :: "'s pb_env \<Rightarrow> nat \<Rightarrow> pb_field list \<Rightarrow> u64 \<Rightarrow> nat res" where
  "pb_get_encoded_size E n tab src =
     (case pb_encode E n tab src PB_OSTREAM_SIZING of (Ok _, s) \<Rightarrow> Ok (bytes_written s) | (Fail, _) \<Rightarrow> Fail | (Undef, _) \<Rightarrow> Undef)"

subsection \<open>The specification\<close>

text \<open>
  What a message in memory says: the list of its fields on the wire. It is read off the memory by the table,
  with every entry at the offset that the iterator stands for; no stream is involved. \<open>None\<close> is a message
  that the specification leaves out: one that cannot be read, is refused, or asks the application.
\<close>

definition integer_at :: "memory \<Rightarrow> bool \<Rightarrow> pb_field \<Rightarrow> u64 \<Rightarrow> u64 option" where
  "integer_at mem sx field p =
     (if data_size field = 1 then map_option (\<lambda>v. if sx then scast (ucast v :: u8) else ucast (ucast v :: u8)) (number_at mem p 1)
      else if data_size field = 2 then map_option (\<lambda>v. if sx then scast (ucast v :: u16) else ucast (ucast v :: u16)) (number_at mem p 2)
      else if data_size field = 4 then map_option (\<lambda>v. if sx then scast (ucast v :: u32) else ucast (ucast v :: u32)) (number_at mem p 4)
      else if data_size field = 8 then number_at mem p 8
      else None)"

fun string_at :: "memory \<Rightarrow> nat \<Rightarrow> u64 \<Rightarrow> bytes option" where
  "string_at mem 0 p = Some []"
| "string_at mem (Suc n) p =
     (case mem p of None \<Rightarrow> None | Some c \<Rightarrow> if c = 0 then Some [] else map_option ((#) c) (string_at mem n (p + 1)))"

type_synonym pb_fields = "(u32 \<times> pb_value) list"

text \<open>The value of one item, by the type of the field; \<open>sub\<close> is the specification of submessages.\<close>

definition item_value :: "'s pb_env \<Rightarrow> (pb_field list \<Rightarrow> u64 \<Rightarrow> pb_fields option) \<Rightarrow> pb_field \<Rightarrow> u64 \<Rightarrow> pb_value option" where
  "item_value E sub field p =
     (let t = PB_LTYPE (f_type field); mem = message_memory E
      in if t = PB_LTYPE_BOOL then map_option (\<lambda>b. Uint (if b ! 0 \<noteq> 0 then 1 else 0)) (memory_bytes mem p 1)
         else if t = PB_LTYPE_VARINT then map_option Uint (integer_at mem True field p)
         else if t = PB_LTYPE_UVARINT then map_option Uint (integer_at mem False field p)
         else if t = PB_LTYPE_SVARINT then map_option Sint (integer_at mem True field p)
         else if t = PB_LTYPE_FIXED32 then map_option (\<lambda>v. Word32 (ucast v)) (number_at mem p 4)
         else if t = PB_LTYPE_FIXED64 then map_option Word64 (number_at mem p 8)
         else if t = PB_LTYPE_BYTES then
           if p = 0 then Some (Data [])
           else Option.bind (number_at mem p 4) (\<lambda>n.
                if PB_ATYPE (f_type field) = PB_ATYPE_STATIC \<and> unat n > size_sub (unat (data_size field)) 4 then None
                else map_option Data (memory_bytes mem (p + 4) (unat n)))
         else if t = PB_LTYPE_STRING then
           if p = 0 then Some (Data [])
           else map_option Data (string_at mem (if PB_ATYPE (f_type field) = PB_ATYPE_POINTER then 2 ^ 64 - 1 else unat (data_size field)) p)
         else if t = PB_LTYPE_SUBMESSAGE then
           if f_ptr field = 0 then None
           else Option.bind (tables E (f_ptr field)) (\<lambda>tab. map_option (\<lambda>fs. Data (message_bytes fs)) (sub tab p))
         else if t = PB_LTYPE_FIXED_LENGTH_BYTES then map_option Data (memory_bytes mem p (unat (data_size field)))
         else None)"

fun values_from :: "(u64 \<Rightarrow> 'a option) \<Rightarrow> u64 \<Rightarrow> nat \<Rightarrow> u64 \<Rightarrow> 'a list option" where
  "values_from f step 0 p = Some []"
| "values_from f step (Suc k) p = Option.bind (f p) (\<lambda>v. map_option ((#) v) (values_from f step k (p + step)))"

text \<open>Numbers are packed into one field; of strings and bytes behind pointers, the array has the pointers.\<close>

definition array_fields :: "'s pb_env \<Rightarrow> (u64 \<Rightarrow> pb_value option) \<Rightarrow> pb_field \<Rightarrow> u64 \<Rightarrow> nat \<Rightarrow> pb_fields option" where
  "array_fields E item field p count =
     (let t = PB_LTYPE (f_type field); ptr = (PB_ATYPE (f_type field) = PB_ATYPE_POINTER); step = ucast (data_size field)
      in if count = 0 then Some []
         else if \<not> ptr \<and> count > unat (array_size field) then None
         else if t \<le> PB_LTYPE_LAST_PACKABLE
         then map_option (\<lambda>vs. [(f_tag field, Data (concat (map value_bytes vs)))]) (values_from item step count p)
         else map_option (map (Pair (f_tag field)))
                (values_from (\<lambda>p. if ptr \<and> (t = PB_LTYPE_STRING \<or> t = PB_LTYPE_BYTES)
                                  then Option.bind (number_at (message_memory E) p 8) item else item p) step count p))"

text \<open>The entries of a table before its end.\<close>

definition entries :: "pb_field list \<Rightarrow> nat" where
  "entries tab = length (takeWhile (\<lambda>f. f_tag f \<noteq> 0) tab)"

text \<open>When a field of an implicit optional message is there, stated on the memory alone: something in it
  differs from what an empty message has. A union and a counted array have a number in front that says so, a field
  with a has-flag has the flag; required fields and arrays of fixed length are always there. Bytes and strings are
  there unless empty, and a submessage if any of its fields is. A number is there if
  one of its bytes is not zero. So is a pointer to numbers, judged by as many bytes of the address as the
  number behind it has: this is what the code reads.\<close>

fun any_of :: "bool option list \<Rightarrow> bool option" where
  "any_of [] = Some False"
| "any_of (b # bs) = Option.bind b (\<lambda>b. if b then Some True else any_of bs)"

definition nonzero_at :: "memory \<Rightarrow> u64 \<Rightarrow> nat \<Rightarrow> bool option" where
  "nonzero_at mem p n = map_option (\<lambda>bs. \<exists>b\<in>set bs. b \<noteq> 0) (memory_bytes mem p n)"

definition positive_at :: "memory \<Rightarrow> u64 \<Rightarrow> nat \<Rightarrow> bool option" where
  "positive_at mem p n = map_option (\<lambda>v. 0 < v) (number_at mem p n)"

fun field_there :: "'s pb_env \<Rightarrow> nat \<Rightarrow> pb_field \<Rightarrow> u64 \<Rightarrow> bool option" where
  "field_there E 0 field p = None"
| "field_there E (Suc n) field p =
     (let h = PB_HTYPE (f_type field); a = PB_ATYPE (f_type field); t = PB_LTYPE (f_type field);
          mem = message_memory E; counted = (size_offset field \<noteq> 0); flag = p + scast (size_offset field)
      in if h = PB_HTYPE_REQUIRED \<or> h = PB_HTYPE_REPEATED \<and> a = PB_ATYPE_STATIC \<and> \<not> counted then Some True
         else if h = PB_HTYPE_ONEOF \<or> h = PB_HTYPE_REPEATED \<and> counted then positive_at mem flag 4
         else if h = PB_HTYPE_OPTIONAL \<and> counted then nonzero_at mem flag 1
         else if a = PB_ATYPE_STATIC \<and> t = PB_LTYPE_SUBMESSAGE then
           Option.bind (tables E (f_ptr field)) (\<lambda>tab.
             if p = 0 \<or> entries tab = length tab then None
             else any_of (map (\<lambda>k. field_there E n (tab ! k) (p + field_offset tab k)) [0..<entries tab]))
         else if a = PB_ATYPE_STATIC \<and> t = PB_LTYPE_BYTES then positive_at mem p 4
         else if a = PB_ATYPE_STATIC \<and> t = PB_LTYPE_STRING then nonzero_at mem p 1
         else if a = PB_ATYPE_STATIC \<and> t = PB_LTYPE_FIXED_LENGTH_BYTES then Some (data_size field \<noteq> 0)
         else if a = PB_ATYPE_POINTER \<and> t > PB_LTYPE_LAST_PACKABLE then positive_at mem p 8
         else nonzero_at mem p (unat (data_size field)))"

text \<open>Where the data of a field is, and whether an optional field is there.\<close>

definition implicitly_there :: "'s pb_env \<Rightarrow> nat \<Rightarrow> pb_field \<Rightarrow> u64 \<Rightarrow> bool option" where
  "implicitly_there E depth field p =
     (if size_offset field \<noteq> 0 then Some False
      else if PB_HTYPE (f_type field) = PB_HTYPE_OPTIONAL
      then field_there E depth field p
      else Some True)"

definition basic_fields ::
  "'s pb_env \<Rightarrow> nat \<Rightarrow> (pb_field list \<Rightarrow> u64 \<Rightarrow> pb_fields option) \<Rightarrow> pb_field \<Rightarrow> u64 \<Rightarrow> pb_fields option" where
  "basic_fields E depth sub field p =
     (let type = f_type field; mem = message_memory E; ptr = (PB_ATYPE type = PB_ATYPE_POINTER);
          size_ptr = p + scast (size_offset field); item = item_value E sub field;
          one = (\<lambda>q. map_option (\<lambda>v. [(f_tag field, v)]) (item q))
      in Option.bind (implicitly_there E depth field p) (\<lambda>there.
         Option.bind (if ptr then number_at mem p 8 else Some p) (\<lambda>q.
         if PB_HTYPE type = PB_HTYPE_REQUIRED then if q = 0 then None else one q
         else if PB_HTYPE type = PB_HTYPE_OPTIONAL then
           Option.bind (if size_offset field \<noteq> 0 then map_option (\<lambda>b. b ! 0 \<noteq> 0) (memory_bytes mem size_ptr 1)
                        else Some (if ptr then q \<noteq> 0 else there)) (\<lambda>has.
           if has then one q else Some [])
         else if PB_HTYPE type = PB_HTYPE_REPEATED then
           Option.bind (if size_offset field \<noteq> 0 then number_at mem size_ptr 4 else Some (ucast (array_size field))) (\<lambda>count.
           array_fields E item field q (unat count))
         else
           Option.bind (if size_offset field \<noteq> 0 then number_at mem size_ptr 4 else None) (\<lambda>which.
           if which = ucast (f_tag field) then one q else Some []))))"

text \<open>Callbacks and extensions have to be absent.\<close>

definition nothing_at :: "memory \<Rightarrow> u64 \<Rightarrow> pb_fields option" where
  "nothing_at mem p = (if number_at mem p 8 = Some 0 then Some [] else None)"

definition field_fields ::
  "'s pb_env \<Rightarrow> nat \<Rightarrow> (pb_field list \<Rightarrow> u64 \<Rightarrow> pb_fields option) \<Rightarrow> pb_field \<Rightarrow> u64 \<Rightarrow> pb_fields option" where
  "field_fields E depth sub field p =
     (let a = PB_ATYPE (f_type field)
      in if PB_LTYPE (f_type field) = PB_LTYPE_EXTENSION then nothing_at (message_memory E) p
         else if a = PB_ATYPE_STATIC \<or> a = PB_ATYPE_POINTER then basic_fields E depth sub field p
         else if a = PB_ATYPE_CALLBACK then nothing_at (message_memory E) p
         else None)"

fun message_fields :: "'s pb_env \<Rightarrow> nat \<Rightarrow> pb_field list \<Rightarrow> u64 \<Rightarrow> pb_fields option" where
  "message_fields E 0 tab src = None"
| "message_fields E (Suc n) tab src =
     (if src = 0 \<or> entries tab = length tab then None
      else map_option concat (those (map (\<lambda>k. field_fields E n (message_fields E n) (tab ! k) (src + field_offset tab k)) [0..<entries tab])))"

subsection \<open>The encoder meets the specification\<close>

text \<open>Loads that succeed do nothing else.\<close>

lemma bnd_load: "memory_bytes mem p n = Some bs \<Longrightarrow> bnd (load mem p n) f = f bs"
  by (simp add: bnd_def [abs_def] load_def)

lemma bnd_load_number: "number_at mem p n = Some v \<Longrightarrow> bnd (load_number mem p n) f = f v"
  by (auto simp: number_at_def load_number_def bnd_def [abs_def] load_def)

lemma bnd_load_pointer: "number_at mem p 8 = Some v \<Longrightarrow> bnd (load_pointer mem p) f = f v"
  unfolding load_pointer_def by (rule bnd_load_number)

lemma bnd_safe_read_bool: "memory_bytes mem p 1 = Some b \<Longrightarrow> bnd (safe_read_bool mem p) f = f (b ! 0 \<noteq> 0)"
  by (simp add: safe_read_bool_def bnd_def [abs_def] load_def)

lemma bnd_bnd_ret: "bnd (bnd m (\<lambda>a. ret (g a))) f = bnd m (\<lambda>a. f (g a))"
  by (rule ext) (simp add: bnd_def split: prod.splits res.splits)

lemma bnd_load_integer: "integer_at mem sx field p = Some v \<Longrightarrow> bnd (load_integer mem sx field p) f = f v"
  by (auto simp: integer_at_def load_integer_def bnd_bnd_ret bnd_load_number split: if_splits)

lemma memory_bytes_Suc:
  "memory_bytes mem p (Suc n) =
     (case mem p of None \<Rightarrow> None | Some c \<Rightarrow> map_option ((#) c) (memory_bytes mem (p + 1) n))"
proof -
  have "map (\<lambda>i. mem (p + of_nat i)) [0..<Suc n] = mem p # map (\<lambda>i. mem (p + 1 + of_nat i)) [0..<n]"
    by (simp add: map_upt_Suc add.assoc del: upt_Suc)
  then show ?thesis by (auto simp: memory_bytes_def Let_def split: option.split)
qed

lemma string_at_load:
  "string_at mem n p = Some bs \<Longrightarrow>
   string_length mem n p s = (Ok (length bs), s) \<and> memory_bytes mem p (length bs) = Some bs"
proof (induction n arbitrary: p bs)
  case 0
  then show ?case by (simp add: memory_bytes_def)
next
  case (Suc n)
  from Suc.prems obtain c where c: "mem p = Some c" by (auto split: option.splits)
  have l: "memory_bytes mem p (Suc 0) = Some [c]" using c by (simp add: memory_bytes_def)
  show ?case
  proof (cases "c = 0")
    case True
    then show ?thesis using Suc.prems c by (simp add: bnd_load [OF l]) (simp add: memory_bytes_def)
  next
    case False
    then obtain cs where cs: "string_at mem n (p + 1) = Some cs" "bs = c # cs" using Suc.prems c by auto
    show ?thesis
      using Suc.IH [OF cs(1)] False c unfolding cs(2) by (simp add: bnd_load [OF l] memory_bytes_Suc) (simp add: bnd_def)
  qed
qed

text \<open>Submessages: the two passes agree.\<close>

lemma emits_submessage:
  assumes m: "emits bs inner" and l: "length bs < 2 ^ 64"
  shows "emits (delimited bs) (pb_encode_submessage E inner)"
proof -
  have "pb_encode_submessage E inner s = bnd (pb_encode_varint (writer E) (of_nat (length bs))) (\<lambda>_. second_pass inner (length bs)) s" for s
    by (simp add: pb_encode_submessage_def encode_sizing [OF l m] Let_def)
  moreover have "emits bs (second_pass inner (length bs))"
    unfolding emits_def
  proof (intro allI conjI impI)
    fix s :: "'a pb_ostream" and mem off
    assume e: "o_errmsg s = None" and s: "sink s = Memory mem off" "off + (max_size s - bytes_written s) \<le> length mem"
      "max_size s + length bs < 2 ^ 64" "bytes_written s \<le> max_size s"
    have add: "size_add (bytes_written s) (length bs) = bytes_written s + length bs" using s by (simp add: size_add_def)
    let ?sub = "\<lparr>sink = sink s, max_size = length bs, bytes_written = 0, o_errmsg = None\<rparr>"
    show "if bytes_written s + length bs \<le> max_size s
          then second_pass inner (length bs) s = (Ok (), s\<lparr>sink := Memory (take off mem @ bs @ drop (off + length bs) mem) (off + length bs),
                                bytes_written := bytes_written s + length bs\<rparr>)
          else fst (second_pass inner (length bs) s) = Fail"
    proof (cases "bytes_written s + length bs \<le> max_size s")
      case True
      then have "inner ?sub = (Ok (), ?sub\<lparr>sink := Memory (take off mem @ bs @ drop (off + length bs) mem) (off + length bs), bytes_written := length bs\<rparr>)"
        using emitsD(2) [OF m, of ?sub mem off] s by simp
      then show ?thesis using True add s(1) e by (simp add: second_pass_def)
    next
      case False
      then show ?thesis using add s(1) by (simp add: second_pass_def pb_o_error_def)
    qed
  qed (simp add: second_pass_def size_add_def)
  ultimately show ?thesis
    using emits_bnd [OF emits_varint, of bs "second_pass inner (length bs)" "of_nat (length bs)" "writer E"] by (simp add: delimited_def emits_def)
qed

text \<open>One item.\<close>

lemma emits_enc_bytes:
  assumes "p \<noteq> 0" "number_at mem p 4 = Some n" "memory_bytes mem (p + 4) (unat n) = Some d"
    "\<not> (PB_ATYPE (f_type field) = PB_ATYPE_STATIC \<and> unat n > size_sub (unat (data_size field)) 4)"
  shows "emits (delimited d) (pb_enc_bytes mem io field p)"
  unfolding pb_enc_bytes_def if_not_P [OF assms(1)] bnd_load_number [OF assms(2)] Let_def if_not_P [OF assms(4)] bnd_load [OF assms(3)]
  by (rule emits_string)

lemma emits_enc_string:
  assumes "p \<noteq> 0" "string_at mem (if PB_ATYPE (f_type field) = PB_ATYPE_POINTER then 2 ^ 64 - 1 else unat (data_size field)) p = Some d"
  shows "emits (delimited d) (pb_enc_string mem io field p)"
proof -
  let ?n = "if PB_ATYPE (f_type field) = PB_ATYPE_POINTER then 2 ^ 64 - 1 else unat (data_size field)"
  have l: "string_length mem ?n p s = (Ok (length d), s)" for s :: "'a pb_ostream"
    by (rule string_at_load [OF assms(2), THEN conjunct1])
  have m: "memory_bytes mem p (length d) = Some d" by (rule string_at_load [OF assms(2), THEN conjunct2])
  have "bnd (string_length mem ?n p) f = f (length d)" for f :: "nat \<Rightarrow> ('a pb_ostream, unit) cfun"
    by (rule ext) (simp only: bnd_simps(1) [OF l])
  then have "pb_enc_string mem io field p = pb_encode_string io d"
    using assms(1) by (simp only: pb_enc_string_def Let_def if_False bnd_load [OF m])
  then show ?thesis by (simp only: emits_string)
qed

lemma emits_empty_string:
  "emits (delimited []) (pb_enc_string mem io field 0)" "emits (delimited []) (pb_enc_bytes mem io field 0)"
  using emits_string [of "[]" io] by (simp_all add: pb_enc_string_def pb_enc_bytes_def bnd_load memory_bytes_def)

lemma emits_tag_for_field:
  "item_value E sub field p = Some v \<Longrightarrow> emits (tag_bytes (value_wire v) (f_tag field)) (pb_encode_tag_for_field io field)"
  unfolding item_value_def pb_encode_tag_for_field_def Let_def
  by (auto simp: emits_tag bind_eq_Some_conv split: if_splits)

lemma delimited_length: "length d \<le> length (delimited d)"
  by (simp add: delimited_def)

lemma emits_item:
  assumes sub: "\<And>tab q fs. sub tab q = Some fs \<Longrightarrow> length (message_bytes fs) < 2 ^ 64 \<Longrightarrow> emits (message_bytes fs) (enc tab q)"
    and v: "item_value E sub field p = Some v" and l: "length (value_bytes v) < 2 ^ 64"
  shows "emits (value_bytes v) (PB_ENCODERS E enc (PB_LTYPE (f_type field)) field p)"
proof (cases "PB_LTYPE (f_type field) = PB_LTYPE_SUBMESSAGE")
  case True
  then obtain tab fs where fs: "f_ptr field \<noteq> 0" "tables E (f_ptr field) = Some tab" "sub tab p = Some fs" "v = Data (message_bytes fs)"
    using v by (auto simp: item_value_def Let_def bind_eq_Some_conv split: if_splits)
  have "length (message_bytes fs) < 2 ^ 64" using l delimited_length [of "message_bytes fs"] by (simp add: fs(4))
  then show ?thesis
    using emits_submessage [OF sub [OF fs(3)], of E] True fs by (simp add: PB_ENCODERS_def pb_enc_submessage_def Let_def)
next
  case False
  show ?thesis
  proof (cases "PB_LTYPE (f_type field) = PB_LTYPE_STRING \<or> PB_LTYPE (f_type field) = PB_LTYPE_BYTES")
    case True
    then show ?thesis
      using v emits_enc_string [of p "message_memory E" field _ "writer E"] emits_enc_bytes [of p "message_memory E" _ _ field "writer E"]
        emits_empty_string [of "message_memory E" "writer E" field]
      by (auto simp: item_value_def PB_ENCODERS_def Let_def bind_eq_Some_conv split: if_splits)
  next
    case no: False
    then show ?thesis
      using v False
      by (auto simp: item_value_def PB_ENCODERS_def Let_def pb_enc_bool_def pb_enc_varint_def pb_enc_uvarint_def pb_enc_svarint_def
          pb_enc_fixed32_def pb_enc_fixed64_def pb_enc_fixed_length_bytes_def
          bnd_load bnd_load_number bnd_load_integer bnd_safe_read_bool
          emits_varint emits_svarint emits_fixed32 emits_fixed64 emits_string split: if_splits)
  qed
qed

text \<open>Arrays, packed and unpacked.\<close>

lemma message_bytes_append: "message_bytes (xs @ ys) = message_bytes xs @ message_bytes ys"
  by (induction xs rule: message_bytes.induct) simp_all

lemma message_bytes_concat: "message_bytes (concat fss) = concat (map message_bytes fss)"
  by (induction fss) (simp_all add: message_bytes_append)

lemma message_bytes_member: "(t, v) \<in> set fs \<Longrightarrow> length (value_bytes v) \<le> length (message_bytes fs)"
  by (induction fs rule: message_bytes.induct) auto

lemma message_bytes_same_tag:
  "message_bytes (map (Pair t) vs) = concat (map (\<lambda>v. tag_bytes (value_wire v) t @ value_bytes v) vs)"
  by (induction vs) simp_all

lemma emits_entries:
  "values_from f step k p = Some vs \<Longrightarrow> (\<And>q v. f q = Some v \<Longrightarrow> v \<in> set vs \<Longrightarrow> emits (g v) (m q)) \<Longrightarrow>
   emits (concat (map g vs)) (encode_entries m step k p)"
proof (induction k arbitrary: p vs)
  case 0
  then have "vs = []" by simp
  then show ?case by (simp only: encode_entries.simps list.map concat.simps emits_nothing)
next
  case (Suc k)
  then obtain v ws where v: "f p = Some v" "values_from f step k (p + step) = Some ws" "vs = v # ws"
    by (auto simp: bind_eq_Some_conv)
  have "emits (concat (map g ws)) (encode_entries m step k (p + step))"
    using Suc.IH [OF v(2)] Suc.prems(2) v(3) by auto
  then have "emits (g v @ concat (map g ws)) (bnd (m p) (\<lambda>_. encode_entries m step k (p + step)))"
    using Suc.prems(2) [OF v(1)] v(3) by (intro emits_bnd) auto
  then show ?case by (simp add: v(3))
qed

lemma values_from_length: "values_from f step k p = Some vs \<Longrightarrow> length vs = k"
  by (induction k arbitrary: p vs) (auto simp: bind_eq_Some_conv)

lemma values_from_some: "values_from f step k p = Some vs \<Longrightarrow> v \<in> set vs \<Longrightarrow> \<exists>q. f q = Some v"
  by (induction k arbitrary: p vs) (auto simp: bind_eq_Some_conv)

lemma emits_counted:
  "emits bs m \<Longrightarrow> length bs < 2 ^ 64 \<Longrightarrow>
   emits bs (\<lambda>s. if sink s = Sizing then (Ok (), s\<lparr>bytes_written := size_add (bytes_written s) (length bs)\<rparr>) else m s)"
  by (simp add: emits_def size_add_def)

lemma entries_sized:
  assumes "emits bs m" "length bs < 2 ^ 64"
  shows "bnd (\<lambda>s. case m PB_OSTREAM_SIZING of (Ok _, t) \<Rightarrow> (Ok (bytes_written t), s) | (Fail, _) \<Rightarrow> (Fail, s) | (Undef, _) \<Rightarrow> (Undef, s)) f =
    f (length bs)"
  by (rule ext) (simp add: bnd_def encode_sizing [OF assms(2,1)])

lemma fixed_size:
  assumes "values_from f step k p = Some vs" "\<And>q v. f q = Some v \<Longrightarrow> length (value_bytes v) = n"
  shows "length (concat (map value_bytes vs)) = n * k"
proof -
  have "\<forall>v \<in> set vs. length (value_bytes v) = n" using values_from_some [OF assms(1)] assms(2) by blast
  then have "length (concat (map value_bytes vs)) = n * length vs" by (induction vs) simp_all
  then show ?thesis using values_from_length [OF assms(1)] by simp
qed

lemma emits_packed:
  assumes item: "\<And>q v. item_value E sub field q = Some v \<Longrightarrow> length (value_bytes v) < 2 ^ 64 \<Longrightarrow> emits (value_bytes v) (func field q)"
    and vs: "values_from (item_value E sub field) (ucast (data_size field)) count p = Some vs"
    and l: "length (delimited (concat (map value_bytes vs))) < 2 ^ 64"
    and t: "PB_LTYPE (f_type field) \<le> PB_LTYPE_LAST_PACKABLE" "count \<noteq> 0"
      "\<not> (PB_ATYPE (f_type field) \<noteq> PB_ATYPE_POINTER \<and> count > unat (array_size field))"
  shows "emits (message_bytes [(f_tag field, Data (concat (map value_bytes vs)))]) (encode_array E field p count func)"
proof -
  let ?d = "concat (map value_bytes vs)" and ?m = "encode_entries (func field) (ucast (data_size field)) count p"
  have d: "length ?d < 2 ^ 64" using l delimited_length [of ?d] by simp
  have small: "length (value_bytes v) < 2 ^ 64" if "v \<in> set vs" for v
  proof -
    have "length (value_bytes v) \<le> length ?d" using that by (induction vs) auto
    then show ?thesis using d by simp
  qed
  have m: "emits ?d ?m" by (rule emits_entries [OF vs]) (use item small in blast)
  have size: "bnd (if PB_LTYPE (f_type field) = PB_LTYPE_FIXED32 then ret (size_mul 4 count)
      else if PB_LTYPE (f_type field) = PB_LTYPE_FIXED64 then ret (size_mul 8 count)
      else (\<lambda>s. case ?m PB_OSTREAM_SIZING of (Ok _, sizestream) \<Rightarrow> (Ok (bytes_written sizestream), s) | (Fail, _) \<Rightarrow> (Fail, s) | (Undef, _) \<Rightarrow> (Undef, s))) f =
      f (length ?d)" for f :: "nat \<Rightarrow> ('a pb_ostream, unit) cfun"
  proof (cases "PB_LTYPE (f_type field) = PB_LTYPE_FIXED32 \<or> PB_LTYPE (f_type field) = PB_LTYPE_FIXED64")
    case True
    then have "length ?d = (if PB_LTYPE (f_type field) = PB_LTYPE_FIXED32 then 4 else 8) * count"
      by (intro fixed_size [OF vs]) (auto simp: item_value_def Let_def split: if_splits)
    then show ?thesis using True d by (auto simp: size_mul_def)
  next
    case False
    then show ?thesis using entries_sized [OF m d] by simp
  qed
  have "emits (tag_bytes PB_WT_STRING (f_tag field) @ varint (of_nat (length ?d)) @ ?d)
      (bnd (pb_encode_tag (writer E) PB_WT_STRING (f_tag field)) (\<lambda>_. bnd (pb_encode_varint (writer E) (of_nat (length ?d)))
        (\<lambda>_ s. if sink s = Sizing then (Ok (), s\<lparr>bytes_written := size_add (bytes_written s) (length ?d)\<rparr>) else ?m s)))"
    by (intro emits_bnd emits_tag emits_varint emits_counted m d)
  then show ?thesis
    using t by (simp only: encode_array_def Let_def if_False if_True size message_bytes.simps value_bytes.simps value_wire.simps delimited_def append_Nil2)
qed

lemma emits_array:
  assumes sub: "\<And>tab q fs. sub tab q = Some fs \<Longrightarrow> length (message_bytes fs) < 2 ^ 64 \<Longrightarrow> emits (message_bytes fs) (enc tab q)"
    and fs: "array_fields E (item_value E sub field) field p count = Some fs" and l: "length (message_bytes fs) < 2 ^ 64"
  shows "emits (message_bytes fs) (encode_array E field p count (PB_ENCODERS E enc (PB_LTYPE (f_type field))))"
proof (cases "count = 0")
  case True
  then show ?thesis using fs by (simp add: array_fields_def encode_array_def emits_nothing)
next
  case False
  let ?ptr = "PB_ATYPE (f_type field) = PB_ATYPE_POINTER" and ?t = "PB_LTYPE (f_type field)"
  have max: "\<not> (\<not> ?ptr \<and> count > unat (array_size field))" using fs False by (auto simp: array_fields_def Let_def split: if_splits)
  note item = emits_item [OF sub]
  show ?thesis
  proof (cases "?t \<le> PB_LTYPE_LAST_PACKABLE")
    case True
    then obtain vs where vs: "values_from (item_value E sub field) (ucast (data_size field)) count p = Some vs"
        "fs = [(f_tag field, Data (concat (map value_bytes vs)))]"
      using fs False max by (auto simp: array_fields_def Let_def split: if_splits)
    show ?thesis
      unfolding vs(2) by (rule emits_packed [OF item vs(1) _ True False max]) (use l in \<open>simp_all add: vs(2)\<close>)
  next
    case unpacked: False
    let ?f = "\<lambda>p. if ?ptr \<and> (?t = PB_LTYPE_STRING \<or> ?t = PB_LTYPE_BYTES)
        then Option.bind (number_at (message_memory E) p 8) (item_value E sub field) else item_value E sub field p"
    obtain vs where vs: "values_from ?f (ucast (data_size field)) count p = Some vs" "fs = map (Pair (f_tag field)) vs"
      using fs False max unpacked by (auto simp: array_fields_def Let_def split: if_splits)
    have small: "length (value_bytes v) < 2 ^ 64" if "v \<in> set vs" for v
      using message_bytes_member [of "f_tag field" v fs] that l by (auto simp: vs(2))
    have one: "emits (tag_bytes (value_wire v) (f_tag field) @ value_bytes v)
        (bnd (pb_encode_tag_for_field (writer E) field) (\<lambda>_.
           if ?ptr \<and> (?t = PB_LTYPE_STRING \<or> ?t = PB_LTYPE_BYTES)
           then bnd (load_pointer (message_memory E) q) (PB_ENCODERS E enc ?t field)
           else PB_ENCODERS E enc ?t field q))" if fq: "?f q = Some v" and vq: "v \<in> set vs" for q v
    proof (cases "?ptr \<and> (?t = PB_LTYPE_STRING \<or> ?t = PB_LTYPE_BYTES)")
      case True
      then obtain r where r: "number_at (message_memory E) q 8 = Some r" "item_value E sub field r = Some v"
        using fq by (auto simp: bind_eq_Some_conv)
      show ?thesis
        unfolding if_P [OF True] bnd_load_pointer [OF r(1)]
        by (intro emits_bnd emits_tag_for_field [OF r(2)] item [OF _ _ r(2)] small vq)
    next
      case False
      then have v: "item_value E sub field q = Some v" using fq by (simp only: if_False)
      show ?thesis
        unfolding if_not_P [OF False]
        by (intro emits_bnd emits_tag_for_field [OF v] item [OF _ _ v] small vq)
    qed
    have "emits (concat (map (\<lambda>v. tag_bytes (value_wire v) (f_tag field) @ value_bytes v) vs))
       (encode_entries (\<lambda>p. bnd (pb_encode_tag_for_field (writer E) field) (\<lambda>_.
           if ?ptr \<and> (?t = PB_LTYPE_STRING \<or> ?t = PB_LTYPE_BYTES)
           then bnd (load_pointer (message_memory E) p) (PB_ENCODERS E enc ?t field)
           else PB_ENCODERS E enc ?t field p)) (ucast (data_size field)) count p)"
      by (rule emits_entries [OF vs(1)]) (rule one)
    then show ?thesis
      using False max unpacked by (simp only: encode_array_def Let_def if_False if_True vs(2) message_bytes_same_tag)
  qed
qed

lemma entries_table: "entries tab \<noteq> length tab \<Longrightarrow> table_ok tab (entries tab)"
proof -
  let ?P = "\<lambda>f. f_tag f \<noteq> 0"
  assume "entries tab \<noteq> length tab"
  then have l: "entries tab < length tab" using length_takeWhile_le [of ?P tab] by (simp add: entries_def)
  have "\<not> ?P (tab ! entries tab)" using nth_length_takeWhile [of ?P tab] l by (simp add: entries_def)
  moreover have "?P (tab ! i)" if "i < entries tab" for i
    using takeWhile_nth [of i ?P tab] nth_mem [of i "takeWhile ?P tab"] set_takeWhileD [of _ ?P tab] that by (auto simp: entries_def)
  ultimately show ?thesis using l by (simp add: table_ok_def)
qed

text \<open>The check for default values decides when an implicit field is there.\<close>

lemma positive_load:
  "positive_at mem p n = Some b \<Longrightarrow> bnd (load_number mem p n) (\<lambda>v. ret (v = 0)) s = (Ok (\<not> b), s)"
  by (auto simp: positive_at_def bnd_load_number word_greater_zero_iff ret_def)

lemma nonzero_load:
  "nonzero_at mem p n = Some b \<Longrightarrow> bnd (load mem p n) (\<lambda>bs. ret (\<forall>b \<in> set bs. b = 0)) s = (Ok (\<not> b), s)"
  by (auto simp: nonzero_at_def bnd_load ret_def)

lemma nonzero_byte:
  assumes "nonzero_at mem p 1 = Some b"
  shows "bnd (load mem p 1) (\<lambda>c. ret (c ! 0 = 0)) s = (Ok (\<not> b), s)"
    and "bnd (safe_read_bool mem p) (\<lambda>has. ret (\<not> has)) s = (Ok (\<not> b), s)"
proof -
  obtain bs where bs: "memory_bytes mem p 1 = Some bs" "b = (\<exists>b\<in>set bs. b \<noteq> 0)"
    using assms by (auto simp: nonzero_at_def)
  have "length bs = 1" by (rule memory_bytes_length [OF bs(1)])
  then obtain x where "bs = [x]" by (cases bs) auto
  then show "bnd (load mem p 1) (\<lambda>c. ret (c ! 0 = 0)) s = (Ok (\<not> b), s)"
    "bnd (safe_read_bool mem p) (\<lambda>has. ret (\<not> has)) s = (Ok (\<not> b), s)"
    using bs by (simp_all only: bnd_load bnd_safe_read_bool) (simp_all add: ret_def)
qed

lemma iter_do_any:
  assumes t: "table_ok tab n" "src \<noteq> 0"
    and x: "\<And>k b s. k < n \<Longrightarrow> there k = Some b \<Longrightarrow> body (tab ! k) (src + field_offset tab k) s = (Ok (\<not> b), s)"
  shows "k < n \<Longrightarrow> n - k \<le> j \<Longrightarrow> any_of (map there [k..<n]) = Some b \<Longrightarrow> iter_do j body (iter_at tab src k) s = (Ok (\<not> b), s)"
proof (induction j arbitrary: k)
  case (Suc j)
  have l: "k < length tab" using t Suc.prems by (simp add: table_ok_def)
  have e: "entry (iter_at tab src k) = (Ok (tab ! k), iter_at tab src k)" using l by (simp add: entry_def iter_at_def)
  have p: "pData (iter_at tab src k) = src + field_offset tab k" by (simp add: iter_at_def)
  from Suc.prems obtain c where c: "there k = Some c" "(if c then Some True else any_of (map there [Suc k..<n])) = Some b"
    by (auto simp: upt_conv_Cons bind_eq_Some_conv)
  note first = x [OF Suc.prems(1) c(1), of s]
  note nxt = iter_next [OF t(1) disjI1 [OF Suc.prems(1)] t(2)]
  show ?case
  proof (cases "\<not> c \<and> Suc k < n")
    case True
    then show ?thesis using Suc.IH [of "Suc k"] Suc.prems(2) c(2) by (simp add: e p bnd_simps(1) [where m = "body (tab ! k) (src + field_offset tab k)", OF first] nxt)
  next
    case False
    then show ?thesis using c(2) by (cases c) (auto simp add: e p bnd_simps(1) [where m = "body (tab ! k) (src + field_offset tab k)", OF first] nxt)
  qed
qed simp

lemma each_field_any:
  assumes t: "table_ok tab n" "src \<noteq> 0" and b: "any_of (map there [0..<n]) = Some b"
    and x: "\<And>k b s. k < n \<Longrightarrow> there k = Some b \<Longrightarrow> body (tab ! k) (src + field_offset tab k) s = (Ok (\<not> b), s)"
  shows "each_field tab src body s = (Ok (\<not> b), s)"
proof (cases "n = 0")
  case True
  then show ?thesis using iter_begin [OF t, of no_iter] b by (simp add: each_field_def)
next
  case False
  have "iter_do (length tab) body (iter_at tab src 0) s = (Ok (\<not> b), s)"
    by (rule iter_do_any [where there = there, OF t]) (use x False t(1) b in \<open>auto simp: table_ok_def\<close>)
  then show ?thesis using iter_begin [OF t, of no_iter] False by (simp add: each_field_def)
qed

lemma check_default_there:
  "field_there E n field p = Some b \<Longrightarrow> pb_check_proto3_default_value E n field p s = (Ok (\<not> b), s)"
proof (induction n arbitrary: field p b s)
  case (Suc n)
  let ?h = "PB_HTYPE (f_type field)" and ?a = "PB_ATYPE (f_type field)" and ?t = "PB_LTYPE (f_type field)"
  show ?case
  proof (cases "?h = PB_HTYPE_REQUIRED \<or> ?h = PB_HTYPE_REPEATED \<and> (?a = PB_ATYPE_STATIC \<or> size_offset field \<noteq> 0) \<or>
      ?h = PB_HTYPE_ONEOF \<or> ?h = PB_HTYPE_OPTIONAL \<and> size_offset field \<noteq> 0")
    case True
    then consider "?h = PB_HTYPE_REQUIRED" | "?h = PB_HTYPE_REPEATED" "size_offset field \<noteq> 0"
      | "?h = PB_HTYPE_REPEATED" "?a = PB_ATYPE_STATIC" "size_offset field = 0"
      | "?h = PB_HTYPE_ONEOF" | "?h = PB_HTYPE_OPTIONAL" "size_offset field \<noteq> 0" by blast
    then show ?thesis
      using Suc.prems by cases (simp_all add: Let_def ret_def [of False] positive_load nonzero_byte(2) del: ret_simp)
  next
    case other: False
    show ?thesis
    proof (cases "?a = PB_ATYPE_STATIC \<and> ?t = PB_LTYPE_SUBMESSAGE")
      case True
      then obtain tab where tab: "tables E (f_ptr field) = Some tab" "p \<noteq> 0" "entries tab \<noteq> length tab"
        "any_of (map (\<lambda>k. field_there E n (tab ! k) (p + field_offset tab k)) [0..<entries tab]) = Some b"
        using Suc.prems other by (auto simp: Let_def bind_eq_Some_conv split: if_splits)
      have "each_field tab p (pb_check_proto3_default_value E n) s = (Ok (\<not> b), s)"
        by (rule each_field_any [OF entries_table [OF tab(3)] tab(2,4) Suc.IH])
      then show ?thesis using True other tab(1) by (auto simp: Let_def)
    next
      case False
      then show ?thesis
        using Suc.prems other
        by (simp add: Let_def load_pointer_def positive_load nonzero_load nonzero_byte(1) [unfolded One_nat_def] split: if_splits del: ret_simp)
          (auto simp: ret_def)
    qed
  qed
qed simp

text \<open>Fields.\<close>

lemma bnd_there:
  assumes "implicitly_there E depth field p = Some b"
  shows "bnd (if size_offset field \<noteq> 0 then ret False
      else if PB_HTYPE (f_type field) = PB_HTYPE_OPTIONAL
      then (\<lambda>s. (res_map Not (fst (pb_check_proto3_default_value E depth field p ())), s))
      else ret True) f = f b"
  using assms by (auto simp: implicitly_there_def bnd_def [abs_def] ret_def check_default_there split: if_splits)

lemma bnd_target:
  assumes "(if ptr then number_at mem p 8 else Some p) = Some q"
  shows "bnd (if ptr then bnd (load_pointer mem p) (\<lambda>q. ret (q, q \<noteq> 0)) else ret (p, b)) f = f (q, if ptr then q \<noteq> 0 else b)"
  using assms by (cases ptr) (simp_all add: bnd_bnd_ret bnd_load_pointer del: ret_simp)

lemma bnd_has:
  assumes "(if off then map_option (\<lambda>b. b ! 0 \<noteq> 0) (memory_bytes mem sp 1) else Some b) = Some has"
  shows "bnd (if off then safe_read_bool mem sp else ret b) f = f has"
  using assms by (cases off) (auto simp: bnd_safe_read_bool)

lemma bnd_count:
  "(if off then number_at mem sp 4 else Some c) = Some n \<Longrightarrow> bnd (if off then load_number mem sp 4 else ret c) f = f n"
  "(if off then number_at mem sp 4 else None) = Some n \<Longrightarrow> bnd (if off then load_number mem sp 4 else undef) f = f n"
  by (cases off; simp add: bnd_load_number)+

lemma emits_basic_field:
  assumes sub: "\<And>tab q fs. sub tab q = Some fs \<Longrightarrow> length (message_bytes fs) < 2 ^ 64 \<Longrightarrow> emits (message_bytes fs) (enc tab q)"
    and fs: "basic_fields E depth sub field p = Some fs" and l: "length (message_bytes fs) < 2 ^ 64"
  shows "emits (message_bytes fs) (encode_basic_field E depth enc field p)"
proof -
  let ?type = "f_type field" and ?mem = "message_memory E" and ?item = "item_value E sub field" and ?sp = "p + scast (size_offset field)"
  let ?ptr = "PB_ATYPE ?type = PB_ATYPE_POINTER" and ?off = "size_offset field \<noteq> 0"
  let ?one = "\<lambda>q. map_option (\<lambda>v. [(f_tag field, v)]) (?item q)"
  let ?func = "PB_ENCODERS E enc (PB_LTYPE ?type)"
  obtain there q where there: "implicitly_there E depth field p = Some there"
      and q: "(if ?ptr then number_at ?mem p 8 else Some p) = Some q"
      and rest: "(if PB_HTYPE ?type = PB_HTYPE_REQUIRED then if q = 0 then None else ?one q
         else if PB_HTYPE ?type = PB_HTYPE_OPTIONAL then
           Option.bind (if ?off then map_option (\<lambda>b. b ! 0 \<noteq> 0) (memory_bytes ?mem ?sp 1)
                        else Some (if ?ptr then q \<noteq> 0 else there)) (\<lambda>has. if has then ?one q else Some [])
         else if PB_HTYPE ?type = PB_HTYPE_REPEATED then
           Option.bind (if ?off then number_at ?mem ?sp 4 else Some (ucast (array_size field))) (\<lambda>count.
           array_fields E ?item field q (unat count))
         else
           Option.bind (if ?off then number_at ?mem ?sp 4 else None) (\<lambda>which.
           if which = ucast (f_tag field) then ?one q else Some [])) = Some fs"
    using fs unfolding basic_fields_def Let_def by (auto simp only: bind_eq_Some_conv)
  note code = encode_basic_field_def Let_def bnd_there [OF there] bnd_target [OF q] prod.case
  have one: "emits (message_bytes fs) (bnd (pb_encode_tag_for_field (writer E) field) (\<lambda>_. ?func field q))" if one: "?one q = Some fs"
  proof -
    obtain v where v: "?item q = Some v" "fs = [(f_tag field, v)]" using one by auto
    then have "length (value_bytes v) < 2 ^ 64" using l by simp
    then show ?thesis
      using emits_bnd [OF emits_tag_for_field [OF v(1), of "writer E"] emits_item [OF sub v(1)]] by (simp add: v(2))
  qed
  have none: "emits (message_bytes fs) (ret ())" if "Some [] = Some fs"
  proof -
    from that have "fs = []" by simp
    then show ?thesis by (simp only: message_bytes.simps emits_nothing)
  qed
  consider "PB_HTYPE ?type = PB_HTYPE_REQUIRED" | "PB_HTYPE ?type \<noteq> PB_HTYPE_REQUIRED" "PB_HTYPE ?type = PB_HTYPE_OPTIONAL"
    | "PB_HTYPE ?type \<noteq> PB_HTYPE_REQUIRED" "PB_HTYPE ?type \<noteq> PB_HTYPE_OPTIONAL" "PB_HTYPE ?type = PB_HTYPE_REPEATED"
    | "PB_HTYPE ?type \<noteq> PB_HTYPE_REQUIRED" "PB_HTYPE ?type \<noteq> PB_HTYPE_OPTIONAL" "PB_HTYPE ?type \<noteq> PB_HTYPE_REPEATED" by blast
  then show ?thesis
  proof cases
    case 1
    then have q: "q \<noteq> 0" "?one q = Some fs" using rest by (auto split: if_splits)
    show ?thesis unfolding code unfolding if_P [OF 1] if_not_P [OF q(1)] by (rule one [OF q(2)])
  next
    case 2
    obtain has where has: "(if ?off then map_option (\<lambda>b. b ! 0 \<noteq> 0) (memory_bytes ?mem ?sp 1)
        else Some (if ?ptr then q \<noteq> 0 else there)) = Some has" "(if has then ?one q else Some []) = Some fs"
      using rest unfolding if_not_P [OF 2(1)] if_P [OF 2(2)] bind_eq_Some_conv by blast
    show ?thesis
      unfolding code unfolding bnd_has [OF has(1)] if_not_P [OF 2(1)] if_P [OF 2(2)]
    proof (cases has)
      case True
      then show "emits (message_bytes fs) (if has then bnd (pb_encode_tag_for_field (writer E) field) (\<lambda>_. ?func field q) else ret ())"
        using has(2) one by (simp only: if_True)
    next
      case False
      then have "Some [] = Some fs" using has(2) by (simp only: if_False)
      then show "emits (message_bytes fs) (if has then bnd (pb_encode_tag_for_field (writer E) field) (\<lambda>_. ?func field q) else ret ())"
        unfolding if_not_P [OF False] by (rule none)
    qed
  next
    case 3
    obtain count where c: "(if ?off then number_at ?mem ?sp 4 else Some (ucast (array_size field))) = Some count"
        "array_fields E ?item field q (unat count) = Some fs"
      using rest unfolding if_not_P [OF 3(1)] if_not_P [OF 3(2)] if_P [OF 3(3)] bind_eq_Some_conv by blast
    show ?thesis
      unfolding code unfolding bnd_count(1) [OF c(1)] if_not_P [OF 3(1)] if_not_P [OF 3(2)] if_P [OF 3(3)] by (rule emits_array [OF sub c(2) l])
  next
    case 4
    obtain which where c: "(if ?off then number_at ?mem ?sp 4 else None) = Some which"
        "(if which = ucast (f_tag field) then ?one q else Some []) = Some fs"
      using rest unfolding if_not_P [OF 4(1)] if_not_P [OF 4(2)] if_not_P [OF 4(3)] bind_eq_Some_conv by blast
    show ?thesis
      unfolding code unfolding bnd_count(2) [OF c(1)] if_not_P [OF 4(1)] if_not_P [OF 4(2)] if_not_P [OF 4(3)]
    proof (cases "which = ucast (f_tag field)")
      case True
      have "?one q = Some fs" using c(2) unfolding if_P [OF True] .
      then show "emits (message_bytes fs) (if which = ucast (f_tag field) then bnd (pb_encode_tag_for_field (writer E) field) (\<lambda>_. ?func field q) else ret ())"
        unfolding if_P [OF True] by (rule one)
    next
      case False
      then have "Some [] = Some fs" using c(2) by (simp only: if_False)
      then show "emits (message_bytes fs) (if which = ucast (f_tag field) then bnd (pb_encode_tag_for_field (writer E) field) (\<lambda>_. ?func field q) else ret ())"
        unfolding if_not_P [OF False] by (rule none)
    qed
  qed
qed

lemma emits_field_or_extension:
  assumes sub: "\<And>tab q fs. sub tab q = Some fs \<Longrightarrow> length (message_bytes fs) < 2 ^ 64 \<Longrightarrow> emits (message_bytes fs) (enc tab q)"
    and fs: "field_fields E depth sub field p = Some fs" and l: "length (message_bytes fs) < 2 ^ 64"
  shows "emits (message_bytes fs)
    (if PB_LTYPE (f_type field) = PB_LTYPE_EXTENSION then encode_extension_field E depth enc field p else encode_field E depth enc field p)"
proof (cases "PB_LTYPE (f_type field) = PB_LTYPE_EXTENSION")
  case True
  then have "number_at (message_memory E) p 8 = Some 0" "fs = []" using fs by (simp_all add: field_fields_def nothing_at_def split: if_splits)
  moreover have "encode_extensions E depth enc (Suc (e_extensions E)) 0 = ret ()" by simp
  ultimately show ?thesis
    unfolding if_P [OF True] by (simp only: encode_extension_field_def bnd_load_pointer message_bytes.simps emits_nothing)
next
  case False
  consider "PB_ATYPE (f_type field) = PB_ATYPE_STATIC \<or> PB_ATYPE (f_type field) = PB_ATYPE_POINTER" "basic_fields E depth sub field p = Some fs"
    | "PB_ATYPE (f_type field) \<noteq> PB_ATYPE_STATIC" "PB_ATYPE (f_type field) \<noteq> PB_ATYPE_POINTER" "PB_ATYPE (f_type field) = PB_ATYPE_CALLBACK"
      "number_at (message_memory E) p 8 = Some 0" "fs = []"
    using fs False by (auto simp: field_fields_def nothing_at_def Let_def split: if_splits)
  then show ?thesis
  proof cases
    case 1
    then show ?thesis using False emits_basic_field [OF sub 1(2) l] by (simp only: encode_field_def Let_def if_True if_False)
  next
    case 2
    have "encode_callback_field E field p = ret ()"
      unfolding encode_callback_field_def bnd_load_pointer [OF 2(4)] by (rule ext) (simp add: ret_def)
    then show ?thesis using 2 False emits_nothing by (simp add: encode_field_def Let_def ret_def)
  qed
qed

text \<open>The loop over the fields.\<close>

lemma iter_do_step:
  assumes t: "table_ok tab n" "k < n" "src \<noteq> 0"
  shows "iter_do (Suc j) (\<lambda>f d. bnd (X f d) (\<lambda>_. ret True)) (iter_at tab src k) =
    bnd (X (tab ! k) (src + field_offset tab k)) (\<lambda>_. if Suc k < n then iter_do j (\<lambda>f d. bnd (X f d) (\<lambda>_. ret True)) (iter_at tab src (Suc k)) else ret True)"
proof (rule ext)
  fix s
  have l: "k < length tab" using t by (simp add: table_ok_def)
  have e: "entry (iter_at tab src k) = (Ok (tab ! k), iter_at tab src k)" using l by (simp add: entry_def iter_at_def)
  have p: "pData (iter_at tab src k) = src + field_offset tab k" by (simp add: iter_at_def)
  show "iter_do (Suc j) (\<lambda>f d. bnd (X f d) (\<lambda>_. ret True)) (iter_at tab src k) s =
    bnd (X (tab ! k) (src + field_offset tab k)) (\<lambda>_. if Suc k < n then iter_do j (\<lambda>f d. bnd (X f d) (\<lambda>_. ret True)) (iter_at tab src (Suc k)) else ret True) s"
    using iter_next [OF t(1) _ t(3), of k] t(2) by (simp add: e p) (auto simp: bnd_def split: prod.split res.split)
qed

lemma emits_iter_do:
  assumes t: "table_ok tab n" "src \<noteq> 0"
    and x: "\<And>k. k < n \<Longrightarrow> emits (bs k) (X (tab ! k) (src + field_offset tab k))"
  shows "k < n \<Longrightarrow> n - k \<le> j \<Longrightarrow>
    emits (concat (map bs [k..<n])) (bnd (iter_do j (\<lambda>f d. bnd (X f d) (\<lambda>_. ret True)) (iter_at tab src k)) (\<lambda>_. ret ()))"
proof (induction j arbitrary: k)
  case (Suc j)
  let ?body = "\<lambda>f d. bnd (X f d) (\<lambda>_. ret True)"
  let ?next = "if Suc k < n then bnd (iter_do j ?body (iter_at tab src (Suc k))) (\<lambda>_. ret ()) else ret ()"
  have "bnd (iter_do (Suc j) ?body (iter_at tab src k)) (\<lambda>_. ret ()) = bnd (X (tab ! k) (src + field_offset tab k)) (\<lambda>_. ?next)"
    unfolding iter_do_step [OF t(1) Suc.prems(1) t(2)] by (rule ext) (simp add: bnd_def split: prod.split res.split)
  moreover have "emits (concat (map bs [Suc k..<n])) ?next"
  proof (cases "Suc k < n")
    case True
    show ?thesis unfolding if_P [OF True] by (rule Suc.IH [OF True]) (use Suc.prems(2) in simp)
  next
    case False
    then have "concat (map bs [Suc k..<n]) = []" by simp
    then show ?thesis using False by (simp only: if_False emits_nothing)
  qed
  moreover have "concat (map bs [k..<n]) = bs k @ concat (map bs [Suc k..<n])" using Suc.prems(1) by (simp add: upt_conv_Cons)
  ultimately show ?case using emits_bnd [OF x [OF Suc.prems(1)], of _ ?next] by (simp only:)
qed simp

lemma emits_each_field:
  assumes t: "table_ok tab n" "src \<noteq> 0"
    and x: "\<And>k. k < n \<Longrightarrow> emits (bs k) (X (tab ! k) (src + field_offset tab k))"
  shows "emits (concat (map bs [0..<n])) (bnd (each_field tab src (\<lambda>f d. bnd (X f d) (\<lambda>_. ret True))) (\<lambda>_. ret ()))"
proof (cases "n = 0")
  case True
  have "each_field tab src (\<lambda>f d. bnd (X f d) (\<lambda>_. ret True)) s = ret True s" for s
    using iter_begin [OF t] True by (simp add: each_field_def)
  then have "bnd (each_field tab src (\<lambda>f d. bnd (X f d) (\<lambda>_. ret True))) (\<lambda>_. ret ()) = ret ()"
    by (intro ext) (simp add: bnd_def ret_def)
  moreover have "concat (map bs [0..<n]) = []" using True by simp
  ultimately show ?thesis by (simp only: emits_nothing)
next
  case False
  have e: "each_field tab src (\<lambda>f d. bnd (X f d) (\<lambda>_. ret True)) =
      iter_do (length tab) (\<lambda>f d. bnd (X f d) (\<lambda>_. ret True)) (iter_at tab src 0)"
    using iter_begin [OF t, of no_iter] False by (intro ext) (simp add: each_field_def)
  show ?thesis
    unfolding e by (rule emits_iter_do [OF t]) (use False t(1) x in \<open>auto simp: table_ok_def\<close>)
qed

lemma those_nth: "those xs = Some ys \<Longrightarrow> length ys = length xs \<and> (\<forall>i < length xs. xs ! i = Some (ys ! i))"
proof (induction xs arbitrary: ys)
  case (Cons x xs)
  then obtain y zs where "x = Some y" "those xs = Some zs" "ys = y # zs" by (auto split: option.splits)
  with Cons.IH [of zs] show ?case by (auto simp: nth_Cons split: nat.split)
qed simp

lemma message_bytes_part: "part \<in> set fss \<Longrightarrow> length (message_bytes part) \<le> length (message_bytes (concat fss))"
  by (induction fss) (auto simp: message_bytes_append)

text \<open>Whatever the message, if the specification reads the fields \<open>fs\<close> in it, \<open>pb_encode\<close> emits their bytes.\<close>

lemma emits_message:
  "message_fields E n tab src = Some fs \<Longrightarrow> length (message_bytes fs) < 2 ^ 64 \<Longrightarrow> emits (message_bytes fs) (pb_encode E n tab src)"
proof (induction n arbitrary: tab src fs)
  case (Suc n)
  let ?ff = "\<lambda>k. field_fields E n (message_fields E n) (tab ! k) (src + field_offset tab k)"
  from Suc.prems(1) obtain fss where e: "src \<noteq> 0" "entries tab \<noteq> length tab" "those (map ?ff [0..<entries tab]) = Some fss" "fs = concat fss"
    by (auto split: if_splits)
  have fss: "length fss = entries tab" "k < entries tab \<Longrightarrow> ?ff k = Some (fss ! k)" for k
    using those_nth [OF e(3)] by auto
  have t: "table_ok tab (entries tab)" by (rule entries_table [OF e(2)])
  have small: "length (message_bytes (fss ! k)) < 2 ^ 64" if "k < entries tab" for k
  proof -
    have "length (message_bytes (fss ! k)) \<le> length (message_bytes fs)"
      unfolding e(4) by (rule message_bytes_part) (use that fss(1) in simp)
    then show ?thesis using Suc.prems(2) by simp
  qed
  have "emits (concat (map (\<lambda>k. message_bytes (fss ! k)) [0..<entries tab])) (pb_encode E (Suc n) tab src)"
    unfolding pb_encode.simps
    by (rule emits_each_field [OF t e(1)], rule emits_field_or_extension [OF Suc.IH fss(2) small])
  moreover have "map (\<lambda>k. message_bytes (fss ! k)) [0..<entries tab] = map message_bytes fss"
    using fss(1) by (intro nth_equalityI) simp_all
  ultimately show ?case by (simp only: e(4) message_bytes_concat)
qed simp

lemma emits_delimited_message:
  "message_fields E n tab src = Some fs \<Longrightarrow> length (message_bytes fs) < 2 ^ 64 \<Longrightarrow>
   emits (delimited (message_bytes fs)) (pb_encode_delimited E n tab src)"
  unfolding pb_encode_delimited_def by (intro emits_submessage emits_message)

lemma emits_nullterminated_message:
  "message_fields E n tab src = Some fs \<Longrightarrow> length (message_bytes fs) < 2 ^ 64 \<Longrightarrow>
   emits (message_bytes fs @ [0]) (pb_encode_nullterminated E n tab src)"
  unfolding pb_encode_nullterminated_def by (intro emits_bnd emits_message emits_write)

subsection \<open>Delivery\<close>

text \<open>\<open>m\<close> counts the bytes of \<open>bs\<close> on the sizing stream; in a buffer with room for them it puts them at its
  start and leaves the rest alone, and in a smaller one it fails.\<close>

definition delivers :: "('s pb_ostream, unit) cfun \<Rightarrow> bytes \<Rightarrow> bool" where
  "delivers m bs \<longleftrightarrow>
     m PB_OSTREAM_SIZING = (Ok (), PB_OSTREAM_SIZING\<lparr>bytes_written := length bs\<rparr>) \<and>
     (\<forall>mem n. n \<le> length mem \<longrightarrow> n + length bs < 2 ^ 64 \<longrightarrow>
       (if length bs \<le> n
        then \<exists>t. m (pb_ostream_from_buffer mem n) = (Ok (), t) \<and> bytes_written t = length bs \<and>
               sink t = Memory (bs @ drop (length bs) mem) (length bs)
        else fst (m (pb_ostream_from_buffer mem n)) = Fail))"

lemma emits_delivers:
  assumes "emits bs m" "length bs < 2 ^ 64"
  shows "delivers m bs"
  unfolding delivers_def
proof (intro conjI allI impI)
  show "m PB_OSTREAM_SIZING = (Ok (), PB_OSTREAM_SIZING\<lparr>bytes_written := length bs\<rparr>)" using assms by (intro encode_sizing)
  fix mem :: bytes and n :: nat
  assume "n \<le> length mem" "n + length bs < 2 ^ 64"
  then show "if length bs \<le> n
     then \<exists>t. m (pb_ostream_from_buffer mem n) = (Ok (), t) \<and> bytes_written t = length bs \<and>
            sink t = Memory (bs @ drop (length bs) mem) (length bs)
     else fst (m (pb_ostream_from_buffer mem n)) = Fail"
    using emitsD(2,3) [OF assms(1), of "pb_ostream_from_buffer mem n" mem 0]
    by (cases "length bs \<le> n") (simp_all add: pb_ostream_from_buffer_def)
qed

end
