(* ===== verification/Pb_Release.thy ===== *)
theory Pb_Release
  imports Pb_Message
begin

text \<open>
  Messages in memory as nanopb's decoder prepares and gives them back, \<^verbatim>\<open>pb_decode.c\<close>: the default values of the
  fields, extensions and submessages included, and the release of what they own.
\<close>

subsection \<open>Iterators\<close>

text \<open>A step of an iterator, in a machine that it does not change; with it, its new state.\<close>

definition on_iter :: "(pb_field_iter, 'a) cfun \<Rightarrow> pb_field_iter \<Rightarrow> ('s, 'a \<times> pb_field_iter) cfun" where
  "on_iter m it s = (case m it of (Ok a, it) \<Rightarrow> (Ok (a, it), s) | (Fail, _) \<Rightarrow> (Fail, s) | (Undef, _) \<Rightarrow> (Undef, s))"

text \<open>\<^verbatim>\<open>*iter->pos\<close>\<close>

definition here :: "pb_field_iter \<Rightarrow> ('s, pb_field) cfun" where
  "here it s = (fst (entry it), s)"

text \<open>\<open>pb_field_iter_begin\<close>, and the loop \<^verbatim>\<open>do ... while (pb_field_iter_next(iter))\<close> unless the message type is
  empty. The length of the table is the fuel.\<close>

fun iter_loop :: "nat \<Rightarrow> (pb_field_iter \<Rightarrow> ('s, unit) cfun) \<Rightarrow> pb_field_iter \<Rightarrow> ('s, unit) cfun" where
  "iter_loop 0 body it = undef"
| "iter_loop (Suc n) body it =
     bnd (body it) (\<lambda>_. bnd (on_iter pb_field_iter_next it) (\<lambda>(again, it). if again then iter_loop n body it else ret ()))"

definition for_fields :: "pb_field list \<Rightarrow> u64 \<Rightarrow> (pb_field_iter \<Rightarrow> ('s, unit) cfun) \<Rightarrow> ('s, unit) cfun" where
  "for_fields tab dest body =
     bnd (on_iter (pb_field_iter_begin tab dest) no_iter) (\<lambda>(nonempty, it).
     if nonempty then iter_loop (length tab) body it else ret ())"

definition the_table :: "'s pb_host \<Rightarrow> u64 \<Rightarrow> ('m, pb_field list) cfun" where
  "the_table E p = (case h_tables E p of None \<Rightarrow> undef | Some tab \<Rightarrow> ret tab)"

text \<open>\<^verbatim>\<open>pb_extension_t\<close> is the addresses of its type, its destination and its successor, and the flag \<^verbatim>\<open>found\<close>; the
  type is the addresses of the decoder, the encoder and the argument. The list may be circular: the
  first number bounds its length.\<close>

fun each_extension :: "nat \<Rightarrow> (u64 \<Rightarrow> ('s pb_machine, unit) cfun) \<Rightarrow> u64 \<Rightarrow> ('s pb_machine, unit) cfun" where
  "each_extension 0 body ext = undef"
| "each_extension (Suc n) body ext =
     (if ext = 0 then ret () else bnd (body ext) (\<lambda>_. bnd (peek_pointer (ext + 16)) (each_extension n body)))"

definition iter_from_extension :: "'s pb_host \<Rightarrow> u64 \<Rightarrow> ('s pb_machine, pb_field_iter) cfun" where
  "iter_from_extension E extension =
     bnd (peek_pointer extension) (\<lambda>type.
     bnd (peek_pointer (type + 16)) (\<lambda>arg.
     bnd (the_table E arg) (\<lambda>tab.
     bnd (peek_pointer (extension + 8)) (\<lambda>dest.
     bnd (on_iter (pb_field_iter_begin tab dest) no_iter) (\<lambda>(_, it).
     bnd (here it) (\<lambda>field.
     ret (it\<lparr>pData := if PB_ATYPE (f_type field) = PB_ATYPE_POINTER then extension + 8 else dest,
             pSize := extension + 24\<rparr>)))))))"

subsection \<open>Default values\<close>

text \<open>\<open>pb_field_set_to_default\<close>; the fuel bounds the nesting of submessages.\<close>

fun pb_field_set_to_default :: "'s pb_host \<Rightarrow> nat \<Rightarrow> pb_field_iter \<Rightarrow> ('s pb_machine, unit) cfun" where
  "pb_field_set_to_default E 0 it = undef"
| "pb_field_set_to_default E (Suc n) it =
     bnd (here it) (\<lambda>field.
     let type = f_type field; h = PB_HTYPE type
     in if PB_LTYPE type = PB_LTYPE_EXTENSION then
          bnd (peek_pointer (pData it)) (each_extension (Suc (h_extensions E)) (\<lambda>ext.
            bnd (poke (ext + 24) [0]) (\<lambda>_. bnd (iter_from_extension E ext) (pb_field_set_to_default E n))))
        else if PB_ATYPE type = PB_ATYPE_STATIC then
          bnd (if h = PB_HTYPE_OPTIONAL \<and> pSize it \<noteq> pData it then bnd (poke (pSize it) [0]) (\<lambda>_. ret True)
               else if h = PB_HTYPE_REPEATED \<or> h = PB_HTYPE_ONEOF then bnd (poke (pSize it) (le_bytes 4 0)) (\<lambda>_. ret False)
               else ret True) (\<lambda>init_data.
          if \<not> init_data then ret ()
          else if PB_LTYPE type = PB_LTYPE_SUBMESSAGE then
            bnd (the_table E (f_ptr field)) (\<lambda>tab. for_fields tab (pData it) (pb_field_set_to_default E n))
          else if f_ptr field \<noteq> 0 then bnd (peek (f_ptr field) (unat (data_size field))) (poke (pData it))
          else poke (pData it) (replicate (unat (data_size field)) 0))
        else if PB_ATYPE type = PB_ATYPE_POINTER then
          bnd (poke_pointer (pData it) 0) (\<lambda>_.
          if h = PB_HTYPE_REPEATED \<or> h = PB_HTYPE_ONEOF then poke (pSize it) (le_bytes 4 0) else ret ())
        else ret ())"

definition pb_message_set_to_defaults :: "'s pb_host \<Rightarrow> nat \<Rightarrow> pb_field list \<Rightarrow> u64 \<Rightarrow> ('s pb_machine, unit) cfun" where
  "pb_message_set_to_defaults E n tab dest = for_fields tab dest (pb_field_set_to_default E n)"

subsection \<open>Release\<close>

text \<open>The loops over the entries of an array of submessages, and over the pointers of an array of strings.\<close>

fun release_items :: "(u64 \<Rightarrow> ('s pb_machine, unit) cfun) \<Rightarrow> u64 \<Rightarrow> nat \<Rightarrow> u64 \<Rightarrow> ('s pb_machine, unit) cfun" where
  "release_items release step 0 pItem = ret ()"
| "release_items release step (Suc count) pItem = bnd (release pItem) (\<lambda>_. release_items release step count (pItem + step))"

fun free_items :: "nat \<Rightarrow> u64 \<Rightarrow> ('s pb_machine, unit) cfun" where
  "free_items 0 pItem = ret ()"
| "free_items (Suc count) pItem =
     bnd (peek_pointer pItem) (\<lambda>p. bnd (heap_free p) (\<lambda>_. bnd (poke_pointer pItem 0) (\<lambda>_. free_items count (pItem + 8))))"

text \<open>What \<open>pb_release_single_field\<close> does with a field that is the current one of its union; \<open>release\<close> is the
  call of \<open>pb_release\<close> on a submessage, \<open>release_extension\<close> the recursive call on an extension.\<close>

definition release_content ::
  "'s pb_host \<Rightarrow> (pb_field list \<Rightarrow> u64 \<Rightarrow> ('s pb_machine, unit) cfun) \<Rightarrow> (pb_field_iter \<Rightarrow> ('s pb_machine, unit) cfun) \<Rightarrow>
     pb_field \<Rightarrow> pb_field_iter \<Rightarrow> ('s pb_machine, unit) cfun" where
  "release_content E release release_extension field it =
     (let type = f_type field; static = (PB_ATYPE type = PB_ATYPE_STATIC)
      in if PB_LTYPE type = PB_LTYPE_EXTENSION then
           bnd (peek_pointer (pData it)) (each_extension (Suc (h_extensions E)) (\<lambda>ext. bnd (iter_from_extension E ext) release_extension))
         else if PB_LTYPE type = PB_LTYPE_SUBMESSAGE \<and> PB_ATYPE type \<noteq> PB_ATYPE_CALLBACK then
           bnd (if PB_ATYPE type = PB_ATYPE_POINTER then peek_pointer (pData it) else ret (pData it)) (\<lambda>pItem.
           bnd (if PB_HTYPE type = PB_HTYPE_REPEATED then
                  bnd (if static \<and> pSize it = pData it then ret (ucast (array_size field)) else peek_number (pSize it) 4) (\<lambda>count.
                  ret (if static \<and> count > ucast (array_size field) then ucast (array_size field) else count))
                else ret 1) (\<lambda>count.
           if pItem \<noteq> 0 \<and> count > 0 then
             bnd (the_table E (f_ptr field)) (\<lambda>tab. release_items (release tab) (ucast (data_size field)) (unat count) pItem)
           else ret ()))
         else ret ())"

definition release_pointer :: "pb_field \<Rightarrow> pb_field_iter \<Rightarrow> ('s pb_machine, unit) cfun" where
  "release_pointer field it =
     (let type = f_type field; repeated = (PB_HTYPE type = PB_HTYPE_REPEATED)
      in if PB_ATYPE type = PB_ATYPE_POINTER then
           bnd (if repeated \<and> (PB_LTYPE type = PB_LTYPE_STRING \<or> PB_LTYPE type = PB_LTYPE_BYTES)
                then bnd (peek_pointer (pData it)) (\<lambda>pItem. bnd (peek_number (pSize it) 4) (\<lambda>count. free_items (unat count) pItem))
                else ret ()) (\<lambda>_.
           bnd (if repeated then poke (pSize it) (le_bytes 4 0) else ret ()) (\<lambda>_.
           bnd (peek_pointer (pData it)) (\<lambda>p. bnd (heap_free p) (\<lambda>_. poke_pointer (pData it) 0))))
         else ret ())"

fun pb_release_single_field :: "'s pb_host \<Rightarrow> nat \<Rightarrow> pb_field_iter \<Rightarrow> ('s pb_machine, unit) cfun" where
  "pb_release_single_field E 0 it = undef"
| "pb_release_single_field E (Suc n) it =
     bnd (here it) (\<lambda>field.
     bnd (if PB_HTYPE (f_type field) = PB_HTYPE_ONEOF
          then bnd (peek_number (pSize it) 4) (\<lambda>which. ret (which = ucast (f_tag field))) else ret True) (\<lambda>current.
     if \<not> current then ret ()
     else bnd (release_content E
                 (\<lambda>tab p. if p = 0 then ret () else for_fields tab p (pb_release_single_field E n))
                 (pb_release_single_field E n) field it) (\<lambda>_.
          release_pointer field it)))"

definition pb_release :: "'s pb_host \<Rightarrow> nat \<Rightarrow> pb_field list \<Rightarrow> u64 \<Rightarrow> ('s pb_machine, unit) cfun" where
  "pb_release E n tab dest = (if dest = 0 then ret () else for_fields tab dest (pb_release_single_field E n))"

text \<open>Before a member of a union is decoded, another one that was there is released.\<close>

definition pb_release_union_field :: "'s pb_host \<Rightarrow> nat \<Rightarrow> pb_field_iter \<Rightarrow> ('s pb_machine, pb_field_iter) cfun" where
  "pb_release_union_field E n it =
     bnd (peek_number (pSize it) 4) (\<lambda>old_tag.
     bnd (here it) (\<lambda>field.
     let new_tag = f_tag field
     in if old_tag = 0 then ret it
        else if old_tag = ucast new_tag then ret it
        else bnd (on_iter (pb_field_iter_find (ucast old_tag)) it) (\<lambda>(found, it).
             if \<not> found then m_error ''invalid union tag''
             else bnd (pb_release_single_field E (Suc n) it) (\<lambda>_.
                  bnd (on_iter (pb_field_iter_find new_tag) it) (\<lambda>(found, it).
                  if \<not> found then m_error ''iterator error''
                  else bnd (here it) (\<lambda>field.
                       bnd (if PB_ATYPE (f_type field) = PB_ATYPE_POINTER then poke_pointer (pData it) 0 else ret ()) (\<lambda>_.
                       ret it)))))))"

end
