(* ===== verification/Pb_Message_Decode.thy ===== *)
theory Pb_Message_Decode
  imports Pb_Release
begin

text \<open>
  The message level of nanopb's decoder, \<^verbatim>\<open>pb_decode.c\<close>: arrays, optional fields and oneofs in the message or
  behind pointers, callbacks, extensions, submessages, and the loop over the fields of the stream, which
  notes the required fields that it has seen.
\<close>

subsection \<open>Substreams\<close>

text \<open>A part of the program that reads from another stream: its result is a value, the stream it leaves, too.\<close>

definition on_substream :: "'s pb_istream \<Rightarrow> ('s pb_machine, 'a) cfun \<Rightarrow> ('s pb_machine, 'a res \<times> 's pb_istream) cfun" where
  "on_substream sub m s =
     (case m (s\<lparr>m_stream := sub\<rparr>) of
        (Undef, t) \<Rightarrow> (Undef, t)
      | (r, t) \<Rightarrow> (Ok (r, m_stream t), t\<lparr>m_stream := m_stream s\<rparr>))"

definition result :: "'a res \<Rightarrow> ('s, 'a) cfun" where
  "result r s = (r, s)"

subsection \<open>Static fields\<close>

text \<open>The address of an entry of an array: \<^verbatim>\<open>data_size * (*size)\<close> has 32 bits.\<close>

definition item_at :: "pb_field \<Rightarrow> u64 \<Rightarrow> u64 \<Rightarrow> u64" where
  "item_at field p count = p + ucast (data_size field * ucast count)"

text \<open>The loop over a packed array; it has one more than the bytes of the substream as fuel.\<close>

fun packed_items :: "'s pb_decoder \<Rightarrow> pb_field \<Rightarrow> pb_field_iter \<Rightarrow> nat \<Rightarrow> ('s pb_machine, unit) cfun" where
  "packed_items func field it 0 = undef"
| "packed_items func field it (Suc k) =
     (\<lambda>s. if bytes_left (m_stream s) = 0 then ret () s
          else bnd (peek_number (pSize it) 4) (\<lambda>size.
               if \<not> size < ucast (array_size field) then ret ()
               else bnd (func field (item_at field (pData it) size)) (\<lambda>_.
                    bnd (peek_number (pSize it) 4) (\<lambda>size.
                    bnd (poke (pSize it) (le_bytes 4 (size + 1))) (\<lambda>_.
                    packed_items func field it k)))) s)"

definition decode_static_field ::
  "'s pb_host \<Rightarrow> nat \<Rightarrow> 's pb_decoder \<Rightarrow> pb_wire_type \<Rightarrow> pb_field_iter \<Rightarrow> ('s pb_machine, unit) cfun" where
  "decode_static_field E n pb_dec_submessage wire_type it =
     bnd (here it) (\<lambda>field.
     let type = f_type field; h = PB_HTYPE type; func = PB_DECODERS E pb_dec_submessage (PB_LTYPE type)
     in if h = PB_HTYPE_REQUIRED then func field (pData it)
        else if h = PB_HTYPE_OPTIONAL then
          bnd (if pSize it \<noteq> pData it then poke (pSize it) [1] else ret ()) (\<lambda>_. func field (pData it))
        else if h = PB_HTYPE_REPEATED then
          if wire_type = PB_WT_STRING \<and> PB_LTYPE type \<le> PB_LTYPE_LAST_PACKABLE then
            bnd (on_stream (pb_make_string_substream (reader E))) (\<lambda>substream.
            bnd (on_substream substream (packed_items func field it (Suc (bytes_left substream)))) (\<lambda>(status, substream).
            if bytes_left substream \<noteq> 0 then m_error ''array overflow''
            else bnd (on_stream (pb_close_string_substream (reader E) substream)) (\<lambda>_. result status)))
          else
            bnd (peek_number (pSize it) 4) (\<lambda>size.
            bnd (poke (pSize it) (le_bytes 4 (size + 1))) (\<lambda>_.
            if size \<ge> ucast (array_size field) then m_error ''array overflow''
            else func field (item_at field (pData it) size)))
        else
          bnd (if PB_LTYPE type = PB_LTYPE_SUBMESSAGE then
                 bnd (peek_number (pSize it) 4) (\<lambda>which.
                 if which \<noteq> ucast (f_tag field) then
                   bnd (poke (pData it) (replicate (unat (data_size field)) 0)) (\<lambda>_.
                   bnd (the_table E (f_ptr field)) (\<lambda>tab. pb_message_set_to_defaults E n tab (pData it)))
                 else ret ())
               else ret ()) (\<lambda>_.
          bnd (poke (pSize it) (le_bytes 4 (ucast (f_tag field)))) (\<lambda>_. func field (pData it))))"

subsection \<open>Fields behind pointers\<close>

definition initialize_pointer_field :: "'s pb_host \<Rightarrow> nat \<Rightarrow> u64 \<Rightarrow> pb_field_iter \<Rightarrow> ('s pb_machine, unit) cfun" where
  "initialize_pointer_field E n pItem it =
     bnd (here it) (\<lambda>field.
     let t = PB_LTYPE (f_type field)
     in if t = PB_LTYPE_STRING \<or> t = PB_LTYPE_BYTES then poke_pointer pItem 0
        else if t = PB_LTYPE_SUBMESSAGE then
          bnd (poke pItem (replicate (unat (data_size field)) 0)) (\<lambda>_.
          bnd (the_table E (f_ptr field)) (\<lambda>tab. pb_message_set_to_defaults E n tab pItem))
        else ret ())"

text \<open>The loop over a packed array in a block that grows; the result is whether there are too many entries.\<close>

fun packed_pointer_items ::
  "'s pb_host \<Rightarrow> nat \<Rightarrow> 's pb_decoder \<Rightarrow> pb_field \<Rightarrow> pb_field_iter \<Rightarrow> nat \<Rightarrow> nat \<Rightarrow> ('s pb_machine, bool) cfun" where
  "packed_pointer_items E n func field it 0 allocated_size = undef"
| "packed_pointer_items E n func field it (Suc k) allocated_size =
     (\<lambda>s. if bytes_left (m_stream s) = 0 then ret False s
          else bnd (peek_number (pSize it) 4) (\<lambda>size.
               if size = ucast PB_SIZE_MAX then ret True
               else
                 bnd (if unat size + 1 > allocated_size then
                        if data_size field = 0 then undef
                        else let remain = (bytes_left (m_stream s) - 1) div unat (data_size field) + 1;
                                 allocated_size =
                                   (if remain < size_sub (unat PB_SIZE_MAX) allocated_size then size_add allocated_size remain
                                    else size_add allocated_size 1)
                             in bnd (allocate_field E (pData it) (unat (data_size field)) allocated_size) (\<lambda>_. ret allocated_size)
                      else ret allocated_size) (\<lambda>allocated_size.
                 bnd (peek_pointer (pData it)) (\<lambda>p.
                 let pItem = item_at field p size
                 in if pItem = 0 then fail
                    else bnd (initialize_pointer_field E n pItem it) (\<lambda>_.
                         bnd (func field pItem) (\<lambda>_.
                         bnd (peek_number (pSize it) 4) (\<lambda>size.
                         bnd (poke (pSize it) (le_bytes 4 (size + 1))) (\<lambda>_.
                         packed_pointer_items E n func field it k allocated_size))))))) s)"

definition decode_pointer_field ::
  "'s pb_host \<Rightarrow> nat \<Rightarrow> 's pb_decoder \<Rightarrow> pb_wire_type \<Rightarrow> pb_field_iter \<Rightarrow> ('s pb_machine, unit) cfun" where
  "decode_pointer_field E n pb_dec_submessage wire_type it =
     bnd (here it) (\<lambda>field.
     let type = f_type field; h = PB_HTYPE type; t = PB_LTYPE type; func = PB_DECODERS E pb_dec_submessage t
     in if h \<noteq> PB_HTYPE_REPEATED then
          bnd (if t = PB_LTYPE_SUBMESSAGE
               then bnd (peek_pointer (pData it)) (\<lambda>p. if p \<noteq> 0 then pb_release_single_field E (Suc n) it else ret ()) else ret ()) (\<lambda>_.
          bnd (if h = PB_HTYPE_ONEOF then poke (pSize it) (le_bytes 4 (ucast (f_tag field))) else ret ()) (\<lambda>_.
          if t = PB_LTYPE_STRING \<or> t = PB_LTYPE_BYTES then func field (pData it)
          else bnd (allocate_field E (pData it) (unat (data_size field)) 1) (\<lambda>_.
               bnd (peek_pointer (pData it)) (\<lambda>p.
               bnd (initialize_pointer_field E n p it) (\<lambda>_.
               bnd (peek_pointer (pData it)) (func field))))))
        else if wire_type = PB_WT_STRING \<and> t \<le> PB_LTYPE_LAST_PACKABLE then
          bnd (peek_number (pSize it) 4) (\<lambda>size.
          bnd (on_stream (pb_make_string_substream (reader E))) (\<lambda>substream.
          bnd (on_substream substream (packed_pointer_items E n func field it (Suc (bytes_left substream)) (unat size))) (\<lambda>(status, substream).
          bnd (if status = Ok True then (\<lambda>s. (Ok (), s\<lparr>m_stream := (m_stream s)\<lparr>errmsg := Some ''too many array entries''\<rparr>\<rparr>)) else ret ()) (\<lambda>_.
          bnd (on_stream (pb_close_string_substream (reader E) substream)) (\<lambda>_.
          if status = Ok False then ret () else fail)))))
        else
          bnd (peek_number (pSize it) 4) (\<lambda>size.
          if size = ucast PB_SIZE_MAX then m_error ''too many array entries''
          else bnd (allocate_field E (pData it) (unat (data_size field)) (unat (size + 1))) (\<lambda>_.
               bnd (peek_pointer (pData it)) (\<lambda>p.
               let pItem = item_at field p size
               in bnd (poke (pSize it) (le_bytes 4 (size + 1))) (\<lambda>_.
                  bnd (initialize_pointer_field E n pItem it) (\<lambda>_. func field pItem))))))"

subsection \<open>Callbacks\<close>

text \<open>The loop \<^verbatim>\<open>do ... while (substream.bytes_left)\<close>: a callback that reads nothing is called forever, which is
  undefined here; one that reads needs one round more than there are bytes at most.\<close>

fun callback_loop :: "('s pb_machine, unit) cfun \<Rightarrow> nat \<Rightarrow> ('s pb_machine, unit) cfun" where
  "callback_loop call 0 = undef"
| "callback_loop call (Suc k) = bnd call (\<lambda>_ s. if bytes_left (m_stream s) \<noteq> 0 then callback_loop call k s else (Ok (), s))"

text \<open>\<^verbatim>\<open>pb_callback_t\<close> is the address of the function and the argument behind it.\<close>

definition decode_callback_field :: "'s pb_host \<Rightarrow> pb_wire_type \<Rightarrow> pb_field_iter \<Rightarrow> ('s pb_machine, unit) cfun" where
  "decode_callback_field E wire_type it =
     bnd (if pData it = 0 then ret 0 else peek_pointer (pData it)) (\<lambda>decode.
     if decode = 0 then on_stream (pb_skip_field (reader E) wire_type)
     else bnd (here it) (\<lambda>field.
       let arg = pData it + 8
       in if wire_type = PB_WT_STRING then
            bnd (on_stream (pb_make_string_substream (reader E))) (\<lambda>substream.
            bnd (on_substream substream (callback_loop (decode_callback E decode field arg) (Suc (bytes_left substream)))) (\<lambda>(status, substream).
            if status = Fail then m_error ''callback failed''
            else bnd (on_stream (pb_close_string_substream (reader E) substream)) (\<lambda>_. ret ())))
          else
            bnd (on_stream (read_raw_value (reader E) wire_type 10)) (\<lambda>buffer.
            bnd (on_substream (pb_istream_from_buffer buffer (length buffer)) (decode_callback E decode field arg)) (\<lambda>(status, _).
            result status))))"

subsection \<open>Fields\<close>

text \<open>The iterator goes round when a union changes; it is the result.\<close>

definition decode_field ::
  "'s pb_host \<Rightarrow> nat \<Rightarrow> 's pb_decoder \<Rightarrow> pb_wire_type \<Rightarrow> pb_field_iter \<Rightarrow> ('s pb_machine, pb_field_iter) cfun" where
  "decode_field E n pb_dec_submessage wire_type it =
     bnd (here it) (\<lambda>field.
     bnd (if PB_HTYPE (f_type field) = PB_HTYPE_ONEOF then pb_release_union_field E n it else ret it) (\<lambda>it.
     bnd (here it) (\<lambda>field.
     let a = PB_ATYPE (f_type field)
     in bnd (if a = PB_ATYPE_STATIC then decode_static_field E n pb_dec_submessage wire_type it
             else if a = PB_ATYPE_POINTER then decode_pointer_field E n pb_dec_submessage wire_type it
             else if a = PB_ATYPE_CALLBACK then decode_callback_field E wire_type it
             else m_error ''invalid field type'') (\<lambda>_. ret it))))"

subsection \<open>Extensions\<close>

definition default_extension_decoder ::
  "'s pb_host \<Rightarrow> nat \<Rightarrow> 's pb_decoder \<Rightarrow> u64 \<Rightarrow> u32 \<Rightarrow> pb_wire_type \<Rightarrow> ('s pb_machine, unit) cfun" where
  "default_extension_decoder E n pb_dec_submessage extension tag wire_type =
     bnd (peek_pointer extension) (\<lambda>type.
     bnd (peek_pointer (type + 16)) (\<lambda>arg.
     bnd (the_table E arg) (\<lambda>tab.
     case tab of
       [] \<Rightarrow> undef
     | field # _ \<Rightarrow>
         if f_tag field \<noteq> tag then ret ()
         else bnd (iter_from_extension E extension) (\<lambda>it.
              bnd (poke (extension + 24) [1]) (\<lambda>_.
              bnd (decode_field E n pb_dec_submessage wire_type it) (\<lambda>_. ret ()))))))"

text \<open>The loop ends at the end of the list, or when an extension has read something.\<close>

fun extension_loop :: "'s pb_host \<Rightarrow> (u64 \<Rightarrow> ('s pb_machine, unit) cfun) \<Rightarrow> nat \<Rightarrow> nat \<Rightarrow> u64 \<Rightarrow> ('s pb_machine, unit) cfun" where
  "extension_loop E try 0 left extension = undef"
| "extension_loop E try (Suc k) left extension =
     (\<lambda>s. if extension = 0 \<or> left \<noteq> bytes_left (m_stream s) then ret () s
          else bnd (try extension) (\<lambda>_. bnd (peek_pointer (extension + 16)) (extension_loop E try k left)) s)"

definition decode_extension ::
  "'s pb_host \<Rightarrow> nat \<Rightarrow> 's pb_decoder \<Rightarrow> u32 \<Rightarrow> pb_wire_type \<Rightarrow> pb_field_iter \<Rightarrow> ('s pb_machine, unit) cfun" where
  "decode_extension E n pb_dec_submessage tag wire_type it =
     bnd (peek_pointer (pData it)) (\<lambda>extension s.
     extension_loop E (\<lambda>extension.
       bnd (peek_pointer extension) (\<lambda>type.
       bnd (peek_pointer type) (\<lambda>decode.
       if decode \<noteq> 0 then decode_extension_with E decode extension tag wire_type
       else default_extension_decoder E n pb_dec_submessage extension tag wire_type)))
       (Suc (h_extensions E)) (bytes_left (m_stream s)) extension s)"

text \<open>The loop of \<open>find_extension_field\<close>; it has one more than the entries of the table as fuel.\<close>

fun find_extension_loop :: "nat \<Rightarrow> nat \<Rightarrow> (pb_field_iter, bool) cfun" where
  "find_extension_loop 0 start_pos = undef"
| "find_extension_loop (Suc k) start_pos =
     bnd entry (\<lambda>f.
     if PB_LTYPE (f_type f) = PB_LTYPE_EXTENSION then ret True
     else bnd pb_field_iter_next (\<lambda>_ it. if pos it \<noteq> start_pos then find_extension_loop k start_pos it else (Ok False, it)))"

definition find_extension_field :: "(pb_field_iter, bool) cfun" where
  "find_extension_field it = find_extension_loop (Suc (length (start it))) (pos it) it"

subsection \<open>Messages\<close>

text \<open>The variables of the loop of \<open>pb_decode_noinit\<close>; \<open>fixed_count_field\<close> is a position in the table.\<close>

record pb_progress =
  fields_seen :: "u32 list"
  extension_range_start :: u32
  fixed_count_field :: "nat option"
  iter :: pb_field_iter

abbreviation (input) PB_MAX_REQUIRED_FIELDS :: nat where "PB_MAX_REQUIRED_FIELDS \<equiv> 64"

text \<open>Whether an unknown tag is one of an extension, and whether an extension took it.\<close>

definition try_extensions ::
  "'s pb_host \<Rightarrow> nat \<Rightarrow> 's pb_decoder \<Rightarrow> u32 \<Rightarrow> pb_wire_type \<Rightarrow> pb_progress \<Rightarrow> ('s pb_machine, bool \<times> pb_progress) cfun" where
  "try_extensions E n pb_dec_submessage tag wire_type v =
     (if tag \<ge> extension_range_start v then
        bnd (on_iter find_extension_field (iter v)) (\<lambda>(found, it).
        bnd (here it) (\<lambda>field.
        let v = v\<lparr>iter := it, extension_range_start := (if found then f_tag field else - 1)\<rparr>
        in if tag \<ge> extension_range_start v then
             (\<lambda>s. bnd (decode_extension E n pb_dec_submessage tag wire_type it)
                    (\<lambda>_ t. (Ok (bytes_left (m_stream s) \<noteq> bytes_left (m_stream t), v), t)) s)
           else ret (False, v)))
      else ret (False, v))"

text \<open>Arrays of fixed size have no count in the message: their count is the local variable at \<open>frame\<close>.\<close>

definition fixed_count_incomplete :: "pb_field list \<Rightarrow> u64 \<Rightarrow> nat option \<Rightarrow> ('s pb_machine, bool) cfun" where
  "fixed_count_incomplete tab frame f =
     (case f of None \<Rightarrow> ret False
      | Some k \<Rightarrow> bnd (peek_number frame 4) (\<lambda>size. ret (size \<noteq> ucast (array_size (tab ! k)))))"

definition enter_fixed_count :: "pb_field list \<Rightarrow> u64 \<Rightarrow> pb_progress \<Rightarrow> ('s pb_machine, pb_progress) cfun" where
  "enter_fixed_count tab frame v =
     bnd (here (iter v)) (\<lambda>field.
     if PB_HTYPE (f_type field) = PB_HTYPE_REPEATED \<and> pSize (iter v) = pData (iter v) then
       bnd (if fixed_count_field v \<noteq> Some (pos (iter v)) then
              bnd (fixed_count_incomplete tab frame (fixed_count_field v)) (\<lambda>incomplete.
              if incomplete then m_error ''wrong size for fixed count field''
              else bnd (poke frame (le_bytes 4 0)) (\<lambda>_. ret (v\<lparr>fixed_count_field := Some (pos (iter v))\<rparr>)))
            else ret v) (\<lambda>v.
       ret (v\<lparr>iter := (iter v)\<lparr>pSize := frame\<rparr>\<rparr>))
     else ret v)"

definition note_required :: "pb_progress \<Rightarrow> ('s pb_machine, pb_progress) cfun" where
  "note_required v =
     bnd (here (iter v)) (\<lambda>field.
     let i = required_field_index (iter v)
     in if PB_HTYPE (f_type field) = PB_HTYPE_REQUIRED \<and> unat i < PB_MAX_REQUIRED_FIELDS then
          let tmp = push_bit (unat (i AND 31)) 1; w = unat (drop_bit 5 i)
          in ret (v\<lparr>fields_seen := (fields_seen v)[w := fields_seen v ! w OR tmp]\<rparr>)
        else ret v)"

text \<open>The loop; every round reads a tag, so one more than the bytes of the stream is enough fuel.\<close>

fun decode_loop :: "'s pb_host \<Rightarrow> nat \<Rightarrow> 's pb_decoder \<Rightarrow> pb_field list \<Rightarrow> u64 \<Rightarrow> nat \<Rightarrow> pb_progress \<Rightarrow> ('s pb_machine, pb_progress) cfun" where
  "decode_loop E n pb_dec_submessage tab frame 0 v = undef"
| "decode_loop E n pb_dec_submessage tab frame (Suc k) v =
     (\<lambda>s. if bytes_left (m_stream s) = 0 then (Ok v, s)
          else case pb_decode_tag (reader E) (m_stream s) of
            (Undef, _, t) \<Rightarrow> (Undef, s\<lparr>m_stream := t\<rparr>)
          | (Fail, eof, t) \<Rightarrow> (if eof then Ok v else Fail, s\<lparr>m_stream := t\<rparr>)
          | (Ok (wire_type, tag), _, t) \<Rightarrow>
              bnd (on_iter (pb_field_iter_find tag) (iter v)) (\<lambda>(found, it).
              let v = v\<lparr>iter := it\<rparr>
              in if \<not> found then
                   bnd (try_extensions E n pb_dec_submessage tag wire_type v) (\<lambda>(handled, v).
                   bnd (if handled then ret () else on_stream (pb_skip_field (reader E) wire_type)) (\<lambda>_.
                   decode_loop E n pb_dec_submessage tab frame k v))
                 else
                   bnd (enter_fixed_count tab frame v) (\<lambda>v.
                   bnd (note_required v) (\<lambda>v.
                   bnd (decode_field E n pb_dec_submessage wire_type (iter v)) (\<lambda>it.
                   decode_loop E n pb_dec_submessage tab frame k (v\<lparr>iter := it\<rparr>)))))
                (s\<lparr>m_stream := t\<rparr>))"

text \<open>The number of required fields: the iterator goes on to the end of the table, and round to its start.\<close>

fun count_required :: "nat \<Rightarrow> pb_field_iter \<Rightarrow> ('s, nat) cfun" where
  "count_required 0 it = undef"
| "count_required (Suc k) it =
     bnd (here it) (\<lambda>last.
     bnd (on_iter pb_field_iter_next it) (\<lambda>(again, it').
     if again then count_required k it'
     else bnd (here it') (\<lambda>first.
          let req_field_count = unat (required_field_index it) +
                (if PB_HTYPE (f_type last) = PB_HTYPE_REQUIRED \<and> f_tag first \<noteq> 0 then 1 else 0)
          in ret (if req_field_count > PB_MAX_REQUIRED_FIELDS then PB_MAX_REQUIRED_FIELDS else req_field_count))))"

definition all_required_seen :: "u32 list \<Rightarrow> nat \<Rightarrow> bool" where
  "all_required_seen seen req_field_count \<longleftrightarrow>
     (\<forall>i \<in> set [0..<req_field_count div 32]. seen ! i = - 1) \<and>
     (req_field_count mod 32 \<noteq> 0 \<longrightarrow> seen ! (req_field_count div 32) = drop_bit (32 - req_field_count mod 32) (- 1))"

definition decode_message :: "'s pb_host \<Rightarrow> nat \<Rightarrow> 's pb_decoder \<Rightarrow> pb_field list \<Rightarrow> u64 \<Rightarrow> ('s pb_machine, unit) cfun" where
  "decode_message E n pb_dec_submessage tab dest =
     (let frame = h_frame E n
      in bnd (poke frame (le_bytes 4 0)) (\<lambda>_.
         bnd (on_iter (pb_field_iter_begin tab dest) no_iter) (\<lambda>(_, it).
         bnd (\<lambda>s. decode_loop E n pb_dec_submessage tab frame (Suc (bytes_left (m_stream s)))
                   \<lparr>fields_seen = [0, 0], extension_range_start = 0, fixed_count_field = None, iter = it\<rparr> s) (\<lambda>v.
         bnd (fixed_count_incomplete tab frame (fixed_count_field v)) (\<lambda>incomplete.
         if incomplete then m_error ''wrong size for fixed count field''
         else bnd (count_required (length tab) (iter v)) (\<lambda>req_field_count.
              if all_required_seen (fields_seen v) req_field_count then ret ()
              else m_error ''missing required field''))))))"

text \<open>\<open>pb_decode\<close>, with \<open>pb_decode_noinit\<close> as a parameter.\<close>

definition decode_with ::
  "'s pb_host \<Rightarrow> nat \<Rightarrow> (pb_field list \<Rightarrow> u64 \<Rightarrow> ('s pb_machine, unit) cfun) \<Rightarrow> pb_field list \<Rightarrow> u64 \<Rightarrow> ('s pb_machine, unit) cfun" where
  "decode_with E n pb_decode_noinit tab dest =
     bnd (pb_message_set_to_defaults E n tab dest) (\<lambda>_ s.
     case pb_decode_noinit tab dest s of
       (Fail, t) \<Rightarrow> bnd (pb_release E n tab dest) (\<lambda>_. fail) t
     | r \<Rightarrow> r)"

definition pb_dec_submessage ::
  "'s pb_host \<Rightarrow> nat \<Rightarrow> (pb_field list \<Rightarrow> u64 \<Rightarrow> ('s pb_machine, unit) cfun) \<Rightarrow> 's pb_decoder" where
  "pb_dec_submessage E n pb_decode_noinit field dest =
     bnd (on_stream (pb_make_string_substream (reader E))) (\<lambda>substream.
     if f_ptr field = 0 then m_error ''invalid field descriptor''
     else bnd (the_table E (f_ptr field)) (\<lambda>tab.
          bnd (on_substream substream
                 (if PB_HTYPE (f_type field) = PB_HTYPE_REPEATED then decode_with E n pb_decode_noinit tab dest
                  else pb_decode_noinit tab dest)) (\<lambda>(status, substream).
          bnd (on_stream (pb_close_string_substream (reader E) substream)) (\<lambda>_. result status))))"

text \<open>The fuel bounds the nesting of submessages.\<close>

fun pb_decode_noinit :: "'s pb_host \<Rightarrow> nat \<Rightarrow> pb_field list \<Rightarrow> u64 \<Rightarrow> ('s pb_machine, unit) cfun" where
  "pb_decode_noinit E 0 tab dest = undef"
| "pb_decode_noinit E (Suc n) tab dest = decode_message E n (pb_dec_submessage E n (pb_decode_noinit E n)) tab dest"

definition pb_decode :: "'s pb_host \<Rightarrow> nat \<Rightarrow> pb_field list \<Rightarrow> u64 \<Rightarrow> ('s pb_machine, unit) cfun" where
  "pb_decode E n tab dest = decode_with E n (pb_decode_noinit E n) tab dest"

definition in_delimited :: "'s pb_host \<Rightarrow> ('s pb_machine, unit) cfun \<Rightarrow> ('s pb_machine, unit) cfun" where
  "in_delimited E m =
     bnd (on_stream (pb_make_string_substream (reader E))) (\<lambda>substream.
     bnd (on_substream substream m) (\<lambda>(status, substream).
     bnd (on_stream (pb_close_string_substream (reader E) substream)) (\<lambda>_. result status)))"

definition pb_decode_delimited_noinit :: "'s pb_host \<Rightarrow> nat \<Rightarrow> pb_field list \<Rightarrow> u64 \<Rightarrow> ('s pb_machine, unit) cfun" where
  "pb_decode_delimited_noinit E n tab dest = in_delimited E (pb_decode_noinit E n tab dest)"

definition pb_decode_delimited :: "'s pb_host \<Rightarrow> nat \<Rightarrow> pb_field list \<Rightarrow> u64 \<Rightarrow> ('s pb_machine, unit) cfun" where
  "pb_decode_delimited E n tab dest = in_delimited E (pb_decode E n tab dest)"

definition pb_decode_nullterminated :: "'s pb_host \<Rightarrow> nat \<Rightarrow> pb_field list \<Rightarrow> u64 \<Rightarrow> ('s pb_machine, unit) cfun" where
  "pb_decode_nullterminated E n tab dest = pb_decode E n tab dest"

end
