(* ===== verification/Pb_Static.thy ===== *)
theory Pb_Static
  imports Pb_Message_Decode
begin

text \<open>
  Messages without pointers: whatever bytes arrive, and whatever the message holds before, preparing and
  releasing one, and decoding a field of it, stay within the message. \<open>Pb_Static_Message\<close> has the loop over
  the fields.
\<close>

subsection \<open>Iterators in a machine\<close>

lemma here_at: "k < length tab \<Longrightarrow> here (iter_at tab dest k) = ret (tab ! k)"
  by (rule ext) (simp add: here_def entry_def iter_at_def)

lemma here_moved: "k < length tab \<Longrightarrow> here (iter_at tab dest k\<lparr>pSize := q\<rparr>) = ret (tab ! k)"
  by (rule ext) (simp add: here_def entry_def iter_at_def)

lemma on_iter_eq: "m it = (Ok a, it') \<Longrightarrow> on_iter m it = ret (a, it')"
  by (rule ext) (simp add: on_iter_def)

lemma on_iter_next:
  "table_ok tab n \<Longrightarrow> k < n \<Longrightarrow> dest \<noteq> 0 \<Longrightarrow>
   on_iter pb_field_iter_next (iter_at tab dest k) = ret (Suc k < n, iter_at tab dest (if Suc k < n then Suc k else 0))"
  by (rule on_iter_eq) (rule iter_next, auto)

lemma on_iter_begin:
  "table_ok tab n \<Longrightarrow> dest \<noteq> 0 \<Longrightarrow> on_iter (pb_field_iter_begin tab dest) it = ret (n \<noteq> 0, iter_at tab dest 0)"
  by (rule on_iter_eq) (rule iter_begin)

context pb_nested
begin

subsection \<open>Loops over the fields\<close>

lemma confined_iter_loop:
  assumes t: "table_ok tab n" "dest \<noteq> 0" and b: "\<And>k. k < n \<Longrightarrow> confined N D R (body (iter_at tab dest k))"
  shows "k < n \<Longrightarrow> n - k \<le> j \<Longrightarrow> confined N D R (iter_loop j body (iter_at tab dest k))"
proof (induction j arbitrary: k)
  case (Suc j)
  show ?case
    unfolding iter_loop.simps on_iter_next [OF t(1) Suc.prems(1) t(2)] bnd_ret prod.case
    using b Suc.IH [of "Suc k"] Suc.prems by (intro confined_bnd) (auto simp: confined_value)
qed simp

lemma confined_for_fields:
  assumes t: "table_ok tab n" "dest \<noteq> 0" and b: "\<And>k. k < n \<Longrightarrow> confined N D R (body (iter_at tab dest k))"
  shows "confined N D R (for_fields tab dest body)"
  unfolding for_fields_def on_iter_begin [OF t] bnd_ret prod.case
proof (rule confined_if)
  assume "n \<noteq> 0"
  then show "confined N D R (iter_loop (length tab) body (iter_at tab dest 0))"
    using t(1) by (intro confined_iter_loop [where body = body, OF t b]) (auto simp: table_ok_def)
qed (rule confined_value)

end

subsection \<open>Static messages\<close>

text \<open>
  A table all of whose fields are in the message itself, which has \<open>sz\<close> bytes: each field with its count, flag or
  tag is within the message, has the room for its type, and its size fits 32 bits; default values are at
  the addresses \<open>D\<close>; submessages are such messages in turn, to the depth given first. A message type
  without fields has a dummy byte.
\<close>

definition static_field ::
  "'s pb_host \<Rightarrow> u64 set \<Rightarrow> (pb_field list \<Rightarrow> nat \<Rightarrow> bool) \<Rightarrow> pb_field list \<Rightarrow> nat \<Rightarrow> nat \<Rightarrow> bool" where
  "static_field E D sub tab sz k \<longleftrightarrow>
     (let f = tab ! k; t = PB_LTYPE (f_type f); h = PB_HTYPE (f_type f); ds = unat (data_size f);
          off = unat (field_offset tab k); soff = unat (size_at tab k)
      in PB_ATYPE (f_type f) = PB_ATYPE_STATIC \<and>
         (if h = PB_HTYPE_REPEATED then ds * unat (array_size f) < 2 ^ 32 \<and> off + ds * unat (array_size f) \<le> sz else off + ds \<le> sz) \<and>
         (if h = PB_HTYPE_REPEATED \<or> h = PB_HTYPE_ONEOF then soff + 4 \<le> sz
          else h = PB_HTYPE_OPTIONAL \<and> soff \<noteq> off \<longrightarrow> soff + 1 \<le> sz) \<and>
         field_room f \<le> ds \<and>
         (if t = PB_LTYPE_SUBMESSAGE then f_ptr f \<noteq> 0 \<and> (case h_tables E (f_ptr f) of None \<Rightarrow> False | Some tab' \<Rightarrow> sub tab' ds)
          else (t < PB_LTYPE_SUBMESSAGE \<or> t = PB_LTYPE_FIXED_LENGTH_BYTES) \<and> (f_ptr f \<noteq> 0 \<longrightarrow> region (f_ptr f) ds \<subseteq> D)))"

definition end_marker :: pb_field where
  "end_marker = \<lparr>f_tag = 0, f_type = 0, data_offset = 0, size_offset = 0, data_size = 0, array_size = 0, f_ptr = 0\<rparr>"

fun static_table :: "'s pb_host \<Rightarrow> u64 set \<Rightarrow> nat \<Rightarrow> pb_field list \<Rightarrow> nat \<Rightarrow> bool" where
  "static_table E D 0 tab sz \<longleftrightarrow> False"
| "static_table E D (Suc n) tab sz \<longleftrightarrow>
     entries tab < length tab \<and> (entries tab = 0 \<longrightarrow> tab ! 0 = end_marker \<and> 1 \<le> sz) \<and>
     (\<forall>k \<in> set [0..<entries tab]. static_field E D (static_table E D n) tab sz k)"

text \<open>The local variables of the calls.\<close>

definition frames :: "'s pb_host \<Rightarrow> nat \<Rightarrow> u64 set" where
  "frames E n = (\<Union>i < n. region (h_frame E i) 4)"

lemma static_tableD:
  assumes "static_table E D (Suc n) tab sz"
  shows "table_ok tab (entries tab)" "k < entries tab \<Longrightarrow> static_field E D (static_table E D n) tab sz k"
    "entries tab = 0 \<Longrightarrow> tab ! 0 = end_marker \<and> 1 \<le> sz"
  using assms entries_table [of tab] by auto

lemma static_sub:
  assumes "static_field E D sub tab sz k" "PB_LTYPE (f_type (tab ! k)) = PB_LTYPE_SUBMESSAGE"
  obtains tab' where "f_ptr (tab ! k) \<noteq> 0" "h_tables E (f_ptr (tab ! k)) = Some tab'" "sub tab' (unat (data_size (tab ! k)))"
  using assms by (auto simp: static_field_def Let_def split: option.splits)

text \<open>The places of a field are in the message, and so is a message in it.\<close>

definition in_message :: "u64 \<Rightarrow> nat \<Rightarrow> u64 \<Rightarrow> nat \<Rightarrow> bool" where
  "in_message p n dest sz \<longleftrightarrow> region p n \<subseteq> region dest sz \<and> p \<noteq> 0 \<and> unat p + n < 2 ^ 64"

lemma in_messageI:
  assumes "dest \<noteq> 0" "unat dest + sz < 2 ^ 64" "unat off + n \<le> sz"
  shows "in_message (dest + off) n dest sz"
proof -
  have "unat dest + unat off < 2 ^ 64" using assms by simp
  then have u: "unat (dest + off) = unat dest + unat off" by (simp add: unat_word_ariths)
  then have "dest + off \<noteq> 0" using assms(1) by (metis add_is_0 unat_0 unat_eq_zero)
  then show ?thesis using u assms region_inside [of off n sz dest] by (simp add: in_message_def)
qed

lemma static_places:
  assumes f: "static_field E D sub tab sz k" and d: "dest \<noteq> 0" "unat dest + sz < 2 ^ 64"
  shows "PB_HTYPE (f_type (tab ! k)) \<noteq> PB_HTYPE_REPEATED \<Longrightarrow>
      in_message (dest + field_offset tab k) (unat (data_size (tab ! k))) dest sz"
    and "PB_HTYPE (f_type (tab ! k)) = PB_HTYPE_REPEATED \<or> PB_HTYPE (f_type (tab ! k)) = PB_HTYPE_ONEOF \<Longrightarrow>
      in_message (dest + size_at tab k) 4 dest sz"
    and "PB_HTYPE (f_type (tab ! k)) = PB_HTYPE_OPTIONAL \<Longrightarrow> dest + size_at tab k \<noteq> dest + field_offset tab k \<Longrightarrow>
      in_message (dest + size_at tab k) 1 dest sz"
    and "PB_HTYPE (f_type (tab ! k)) = PB_HTYPE_REPEATED \<Longrightarrow> i < ucast (array_size (tab ! k)) \<Longrightarrow>
      in_message (item_at (tab ! k) (dest + field_offset tab k) i) (unat (data_size (tab ! k))) dest sz"
proof -
  show "PB_HTYPE (f_type (tab ! k)) \<noteq> PB_HTYPE_REPEATED \<Longrightarrow> in_message (dest + field_offset tab k) (unat (data_size (tab ! k))) dest sz"
    using f by (intro in_messageI d) (simp add: static_field_def Let_def)
  show "PB_HTYPE (f_type (tab ! k)) = PB_HTYPE_REPEATED \<or> PB_HTYPE (f_type (tab ! k)) = PB_HTYPE_ONEOF \<Longrightarrow> in_message (dest + size_at tab k) 4 dest sz"
    using f by (intro in_messageI d) (simp add: static_field_def Let_def)
  show "PB_HTYPE (f_type (tab ! k)) = PB_HTYPE_OPTIONAL \<Longrightarrow> dest + size_at tab k \<noteq> dest + field_offset tab k \<Longrightarrow>
      in_message (dest + size_at tab k) 1 dest sz"
    using f by (intro in_messageI d) (auto simp: static_field_def Let_def word_unat_eq_iff [of "size_at tab k"])
  let ?f = "tab ! k"
  assume h: "PB_HTYPE (f_type ?f) = PB_HTYPE_REPEATED" and i: "i < ucast (array_size ?f)"
  have size: "unat (data_size ?f) * unat (array_size ?f) < 2 ^ 32" "unat (field_offset tab k) + unat (data_size ?f) * unat (array_size ?f) \<le> sz"
    using f h by (simp_all add: static_field_def Let_def)
  have ui: "unat i < unat (array_size ?f)"
    using i by (simp add: word_less_nat_alt unsigned_ucast_eq take_bit_nat_eq_self unsigned_less [THEN less_trans])
  have "unat (array_size ?f) < 2 ^ 32" using unsigned_less [of "array_size ?f", where ?'a = nat] by simp
  then have u: "unat (ucast i :: u32) = unat i" using ui by (intro unat_ucast_small) simp
  have "unat (data_size ?f) * Suc (unat i) \<le> unat (data_size ?f) * unat (array_size ?f)" using ui by (intro mult_le_mono2) simp
  then have le: "unat (data_size ?f) * unat i + unat (data_size ?f) \<le> unat (data_size ?f) * unat (array_size ?f)" by simp
  then have "unat (data_size ?f * ucast i) = unat (data_size ?f) * unat i" using size(1) u by (simp add: unat_word_ariths)
  then have o: "unat (ucast (data_size ?f * ucast i) :: u64) = unat (data_size ?f) * unat i"
    using le size(1) by (simp add: unat_ucast_small)
  have "unat dest + sz < 2 ^ 64" by (rule d(2))
  then have "unat (field_offset tab k) + unat (data_size ?f) * unat i < 2 ^ 64" using le size(2) by linarith
  then have "unat (field_offset tab k + ucast (data_size ?f * ucast i)) = unat (field_offset tab k) + unat (data_size ?f) * unat i"
    by (simp add: unat_word_ariths o)
  then show "in_message (item_at ?f (dest + field_offset tab k) i) (unat (data_size ?f)) dest sz"
    unfolding item_at_def add.assoc using le size(2) by (intro in_messageI d) simp
qed

lemma static_entry:
  assumes f: "static_field E D sub tab sz k" and d: "dest \<noteq> 0" "unat dest + sz < 2 ^ 64"
    and h: "PB_HTYPE (f_type (tab ! k)) = PB_HTYPE_REPEATED" and i: "i < unat (array_size (tab ! k))"
  shows "in_message (dest + field_offset tab k + of_nat i * ucast (data_size (tab ! k))) (unat (data_size (tab ! k))) dest sz"
proof -
  let ?f = "tab ! k"
  have size: "unat (data_size ?f) * unat (array_size ?f) < 2 ^ 32" "unat (field_offset tab k) + unat (data_size ?f) * unat (array_size ?f) \<le> sz"
    using f h by (simp_all add: static_field_def Let_def)
  have "unat (data_size ?f) * Suc i \<le> unat (data_size ?f) * unat (array_size ?f)" using i by (intro mult_le_mono2) simp
  then have le: "i * unat (data_size ?f) + unat (data_size ?f) \<le> unat (data_size ?f) * unat (array_size ?f)" by (simp add: mult.commute)
  have "unat (array_size ?f) < 2 ^ 32" using unsigned_less [of "array_size ?f", where ?'a = nat] by simp
  then have "unat (of_nat i :: u64) = i" using i by (simp add: unsigned_of_nat take_bit_nat_eq_self)
  moreover have "unat (ucast (data_size ?f) :: u64) = unat (data_size ?f)"
    using unsigned_less [of "data_size ?f", where ?'a = nat] by (intro unat_ucast_small) simp
  ultimately have o: "unat (of_nat i * ucast (data_size ?f) :: u64) = i * unat (data_size ?f)"
    using le size(1) by (simp add: unat_word_ariths)
  have "unat (field_offset tab k) + i * unat (data_size ?f) < 2 ^ 64" using le size(2) d(2) by linarith
  then have "unat (field_offset tab k + of_nat i * ucast (data_size ?f)) = unat (field_offset tab k) + i * unat (data_size ?f)"
    by (simp add: unat_word_ariths(1) o)
  then show ?thesis
    unfolding add.assoc using le size(2) by (intro in_messageI d) simp
qed

lemma in_messageD: "in_message p n dest sz \<Longrightarrow> region p n \<subseteq> region dest sz" "in_message p n dest sz \<Longrightarrow> p \<noteq> 0"
  "in_message p n dest sz \<Longrightarrow> unat p + n < 2 ^ 64"
  by (simp_all add: in_message_def)

lemma the_table_Some: "h_tables E p = Some tab \<Longrightarrow> the_table E p = ret tab"
  by (simp add: the_table_def)

lemma iter_at_simps [simp]:
  "pData (iter_at tab dest k) = dest + field_offset tab k" "pSize (iter_at tab dest k) = dest + size_at tab k"
  "pos (iter_at tab dest k) = k" "start (iter_at tab dest k) = tab" "required_field_index (iter_at tab dest k) = required_before tab k"
  by (simp_all add: iter_at_def)

lemma bnd_const: "bnd (bnd m (\<lambda>_. ret b)) f = bnd m (\<lambda>_. f b)"
  by (rule bnd_bnd_ret)

context pb_nested
begin

subsection \<open>Defaults and release of static messages\<close>

lemma confined_default_field:
  assumes sub: "\<And>tab' dest' sz'. static_table E D0 n tab' sz' \<Longrightarrow> dest' \<noteq> 0 \<Longrightarrow> unat dest' + sz' < 2 ^ 64 \<Longrightarrow> region dest' sz' \<subseteq> R \<Longrightarrow>
      confined N D R (for_fields tab' dest' (pb_field_set_to_default E n))"
    and f: "static_field E D0 (static_table E D0 n) tab sz k" "k < length tab"
    and d: "dest \<noteq> 0" "unat dest + sz < 2 ^ 64" "region dest sz \<subseteq> R" "R \<subseteq> D" "D0 \<subseteq> D"
  shows "confined N D R (pb_field_set_to_default E (Suc n) (iter_at tab dest k))"
proof -
  let ?f = "tab ! k" and ?h = "PB_HTYPE (f_type (tab ! k))" and ?p = "dest + field_offset tab k" and ?q = "dest + size_at tab k"
  note places = static_places [OF f(1) d(1,2)]
  have a: "PB_LTYPE (f_type ?f) \<noteq> PB_LTYPE_EXTENSION" "PB_ATYPE (f_type ?f) = PB_ATYPE_STATIC"
    using f(1) by (auto simp: static_field_def Let_def split: if_splits)
  have R: "region a n \<subseteq> R" if "in_message a n dest sz" for a n using in_messageD(1) [OF that] d(3) by blast
  have data: "confined N D R (if PB_LTYPE (f_type ?f) = PB_LTYPE_SUBMESSAGE then bnd (the_table E (f_ptr ?f)) (\<lambda>tab. for_fields tab ?p (pb_field_set_to_default E n))
      else if f_ptr ?f \<noteq> 0 then bnd (peek (f_ptr ?f) (unat (data_size ?f))) (poke ?p)
      else poke ?p (replicate (unat (data_size ?f)) 0))" if h: "?h \<noteq> PB_HTYPE_REPEATED"
  proof -
    note p = places(1) [OF h]
    show ?thesis
    proof (intro confined_if)
      assume "PB_LTYPE (f_type ?f) = PB_LTYPE_SUBMESSAGE"
      from static_sub [OF f(1) this] obtain tab' where "h_tables E (f_ptr ?f) = Some tab'" "static_table E D0 n tab' (unat (data_size ?f))" .
      then show "confined N D R (bnd (the_table E (f_ptr ?f)) (\<lambda>tab. for_fields tab ?p (pb_field_set_to_default E n)))"
        using sub in_messageD(2,3) [OF p] R [OF p] by (simp only: the_table_Some bnd_ret)
    next
      assume "PB_LTYPE (f_type ?f) \<noteq> PB_LTYPE_SUBMESSAGE" "f_ptr ?f \<noteq> 0"
      then have "region (f_ptr ?f) (unat (data_size ?f)) \<subseteq> D" using f(1) d(5) by (auto simp: static_field_def Let_def)
      then show "confined N D R (bnd (peek (f_ptr ?f) (unat (data_size ?f))) (poke ?p))"
        by (rule confined_peek) (intro confined_poke d(4), simp add: R [OF p])
    next
      show "confined N D R (poke ?p (replicate (unat (data_size ?f)) 0))" by (intro confined_poke d(4)) (simp add: R [OF p])
    qed
  qed
  show ?thesis
    unfolding pb_field_set_to_default.simps here_at [OF f(2)] bnd_ret Let_def iter_at_simps if_not_P [OF a(1)] if_P [OF a(2)] bnd_if
      bnd_const not_True_eq_False not_False_eq_True if_True if_False
  proof (rule confined_if [OF _ confined_if])
    assume h: "?h = PB_HTYPE_OPTIONAL \<and> ?q \<noteq> ?p"
    show "confined N D R (bnd (poke ?q [0]) (\<lambda>_.
        if PB_LTYPE (f_type ?f) = PB_LTYPE_SUBMESSAGE then bnd (the_table E (f_ptr ?f)) (\<lambda>tab. for_fields tab ?p (pb_field_set_to_default E n))
        else if f_ptr ?f \<noteq> 0 then bnd (peek (f_ptr ?f) (unat (data_size ?f))) (poke ?p)
        else poke ?p (replicate (unat (data_size ?f)) 0)))"
      using h R [OF places(3)] by (intro confined_bnd confined_poke d(4) data) auto
  next
    assume "?h = PB_HTYPE_REPEATED \<or> ?h = PB_HTYPE_ONEOF"
    then show "confined N D R (bnd (poke ?q (le_bytes 4 0)) (\<lambda>_. ret ()))"
      using R [OF places(2)] by (intro confined_bnd confined_value confined_poke d(4)) simp
  next
    assume "\<not> (?h = PB_HTYPE_REPEATED \<or> ?h = PB_HTYPE_ONEOF)"
    then show "confined N D R (if PB_LTYPE (f_type ?f) = PB_LTYPE_SUBMESSAGE then bnd (the_table E (f_ptr ?f)) (\<lambda>tab. for_fields tab ?p (pb_field_set_to_default E n))
        else if f_ptr ?f \<noteq> 0 then bnd (peek (f_ptr ?f) (unat (data_size ?f))) (poke ?p)
        else poke ?p (replicate (unat (data_size ?f)) 0))"
      using data by simp
  qed
qed

lemma confined_defaults:
  "static_table E D0 n tab sz \<Longrightarrow> dest \<noteq> 0 \<Longrightarrow> unat dest + sz < 2 ^ 64 \<Longrightarrow> region dest sz \<subseteq> R \<Longrightarrow> R \<subseteq> D \<Longrightarrow> D0 \<subseteq> D \<Longrightarrow>
   confined N D R (for_fields tab dest (pb_field_set_to_default E n))"
proof (induction n arbitrary: tab sz dest)
  case (Suc n)
  note t = static_tableD [OF Suc.prems(1)]
  show ?case
  proof (rule confined_for_fields [OF t(1) Suc.prems(2)])
    fix k assume "k < entries tab"
    then show "confined N D R (pb_field_set_to_default E (Suc n) (iter_at tab dest k))"
      using t(1) by (intro confined_default_field [OF Suc.IH t(2)] Suc.prems) (auto simp: table_ok_def)
  qed
qed simp

lemma confined_release_items:
  "(\<And>i. i < c \<Longrightarrow> confined N D R (rel (p + of_nat i * step))) \<Longrightarrow> confined N D R (release_items rel step c p)"
proof (induction c arbitrary: p)
  case (Suc c)
  have "confined N D R (rel p)" using Suc.prems [of 0] by simp
  moreover have "confined N D R (release_items rel step c (p + step))"
  proof (rule Suc.IH)
    fix i assume "i < c"
    then show "confined N D R (rel (p + step + of_nat i * step))" using Suc.prems [of "Suc i"] by (simp add: algebra_simps)
  qed
  ultimately show ?case unfolding release_items.simps by (intro confined_bnd)
qed (simp add: confined_value)

lemma confined_released:
  assumes sub: "\<And>tab' dest' sz'. static_table E D0 n tab' sz' \<Longrightarrow> dest' \<noteq> 0 \<Longrightarrow> unat dest' + sz' < 2 ^ 64 \<Longrightarrow> region dest' sz' \<subseteq> R \<Longrightarrow>
      confined N D R (for_fields tab' dest' (pb_release_single_field E n))"
    and f: "static_field E D0 (static_table E D0 n) tab sz k" "k < length tab"
    and d: "dest \<noteq> 0" "unat dest + sz < 2 ^ 64" "region dest sz \<subseteq> R" "R \<subseteq> D"
  shows "confined N D R (pb_release_single_field E (Suc n) (iter_at tab dest k))"
proof -
  let ?f = "tab ! k" and ?h = "PB_HTYPE (f_type (tab ! k))" and ?p = "dest + field_offset tab k" and ?q = "dest + size_at tab k"
  note places = static_places [OF f(1) d(1,2)] and entry = static_entry [OF f(1) d(1,2)]
  have a: "PB_LTYPE (f_type ?f) \<noteq> PB_LTYPE_EXTENSION" "PB_ATYPE (f_type ?f) = PB_ATYPE_STATIC"
    using f(1) by (auto simp: static_field_def Let_def split: if_splits)
  have s: "PB_ATYPE (f_type ?f) \<noteq> PB_ATYPE_CALLBACK" "PB_ATYPE (f_type ?f) \<noteq> PB_ATYPE_POINTER" using a(2) by simp_all
  have R: "region a n \<subseteq> R" if "in_message a n dest sz" for a n using in_messageD(1) [OF that] d(3) by blast
  let ?release = "\<lambda>tab p. if p = 0 then ret () else for_fields tab p (pb_release_single_field E n)"
  let ?items = "\<lambda>count. if ?p \<noteq> 0 \<and> count > 0
      then bnd (the_table E (f_ptr ?f)) (\<lambda>tab. release_items (?release tab) (ucast (data_size ?f)) (unat (count :: u64)) ?p) else ret ()"
  have items: "confined N D R (?items count)"
    if t: "PB_LTYPE (f_type ?f) = PB_LTYPE_SUBMESSAGE" and c: "if ?h = PB_HTYPE_REPEATED then unat count \<le> unat (array_size ?f) else unat count \<le> 1" for count
  proof (rule confined_if)
    from static_sub [OF f(1) t] obtain tab' where t: "h_tables E (f_ptr ?f) = Some tab'" "static_table E D0 n tab' (unat (data_size ?f))" .
    show "confined N D R (bnd (the_table E (f_ptr ?f)) (\<lambda>tab. release_items (?release tab) (ucast (data_size ?f)) (unat count) ?p))"
      unfolding the_table_Some [OF t(1)] bnd_ret
    proof (rule confined_release_items)
      fix i assume "i < unat count"
      then have "in_message (?p + of_nat i * ucast (data_size ?f)) (unat (data_size ?f)) dest sz"
        using c places(1) entry [of i] by (cases "?h = PB_HTYPE_REPEATED"; cases i) auto
      then show "confined N D R (?release tab' (?p + of_nat i * ucast (data_size ?f)))"
        using in_messageD(2,3) R sub [OF t(2)] by (simp add: confined_value)
    qed
  qed (rule confined_value)
  have content: "confined N D R (release_content E ?release (pb_release_single_field E n) ?f (iter_at tab dest k))"
  proof (cases "PB_LTYPE (f_type ?f) = PB_LTYPE_SUBMESSAGE")
    case True
    let ?max = "ucast (array_size ?f) :: u64"
    let ?bound = "\<lambda>count. if count > ?max then ?max else count"
    have m: "unat ?max = unat (array_size ?f)"
      using unsigned_less [of "array_size ?f", where ?'a = nat] by (intro unat_ucast_small) simp
    have e: "release_content E ?release (pb_release_single_field E n) ?f (iter_at tab dest k) =
        (if ?h = PB_HTYPE_REPEATED
         then bnd (if ?q = ?p then ret ?max else peek_number ?q 4) (\<lambda>count. ?items (?bound count)) else ?items 1)"
      unfolding release_content_def Let_def if_not_P [OF a(1)] iter_at_simps if_not_P [OF s(2)] bnd_ret bnd_if bnd_bnd_ret
      using True s a(2) by (simp only: if_True if_False simp_thms bnd_ret)
    have many: "confined N D R (bnd (if ?q = ?p then ret ?max else peek_number ?q 4) (\<lambda>count. ?items (?bound count)))"
      if h: "?h = PB_HTYPE_REPEATED"
    proof (rule confined_bnd)
      show "confined N D R (if ?q = ?p then ret ?max else peek_number ?q 4)"
        using R [OF places(2)] h d(4) by (intro confined_if confined_value confined_peek_number) blast
      show "confined N D R (?items (?bound count))" for count
        by (rule items [OF True]) (use h m in \<open>auto simp: word_less_nat_alt\<close>)
    qed
    have one: "confined N D R (?items 1)" if "?h \<noteq> PB_HTYPE_REPEATED"
      by (rule items [OF True]) (use that in simp)
    show ?thesis unfolding e by (rule confined_if [OF many one])
  next
    case False
    then show ?thesis using a(1) by (simp add: release_content_def Let_def confined_value)
  qed
  have p: "release_pointer ?f (iter_at tab dest k) = ret ()" using s by (simp add: release_pointer_def Let_def)
  show ?thesis
    unfolding pb_release_single_field.simps here_at [OF f(2)] bnd_ret iter_at_simps p
    using content R [OF places(2)] d(4)
    by (auto intro!: confined_bnd confined_if confined_value confined_peek_number)
qed

lemma confined_release:
  "static_table E D0 n tab sz \<Longrightarrow> dest \<noteq> 0 \<Longrightarrow> unat dest + sz < 2 ^ 64 \<Longrightarrow> region dest sz \<subseteq> R \<Longrightarrow> R \<subseteq> D \<Longrightarrow>
   confined N D R (for_fields tab dest (pb_release_single_field E n))"
proof (induction n arbitrary: tab sz dest)
  case (Suc n)
  note t = static_tableD [OF Suc.prems(1)]
  show ?case
  proof (rule confined_for_fields [OF t(1) Suc.prems(2)])
    fix k assume "k < entries tab"
    then show "confined N D R (pb_release_single_field E (Suc n) (iter_at tab dest k))"
      using t(1) by (intro confined_released [OF Suc.IH t(2)] Suc.prems) (auto simp: table_ok_def)
  qed
qed simp

subsection \<open>Substreams\<close>

lemma steadyD: "steady m \<Longrightarrow> good k s \<Longrightarrow> m s = (r, t) \<Longrightarrow> r \<noteq> Undef \<and> good k t \<and> bytes_left t \<le> bytes_left s"
  using steady_def [of m] by fastforce

lemma good_shrink: "good k s \<Longrightarrow> n + j \<le> bytes_left s + k \<Longrightarrow> good j (s\<lparr>bytes_left := n\<rparr>)"
  using pb_contract.inv_shrink [OF contract [of 0], of "s\<lparr>bytes_left := bytes_left s + k\<rparr>" "n + j"] by (simp add: good_def)

lemma make_substream:
  assumes s: "good k s" and m: "pb_make_string_substream io s = (r, u)"
  shows "r \<noteq> Undef \<and> good k u \<and> bytes_left u \<le> bytes_left s \<and>
    (\<forall>sub. r = Ok sub \<longrightarrow> good (k + bytes_left u) sub \<and> bytes_left sub + bytes_left u \<le> bytes_left s)"
proof -
  obtain q v where v: "pb_decode_varint32 io s = (q, v)" by fastforce
  note k = steadyD [OF steady_ops(2) s v]
  show ?thesis
  proof (cases q)
    case (Ok size)
    show ?thesis
    proof (cases "bytes_left v < unat size")
      case True
      then show ?thesis
        using m k Ok v by (auto simp: pb_make_string_substream_def bnd_def PB_RETURN_ERROR_def intro: good_errmsg)
    next
      case False
      then have "r = Ok (v\<lparr>bytes_left := unat size\<rparr>)" "u = v\<lparr>bytes_left := bytes_left v - unat size\<rparr>"
        using m Ok v by (simp_all add: pb_make_string_substream_def bnd_def size_sub_def)
      then show ?thesis using k False good_shrink [of k v] by auto
    qed
  qed (use k m v in \<open>auto simp: pb_make_string_substream_def bnd_def\<close>)
qed

lemma close_substream:
  assumes sub: "good (k + bytes_left u) sub" and u: "good k u" and c: "pb_close_string_substream io sub u = (r, v)"
  shows "r \<noteq> Undef \<and> good k v \<and> bytes_left v = bytes_left u"
proof -
  let ?m = "if bytes_left sub \<noteq> 0 then pb_read_null io (bytes_left sub) else ret ()"
  obtain q w where w: "?m sub = (q, w)" by fastforce
  have "steady (pb_read_null io n)" for n by (intro steady_fine pb_contract.fine_read_null good_contract)
  then have "steady ?m" by (simp add: steady_def)
  note k = steadyD [OF this sub w]
  show ?thesis
  proof (cases q)
    case (Ok x)
    then have v: "r = Ok w" "v = u\<lparr>source := source w, errmsg := errmsg w\<rparr>"
      using c w by (auto simp: pb_close_string_substream_def split: if_splits)
    have w': "v = w\<lparr>bytes_left := bytes_left u\<rparr>" using v(2) by (cases w; cases u) simp
    have "good k v" unfolding w' using k good_shrink [of "k + bytes_left u" w "bytes_left u" k] by simp
    moreover have "bytes_left v = bytes_left u" unfolding w' by simp
    ultimately show ?thesis using v(1) by simp
  qed (use k c w u in \<open>auto simp: pb_close_string_substream_def split: if_splits\<close>)
qed

lemma confined_substream:
  assumes m: "\<And>sub. bytes_left sub < N \<Longrightarrow> confined (Suc (bytes_left sub)) D R (m sub)"
    and g: "\<And>status. status \<noteq> Undef \<Longrightarrow> confined N D R (g status)"
  shows "confined N D R (bnd (on_stream (pb_make_string_substream io)) (\<lambda>sub.
     bnd (on_substream sub (m sub)) (\<lambda>(status, sub).
     if c sub then m_error msg else bnd (on_stream (pb_close_string_substream io sub)) (\<lambda>_. g status))))"
proof (rule confinedI)
  fix k and s t :: "'s pb_machine" and r
  assume s: "good k (m_stream s)" "bytes_left (m_stream s) < N" "D \<subseteq> dom (ram s)"
    and b: "bnd (on_stream (pb_make_string_substream io)) (\<lambda>sub.
     bnd (on_substream sub (m sub)) (\<lambda>(status, sub).
     if c sub then m_error msg else bnd (on_stream (pb_close_string_substream io sub)) (\<lambda>_. g status))) s = (r, t)"
  obtain q u where u: "pb_make_string_substream io (m_stream s) = (q, u)" by fastforce
  note mk = make_substream [OF s(1) u]
  show "r \<noteq> Undef \<and> stays k R s t"
  proof (cases q)
    case (Ok sub)
    let ?s = "s\<lparr>m_stream := sub\<rparr>"
    have sub: "good (k + bytes_left u) sub" "bytes_left sub < N" using mk Ok s(2) by auto
    obtain p w where w: "m sub ?s = (p, w)" by fastforce
    have mm: "p \<noteq> Undef \<and> stays (k + bytes_left u) R ?s w"
      using confinedD [OF m [OF sub(2)], of "k + bytes_left u" ?s p w] sub(1) s(3) w by simp
    let ?w = "w\<lparr>m_stream := u\<rparr>"
    have stay: "stays k R s ?w" using mm mk s(1) by (simp add: stays_def)
    have os: "on_substream sub (m sub) (s\<lparr>m_stream := u\<rparr>) = (Ok (p, m_stream w), ?w)"
      using w mm by (cases p) (simp_all add: on_substream_def)
    then have rest: "(if c (m_stream w) then m_error msg else bnd (on_stream (pb_close_string_substream io (m_stream w))) (\<lambda>_. g p)) ?w = (r, t)"
      using b u Ok by (simp add: bnd_def on_stream_def)
    show ?thesis
    proof (cases "c (m_stream w)")
      case True
      then show ?thesis using rest confined_after [OF confined_error stay s(2,3)] by simp
    next
      case False
      obtain x v where v: "pb_close_string_substream io (m_stream w) u = (x, v)" by fastforce
      have cl: "x \<noteq> Undef \<and> good k v \<and> bytes_left v = bytes_left u"
        using close_substream [OF _ _ v, of k] mm mk by (simp add: stays_def)
      let ?v = "w\<lparr>m_stream := v\<rparr>"
      have stay': "stays k R s ?v" using stay cl by (simp add: stays_def)
      have "(case x of Ok _ \<Rightarrow> g p ?v | Fail \<Rightarrow> (Fail, ?v) | Undef \<Rightarrow> (Undef, ?v)) = (r, t)"
        using rest False v by (auto simp: bnd_def on_stream_def split: res.splits)
      then show ?thesis using cl stay' confined_after [OF g stay' s(2,3)] mm by (cases x) auto
    qed
  qed (use mk b u s(1) in \<open>auto simp: bnd_def on_stream_def stays_def\<close>)
qed

subsection \<open>Steps that read\<close>

definition eats :: "u64 set \<Rightarrow> ('s pb_machine, 'a) cfun \<Rightarrow> bool" where
  "eats D m \<longleftrightarrow> (\<forall>k s a t. good k (m_stream s) \<longrightarrow> D \<subseteq> dom (ram s) \<longrightarrow> m s = (Ok a, t) \<longrightarrow> bytes_left (m_stream t) < bytes_left (m_stream s))"

lemma eats_bnd:
  assumes m: "eats D m" "\<And>N. confined N D R m" and f: "\<And>N a. confined N D R (f a)"
  shows "eats D (bnd m f)"
  unfolding eats_def
proof (intro allI impI)
  fix k and s t :: "'s pb_machine" and b
  assume s: "good k (m_stream s)" "D \<subseteq> dom (ram s)" and e: "bnd m f s = (Ok b, t)"
  then obtain a u where u: "m s = (Ok a, u)" "f a u = (Ok b, t)" by (auto simp: bnd_Ok_iff)
  have l: "bytes_left (m_stream u) < bytes_left (m_stream s)" using m(1) s u(1) by (auto simp: eats_def)
  have "stays k R s u" using confinedD [OF m(2) s(1) lessI s(2) u(1)] by simp
  then have "D \<subseteq> dom (ram u)" "good k (m_stream u)" using s(2) by (simp_all add: stays_def)
  from confinedD [OF f this(2) lessI this(1) u(2)] l show "bytes_left (m_stream t) < bytes_left (m_stream s)"
    by (auto simp: stays_def)
qed

lemma confined_eats:
  assumes m: "confined (Suc N) D R m" "eats D m" and f: "\<And>a. confined N D R (f a)"
  shows "confined (Suc N) D R (bnd m f)"
proof (rule confinedI)
  fix k and s t :: "'s pb_machine" and r
  assume s: "good k (m_stream s)" "bytes_left (m_stream s) < Suc N" "D \<subseteq> dom (ram s)" and b: "bnd m f s = (r, t)"
  obtain q u where u: "m s = (q, u)" by fastforce
  note k = confinedD [OF m(1) s u]
  show "r \<noteq> Undef \<and> stays k R s t"
  proof (cases q)
    case (Ok a)
    then have e: "f a u = (r, t)" using b u by (simp add: bnd_def)
    have "bytes_left (m_stream u) < N" using m(2) s u Ok by (fastforce simp: eats_def)
    moreover have "good k (m_stream u)" "D \<subseteq> dom (ram u)" using k s(3) by (simp_all add: stays_def)
    ultimately show ?thesis using confinedD [OF f _ _ _ e, of k] k stays_trans [of k R s u t] by blast
  qed (use k u b in \<open>auto simp: bnd_def\<close>)
qed

lemma confined_eof: "confined N D R m \<Longrightarrow> confined N D R (\<lambda>s. if bytes_left (m_stream s) = 0 then ret a s else m s)"
  by (rule confinedI) (auto simp: stays_refl split: if_splits dest: confinedD)

lemma confined_on_fail:
  assumes m: "confined N D R m" and w: "confined N D R (w :: ('s pb_machine, unit) cfun)"
  shows "confined N D R (\<lambda>s. case m s of (Fail, t) \<Rightarrow> bnd w (\<lambda>_. fail) t | r \<Rightarrow> r)"
proof (rule confinedI)
  fix k and s t :: "'s pb_machine" and r
  assume s: "good k (m_stream s)" "bytes_left (m_stream s) < N" "D \<subseteq> dom (ram s)"
    and b: "(case m s of (Fail, t) \<Rightarrow> bnd w (\<lambda>_. fail) t | r \<Rightarrow> r) = (r, t)"
  obtain q u where u: "m s = (q, u)" by fastforce
  note k = confinedD [OF m s u]
  have w': "confined N D R (bnd w (\<lambda>_. fail))" by (intro confined_bnd w confined_value)
  show "r \<noteq> Undef \<and> stays k R s t"
    using k b u confined_after [OF w' conjunct2 [OF k] s(2,3), of r t] by (cases q) auto
qed

text \<open>The decoders of numbers read at least a byte.\<close>

definition consuming :: "('s pb_istream, 'a) cfun \<Rightarrow> bool" where
  "consuming m \<longleftrightarrow> (\<forall>k s a t. good k s \<longrightarrow> m s = (Ok a, t) \<longrightarrow> bytes_left t < bytes_left s)"

lemma consuming_bnd: "consuming m \<Longrightarrow> steady m \<Longrightarrow> (\<And>a. steady (f a)) \<Longrightarrow> consuming (bnd m f)"
  unfolding consuming_def
proof (intro allI impI)
  fix k s b t
  assume m: "\<forall>k s a t. good k s \<longrightarrow> m s = (Ok a, t) \<longrightarrow> bytes_left t < bytes_left s" "steady m" "\<And>a. steady (f a)"
    and s: "good k s" "bnd m f s = (Ok b, t)"
  obtain a u where u: "m s = (Ok a, u)" "f a u = (Ok b, t)" using s(2) by (auto simp: bnd_Ok_iff)
  have "good k u" using steadyD [OF m(2) s(1) u(1)] by simp
  from steadyD [OF m(3) this u(2)] m(1) s(1) u(1) show "bytes_left t < bytes_left s" by fastforce
qed

lemma consuming_read: "0 < n \<Longrightarrow> consuming (pb_read io n)"
  unfolding consuming_def
proof (intro allI impI)
  fix k s bs t assume n: "0 < n" and s: "good k s" and e: "pb_read io n s = (Ok bs, t)"
  show "bytes_left t < bytes_left s"
  proof (rule pb_contract.read_cases [OF good_contract s, of n])
    fix cs u assume "pb_read io n s = (Ok cs, u)" "n \<le> bytes_left s" "bytes_left u = bytes_left s - n"
    then show ?thesis using e n by simp
  qed (use e in simp)
qed

lemma steady_ret: "steady (ret a)"
  by (simp add: steady_def)

lemma steady_bnd:
  assumes m: "steady m" and f: "\<And>a. steady (f a)"
  shows "steady (bnd m f)"
proof -
  have "r \<noteq> Undef \<and> good k t \<and> bytes_left t \<le> bytes_left s" if s: "good k s" "bnd m f s = (r, t)" for k s r t
  proof -
    obtain q u where u: "m s = (q, u)" by fastforce
    note k = steadyD [OF m s(1) u]
    show ?thesis
    proof (cases q)
      case (Ok a)
      then have "f a u = (r, t)" using s u by (simp add: bnd_def)
      from steadyD [OF f _ this, of k] k show ?thesis by simp
    qed (use k s u in \<open>auto simp: bnd_def\<close>)
  qed
  then show ?thesis by (auto simp: steady_def)
qed

lemma steady_readbyte: "steady (pb_readbyte io)"
  by (intro steady_fine pb_contract.fine_readbyte good_contract)

lemma consuming_readbyte: "consuming (pb_readbyte io)"
  unfolding consuming_def using pb_contract.readbyte_consumes [OF good_contract] by blast

lemma consuming_varint: "consuming (pb_decode_varint io)"
proof -
  have "steady (varint_loop io b r)" for b r by (intro steady_fine pb_contract.fine_varint good_contract)
  moreover have "pb_decode_varint io = bnd (pb_readbyte io) (\<lambda>byte.
      let r = 0 OR push_bit 0 (ucast (byte AND 0x7f)) in if byte AND 0x80 \<noteq> 0 then varint_loop io (0 + 7) r else ret r)"
    unfolding pb_decode_varint_def by (subst varint_loop.simps) simp
  ultimately show ?thesis
    by (simp only: Let_def) (intro consuming_bnd consuming_readbyte steady_readbyte, simp add: steady_ret)
qed

lemma varint32_consumes:
  assumes s: "good k s" and e: "pb_decode_varint32_eof io s = (Ok v, eof, t)"
  shows "bytes_left t < bytes_left s"
proof -
  obtain q u where u: "pb_readbyte io s = (q, u)" by fastforce
  obtain b where b: "q = Ok b" using e u by (cases q) (simp_all add: pb_decode_varint32_eof_def)
  have l: "bytes_left u < bytes_left s" "good k u"
    using consuming_readbyte steadyD [OF steady_readbyte s u] u s b by (auto simp: consuming_def)
  show ?thesis
  proof (cases "b AND 0x80 = 0")
    case True
    then show ?thesis using e u b l by (simp add: pb_decode_varint32_eof_def)
  next
    case False
    then have "varint32_loop io (Suc (bytes_left u)) 7 (ucast (b AND 0x7f)) u = (Ok v, t)"
      using e u b by (simp add: pb_decode_varint32_eof_def del: varint32_loop.simps split: prod.splits)
    moreover have "pb_contract.kept (good k) u (varint32_loop io (Suc (bytes_left u)) 7 (ucast (b AND 0x7f)) u)"
      using pb_contract.lasts_varint32 [OF good_contract] l(2)
      by (simp add: pb_contract.lasts_def [OF good_contract] del: varint32_loop.simps)
    ultimately show ?thesis using l(1) by (simp add: pb_contract.kept_def [OF good_contract] del: varint32_loop.simps)
  qed
qed

lemma consuming_numbers:
  "consuming (pb_decode_varint32 io)" "consuming (pb_decode_svarint io)" "consuming (pb_decode_fixed32 io)" "consuming (pb_decode_fixed64 io)"
proof -
  show "consuming (pb_decode_varint32 io)"
    unfolding consuming_def pb_decode_varint32_def using varint32_consumes by (auto split: prod.splits)
  show "consuming (pb_decode_svarint io)"
    unfolding pb_decode_svarint_def by (intro consuming_bnd consuming_varint steady_ops steady_ret)
  show "consuming (pb_decode_fixed32 io)" "consuming (pb_decode_fixed64 io)"
    unfolding pb_decode_fixed32_def pb_decode_fixed64_def by (intro consuming_bnd consuming_read steady_ops steady_ret; simp)+
qed

lemma eats_stream: "consuming m \<Longrightarrow> eats D (on_stream m)"
  by (auto simp: consuming_def eats_def on_stream_def split: prod.splits)

lemma eats_then:
  assumes "consuming m" "steady m" "\<And>N a. confined N D R (f a)"
  shows "eats D (bnd (on_stream m) f)"
  by (rule eats_bnd [where R = R]) (intro eats_stream confined_stream assms)+

lemma eats_integers:
  assumes "reader E = io" "region p (unat (data_size field)) \<subseteq> R" "R \<subseteq> D"
  shows "eats D (pb_dec_varint E field p)" "eats D (pb_dec_uvarint E field p)" "eats D (pb_dec_svarint E field p)"
  unfolding pb_dec_varint_def pb_dec_uvarint_def pb_dec_svarint_def Let_def assms(1)
  by (intro eats_then [where R = R] consuming_varint consuming_numbers steady_ops confined_intros confined_clamped [OF assms(2,3)])+

lemma eats_fixed:
  assumes "reader E = io" "R \<subseteq> D"
  shows "region p 1 \<subseteq> R \<Longrightarrow> eats D (pb_dec_bool E field p)" "region p 4 \<subseteq> R \<Longrightarrow> eats D (pb_dec_fixed32 E field p)"
    "region p 8 \<subseteq> R \<Longrightarrow> eats D (pb_dec_fixed64 E field p)"
  unfolding pb_dec_bool_def pb_dec_fixed32_def pb_dec_fixed64_def assms(1)
  by (intro eats_then [where R = R] consuming_numbers steady_ops confined_poke assms(2); simp)+

lemma eats_decoders:
  assumes "reader E = io" "PB_LTYPE (f_type field) \<le> PB_LTYPE_LAST_PACKABLE" "region p (field_room field) \<subseteq> R" "R \<subseteq> D"
  shows "eats D (PB_DECODERS E sub (PB_LTYPE (f_type field)) field p)"
proof -
  have "PB_LTYPE (f_type field) < 8" using assms(2) by (rule order_le_less_trans) simp
  from small_types [OF this] consider "PB_LTYPE (f_type field) = 0" | "PB_LTYPE (f_type field) = 1" | "PB_LTYPE (f_type field) = 2"
    | "PB_LTYPE (f_type field) = 3" | "PB_LTYPE (f_type field) = 4" | "PB_LTYPE (f_type field) = 5"
    | "PB_LTYPE (f_type field) = 6" | "PB_LTYPE (f_type field) = 7" by argo
  then show ?thesis
  proof cases
    case 1
    then show ?thesis using eats_fixed(1) [OF assms(1,4), of p] assms(3) by (simp add: PB_DECODERS_def field_room_def)
  next
    case 2
    then show ?thesis using eats_integers(1) [OF assms(1) _ assms(4), of p] assms(3) by (simp add: PB_DECODERS_def field_room_def)
  next
    case 3
    then show ?thesis using eats_integers(2) [OF assms(1) _ assms(4), of p] assms(3) by (simp add: PB_DECODERS_def field_room_def)
  next
    case 4
    then show ?thesis using eats_integers(3) [OF assms(1) _ assms(4), of p] assms(3) by (simp add: PB_DECODERS_def field_room_def)
  next
    case 5
    then show ?thesis using eats_fixed(2) [OF assms(1,4), of p] assms(3) by (simp add: PB_DECODERS_def field_room_def)
  next
    case 6
    then show ?thesis using eats_fixed(3) [OF assms(1,4), of p] assms(3) by (simp add: PB_DECODERS_def field_room_def)
  qed (use assms(2) in simp_all)
qed

subsection \<open>Static fields stay in the message\<close>

lemma confined_result: "r \<noteq> Undef \<Longrightarrow> confined N D R (result r)"
  by (simp add: confined_def result_def stays_refl)

lemma confined_decode_with:
  assumes t: "static_table E D0 n tab sz" and p: "p \<noteq> 0" "unat p + sz < 2 ^ 64" "region p sz \<subseteq> R" "R \<subseteq> D" "D0 \<subseteq> D"
    and noinit: "confined N D R (noinit tab p)"
  shows "confined N D R (decode_with E n noinit tab p)"
  unfolding decode_with_def pb_message_set_to_defaults_def
proof (rule confined_bnd)
  show "confined N D R (for_fields tab p (pb_field_set_to_default E n))" by (rule confined_defaults [OF t p])
  have "confined N D R (pb_release E n tab p)"
    unfolding pb_release_def by (intro confined_if confined_value confined_release [OF t p(1-4)])
  from confined_on_fail [OF noinit this]
  show "confined N D R (\<lambda>s. case noinit tab p s of (Fail, t) \<Rightarrow> bnd (pb_release E n tab p) (\<lambda>_. fail) t | r \<Rightarrow> r)" .
qed

lemma confined_dec_submessage:
  assumes io: "reader E = io" and f: "f_ptr field \<noteq> 0" "h_tables E (f_ptr field) = Some tab" "static_table E D0 n tab (unat (data_size field))"
    and p: "p \<noteq> 0" "unat p + unat (data_size field) < 2 ^ 64" "region p (unat (data_size field)) \<subseteq> R" "R \<subseteq> D" "D0 \<subseteq> D"
    and noinit: "\<And>N. confined N D R (noinit tab p)"
  shows "confined N D R (pb_dec_submessage E n noinit field p)"
  unfolding pb_dec_submessage_def io if_not_P [OF f(1)] the_table_Some [OF f(2)] bnd_ret
proof -
  have w: "confined N D R (decode_with E n noinit tab p)" for N
    by (rule confined_decode_with [OF f(3) p]) (rule noinit)
  let ?m = "if PB_HTYPE (f_type field) = PB_HTYPE_REPEATED then decode_with E n noinit tab p else noinit tab p"
  have m: "confined N D R ?m" for N by (rule confined_if) (rule w, rule noinit)
  show "confined N D R (bnd (on_stream (pb_make_string_substream io)) (\<lambda>sub. bnd (on_substream sub ?m) (\<lambda>(status, sub).
     bnd (on_stream (pb_close_string_substream io sub)) (\<lambda>_. result status))))"
    by (rule confined_substream [where c = "\<lambda>_. False", unfolded if_False]) (rule m, erule confined_result)
qed

lemma confined_func:
  assumes io: "reader E = io" and f: "static_field E D0 (static_table E D0 n) tab sz k"
    and p: "p \<noteq> 0" "unat p + unat (data_size (tab ! k)) < 2 ^ 64" "region p (unat (data_size (tab ! k))) \<subseteq> R" "R \<subseteq> D" "D0 \<subseteq> D"
    and noinit: "\<And>N tab' p' sz'. static_table E D0 n tab' sz' \<Longrightarrow> p' \<noteq> 0 \<Longrightarrow> unat p' + sz' < 2 ^ 64 \<Longrightarrow> region p' sz' \<subseteq> R \<Longrightarrow>
      confined N D R (noinit tab' p')"
  shows "confined N D R (PB_DECODERS E (pb_dec_submessage E n noinit) (PB_LTYPE (f_type (tab ! k))) (tab ! k) p)"
proof (cases "PB_LTYPE (f_type (tab ! k)) = PB_LTYPE_SUBMESSAGE")
  case True
  from static_sub [OF f this] obtain tab' where t: "f_ptr (tab ! k) \<noteq> 0" "h_tables E (f_ptr (tab ! k)) = Some tab'"
    "static_table E D0 n tab' (unat (data_size (tab ! k)))" .
  have "confined N D R (pb_dec_submessage E n noinit (tab ! k) p)"
    by (rule confined_dec_submessage [OF io t p]) (rule noinit [OF t(3) p(1-3)])
  then show ?thesis using True by (simp add: PB_DECODERS_def)
next
  case False
  have "PB_LTYPE (f_type (tab ! k)) < PB_LTYPE_SUBMESSAGE \<or> PB_LTYPE (f_type (tab ! k)) = PB_LTYPE_FIXED_LENGTH_BYTES"
    and b: "\<not> behind_pointer (tab ! k)" and r: "field_room (tab ! k) \<le> unat (data_size (tab ! k))"
    using f False by (auto simp: static_field_def Let_def behind_pointer_def)
  moreover have "region p (field_room (tab ! k)) \<subseteq> R" using region_mono [OF r] p(3) by blast
  ultimately show ?thesis by (intro confined_decoders io p(4))
qed

text \<open>Steps on memory, with what follows them.\<close>

lemma confined_bnd_peek: "region p j \<subseteq> D \<Longrightarrow> (\<And>v. confined N D R (f v)) \<Longrightarrow> confined N D R (bnd (peek_number p j) f)"
  by (intro confined_bnd confined_peek_number)

lemma confined_bnd_poke: "region p (length bs) \<subseteq> R \<Longrightarrow> R \<subseteq> D \<Longrightarrow> confined N D R m \<Longrightarrow> confined N D R (bnd (poke p bs) (\<lambda>_. m))"
  by (intro confined_bnd confined_poke)

lemma confined_packed:
  assumes q: "region (pSize it) 4 \<subseteq> R" "R \<subseteq> D"
    and f: "\<And>i N. i < ucast (array_size field) \<Longrightarrow> confined N D R (func field (item_at field (pData it) i))"
    and e: "\<And>i. i < ucast (array_size field) \<Longrightarrow> eats D (func field (item_at field (pData it) i))"
  shows "confined N D R (packed_items func field it N)"
proof (induction N)
  case 0
  then show ?case by (simp add: confined_def)
next
  case (Suc N)
  have q': "region (pSize it) 4 \<subseteq> D" using q by blast
  show ?case
    unfolding packed_items.simps
  proof (rule confined_eof, rule confined_bnd)
    show "confined (Suc N) D R (peek_number (pSize it) 4)" using q' by (rule confined_peek_number)
    fix i
    show "confined (Suc N) D R (if \<not> i < ucast (array_size field) then ret ()
        else bnd (func field (item_at field (pData it) i)) (\<lambda>_. bnd (peek_number (pSize it) 4) (\<lambda>size.
             bnd (poke (pSize it) (le_bytes 4 (size + 1))) (\<lambda>_. packed_items func field it N))))"
      by (intro confined_if confined_value confined_eats f e confined_bnd_peek confined_bnd_poke q(2)
          Suc.IH) (simp_all add: q(1) q')
  qed
qed

end

lemma htype_cases: "PB_HTYPE t = PB_HTYPE_REQUIRED \<or> PB_HTYPE t = PB_HTYPE_OPTIONAL \<or> PB_HTYPE t = PB_HTYPE_REPEATED \<or> PB_HTYPE t = PB_HTYPE_ONEOF"
proof -
  have "bit (t AND 0x30) n = bit ((if bit t 4 then 0x10 else 0) OR (if bit t 5 then 0x20 else 0 :: u8)) n" if "n < 8" for n
  proof -
    have "n = 0 \<or> n = 1 \<or> n = 2 \<or> n = 3 \<or> n = 4 \<or> n = 5 \<or> n = 6 \<or> n = 7" using that by arith
    then show ?thesis by (elim disjE) (simp_all add: bit_and_iff bit_or_iff)
  qed
  then have "t AND 0x30 = (if bit t 4 then 0x10 else 0) OR (if bit t 5 then 0x20 else 0)" by (intro bit_word_eqI) simp
  then show ?thesis by (simp add: PB_HTYPE_def)
qed

lemma here_entry: "fst (entry it) = Ok f \<Longrightarrow> here it = ret f"
  by (rule ext) (simp add: here_def)

context pb_nested
begin

lemma confined_static_field:
  assumes io: "reader E = io" and f: "static_field E D0 (static_table E D0 n) tab sz k"
    and d: "dest \<noteq> 0" "unat dest + sz < 2 ^ 64" "region dest sz \<subseteq> R" "R \<subseteq> D" "D0 \<subseteq> D"
    and it: "fst (entry it) = Ok (tab ! k)" "pData it = dest + field_offset tab k"
      "pSize it = dest + size_at tab k \<or> PB_HTYPE (f_type (tab ! k)) = PB_HTYPE_REPEATED \<and> region (pSize it) 4 \<subseteq> R"
    and noinit: "\<And>N tab' p' sz'. static_table E D0 n tab' sz' \<Longrightarrow> p' \<noteq> 0 \<Longrightarrow> unat p' + sz' < 2 ^ 64 \<Longrightarrow> region p' sz' \<subseteq> R \<Longrightarrow>
      confined N D R (noinit tab' p')"
  shows "confined N D R (decode_static_field E n (pb_dec_submessage E n noinit) wt it)"
proof -
  let ?f = "tab ! k" and ?h = "PB_HTYPE (f_type (tab ! k))" and ?t = "PB_LTYPE (f_type (tab ! k))"
  let ?func = "PB_DECODERS E (pb_dec_submessage E n noinit) ?t ?f"
  note places = static_places [OF f d(1,2), folded it(2)]
  have R: "region a n \<subseteq> R" if "in_message a n dest sz" for a n using in_messageD(1) [OF that] d(3) by blast
  have func: "confined N D R (?func p)" if "in_message p (unat (data_size ?f)) dest sz" for N p
    using in_messageD(2,3) [OF that] R [OF that] by (intro confined_func [OF io f _ _ _ d(4,5) noinit])
  have q4: "region (pSize it) 4 \<subseteq> R" if "?h = PB_HTYPE_REPEATED \<or> ?h \<noteq> PB_HTYPE_REQUIRED \<and> ?h \<noteq> PB_HTYPE_OPTIONAL"
  proof (cases "pSize it = dest + size_at tab k")
    case True
    then show ?thesis using R [OF places(2)] that htype_cases [of "f_type ?f"] by auto
  qed (use it(3) in simp)
  have repeated: "confined N D R
      (if wt = PB_WT_STRING \<and> ?t \<le> PB_LTYPE_LAST_PACKABLE then
         bnd (on_stream (pb_make_string_substream io)) (\<lambda>substream.
         bnd (on_substream substream (packed_items (PB_DECODERS E (pb_dec_submessage E n noinit) ?t) ?f it (Suc (bytes_left substream)))) (\<lambda>(status, substream).
         if bytes_left substream \<noteq> 0 then m_error ''array overflow''
         else bnd (on_stream (pb_close_string_substream io substream)) (\<lambda>_. result status)))
       else
         bnd (peek_number (pSize it) 4) (\<lambda>size.
         bnd (poke (pSize it) (le_bytes 4 (size + 1))) (\<lambda>_.
         if size \<ge> ucast (array_size ?f) then m_error ''array overflow''
         else ?func (item_at ?f (pData it) size))))" if h: "?h = PB_HTYPE_REPEATED"
  proof (intro confined_if)
    have item: "in_message (item_at ?f (pData it) i) (unat (data_size ?f)) dest sz" if "i < ucast (array_size ?f)" for i
      by (rule places(4) [OF h that])
    assume packed: "wt = PB_WT_STRING \<and> ?t \<le> PB_LTYPE_LAST_PACKABLE"
    have room: "field_room ?f \<le> unat (data_size ?f)" using f by (simp add: static_field_def Let_def)
    have eats: "eats D (?func (item_at ?f (pData it) i))" if "i < ucast (array_size ?f)" for i
      using packed region_mono [OF room] R [OF item [OF that]] by (intro eats_decoders [OF io _ _ d(4)]) blast+
    show "confined N D R (bnd (on_stream (pb_make_string_substream io)) (\<lambda>substream.
        bnd (on_substream substream (packed_items (PB_DECODERS E (pb_dec_submessage E n noinit) ?t) ?f it (Suc (bytes_left substream)))) (\<lambda>(status, substream).
        if bytes_left substream \<noteq> 0 then m_error ''array overflow''
        else bnd (on_stream (pb_close_string_substream io substream)) (\<lambda>_. result status))))"
      by (intro confined_substream confined_packed q4 d(4) func item eats confined_result) (simp_all add: h)
  next
    have q: "region (pSize it) 4 \<subseteq> R" by (rule q4) (simp add: h)
    then have q': "region (pSize it) 4 \<subseteq> D" using d(4) by blast
    have item: "in_message (item_at ?f (pData it) i) (unat (data_size ?f)) dest sz" if "\<not> ucast (array_size ?f) \<le> i" for i
      using places(4) [OF h, of i] that by (simp add: not_le)
    show "confined N D R (bnd (peek_number (pSize it) 4) (\<lambda>size.
         bnd (poke (pSize it) (le_bytes 4 (size + 1))) (\<lambda>_.
         if size \<ge> ucast (array_size ?f) then m_error ''array overflow''
         else ?func (item_at ?f (pData it) size))))"
      by (intro confined_bnd_peek confined_bnd_poke confined_if confined_error func item q' d(4)) (simp_all add: q)
  qed
  have union: "confined N D R (bnd (if ?t = PB_LTYPE_SUBMESSAGE then
                 bnd (peek_number (pSize it) 4) (\<lambda>which.
                 if which \<noteq> ucast (f_tag ?f) then
                   bnd (poke (pData it) (replicate (unat (data_size ?f)) 0)) (\<lambda>_.
                   bnd (the_table E (f_ptr ?f)) (\<lambda>tab. pb_message_set_to_defaults E n tab (pData it)))
                 else ret ())
               else ret ()) (\<lambda>_.
          bnd (poke (pSize it) (le_bytes 4 (ucast (f_tag ?f)))) (\<lambda>_. ?func (pData it))))"
    if h: "?h \<noteq> PB_HTYPE_REQUIRED" "?h \<noteq> PB_HTYPE_OPTIONAL" "?h \<noteq> PB_HTYPE_REPEATED"
  proof -
    have q: "region (pSize it) 4 \<subseteq> R" by (rule q4) (simp add: h)
    then have q': "region (pSize it) 4 \<subseteq> D" using d(4) by blast
    note p = places(1) [OF h(3)]
    have store: "confined N D R (bnd (poke (pSize it) (le_bytes 4 (ucast (f_tag ?f)))) (\<lambda>_. ?func (pData it)))"
      by (intro confined_bnd_poke d(4) func p) (simp add: q)
    show ?thesis
    proof (rule confined_bnd [OF confined_if store])
      assume "?t = PB_LTYPE_SUBMESSAGE"
      from static_sub [OF f this] obtain tab' where t: "h_tables E (f_ptr ?f) = Some tab'" "static_table E D0 n tab' (unat (data_size ?f))" .
      have "confined N D R (bnd (the_table E (f_ptr ?f)) (\<lambda>tab. pb_message_set_to_defaults E n tab (pData it)))"
        unfolding the_table_Some [OF t(1)] bnd_ret pb_message_set_to_defaults_def
        by (rule confined_defaults [OF t(2) in_messageD(2,3) [OF p] R [OF p] d(4,5)])
      then show "confined N D R (bnd (peek_number (pSize it) 4) (\<lambda>which.
          if which \<noteq> ucast (f_tag ?f) then
            bnd (poke (pData it) (replicate (unat (data_size ?f)) 0)) (\<lambda>_.
            bnd (the_table E (f_ptr ?f)) (\<lambda>tab. pb_message_set_to_defaults E n tab (pData it)))
          else ret ()))"
        using R [OF p] by (intro confined_bnd_peek confined_if confined_bnd_poke confined_value q' d(4)) simp
    qed (rule confined_value)
  qed
  have optional: "confined N D R (bnd (if pSize it \<noteq> pData it then poke (pSize it) [1] else ret ()) (\<lambda>_. ?func (pData it)))"
    if h: "?h = PB_HTYPE_OPTIONAL"
  proof (intro confined_bnd confined_if confined_value func places(1))
    assume "pSize it \<noteq> pData it"
    then have "region (pSize it) 1 \<subseteq> R" using R [OF places(3)] it h by auto
    then show "confined N D R (poke (pSize it) [1])" by (intro confined_poke d(4)) simp
  qed (simp add: h)
  show ?thesis
    unfolding decode_static_field_def here_entry [OF it(1)] bnd_ret Let_def io
    by (rule confined_if [OF func confined_if [OF optional confined_if [OF repeated union]]]) (simp_all add: places)
qed

end

end
