(* ===== verification/Pb_Static_Message.thy ===== *)
theory Pb_Static_Message
  imports Pb_Static
begin

text \<open>
  The loop over the fields of a message without pointers: it stays within the message and the local variables
  of its calls, at all depths of nesting, and comes to an end; so does \<open>pb_decode\<close>.
\<close>

subsection \<open>Where the iterator is\<close>

text \<open>It is at an entry, or at an array whose count is the local variable of the call.\<close>

definition cursor :: "u64 set \<Rightarrow> pb_field list \<Rightarrow> nat \<Rightarrow> u64 \<Rightarrow> pb_field_iter \<Rightarrow> bool" where
  "cursor R tab n dest it \<longleftrightarrow>
     (\<exists>k. (k < n \<or> k = 0 \<and> n = 0) \<and>
        (it = iter_at tab dest k \<or>
         k < n \<and> PB_HTYPE (f_type (tab ! k)) = PB_HTYPE_REPEATED \<and> (\<exists>q. region q 4 \<subseteq> R \<and> it = iter_at tab dest k\<lparr>pSize := q\<rparr>)))"

lemma cursor_at: "k < n \<or> k = 0 \<and> n = 0 \<Longrightarrow> cursor R tab n dest (iter_at tab dest k)"
  by (auto simp: cursor_def)

lemma cursor_cases:
  assumes "table_ok tab n" "cursor R tab n dest it"
  obtains k where "k < n \<or> k = 0 \<and> n = 0" "fst (entry it) = Ok (tab ! k)" "pos it = k" "k < length tab"
    "required_field_index it = required_before tab k"
    "pData it = dest + field_offset tab k" "it = iter_at tab dest k \<or> PB_HTYPE (f_type (tab ! k)) = PB_HTYPE_REPEATED \<and>
      region (pSize it) 4 \<subseteq> R \<and> k < n \<and> it = iter_at tab dest k\<lparr>pSize := pSize it\<rparr>"
proof -
  obtain k where k: "k < n \<or> k = 0 \<and> n = 0" "it = iter_at tab dest k \<or>
      k < n \<and> PB_HTYPE (f_type (tab ! k)) = PB_HTYPE_REPEATED \<and> (\<exists>q. region q 4 \<subseteq> R \<and> it = iter_at tab dest k\<lparr>pSize := q\<rparr>)"
    using assms(2) by (auto simp: cursor_def)
  have l: "k < length tab" using k(1) assms(1) by (auto simp: table_ok_def)
  show ?thesis
  proof (rule that [OF k(1) _ _ l])
    show "fst (entry it) = Ok (tab ! k)" using k(2) l by (auto simp: entry_def)
    show "it = iter_at tab dest k \<or> PB_HTYPE (f_type (tab ! k)) = PB_HTYPE_REPEATED \<and>
      region (pSize it) 4 \<subseteq> R \<and> k < n \<and> it = iter_at tab dest k\<lparr>pSize := pSize it\<rparr>" using k(2) by auto
  qed (use k(2) in auto)
qed

lemma cursor_moved:
  assumes "table_ok tab n" "cursor R tab n dest it" "region q 4 \<subseteq> R"
    "\<And>f. fst (entry it) = Ok f \<Longrightarrow> PB_HTYPE (f_type f) = PB_HTYPE_REPEATED" "n \<noteq> 0"
  shows "cursor R tab n dest (it\<lparr>pSize := q\<rparr>)"
proof (rule cursor_cases [OF assms(1,2)])
  fix k assume k: "k < n \<or> k = 0 \<and> n = 0" "fst (entry it) = Ok (tab ! k)" "it = iter_at tab dest k \<or> PB_HTYPE (f_type (tab ! k)) = PB_HTYPE_REPEATED \<and>
      region (pSize it) 4 \<subseteq> R \<and> k < n \<and> it = iter_at tab dest k\<lparr>pSize := pSize it\<rparr>"
  have "it\<lparr>pSize := q\<rparr> = iter_at tab dest k\<lparr>pSize := q\<rparr>"
  proof -
    obtain p where "it = iter_at tab dest k \<or> it = iter_at tab dest k\<lparr>pSize := p\<rparr>" using k(3) by blast
    then show ?thesis by (elim disjE) simp_all
  qed
  moreover have "PB_HTYPE (f_type (tab ! k)) = PB_HTYPE_REPEATED" by (rule assms(4) [OF k(2)])
  ultimately show ?thesis using k(1) assms(3,5) unfolding cursor_def by blast
qed

text \<open>A step sets the addresses anew, unless it is one in a union.\<close>

lemma next_moved:
  assumes t: "table_ok tab n" "k < n" "dest \<noteq> 0" and h: "PB_HTYPE (f_type (tab ! k)) = PB_HTYPE_REPEATED"
  shows "pb_field_iter_next (iter_at tab dest k\<lparr>pSize := q\<rparr>) = (Ok (Suc k < n), iter_at tab dest (if Suc k < n then Suc k else 0))"
proof -
  let ?it = "iter_at tab dest k\<lparr>pSize := q\<rparr>"
  let ?next = "?it\<lparr>pos := pos ?it + 1\<rparr>"
  have l: "k < length tab" "Suc k < length tab" using t by (auto simp: table_ok_def)
  have t0: "f_tag (tab ! k) \<noteq> 0" and u: "\<not> in_union (tab ! k) (tab ! Suc k)" using t h by (auto simp: table_ok_def in_union_def)
  have e: "entry ?it = (Ok (tab ! k), ?it)" "entry ?next = (Ok (tab ! Suc k), ?next)" using l by (simp_all add: entry_def)
  have s: "start ?next = tab" "dest_struct ?next = dest" by (simp_all add: iter_at_def)
  show ?thesis
  proof (cases "Suc k < n")
    case True
    then have t1: "f_tag (tab ! Suc k) \<noteq> 0" using t(1) by (auto simp: table_ok_def)
    show ?thesis
      unfolding pb_field_iter_next_def entry_bnd [OF e(1)] if_not_P [OF t0] entry_bnd [OF e(2)] if_not_P [OF t1]
        if_not_P [OF u [unfolded in_union_def]]
      using True u h by (simp add: iter_at_def Let_def add.assoc)
  next
    case False
    then have t1: "f_tag (tab ! Suc k) = 0" using t by (auto simp: table_ok_def not_less) (metis Suc_leI le_antisym)
    show ?thesis
      unfolding pb_field_iter_next_def entry_bnd [OF e(1)] if_not_P [OF t0] entry_bnd [OF e(2)] if_P [OF t1] s
      using iter_begin [OF t(1,3)] False t(2) by (simp add: bnd_simps(1))
  qed
qed

lemma cursor_next:
  assumes "table_ok tab n" "cursor R tab n dest it" "dest \<noteq> 0"
  shows "\<exists>k. (k < n \<or> k = 0 \<and> n = 0) \<and> pos it = k \<and>
    pb_field_iter_next it = (Ok (Suc k < n), iter_at tab dest (if Suc k < n then Suc k else 0))"
proof (rule cursor_cases [OF assms(1,2)])
  fix k assume k: "k < n \<or> k = 0 \<and> n = 0" "pos it = k" "it = iter_at tab dest k \<or> PB_HTYPE (f_type (tab ! k)) = PB_HTYPE_REPEATED \<and>
      region (pSize it) 4 \<subseteq> R \<and> k < n \<and> it = iter_at tab dest k\<lparr>pSize := pSize it\<rparr>"
  from k(3) have "pb_field_iter_next it = (Ok (Suc k < n), iter_at tab dest (if Suc k < n then Suc k else 0))"
  proof (elim disjE conjE)
    assume "it = iter_at tab dest k"
    then show ?thesis using iter_next [OF assms(1) k(1) assms(3)] by simp
  next
    assume "PB_HTYPE (f_type (tab ! k)) = PB_HTYPE_REPEATED" "k < n" "it = iter_at tab dest k\<lparr>pSize := pSize it\<rparr>"
    then show ?thesis using next_moved [OF assms(1) _ assms(3), of k "pSize it"] by simp
  qed
  then show ?thesis using k(1,2) by blast
qed

text \<open>A search ends at a cursor.\<close>

lemma find_loop_cursor:
  assumes t: "table_ok tab n" "dest \<noteq> 0" and k: "k < n \<or> k = 0 \<and> n = 0"
  shows "cursor R tab n dest it \<Longrightarrow> (pos it = k \<longrightarrow> n < m) \<Longrightarrow> (pos it > k \<longrightarrow> n - pos it + k < m) \<Longrightarrow> (pos it < k \<longrightarrow> k - pos it < m) \<Longrightarrow>
    \<exists>b it'. iter_find_loop m k tag it = (Ok b, it') \<and> cursor R tab n dest it'"
proof (induction m arbitrary: it)
  case (Suc m)
  show ?case
  proof (rule cursor_cases [OF t(1) Suc.prems(1)])
    fix j assume j: "j < n \<or> j = 0 \<and> n = 0" "fst (entry it) = Ok (tab ! j)" "pos it = j"
    have e: "entry it = (Ok (tab ! j), it)" using j(2) by (auto simp: entry_def split: if_splits)
    let ?q = "if Suc j < n then Suc j else 0"
    have q: "?q < n \<or> ?q = 0 \<and> n = 0" using j(1) by auto
    have "pb_field_iter_next it = (Ok (Suc j < n), iter_at tab dest ?q)"
      using cursor_next [OF t(1) Suc.prems(1) t(2)] j(3) by auto
    then have step: "iter_find_loop (Suc m) k tag it = (if is_field tag (tab ! j) then (Ok True, it)
        else if ?q \<noteq> k then iter_find_loop m k tag (iter_at tab dest ?q) else (Ok False, iter_at tab dest ?q))"
      unfolding iter_find_loop.simps entry_bnd [OF e] is_field_def by (simp add: bnd_simps(1))
    show ?thesis
    proof (cases "is_field tag (tab ! j) \<or> ?q = k")
      case True
      then show ?thesis unfolding step using Suc.prems(1) cursor_at [OF q] by auto
    next
      case False
      have "\<exists>b it'. iter_find_loop m k tag (iter_at tab dest ?q) = (Ok b, it') \<and> cursor R tab n dest it'"
        using Suc.prems(2-4) j(1,3) k False by (intro Suc.IH cursor_at [OF q]) (auto split: if_splits)
      then show ?thesis unfolding step using False by simp
    qed
  qed
qed (auto simp: cursor_def split: if_splits)

lemma find_cursor:
  assumes t: "table_ok tab n" "dest \<noteq> 0" and c: "cursor R tab n dest it"
  obtains b it' where "on_iter (pb_field_iter_find tag) it = ret (b, it')" "cursor R tab n dest it'"
proof -
  from cursor_next [OF t(1) c t(2)] obtain k where k: "k < n \<or> k = 0 \<and> n = 0" "pos it = k" by blast
  have s: "start it = tab" "n < Suc (length tab)" using c t(1) by (auto simp: cursor_def iter_at_def table_ok_def)
  from find_loop_cursor [OF t k(1) c, of "Suc (length tab)" tag] k(2) s
  obtain b it' where i: "pb_field_iter_find tag it = (Ok b, it')" and c': "cursor R tab n dest it'"
    by (auto simp: pb_field_iter_find_def simp del: iter_find_loop.simps)
  show ?thesis by (rule that [OF _ c'], rule on_iter_eq, rule i)
qed

lemma find_extension_cursor:
  assumes t: "table_ok tab n" "dest \<noteq> 0" and k: "k < n \<or> k = 0 \<and> n = 0"
    and x: "\<And>j. j < n \<or> j = 0 \<and> n = 0 \<Longrightarrow> PB_LTYPE (f_type (tab ! j)) \<noteq> PB_LTYPE_EXTENSION"
  shows "cursor R tab n dest it \<Longrightarrow> (pos it = k \<longrightarrow> n < m) \<Longrightarrow> (pos it > k \<longrightarrow> n - pos it + k < m) \<Longrightarrow> (pos it < k \<longrightarrow> k - pos it < m) \<Longrightarrow>
    \<exists>it'. find_extension_loop m k it = (Ok False, it') \<and> cursor R tab n dest it'"
proof (induction m arbitrary: it)
  case (Suc m)
  show ?case
  proof (rule cursor_cases [OF t(1) Suc.prems(1)])
    fix j assume j: "j < n \<or> j = 0 \<and> n = 0" "fst (entry it) = Ok (tab ! j)" "pos it = j"
    have e: "entry it = (Ok (tab ! j), it)" using j(2) by (auto simp: entry_def split: if_splits)
    let ?q = "if Suc j < n then Suc j else 0"
    have q: "?q < n \<or> ?q = 0 \<and> n = 0" using j(1) by auto
    have "pb_field_iter_next it = (Ok (Suc j < n), iter_at tab dest ?q)"
      using cursor_next [OF t(1) Suc.prems(1) t(2)] j(3) by auto
    then have step: "find_extension_loop (Suc m) k it =
        (if ?q \<noteq> k then find_extension_loop m k (iter_at tab dest ?q) else (Ok False, iter_at tab dest ?q))"
      unfolding find_extension_loop.simps entry_bnd [OF e] if_not_P [OF x [OF j(1)]] by (simp add: bnd_simps(1))
    show ?thesis
    proof (cases "?q = k")
      case True
      then show ?thesis unfolding step using cursor_at [OF q] by auto
    next
      case False
      have "\<exists>it'. find_extension_loop m k (iter_at tab dest ?q) = (Ok False, it') \<and> cursor R tab n dest it'"
        using Suc.prems(2-4) j(1,3) k False by (intro Suc.IH cursor_at [OF q]) (auto split: if_splits)
      then show ?thesis unfolding step using False by simp
    qed
  qed
qed (auto simp: cursor_def split: if_splits)

lemma no_extension_field:
  assumes t: "table_ok tab n" "dest \<noteq> 0" and c: "cursor R tab n dest it"
    and x: "\<And>j. j < n \<or> j = 0 \<and> n = 0 \<Longrightarrow> PB_LTYPE (f_type (tab ! j)) \<noteq> PB_LTYPE_EXTENSION"
  obtains it' where "on_iter find_extension_field it = ret (False, it')" "cursor R tab n dest it'"
proof -
  from cursor_next [OF t(1) c t(2)] obtain k where k: "k < n \<or> k = 0 \<and> n = 0" "pos it = k" by blast
  have s: "start it = tab" "n < Suc (length tab)" using c t(1) by (auto simp: cursor_def iter_at_def table_ok_def)
  from find_extension_cursor [OF t k(1) x c, of "Suc (length tab)"] k(2) s
  obtain it' where i: "find_extension_field it = (Ok False, it')" and c': "cursor R tab n dest it'"
    by (auto simp: find_extension_field_def simp del: find_extension_loop.simps)
  show ?thesis by (rule that [OF _ c'], rule on_iter_eq, rule i)
qed

text \<open>The count of the required fields ends, whatever the iterator's place.\<close>

lemma cursor_here:
  assumes "table_ok tab n" "cursor R tab n dest it"
  obtains k where "here it = ret (tab ! k)" "k < n \<or> k = 0 \<and> n = 0"
  using cursor_cases [OF assms] here_entry by metis

lemma count_required_ends:
  assumes t: "table_ok tab n" "dest \<noteq> 0"
  shows "cursor R tab n dest it \<Longrightarrow> 0 < m \<Longrightarrow> n \<le> m + pos it \<Longrightarrow> \<exists>c. (count_required m it :: ('a, nat) cfun) = ret c"
proof (induction m arbitrary: it)
  case (Suc m)
  from cursor_next [OF t(1) Suc.prems(1) t(2)] obtain k where k: "k < n \<or> k = 0 \<and> n = 0" "pos it = k"
    "pb_field_iter_next it = (Ok (Suc k < n), iter_at tab dest (if Suc k < n then Suc k else 0))" by blast
  obtain j where j: "(here it :: ('a, pb_field) cfun) = ret (tab ! j)" by (rule cursor_here [OF t(1) Suc.prems(1)])
  have l: "0 < length tab" using t(1) by (auto simp: table_ok_def)
  have next': "(on_iter pb_field_iter_next it :: ('a, bool \<times> pb_field_iter) cfun) =
      ret (Suc k < n, iter_at tab dest (if Suc k < n then Suc k else 0))"
    by (rule on_iter_eq) (rule k(3))
  show ?case
  proof (cases "Suc k < n")
    case True
    then have "\<exists>c. (count_required m (iter_at tab dest (Suc k)) :: ('a, nat) cfun) = ret c"
      using k Suc.prems(3) by (intro Suc.IH cursor_at) auto
    then show ?thesis using True by (simp only: count_required.simps j bnd_ret next' prod.case if_True)
  next
    case False
    then show ?thesis by (simp only: count_required.simps j bnd_ret next' prod.case if_False here_at [OF l] Let_def) (intro exI, rule refl)
  qed
qed simp

context pb_nested
begin

subsection \<open>The field that is decoded\<close>

text \<open>A confined step whose results have a property.\<close>

definition confined_with :: "('a \<Rightarrow> bool) \<Rightarrow> nat \<Rightarrow> u64 set \<Rightarrow> u64 set \<Rightarrow> ('s pb_machine, 'a) cfun \<Rightarrow> bool" where
  "confined_with P N D R m \<longleftrightarrow> confined N D R m \<and> (\<forall>s a t. m s = (Ok a, t) \<longrightarrow> P a)"

lemma with_bnd: "confined N D R m \<Longrightarrow> (\<And>a. confined_with P N D R (f a)) \<Longrightarrow> confined_with P N D R (bnd m f)"
  unfolding confined_with_def by (auto intro!: confined_bnd simp: bnd_Ok_iff)

lemma with_then: "confined_with Q N D R m \<Longrightarrow> (\<And>a. Q a \<Longrightarrow> confined N D R (f a)) \<Longrightarrow> confined N D R (bnd m f)"
proof (rule confinedI)
  fix k and s t :: "'s pb_machine" and r
  assume m: "confined_with Q N D R m" and f: "\<And>a. Q a \<Longrightarrow> confined N D R (f a)"
    and s: "good k (m_stream s)" "bytes_left (m_stream s) < N" "D \<subseteq> dom (ram s)" and b: "bnd m f s = (r, t)"
  obtain q u where u: "m s = (q, u)" by fastforce
  have k: "q \<noteq> Undef \<and> stays k R s u" using m s u by (auto simp: confined_with_def dest: confinedD)
  show "r \<noteq> Undef \<and> stays k R s t"
  proof (cases q)
    case (Ok a)
    then have "f a u = (r, t)" using b u by (simp add: bnd_def)
    moreover have "Q a" using m u Ok unfolding confined_with_def by blast
    ultimately show ?thesis using confined_after [OF f conjunct2 [OF k] s(2,3)] by blast
  qed (use k u b in \<open>auto simp: bnd_def\<close>)
qed

lemma with_with: "confined_with Q N D R m \<Longrightarrow> (\<And>a. Q a \<Longrightarrow> confined_with P N D R (f a)) \<Longrightarrow> confined_with P N D R (bnd m f)"
  using with_then [of Q N D R m f] by (auto simp: confined_with_def bnd_Ok_iff)

lemma with_if: "(b \<Longrightarrow> confined_with P N D R m) \<Longrightarrow> (\<not> b \<Longrightarrow> confined_with P N D R m') \<Longrightarrow> confined_with P N D R (if b then m else m')"
  by simp

lemma with_ret: "P a \<Longrightarrow> confined_with P N D R (ret a)"
  by (simp add: confined_with_def confined_value)

lemma with_error: "confined_with P N D R (m_error msg)"
  by (simp add: confined_with_def confined_error) (simp add: on_stream_def PB_RETURN_ERROR_def)

lemma confined_release_union:
  assumes st: "static_table E D0 (Suc n) tab sz"
    and d: "dest \<noteq> 0" "unat dest + sz < 2 ^ 64" "region dest sz \<subseteq> R" "R \<subseteq> D"
    and k: "k < entries tab" "PB_HTYPE (f_type (tab ! k)) = PB_HTYPE_ONEOF"
  shows "confined_with (cursor {} tab (entries tab) dest) N D R (pb_release_union_field E n (iter_at tab dest k))"
proof -
  note t = static_tableD [OF st]
  have l: "j < entries tab \<Longrightarrow> j < length tab" for j using t(1) by (simp add: table_ok_def)
  have unmoved: "\<exists>j < entries tab. it = iter_at tab dest j" if "cursor {} tab (entries tab) dest it" for it
  proof -
    have "\<not> region q 4 \<subseteq> {}" for q using nat_in_region [of 0 4 q] by auto
    then show ?thesis using that k(1) by (auto simp: cursor_def)
  qed
  have here: "cursor {} tab (entries tab) dest (iter_at tab dest k)" using k(1) by (intro cursor_at) simp
  have in_R: "region (dest + size_at tab k) 4 \<subseteq> D"
    using static_places(2) [OF t(2) [OF k(1)] d(1,2)] k(2) d(3,4) in_messageD(1) by blast
  have last: "confined_with (cursor {} tab (entries tab) dest) N D R
      (bnd (on_iter (pb_field_iter_find new_tag) it) (\<lambda>(found, it).
          if \<not> found then m_error ''iterator error''
          else bnd (here it) (\<lambda>field. bnd (if PB_ATYPE (f_type field) = PB_ATYPE_POINTER then poke_pointer (pData it) 0 else ret ()) (\<lambda>_. ret it))))"
    if c: "cursor {} tab (entries tab) dest it" for it new_tag
  proof -
    from find_cursor [OF t(1) d(1) c] obtain b it' where it': "on_iter (pb_field_iter_find new_tag) it = (ret (b, it') :: ('s pb_machine, bool \<times> pb_field_iter) cfun)"
      "cursor {} tab (entries tab) dest it'" by metis
    from unmoved [OF it'(2)] obtain j where j: "j < entries tab" "it' = iter_at tab dest j" by blast
    have "PB_ATYPE (f_type (tab ! j)) \<noteq> PB_ATYPE_POINTER" using t(2) [OF j(1)] by (simp add: static_field_def Let_def)
    then show ?thesis
      unfolding it'(1) bnd_ret prod.case j(2) here_at [OF l [OF j(1)]] using it'(2) j(2)
      by (intro with_if with_error) (simp only: if_False bnd_ret, intro with_ret, simp)
  qed
  show ?thesis
    unfolding pb_release_union_field_def here_at [OF l [OF k(1)]] bnd_ret Let_def iter_at_simps
  proof (intro with_bnd [OF confined_peek_number [OF in_R]] with_if with_ret here)
    fix old
    from find_cursor [OF t(1) d(1) here] obtain b it where it: "on_iter (pb_field_iter_find (ucast old)) (iter_at tab dest k) = (ret (b, it) :: ('s pb_machine, bool \<times> pb_field_iter) cfun)"
      "cursor {} tab (entries tab) dest it" by metis
    from unmoved [OF it(2)] obtain j where j: "j < entries tab" "it = iter_at tab dest j" by blast
    have "confined N D R (pb_release_single_field E (Suc n) it)"
      unfolding j(2) by (rule confined_released [OF confined_release [OF _ _ _ _ d(4)] t(2) [OF j(1)] l [OF j(1)] d])
    then show "confined_with (cursor {} tab (entries tab) dest) N D R
        (bnd (on_iter (pb_field_iter_find (ucast old)) (iter_at tab dest k)) (\<lambda>(found, it).
             if \<not> found then m_error ''invalid union tag''
             else bnd (pb_release_single_field E (Suc n) it) (\<lambda>_.
                  bnd (on_iter (pb_field_iter_find (f_tag (tab ! k))) it) (\<lambda>(found, it).
                  if \<not> found then m_error ''iterator error''
                  else bnd (here it) (\<lambda>field.
                       bnd (if PB_ATYPE (f_type field) = PB_ATYPE_POINTER then poke_pointer (pData it) 0 else ret ()) (\<lambda>_.
                       ret it))))))"
      unfolding it(1) bnd_ret prod.case by (intro with_if with_error with_bnd last it(2))
  qed
qed

end

lemma cursor_mono: "cursor R tab n dest it \<Longrightarrow> R \<subseteq> R' \<Longrightarrow> cursor R' tab n dest it"
  unfolding cursor_def by (elim exE conjE disjE) (blast intro: subset_trans)+

lemma end_marker_types:
  "PB_HTYPE (f_type end_marker) = PB_HTYPE_REQUIRED" "PB_ATYPE (f_type end_marker) = PB_ATYPE_STATIC" "PB_LTYPE (f_type end_marker) = PB_LTYPE_BOOL"
  "data_offset end_marker = 0"
  by (simp_all add: end_marker_def PB_HTYPE_def PB_ATYPE_def PB_LTYPE_def)

context pb_nested
begin

text \<open>Submessages are decoded within the messages they are in.\<close>

definition nested :: "'s pb_host \<Rightarrow> u64 set \<Rightarrow> nat \<Rightarrow> u64 set \<Rightarrow> u64 set \<Rightarrow> (pb_field list \<Rightarrow> u64 \<Rightarrow> ('s pb_machine, unit) cfun) \<Rightarrow> bool" where
  "nested E D0 n D R noinit \<longleftrightarrow>
     (\<forall>N tab p sz. static_table E D0 n tab sz \<longrightarrow> p \<noteq> 0 \<longrightarrow> unat p + sz < 2 ^ 64 \<longrightarrow> region p sz \<subseteq> R \<longrightarrow> confined N D R (noinit tab p))"

lemma nestedD:
  "nested E D0 n D R noinit \<Longrightarrow> static_table E D0 n tab sz \<Longrightarrow> p \<noteq> 0 \<Longrightarrow> unat p + sz < 2 ^ 64 \<Longrightarrow> region p sz \<subseteq> R \<Longrightarrow>
   confined N D R (noinit tab p)"
  unfolding nested_def by blast

lemma confined_end_marker:
  assumes "reader E = io" "0 < length tab" "tab ! 0 = end_marker" "region dest 1 \<subseteq> R" "R \<subseteq> D"
  shows "confined N D R (decode_static_field E n sub wt (iter_at tab dest 0))"
proof -
  have "decode_static_field E n sub wt (iter_at tab dest 0) = pb_dec_bool E end_marker dest"
    unfolding decode_static_field_def here_at [OF assms(2)] bnd_ret assms(3) Let_def end_marker_types
    by (simp add: assms(3) end_marker_types PB_DECODERS_def)
  then show ?thesis using confined_bool [OF assms(1,4,5)] by (simp only:)
qed

lemma confined_decode_field:
  assumes io: "reader E = io" and st: "static_table E D0 (Suc n) tab sz"
    and d: "dest \<noteq> 0" "unat dest + sz < 2 ^ 64" "region dest sz \<subseteq> R" "R \<subseteq> D" "D0 \<subseteq> D"
    and noinit: "nested E D0 n D R noinit" and c: "cursor R tab (entries tab) dest it"
  shows "confined_with (cursor R tab (entries tab) dest) N D R (decode_field E n (pb_dec_submessage E n noinit) wt it)"
proof -
  note t = static_tableD [OF st]
  let ?C = "cursor R tab (entries tab) dest" and ?sub = "pb_dec_submessage E n noinit"
  have static: "confined N D R (decode_static_field E n ?sub wt it) \<and> (\<exists>f. fst (entry it) = Ok f \<and> PB_ATYPE (f_type f) = PB_ATYPE_STATIC)"
    if "?C it" for it
  proof (rule cursor_cases [OF t(1) that])
    fix k assume k: "k < entries tab \<or> k = 0 \<and> entries tab = 0" "fst (entry it) = Ok (tab ! k)" "pData it = dest + field_offset tab k" "k < length tab"
      "it = iter_at tab dest k \<or> PB_HTYPE (f_type (tab ! k)) = PB_HTYPE_REPEATED \<and> region (pSize it) 4 \<subseteq> R \<and>
         k < entries tab \<and> it = iter_at tab dest k\<lparr>pSize := pSize it\<rparr>"
    from k(1) show ?thesis
    proof
      assume n: "k < entries tab"
      have size: "pSize it = dest + size_at tab k \<or> PB_HTYPE (f_type (tab ! k)) = PB_HTYPE_REPEATED \<and> region (pSize it) 4 \<subseteq> R"
        using k(5) by (elim disjE) simp_all
      have "confined N D R (decode_static_field E n ?sub wt it)"
        by (rule confined_static_field [OF io t(2) [OF n] d k(2,3) size nestedD [OF noinit]])
      then show ?thesis using k(2) t(2) [OF n] by (auto simp: static_field_def Let_def)
    next
      assume n: "k = 0 \<and> entries tab = 0"
      then have e: "tab ! 0 = end_marker" "region dest 1 \<subseteq> R" "it = iter_at tab dest 0" "0 < length tab"
        using t(3) k(4,5) d(3) region_mono [of 1 sz dest] by auto
      show ?thesis using confined_end_marker [OF io e(4,1,2) d(4)] e k(2) n end_marker_types by auto
    qed
  qed
  have content: "confined_with ?C N D R (bnd (here it) (\<lambda>field.
     let a = PB_ATYPE (f_type field)
     in bnd (if a = PB_ATYPE_STATIC then decode_static_field E n ?sub wt it
             else if a = PB_ATYPE_POINTER then decode_pointer_field E n ?sub wt it
             else if a = PB_ATYPE_CALLBACK then decode_callback_field E wt it
             else m_error ''invalid field type'') (\<lambda>_. ret it)))" if C: "?C it" for it
  proof -
    from static [OF C] obtain f where f: "fst (entry it) = Ok f" "PB_ATYPE (f_type f) = PB_ATYPE_STATIC" by blast
    show ?thesis
      unfolding here_entry [OF f(1)] bnd_ret Let_def if_P [OF f(2)] by (rule with_bnd [OF conjunct1 [OF static [OF C]]], rule with_ret, rule C)
  qed
  show ?thesis
  proof (rule cursor_cases [OF t(1) c])
    fix k assume k: "k < entries tab \<or> k = 0 \<and> entries tab = 0" "fst (entry it) = Ok (tab ! k)"
      "it = iter_at tab dest k \<or> PB_HTYPE (f_type (tab ! k)) = PB_HTYPE_REPEATED \<and> region (pSize it) 4 \<subseteq> R \<and>
         k < entries tab \<and> it = iter_at tab dest k\<lparr>pSize := pSize it\<rparr>"
    show ?thesis
      unfolding decode_field_def here_entry [OF k(2)] bnd_ret
    proof (rule with_with [OF with_if content])
      assume h: "PB_HTYPE (f_type (tab ! k)) = PB_HTYPE_ONEOF"
      then have "k < entries tab" using k(1) t(3) end_marker_types(1) by auto
      moreover have "it = iter_at tab dest k" using k(3) h by (elim disjE) simp_all
      ultimately have "confined_with (cursor {} tab (entries tab) dest) N D R (pb_release_union_field E n it)"
        using confined_release_union [OF st d(1-4)] h by simp
      then show "confined_with ?C N D R (pb_release_union_field E n it)"
        unfolding confined_with_def using cursor_mono by blast
    qed (rule with_ret, rule c)
  qed
qed

subsection \<open>The loop over the stream\<close>

lemma tag_small: "drop_bit 3 (x :: u32) < - 1"
proof -
  have "unat (drop_bit 3 x) = unat x div 8" by (simp only: unat_drop_bit_eq) (simp add: drop_bit_eq_div)
  also have "\<dots> < 2 ^ 32 - 1" using unsigned_less [of x, where ?'a = nat] by simp
  finally show ?thesis by (simp add: word_less_nat_alt unsigned_minus_1_eq_mask mask_eq_exp_minus_1)
qed

lemma tag_bound: "pb_decode_tag io s = (Ok (w, tag), eof, t) \<Longrightarrow> \<exists>v x. pb_decode_varint32_eof io s = (Ok v, x, t) \<and> tag < - 1"
  using tag_small by (auto simp: pb_decode_tag_def split: prod.splits res.splits if_splits)

lemma tag_read:
  assumes s: "good k s" and e: "pb_decode_tag io s = (r, eof, t)"
  shows "r \<noteq> Undef" "good k t" "bytes_left t \<le> bytes_left s" "r = Ok (w, tag) \<Longrightarrow> bytes_left t < bytes_left s"
  using pb_contract.kept_tag [OF good_contract s e] varint32_consumes [OF s] tag_bound [of s w tag eof t] e
  by (auto simp: pb_contract.kept_def [OF good_contract])

lemma with_tag:
  assumes f: "\<And>w tag. tag < - 1 \<Longrightarrow> confined_with P N D R (f w tag)" and e: "P e"
  shows "confined_with P (Suc N) D R (\<lambda>s. if bytes_left (m_stream s) = 0 then (Ok e, s)
     else case pb_decode_tag io (m_stream s) of
            (Undef, _, t) \<Rightarrow> (Undef, s\<lparr>m_stream := t\<rparr>)
          | (Fail, eof, t) \<Rightarrow> (if eof then Ok e else Fail, s\<lparr>m_stream := t\<rparr>)
          | (Ok (w, tag), _, t) \<Rightarrow> f w tag (s\<lparr>m_stream := t\<rparr>))"
    (is "confined_with P (Suc N) D R ?m")
  unfolding confined_with_def
proof (intro conjI allI impI)
  show "confined (Suc N) D R ?m"
  proof (rule confinedI)
    fix k and s t :: "'s pb_machine" and r
    assume s: "good k (m_stream s)" "bytes_left (m_stream s) < Suc N" "D \<subseteq> dom (ram s)" and b: "?m s = (r, t)"
    show "r \<noteq> Undef \<and> stays k R s t"
    proof (cases "bytes_left (m_stream s) = 0")
      case True
      then show ?thesis using b s(1) by (auto simp: stays_refl)
    next
      case False
      obtain q eof u where u: "pb_decode_tag io (m_stream s) = (q, eof, u)" by (cases "pb_decode_tag io (m_stream s)")
      note tag = tag_read [OF s(1) u]
      let ?s = "s\<lparr>m_stream := u\<rparr>"
      have stay: "stays k R s ?s" using tag(2,3) by (simp add: stays_def)
      show ?thesis
      proof (cases q)
        case (Ok x)
        obtain w tg where x: "x = (w, tg)" by (cases x)
        have l: "bytes_left u < N" "tg < - 1" using tag(4) [of w tg] tag_bound u Ok x s(2) by auto
        have "f w tg ?s = (r, t)" using b u Ok x False by simp
        then have "r \<noteq> Undef \<and> stays k R ?s t"
          using f [OF l(2), of w] confinedD [of N D R "f w tg" k ?s r t] l(1) tag(2) s(3) by (simp add: confined_with_def)
        then show ?thesis using stays_trans [OF stay] by blast
      qed (use b u stay False tag(1) in \<open>auto split: if_splits\<close>)
    qed
  qed
next
  fix s t a assume m: "?m s = (Ok a, t)"
  obtain q eof u where u: "pb_decode_tag io (m_stream s) = (q, eof, u)" by (cases "pb_decode_tag io (m_stream s)")
  show "P a"
  proof (cases q)
    case (Ok x)
    obtain w tg where x: "x = (w, tg)" by (cases x)
    have "tg < - 1" using tag_bound u Ok x by blast
    then have "confined_with P N D R (f w tg)" by (rule f)
    moreover have "a = e \<or> f w tg (s\<lparr>m_stream := u\<rparr>) = (Ok a, t)" using m u Ok x by (auto split: if_splits)
    ultimately show ?thesis using e unfolding confined_with_def by blast
  qed (use m u e in \<open>auto split: if_splits\<close>)
qed

lemma confined_incomplete: "region p 4 \<subseteq> D \<Longrightarrow> confined N D R (fixed_count_incomplete tab p f)"
  unfolding fixed_count_incomplete_def by (cases f) (simp_all add: confined_value confined_bnd_peek)

lemma with_fixed_count:
  assumes st: "static_table E D0 (Suc n) tab sz" and R: "region frame 4 \<subseteq> R" "R \<subseteq> D" and c: "cursor R tab (entries tab) dest (iter v)"
  shows "confined_with (\<lambda>v :: pb_progress. cursor R tab (entries tab) dest (iter v)) N D R (enter_fixed_count tab frame v)"
proof -
  note t = static_tableD [OF st]
  have frame: "region frame 4 \<subseteq> D" using R by blast
  obtain k where k: "k < entries tab \<or> k = 0 \<and> entries tab = 0" "fst (entry (iter v)) = Ok (tab ! k)"
    by (rule cursor_cases [OF t(1) c])
  show ?thesis
    unfolding enter_fixed_count_def here_entry [OF k(2)] bnd_ret
  proof (rule with_if)
    assume h: "PB_HTYPE (f_type (tab ! k)) = PB_HTYPE_REPEATED \<and> pSize (iter v) = pData (iter v)"
    then have n: "entries tab \<noteq> 0" using k(1) t(3) end_marker_types(1) by auto
    have moved: "cursor R tab (entries tab) dest (iter v\<lparr>pSize := frame\<rparr>)"
      using k(2) h by (intro cursor_moved [OF t(1) c R(1) _ n]) simp
    show "confined_with (\<lambda>v :: pb_progress. cursor R tab (entries tab) dest (iter v)) N D R
      (bnd (if fixed_count_field v \<noteq> Some (pos (iter v)) then
              bnd (fixed_count_incomplete tab frame (fixed_count_field v)) (\<lambda>incomplete.
              if incomplete then m_error ''wrong size for fixed count field''
              else bnd (poke frame (le_bytes 4 0)) (\<lambda>_. ret (v\<lparr>fixed_count_field := Some (pos (iter v))\<rparr>)))
            else ret v) (\<lambda>v. ret (v\<lparr>iter := (iter v)\<lparr>pSize := frame\<rparr>\<rparr>)))"
    proof (rule with_with [where Q = "\<lambda>u. iter u = iter v"])
      show "confined_with (\<lambda>u. iter u = iter v) N D R (if fixed_count_field v \<noteq> Some (pos (iter v)) then
              bnd (fixed_count_incomplete tab frame (fixed_count_field v)) (\<lambda>incomplete.
              if incomplete then m_error ''wrong size for fixed count field''
              else bnd (poke frame (le_bytes 4 0)) (\<lambda>_. ret (v\<lparr>fixed_count_field := Some (pos (iter v))\<rparr>)))
            else ret v)"
        using frame by (intro with_if with_bnd with_error with_ret confined_incomplete confined_poke R(2)) (simp_all add: R(1))
      show "confined_with (\<lambda>v :: pb_progress. cursor R tab (entries tab) dest (iter v)) N D R (ret (u\<lparr>iter := (iter u)\<lparr>pSize := frame\<rparr>\<rparr>))"
        if "iter u = iter v" for u using moved that by (intro with_ret) simp
    qed
  qed (rule with_ret, rule c)
qed

lemma with_required:
  assumes "table_ok tab n" "cursor R tab n dest (iter v)"
  shows "confined_with (\<lambda>v :: pb_progress. cursor R tab n dest (iter v)) N D R' (note_required v)"
proof -
  obtain k where k: "fst (entry (iter v)) = Ok (tab ! k)" by (rule cursor_cases [OF assms])
  show ?thesis
    unfolding note_required_def here_entry [OF k] bnd_ret Let_def by (intro with_if with_ret) (simp_all add: assms(2))
qed

lemma with_extensions:
  assumes st: "static_table E D0 (Suc n) tab sz" and d: "dest \<noteq> 0" and c: "cursor R tab (entries tab) dest (iter v)" and small: "tag < - 1"
  shows "confined_with (\<lambda>(handled, v :: pb_progress). \<not> handled \<and> cursor R tab (entries tab) dest (iter v)) N D R' (try_extensions E j sub tag wt v)"
proof -
  note t = static_tableD [OF st]
  have x: "PB_LTYPE (f_type (tab ! j)) \<noteq> PB_LTYPE_EXTENSION" if "j < entries tab \<or> j = 0 \<and> entries tab = 0" for j
    using that t(2) [of j] t(3) end_marker_types by (auto simp: static_field_def Let_def split: if_splits)
  from no_extension_field [OF t(1) d c x] obtain it where
    it: "on_iter find_extension_field (iter v) = (ret (False, it) :: ('s pb_machine, bool \<times> pb_field_iter) cfun)" "cursor R tab (entries tab) dest it"
    by metis
  obtain k where k: "fst (entry it) = Ok (tab ! k)" by (rule cursor_cases [OF t(1) it(2)])
  have s: "\<not> - 1 \<le> tag" using small by (simp add: not_le)
  show ?thesis
    unfolding try_extensions_def it(1) bnd_ret prod.case here_entry [OF k] Let_def
    by (intro with_if with_ret) (simp_all add: s with_ret c it(2))
qed

lemma with_mono_fuel: "confined_with P N D R m \<Longrightarrow> confined N D R m"
  by (simp add: confined_with_def)

lemma confined_decode_loop:
  assumes io: "reader E = io" and st: "static_table E D0 (Suc n) tab sz"
    and d: "dest \<noteq> 0" "unat dest + sz < 2 ^ 64" "region dest sz \<subseteq> R" "R \<subseteq> D" "D0 \<subseteq> D"
    and noinit: "nested E D0 n D R noinit" and frame: "region frame 4 \<subseteq> R"
  shows "cursor R tab (entries tab) dest (iter v) \<Longrightarrow>
    confined_with (\<lambda>v :: pb_progress. cursor R tab (entries tab) dest (iter v)) N D R (decode_loop E n (pb_dec_submessage E n noinit) tab frame N v)"
proof (induction N arbitrary: v)
  case 0
  then show ?case by (simp add: confined_with_def confined_def undef_def)
next
  case (Suc N)
  note t = static_tableD [OF st]
  let ?P = "\<lambda>v :: pb_progress. cursor R tab (entries tab) dest (iter v)" and ?sub = "pb_dec_submessage E n noinit"
  show ?case
    unfolding decode_loop.simps io
  proof (rule with_tag)
    fix w tag assume small: "tag < (- 1 :: u32)"
    obtain found it where f: "on_iter (pb_field_iter_find tag) (iter v) = (ret (found, it) :: ('s pb_machine, bool \<times> pb_field_iter) cfun)"
      "cursor R tab (entries tab) dest it"
      using find_cursor [OF t(1) d(1) Suc.prems, of tag] by metis
    have c: "?P (v\<lparr>iter := it\<rparr>)" using f(2) by simp
    show "confined_with ?P N D R (bnd (on_iter (pb_field_iter_find tag) (iter v)) (\<lambda>(found, it).
              let v = v\<lparr>iter := it\<rparr>
              in if \<not> found then
                   bnd (try_extensions E n ?sub tag w v) (\<lambda>(handled, v).
                   bnd (if handled then ret () else on_stream (pb_skip_field io w)) (\<lambda>_.
                   decode_loop E n ?sub tab frame N v))
                 else
                   bnd (enter_fixed_count tab frame v) (\<lambda>v.
                   bnd (note_required v) (\<lambda>v.
                   bnd (decode_field E n ?sub w (iter v)) (\<lambda>it.
                   decode_loop E n ?sub tab frame N (v\<lparr>iter := it\<rparr>))))))"
      unfolding f(1) bnd_ret prod.case Let_def
    proof (rule with_if)
      show "confined_with ?P N D R (bnd (try_extensions E n ?sub tag w (v\<lparr>iter := it\<rparr>)) (\<lambda>(handled, v).
                   bnd (if handled then ret () else on_stream (pb_skip_field io w)) (\<lambda>_.
                   decode_loop E n ?sub tab frame N v)))"
      proof (rule with_with [OF with_extensions [OF st d(1) c small]])
        fix a assume "case a of (handled, v) \<Rightarrow> \<not> handled \<and> ?P v"
        then obtain v' where a: "a = (False, v')" "?P v'" by (cases a) auto
        show "confined_with ?P N D R (case a of (handled, v) \<Rightarrow>
                   bnd (if handled then ret () else on_stream (pb_skip_field io w)) (\<lambda>_.
                   decode_loop E n ?sub tab frame N v))"
          unfolding a(1) prod.case if_False by (intro with_bnd confined_stream steady_ops Suc.IH a(2))
      qed
      show "confined_with ?P N D R (bnd (enter_fixed_count tab frame (v\<lparr>iter := it\<rparr>)) (\<lambda>v.
                   bnd (note_required v) (\<lambda>v.
                   bnd (decode_field E n ?sub w (iter v)) (\<lambda>it.
                   decode_loop E n ?sub tab frame N (v\<lparr>iter := it\<rparr>)))))"
      proof (rule with_with [OF with_fixed_count [OF st frame d(4) c]])
        fix u assume u: "?P u"
        show "confined_with ?P N D R (bnd (note_required u) (\<lambda>v. bnd (decode_field E n ?sub w (iter v)) (\<lambda>it.
                   decode_loop E n ?sub tab frame N (v\<lparr>iter := it\<rparr>))))"
        proof (rule with_with [OF with_required [OF t(1) u]])
          fix u assume u: "?P u"
          show "confined_with ?P N D R (bnd (decode_field E n ?sub w (iter u)) (\<lambda>it. decode_loop E n ?sub tab frame N (u\<lparr>iter := it\<rparr>)))"
            by (rule with_with [OF confined_decode_field [OF io st d noinit u]], rule Suc.IH) simp
        qed
      qed
    qed
  qed (rule Suc.prems)
qed

end

lemma frames_Suc: "frames E (Suc n) = frames E n \<union> region (h_frame E n) 4"
  by (auto simp: frames_def less_Suc_eq)

context pb_nested
begin

subsection \<open>Messages\<close>

lemma with_fuel:
  assumes m: "\<And>N. confined_with P N D R (m N)"
  shows "confined_with P N D R (\<lambda>s. m (Suc (bytes_left (m_stream s))) s)"
  unfolding confined_with_def
proof (intro conjI allI impI)
  show "confined N D R (\<lambda>s. m (Suc (bytes_left (m_stream s))) s)"
  proof (rule confinedI)
    fix k and s t :: "'s pb_machine" and r
    assume s: "good k (m_stream s)" "D \<subseteq> dom (ram s)" "m (Suc (bytes_left (m_stream s))) s = (r, t)"
    show "r \<noteq> Undef \<and> stays k R s t" by (rule confinedD [OF with_mono_fuel [OF m] s(1) lessI s(2,3)])
  qed
qed (use m in \<open>auto simp: confined_with_def\<close>)

lemma confined_message:
  assumes io: "reader E = io" and st: "static_table E D0 (Suc n) tab sz"
    and d: "dest \<noteq> 0" "unat dest + sz < 2 ^ 64" "region dest sz \<subseteq> R" "R \<subseteq> D" "D0 \<subseteq> D"
    and noinit: "nested E D0 n D R noinit" and frame: "region (h_frame E n) 4 \<subseteq> R"
  shows "confined N D R (decode_message E n (pb_dec_submessage E n noinit) tab dest)"
proof -
  note t = static_tableD [OF st]
  let ?P = "\<lambda>v :: pb_progress. cursor R tab (entries tab) dest (iter v)" and ?sub = "pb_dec_submessage E n noinit"
  let ?v = "\<lparr>fields_seen = [0, 0], extension_range_start = 0, fixed_count_field = None, iter = iter_at tab dest 0\<rparr>"
  have frame': "region (h_frame E n) 4 \<subseteq> D" using frame d(4) by blast
  have "0 < entries tab \<or> (0 :: nat) = 0 \<and> entries tab = 0" by auto
  then have start: "?P ?v" using cursor_at by simp
  have loop: "confined_with ?P N D R (\<lambda>s. decode_loop E n ?sub tab (h_frame E n) (Suc (bytes_left (m_stream s))) ?v s)"
    by (rule with_fuel) (rule confined_decode_loop [OF io st d noinit frame start])
  show ?thesis
    unfolding decode_message_def Let_def on_iter_begin [OF t(1) d(1)] bnd_ret prod.case
  proof (intro confined_bnd_poke [OF _ d(4)] with_then [OF loop])
    fix v assume v: "?P v"
    obtain c where c: "(count_required (length tab) (iter v) :: ('s pb_machine, nat) cfun) = ret c"
    proof -
      have "0 < length tab" "entries tab \<le> length tab + pos (iter v)" using t(1) by (auto simp: table_ok_def)
      from count_required_ends [OF t(1) d(1) v this] that show ?thesis by blast
    qed
    show "confined N D R (bnd (fixed_count_incomplete tab (h_frame E n) (fixed_count_field v)) (\<lambda>incomplete.
         if incomplete then m_error ''wrong size for fixed count field''
         else bnd (count_required (length tab) (iter v)) (\<lambda>req_field_count.
              if all_required_seen (fields_seen v) req_field_count then ret ()
              else m_error ''missing required field'')))"
      unfolding c bnd_ret by (intro confined_bnd confined_if confined_error confined_value confined_incomplete frame')
  qed (simp add: frame)
qed

lemma confined_noinit:
  assumes io: "reader E = io" and R: "R \<subseteq> D" "D0 \<subseteq> D"
  shows "static_table E D0 n tab sz \<Longrightarrow> dest \<noteq> 0 \<Longrightarrow> unat dest + sz < 2 ^ 64 \<Longrightarrow> region dest sz \<subseteq> R \<Longrightarrow> frames E n \<subseteq> R \<Longrightarrow>
    confined N D R (pb_decode_noinit E n tab dest)"
proof (induction n arbitrary: tab sz dest N)
  case (Suc n)
  have f: "frames E n \<subseteq> R" "region (h_frame E n) 4 \<subseteq> R" using Suc.prems(5) by (simp_all add: frames_Suc)
  have "nested E D0 n D R (pb_decode_noinit E n)" unfolding nested_def using Suc.IH f(1) by blast
  then show ?case unfolding pb_decode_noinit.simps by (intro confined_message [OF io Suc.prems(1-4) R _ f(2)])
qed simp

lemma confined_decode:
  assumes io: "reader E = io" and R: "R \<subseteq> D" "D0 \<subseteq> D"
    and t: "static_table E D0 n tab sz" "dest \<noteq> 0" "unat dest + sz < 2 ^ 64" "region dest sz \<subseteq> R" "frames E n \<subseteq> R"
  shows "confined N D R (pb_decode E n tab dest)" "confined N D R (pb_decode_delimited E n tab dest)"
proof -
  have d: "confined N D R (pb_decode E n tab dest)" for N
    unfolding pb_decode_def by (rule confined_decode_with [OF t(1-4) R]) (rule confined_noinit [OF io R t])
  show "confined N D R (pb_decode E n tab dest)" by (rule d)
  show "confined N D R (pb_decode_delimited E n tab dest)"
    unfolding pb_decode_delimited_def in_delimited_def io
    by (rule confined_substream [where c = "\<lambda>_. False", unfolded if_False]) (rule d, erule confined_result)
qed

text \<open>So decoding a static message is memory safe, with any stream that keeps its contract, and any contents of the
  message before.\<close>

theorem static_message_safe:
  assumes "reader E = io" "static_table E D0 n tab sz" "dest \<noteq> 0" "unat dest + sz < 2 ^ 64"
    and "region dest sz \<union> frames E n \<union> D0 \<subseteq> dom (ram s)" "good k (m_stream s)"
  shows "case pb_decode E n tab dest s of (r, t) \<Rightarrow> r \<noteq> Undef \<and> stays k (region dest sz \<union> frames E n) s t"
proof -
  have "confined (Suc (bytes_left (m_stream s))) (region dest sz \<union> frames E n \<union> D0) (region dest sz \<union> frames E n) (pb_decode E n tab dest)"
    by (rule confined_decode(1) [OF assms(1) _ _ assms(2-4)]) auto
  then show ?thesis
    using confinedD [of _ _ _ "pb_decode E n tab dest" k s] assms(5,6) by (cases "pb_decode E n tab dest s") auto
qed

end

end
