(* ===== verification/Pb_Faults.thy ===== *)
theory Pb_Faults
  imports Pb_Static_Message
begin

text \<open>
  Two messages that nanopb's decoder does not stay within: an array of submessages with pointers, whose new entry
  is released before it was ever prepared, and an array of fixed size with less than four bytes.
\<close>

subsection \<open>Messages of one field\<close>

definition field_entry :: "u32 \<Rightarrow> u8 \<Rightarrow> u32 \<Rightarrow> 32 word \<Rightarrow> u32 \<Rightarrow> u32 \<Rightarrow> u64 \<Rightarrow> pb_field" where
  "field_entry tag type offs soffs sz n ptr =
     \<lparr>f_tag = tag, f_type = type, data_offset = offs, size_offset = soffs, data_size = sz, array_size = n, f_ptr = ptr\<rparr>"

text \<open>A string behind a pointer, and an array with one such entry behind its count; the table of the entry is at 4096.\<close>

definition name_table :: "pb_field list" where
  "name_table = [field_entry 1 0x97 0 0 0 0 0, field_entry 0 0 0 0 0 0 0]"

definition names_table :: "pb_field list" where
  "names_table = [field_entry 1 0x28 8 (- 8) 8 1 4096, field_entry 0 0 0 0 0 0 0]"

lemma for_one_field:
  assumes "table_ok tab 1" "p \<noteq> 0"
  shows "for_fields tab p body = bnd (body (iter_at tab p 0)) (\<lambda>_. ret ())"
proof -
  have n: "on_iter (pb_field_iter_begin tab p) no_iter = (ret (True, iter_at tab p 0) :: ('a, bool \<times> pb_field_iter) cfun)"
    "on_iter pb_field_iter_next (iter_at tab p 0) = (ret (False, iter_at tab p 0) :: ('a, bool \<times> pb_field_iter) cfun)"
    using on_iter_begin [OF assms] on_iter_next [OF assms(1) _ assms(2), of 0] by simp_all
  obtain m where m: "length tab = Suc m" using assms(1) by (cases "length tab") (auto simp: table_ok_def)
  show ?thesis unfolding for_fields_def n m iter_loop.simps bnd_ret prod.case if_True if_False ..
qed

lemma name_tables:
  "table_ok names_table 1" "table_ok name_table 1" "length names_table = 2" "length name_table = 2"
  "names_table ! 0 = field_entry 1 0x28 8 (- 8) 8 1 4096" "name_table ! 0 = field_entry 1 0x97 0 0 0 0 0"
  "field_offset names_table 0 = 8" "size_at names_table 0 = 0" "field_offset name_table 0 = 0"
  by (simp_all add: names_table_def name_table_def field_entry_def table_ok_def)

lemma name_types:
  "PB_HTYPE 0x28 = PB_HTYPE_REPEATED" "PB_ATYPE 0x28 = PB_ATYPE_STATIC" "PB_LTYPE 0x28 = PB_LTYPE_SUBMESSAGE"
  "PB_HTYPE 0x97 = PB_HTYPE_OPTIONAL" "PB_ATYPE 0x97 = PB_ATYPE_POINTER" "PB_LTYPE 0x97 = PB_LTYPE_STRING"
  by (simp_all add: PB_HTYPE_def PB_ATYPE_def PB_LTYPE_def)

lemma entry_fields [simp]: "f_tag (field_entry a b c d e f g) = a" "f_type (field_entry a b c d e f g) = b" "data_size (field_entry a b c d e f g) = e"
  "data_offset (field_entry a b c d e f g) = c" "size_offset (field_entry a b c d e f g) = d" "array_size (field_entry a b c d e f g) = f" "f_ptr (field_entry a b c d e f g) = g"
  by (simp_all add: field_entry_def)

lemma here_first: "table_ok tab 1 \<Longrightarrow> here (iter_at tab p 0) = ret (tab ! 0)"
  by (rule here_at) (auto simp: table_ok_def)

lemma first_tag: "pb_decode_tag io (pb_istream_from_buffer [0x0A] 1) = (Ok (2, 1), False, pb_istream_from_buffer [] 0)"
  by (simp add: pb_decode_tag_def pb_decode_varint32_eof_def pb_readbyte_def pb_istream_from_buffer_def stream_callback_def buf_read_def size_sub_def)

lemma names_defaults:
  assumes "p \<noteq> 0" "region p 4 \<subseteq> dom (ram s)"
  shows "pb_message_set_to_defaults E 2 names_table p s = (Ok (), s\<lparr>ram := write_bytes (ram s) p (le_bytes 4 0)\<rparr>)"
proof -
  have "pb_field_set_to_default E (Suc 1) (iter_at names_table p 0) = bnd (poke p (le_bytes 4 0)) (\<lambda>_. ret ())"
    unfolding pb_field_set_to_default.simps(2) here_first [OF name_tables(1)] bnd_ret Let_def
    by (simp only: name_tables entry_fields name_types iter_at_simps bnd_bnd_ret) (simp add: bnd_bnd_ret)
  then show ?thesis
    unfolding pb_message_set_to_defaults_def for_one_field [OF name_tables(1) assms(1)]
    using poke_Ok [of p "le_bytes 4 0" s] assms(2) by (simp add: numeral_2_eq_2 bnd_def)
qed

subsection \<open>An entry that is cut off\<close>

lemma names_find: "on_iter (pb_field_iter_find 1) (iter_at names_table p 0) = ret (True, iter_at names_table p 0)"
proof (rule on_iter_eq)
  have "0 < length names_table" by (simp add: name_tables)
  then show "pb_field_iter_find 1 (iter_at names_table p 0) = (Ok True, iter_at names_table p 0)"
    unfolding pb_field_iter_find_def iter_find_loop.simps by (subst entry_at) (simp_all add: name_tables name_types)
qed

lemma names_field:
  assumes s: "m_stream s = pb_istream_from_buffer [] 0" "region p 4 \<subseteq> dom (ram s)" "number_at (ram s) p 4 = Some 0"
  shows "\<exists>t. decode_field E 1 (pb_dec_submessage E 1 noinit) 2 (iter_at names_table p 0) s = (Fail, t) \<and>
    ram t = write_bytes (ram s) p (le_bytes 4 1) \<and> blocks t = blocks s"
proof -
  let ?it = "iter_at names_table p 0" and ?sub = "pb_dec_submessage E 1 noinit" and ?f = "names_table ! 0"
  have static: "decode_static_field E 1 ?sub 2 ?it = bnd (peek_number p 4) (\<lambda>size. bnd (poke p (le_bytes 4 (size + 1))) (\<lambda>_.
      if size \<ge> ucast (array_size ?f) then m_error ''array overflow'' else ?sub ?f (item_at ?f (p + 8) size)))"
    unfolding decode_static_field_def here_first [OF name_tables(1)] bnd_ret Let_def
    by (simp add: name_tables name_types PB_DECODERS_def cong: if_cong)
  have "decode_field E 1 ?sub 2 ?it = bnd (decode_static_field E 1 ?sub 2 ?it) (\<lambda>_. ret ?it)"
    unfolding decode_field_def here_first [OF name_tables(1)] bnd_ret Let_def by (simp add: name_tables name_types here_first [OF name_tables(1)] cong: if_cong)
  moreover have "fst (pb_make_string_substream (reader E) (pb_istream_from_buffer [] 0)) = Fail"
    by (simp add: pb_make_string_substream_def pb_decode_varint32_def pb_decode_varint32_eof_def pb_readbyte_def pb_istream_from_buffer_def
      PB_RETURN_ERROR_def bnd_def)
  then obtain u where u: "pb_make_string_substream (reader E) (pb_istream_from_buffer [] 0) = (Fail, u)" by (metis prod.collapse)
  have "?sub ?f q (s\<lparr>ram := m\<rparr>) = (Fail, s\<lparr>ram := m, m_stream := u\<rparr>)" for q m
    using u s(1) by (simp add: pb_dec_submessage_def bnd_def on_stream_def)
  ultimately show ?thesis
    unfolding static using peek_number_eq [OF s(3)] poke_Ok [of p "le_bytes 4 1" s] s(2) by (simp add: bnd_def name_tables)
qed

lemma names_noinit:
  assumes s: "m_stream s = pb_istream_from_buffer [0x0A] 1" "region p 4 \<subseteq> dom (ram s)" "number_at (ram s) p 4 = Some 0" "p \<noteq> 0"
    and frame: "region (h_frame E 1) 4 \<subseteq> dom (ram s)" "region p 4 \<inter> region (h_frame E 1) 4 = {}"
  shows "\<exists>t. pb_decode_noinit E 2 names_table p s = (Fail, t) \<and>
    ram t = write_bytes (write_bytes (ram s) (h_frame E 1) (le_bytes 4 0)) p (le_bytes 4 1) \<and> blocks t = blocks s"
proof -
  let ?s = "s\<lparr>ram := write_bytes (ram s) (h_frame E 1) (le_bytes 4 0)\<rparr>" and ?it = "iter_at names_table p 0"
  let ?t = "?s\<lparr>m_stream := pb_istream_from_buffer [] 0\<rparr>" and ?sub = "pb_dec_submessage E 1 (pb_decode_noinit E 1)"
  let ?v = "\<lparr>fields_seen = [0, 0], extension_range_start = 0, fixed_count_field = None, iter = ?it\<rparr>"
  have p: "p + 8 \<noteq> p" by simp
  have e: "enter_fixed_count names_table f ?v = ret ?v" for f
    unfolding enter_fixed_count_def by (simp add: here_first [OF name_tables(1)] name_tables name_types del: ret_simp)
  have q: "note_required ?v = ret ?v"
    unfolding note_required_def by (simp add: here_first [OF name_tables(1)] name_tables name_types del: ret_simp)
  obtain t where t: "decode_field E 1 ?sub 2 ?it ?t = (Fail, t)" "ram t = write_bytes (ram ?s) p (le_bytes 4 1)" "blocks t = blocks s"
    using names_field [of ?t p E "pb_decode_noinit E 1"] s frame number_beside [of p 4 "h_frame E 1" "le_bytes 4 0" "ram s"] by (auto simp: dom_write)
  have v: "iter ?v = ?it" "?v\<lparr>iter := ?it\<rparr> = ?v" by simp_all
  have "decode_loop E 1 ?sub names_table f (Suc 1) ?v ?s =
      bnd (enter_fixed_count names_table f ?v) (\<lambda>v. bnd (note_required v) (\<lambda>v. bnd (decode_field E 1 ?sub 2 (iter v)) (\<lambda>it.
        decode_loop E 1 ?sub names_table f 1 (v\<lparr>iter := it\<rparr>)))) ?t" for f
    using s(1) first_tag [of "reader E"] by (subst decode_loop.simps(2))
      (simp add: names_find pb_istream_from_buffer_def del: decode_loop.simps One_nat_def)
  then have loop: "decode_loop E 1 ?sub names_table f (Suc 1) ?v ?s = (Fail, t)" for f
    unfolding e bnd_ret q v using t(1) by (simp add: bnd_def)
  have first: "on_iter (pb_field_iter_begin names_table p) no_iter = (ret (True, ?it) :: ('a pb_machine, bool \<times> pb_field_iter) cfun)"
    using on_iter_begin [OF name_tables(1) s(4)] by simp
  have "pb_decode_noinit E (Suc 1) names_table p s = (Fail, t)"
    unfolding pb_decode_noinit.simps decode_message_def Let_def first bnd_ret prod.case
    using poke_Ok [of "h_frame E 1" "le_bytes 4 0" s] frame(1) loop s(1) by (simp add: bnd_def pb_istream_from_buffer_def del: decode_loop.simps One_nat_def)
  then show ?thesis using t(2,3) by (simp add: numeral_2_eq_2)
qed

lemma bnd_Undef: "fst (m s) = Undef \<Longrightarrow> fst (bnd m f s) = Undef"
  by (cases "m s") (simp add: bnd_def)

lemma small_counts: "number_at (write_bytes mem p (le_bytes 4 0)) p 4 = Some 0" "number_at (write_bytes mem p (le_bytes 4 1)) p 4 = Some 1"
proof -
  have "le_value (le_bytes 4 0) = 0" "le_value (le_bytes 4 1) = 1" using le_value_bytes [of 4 0] le_value_bytes [of 4 1] by (simp_all add: drop_bit_word_beyond)
  then show "number_at (write_bytes mem p (le_bytes 4 0)) p 4 = Some 0" "number_at (write_bytes mem p (le_bytes 4 1)) p 4 = Some 1"
    using read_written [of "le_bytes 4 0" mem p] read_written [of "le_bytes 4 1" mem p] by (simp_all add: number_at_def)
qed

lemma release_name:
  assumes "number_at (ram t) p 8 = Some q" "q \<noteq> 0" "blocks t q = None" "p \<noteq> 0"
  shows "fst (for_fields name_table p (pb_release_single_field E 1) t) = Undef"
proof -
  have "pb_release_single_field E (Suc 0) (iter_at name_table p 0) =
      bnd (peek_pointer p) (\<lambda>q. bnd (heap_free q) (\<lambda>_. poke_pointer p 0))"
    unfolding pb_release_single_field.simps(2) here_first [OF name_tables(2)] bnd_ret
    by (simp add: name_tables name_types release_content_def release_pointer_def Let_def del: ret_simp)
  then show ?thesis
    unfolding for_one_field [OF name_tables(2) assms(4)] using peek_number_eq [OF assms(1)] assms(2,3)
    by (simp add: bnd_def heap_free_def)
qed

lemma release_names:
  assumes "h_tables E 4096 = Some name_table" "number_at (ram t) p 4 = Some 1" "number_at (ram t) (p + 8) 8 = Some q" "q \<noteq> 0" "blocks t q = None"
    and "p \<noteq> 0" "p + 8 \<noteq> 0"
  shows "fst (pb_release E 2 names_table p t) = Undef"
proof -
  let ?it = "iter_at names_table p 0" and ?release = "\<lambda>tab p. if p = 0 then ret () else for_fields tab p (pb_release_single_field E 1)"
  have "release_content E ?release (pb_release_single_field E 1) (names_table ! 0) ?it = bnd (peek_number p 4) (\<lambda>count. let count = (if count > 1 then 1 else count)
      in if p + 8 \<noteq> 0 \<and> count > 0 then release_items (?release name_table) 8 (unat count) (p + 8) else ret ())"
    unfolding release_content_def Let_def
    by (simp only: name_tables entry_fields name_types iter_at_simps the_table_Some [OF assms(1)] bnd_ret bnd_bnd_ret) (simp add: bnd_bnd_ret cong: if_cong)
  then have "fst (release_content E ?release (pb_release_single_field E 1) (names_table ! 0) ?it t) = fst (release_items (?release name_table) 8 (unat (1 :: u64)) (p + 8) t)"
    using peek_number_eq [OF assms(2)] assms(7) by (simp add: bnd_def)
  also have "release_items (?release name_table) 8 (unat (1 :: u64)) (p + 8) = bnd (for_fields name_table (p + 8) (pb_release_single_field E 1)) (\<lambda>_. ret ())"
    using assms(7) by simp
  also have "fst (bnd (for_fields name_table (p + 8) (pb_release_single_field E 1)) (\<lambda>_. ret ()) t) = Undef"
    by (rule bnd_Undef) (rule release_name [OF assms(3-5,7)])
  finally have "fst (release_content E ?release (pb_release_single_field E 1) (names_table ! 0) ?it t) = Undef" .
  then have "fst (pb_release_single_field E (Suc 1) ?it t) = Undef"
    unfolding pb_release_single_field.simps(2) here_first [OF name_tables(1)] bnd_ret
    by (simp add: name_tables name_types bnd_Undef del: One_nat_def pb_release_single_field.simps)
  then show ?thesis
    unfolding pb_release_def if_not_P [OF assms(6)] for_one_field [OF name_tables(1) assms(6)]
    by (simp add: bnd_Undef numeral_2_eq_2 del: pb_release_single_field.simps)
qed

lemma cut_off_entry:
  assumes "h_tables E 4096 = Some name_table" "m_stream s = pb_istream_from_buffer [0x0A] 1" "p \<noteq> 0" "p + 8 \<noteq> 0"
    and "region p 16 \<union> region (h_frame E 1) 4 \<subseteq> dom (ram s)" "region p 16 \<inter> region (h_frame E 1) 4 = {}"
    and "number_at (ram s) (p + 8) 8 = Some q" "q \<noteq> 0" "blocks s q = None"
  shows "fst (pb_decode E 2 names_table p s) = Undef"
proof -
  have r: "region p 4 \<subseteq> region p 16" "region (p + 8) 8 \<subseteq> region p 16" using region_mono [of 4 16 p] region_inside [of 8 8 16 p] by simp_all
  have apart: "region (p + 8) 8 \<inter> region p 4 = {}"
  proof -
    have False if "unat (a - (p + 8)) < 8" "unat (a - p) < 4" for a
    proof -
      have "a - p = (a - (p + 8)) + 8" by simp
      then have "unat (a - p) = unat (a - (p + 8)) + 8" using that(1) by (simp only: unat_word_ariths) simp
      then show False using that(2) by simp
    qed
    then show ?thesis by (auto simp: in_region)
  qed
  let ?s = "s\<lparr>ram := write_bytes (ram s) p (le_bytes 4 0)\<rparr>"
  have d: "region p 4 \<subseteq> dom (ram s)" using assms(5) r(1) by blast
  have e: "region p 4 \<inter> region (h_frame E 1) 4 = {}" using assms(6) r(1) by blast
  have "region p 4 \<subseteq> dom (ram ?s)" "region (h_frame E 1) 4 \<subseteq> dom (ram ?s)" using assms(5) by (auto simp: dom_write)
  from names_noinit [of ?s p, OF _ this(1) _ assms(3) this(2) e] obtain t where t: "pb_decode_noinit E 2 names_table p ?s = (Fail, t)"
    "ram t = write_bytes (write_bytes (ram ?s) (h_frame E 1) (le_bytes 4 0)) p (le_bytes 4 1)" "blocks t = blocks s"
    using assms(2) small_counts(1) by auto
  have apart': "region (p + 8) 8 \<inter> region (h_frame E 1) 4 = {}" using assms(6) r(2) by blast
  have "number_at (ram t) (p + 8) 8 = Some q"
    using apart apart' by (simp add: t(2) number_beside assms(7))
  moreover have "number_at (ram t) p 4 = Some 1" unfolding t(2) by (rule small_counts)
  ultimately have "fst (pb_release E 2 names_table p t) = Undef"
    using assms t(3) by (intro release_names) simp_all
  then show ?thesis
    unfolding pb_decode_def decode_with_def using names_defaults [OF assms(3) d, of E] t(1)
      bnd_Undef [where m = "pb_release E 2 names_table p" and s = t]
    by (simp add: bnd_def [of "pb_message_set_to_defaults E 2 names_table p"])
qed

subsection \<open>An array of two bytes\<close>

text \<open>Two booleans. An array of fixed size has no count: the address of its count is that of its entries.\<close>

definition flags_table :: "pb_field list" where
  "flags_table = [field_entry 1 0x20 0 0 1 2 0, field_entry 0 0 0 0 0 0 0]"

lemma small_array:
  assumes "p \<noteq> 0" "region p 4 \<subseteq> dom (ram s)"
  shows "\<exists>t. pb_message_set_to_defaults E 1 flags_table p s = (Ok (), t) \<and> ram t (p + 2) = Some 0 \<and> ram t (p + 3) = Some 0"
proof -
  have t: "table_ok flags_table 1" "flags_table ! 0 = field_entry 1 0x20 0 0 1 2 0"
    by (simp_all add: flags_table_def table_ok_def field_entry_def)
  have "pb_field_set_to_default E (Suc 0) (iter_at flags_table p 0) = bnd (poke p (le_bytes 4 0)) (\<lambda>_. ret ())"
    unfolding pb_field_set_to_default.simps(2) here_first [OF t(1)] bnd_ret Let_def
    by (simp add: t PB_HTYPE_def PB_ATYPE_def PB_LTYPE_def bnd_bnd_ret)
  then have "pb_message_set_to_defaults E 1 flags_table p s = (Ok (), s\<lparr>ram := write_bytes (ram s) p (le_bytes 4 0)\<rparr>)"
    unfolding pb_message_set_to_defaults_def for_one_field [OF t(1) assms(1)]
    using poke_Ok [of p "le_bytes 4 0" s] assms(2) by (simp add: bnd_def)
  moreover have zeros: "le_bytes 4 0 = [0, 0, 0, 0]" by (simp add: numeral_eq_Suc)
  have "write_bytes (ram s) p (le_bytes 4 0) (p + 2) = Some 0" "write_bytes (ram s) p (le_bytes 4 0) (p + 3) = Some 0"
    using write_inside [of 2 "[0, 0, 0, 0]" "ram s" p] write_inside [of 3 "[0, 0, 0, 0]" "ram s" p] by (simp_all add: zeros)
  ultimately show ?thesis by simp
qed

end
