(* ===== verification/Stack.thy ===== *)
theory Stack
  imports Internal "HOL-Library.Multiset"
begin

text \<open>
  BoringSSL's \<^verbatim>\<open>STACK_OF\<close>, \<^verbatim>\<open>crypto/stack/stack.c\<close>: a growing array of pointers, with a flag that says that it is
  sorted by the comparison function that it carries. What a stack says is the list of its elements. Sorting
  and searching are in \<open>Stack_Sort\<close>.
\<close>

subsection \<open>The state\<close>

text \<open>\<^verbatim>\<open>struct stack_st\<close>. The array has \<open>num_alloc\<close> pointers; functions of the application are known by their
  addresses, and NULL is 0. \<open>sk_requests\<close> counts the requests to the allocator.\<close>

record stack =
  sk_num :: nat
  sk_data :: "u64 list"
  sk_sorted :: bool
  num_alloc :: nat
  sk_comp :: u64
  sk_requests :: nat

abbreviation (input) kMinSize :: nat where "kMinSize \<equiv> 4"
abbreviation (input) max_int :: nat where "max_int \<equiv> 2 ^ 31 - 1"

text \<open>Operations take a pointer to a stack. With NULL they do nothing, and have the result \<open>null\<close>.\<close>

definition on_sk :: "'a \<Rightarrow> (stack, 'a) cfun \<Rightarrow> (stack option, 'a) cfun" where
  "on_sk null m sk = (case sk of None \<Rightarrow> (Ok null, None) | Some s \<Rightarrow> (case m s of (r, t) \<Rightarrow> (r, Some t)))"

definition data_at :: "nat \<Rightarrow> (stack, u64) cfun" where
  "data_at i s = (if i < length (sk_data s) then (Ok (sk_data s ! i), s) else (Undef, s))"

definition set_data :: "nat \<Rightarrow> u64 \<Rightarrow> (stack, unit) cfun" where
  "set_data i p s = (if i < length (sk_data s) then (Ok (), s\<lparr>sk_data := (sk_data s)[i := p]\<rparr>) else (Undef, s))"

text \<open>\<^verbatim>\<open>OPENSSL_memmove\<close> of \<open>n\<close> pointers within the array.\<close>

definition move_data :: "nat \<Rightarrow> nat \<Rightarrow> nat \<Rightarrow> (stack, unit) cfun" where
  "move_data to from n s =
     (if to + n \<le> length (sk_data s) \<and> from + n \<le> length (sk_data s)
      then (Ok (), s\<lparr>sk_data := take to (sk_data s) @ take n (drop from (sk_data s)) @ drop (to + n) (sk_data s)\<rparr>)
      else (Undef, s))"

definition get_num :: "(stack, nat) cfun" where
  "get_num s = (Ok (sk_num s), s)"

definition set_num :: "nat \<Rightarrow> (stack, unit) cfun" where
  "set_num n s = (Ok (), s\<lparr>sk_num := n\<rparr>)"

text \<open>\<^verbatim>\<open>OPENSSL_realloc\<close> of an array of pointers; what is behind the old ones is what the allocator left there.\<close>

definition realloc_pointers :: "allocator \<Rightarrow> nat \<Rightarrow> u64 list \<Rightarrow> nat \<Rightarrow> u64 list option" where
  "realloc_pointers A k old alloc_size =
     (if grant A k alloc_size
      then Some (take (alloc_size div 8) old @
                 map (\<lambda>i. le_value (map (garbage A k) [8 * i..<8 * i + 8])) [length (take (alloc_size div 8) old)..<alloc_size div 8])
      else None)"

subsection \<open>Operations\<close>

text \<open>The structure has 40 bytes; the requests are counted from the first one on.\<close>

definition OPENSSL_sk_new :: "allocator \<Rightarrow> u64 \<Rightarrow> stack option" where
  "OPENSSL_sk_new A cmp =
     (if grant A 0 40 \<and> grant A 1 (kMinSize * 8)
      then Some \<lparr>sk_num = 0, sk_data = replicate kMinSize 0, sk_sorted = False, num_alloc = kMinSize, sk_comp = cmp, sk_requests = 2\<rparr>
      else None)"

definition OPENSSL_sk_new_null :: "allocator \<Rightarrow> stack option" where
  "OPENSSL_sk_new_null A = OPENSSL_sk_new A 0"

definition OPENSSL_sk_num :: "(stack option, nat) cfun" where
  "OPENSSL_sk_num = on_sk 0 get_num"

definition OPENSSL_sk_zero :: "(stack option, unit) cfun" where
  "OPENSSL_sk_zero = on_sk () (\<lambda>s.
     if sk_num s = 0 then (Ok (), s)
     else if sk_num s \<le> length (sk_data s)
     then (Ok (), s\<lparr>sk_data := replicate (sk_num s) 0 @ drop (sk_num s) (sk_data s), sk_num := 0, sk_sorted := False\<rparr>)
     else (Undef, s))"

definition OPENSSL_sk_value :: "nat \<Rightarrow> (stack option, u64) cfun" where
  "OPENSSL_sk_value i = on_sk 0 (bnd get_num (\<lambda>num. if i \<ge> num then ret 0 else data_at i))"

definition OPENSSL_sk_set :: "nat \<Rightarrow> u64 \<Rightarrow> (stack option, u64) cfun" where
  "OPENSSL_sk_set i p = on_sk 0 (bnd get_num (\<lambda>num. if i \<ge> num then ret 0 else bnd (set_data i p) (\<lambda>_. ret p)))"

text \<open>The function given to \<open>OPENSSL_sk_pop_free_ex\<close> acts on the rest of the program, \<open>w\<close>.\<close>

fun free_loop :: "(u64 \<Rightarrow> 'w \<Rightarrow> 'w) \<Rightarrow> nat \<Rightarrow> nat \<Rightarrow> 'w \<Rightarrow> (stack, 'w) cfun" where
  "free_loop free_func i 0 w = ret w"
| "free_loop free_func i (Suc n) w =
     bnd (data_at i) (\<lambda>p. free_loop free_func (i + 1) n (if p \<noteq> 0 then free_func p w else w))"

text \<open>To free a stack is to drop it, with its array; the elements stay.\<close>

definition OPENSSL_sk_free :: "(stack option, unit) cfun" where
  "OPENSSL_sk_free _ = (Ok (), None)"

definition OPENSSL_sk_pop_free_ex :: "(u64 \<Rightarrow> 'w \<Rightarrow> 'w) \<Rightarrow> 'w \<Rightarrow> (stack option, 'w) cfun" where
  "OPENSSL_sk_pop_free_ex free_func w =
     bnd (on_sk w (bnd get_num (\<lambda>num. free_loop free_func 0 num w))) (\<lambda>w. bnd OPENSSL_sk_free (\<lambda>_. ret w))"

text \<open>The growth of the array in \<open>OPENSSL_sk_insert\<close>: twice the size, or one more where that overflows.\<close>

definition sk_grow :: "allocator \<Rightarrow> (stack, bool) cfun" where
  "sk_grow A s =
     (if num_alloc s \<le> sk_num s + 1 then
        let overflow = (\<lambda>n. n < num_alloc s \<or> size_mul n 8 div 8 \<noteq> n);
            new_alloc = (if overflow (size_mul (num_alloc s) 2) then size_add (num_alloc s) 1 else size_mul (num_alloc s) 2)
        in if overflow new_alloc then (Ok False, s)
           else case realloc_pointers A (sk_requests s) (sk_data s) (size_mul new_alloc 8) of
                  None \<Rightarrow> (Ok False, s\<lparr>sk_requests := sk_requests s + 1\<rparr>)
                | Some data \<Rightarrow> (Ok True, s\<lparr>sk_data := data, num_alloc := new_alloc, sk_requests := sk_requests s + 1\<rparr>)
      else (Ok True, s))"

definition OPENSSL_sk_insert :: "allocator \<Rightarrow> u64 \<Rightarrow> nat \<Rightarrow> (stack option, nat) cfun" where
  "OPENSSL_sk_insert A p index = on_sk 0 (
     bnd get_num (\<lambda>num.
     if num \<ge> max_int then ret 0
     else bnd (sk_grow A) (\<lambda>ok.
          if \<not> ok then ret 0
          else bnd (if index \<ge> num then set_data num p
                    else bnd (move_data (index + 1) index (num - index)) (\<lambda>_. set_data index p)) (\<lambda>_.
               bnd (set_num (num + 1)) (\<lambda>_ s. (Ok (num + 1), s\<lparr>sk_sorted := False\<rparr>))))))"

definition sk_delete :: "nat \<Rightarrow> (stack, u64) cfun" where
  "sk_delete index =
     bnd get_num (\<lambda>num.
     if index \<ge> num then ret 0
     else bnd (data_at index) (\<lambda>p.
          bnd (if index \<noteq> num - 1 then move_data index (index + 1) (num - index - 1) else ret ()) (\<lambda>_.
          bnd (set_num (num - 1)) (\<lambda>_. ret p))))"

definition OPENSSL_sk_delete :: "nat \<Rightarrow> (stack option, u64) cfun" where
  "OPENSSL_sk_delete index = on_sk 0 (sk_delete index)"

text \<open>The loops that look for the first element with a property.\<close>

fun first_index :: "(u64 \<Rightarrow> bool) \<Rightarrow> nat \<Rightarrow> nat \<Rightarrow> (stack, nat option) cfun" where
  "first_index P i 0 = ret None"
| "first_index P i (Suc n) = bnd (data_at i) (\<lambda>x. if P x then ret (Some i) else first_index P (i + 1) n)"

definition OPENSSL_sk_delete_ptr :: "u64 \<Rightarrow> (stack option, u64) cfun" where
  "OPENSSL_sk_delete_ptr p = on_sk 0 (
     bnd get_num (\<lambda>num. bnd (first_index (\<lambda>x. x = p) 0 num) (\<lambda>found.
     case found of None \<Rightarrow> ret 0 | Some i \<Rightarrow> sk_delete i)))"

text \<open>The function given to \<open>OPENSSL_sk_delete_if\<close> has an argument of its own, \<open>d\<close>.\<close>

fun delete_if_loop :: "(u64 \<Rightarrow> 'd \<Rightarrow> bool \<times> 'd) \<Rightarrow> nat \<Rightarrow> nat \<Rightarrow> nat \<Rightarrow> 'd \<Rightarrow> (stack, nat \<times> 'd) cfun" where
  "delete_if_loop func i 0 new_num d = ret (new_num, d)"
| "delete_if_loop func i (Suc n) new_num d =
     bnd (data_at i) (\<lambda>p. case func p d of (del, d) \<Rightarrow>
       if \<not> del then bnd (set_data new_num p) (\<lambda>_. delete_if_loop func (i + 1) n (new_num + 1) d)
       else delete_if_loop func (i + 1) n new_num d)"

definition OPENSSL_sk_delete_if :: "(u64 \<Rightarrow> 'd \<Rightarrow> bool \<times> 'd) \<Rightarrow> 'd \<Rightarrow> (stack option, 'd) cfun" where
  "OPENSSL_sk_delete_if func d = on_sk d (
     bnd get_num (\<lambda>num. bnd (delete_if_loop func 0 num 0 d) (\<lambda>(new_num, d). bnd (set_num new_num) (\<lambda>_. ret d))))"

definition OPENSSL_sk_shift :: "(stack option, u64) cfun" where
  "OPENSSL_sk_shift = on_sk 0 (bnd get_num (\<lambda>num. if num = 0 then ret 0 else sk_delete 0))"

text \<open>\<^verbatim>\<open>OPENSSL_sk_push\<close> reads the number of elements before \<^verbatim>\<open>OPENSSL_sk_insert\<close> looks at the pointer.\<close>

definition OPENSSL_sk_push :: "allocator \<Rightarrow> u64 \<Rightarrow> (stack option, nat) cfun" where
  "OPENSSL_sk_push A p sk = (case sk of None \<Rightarrow> (Undef, None) | Some s \<Rightarrow> OPENSSL_sk_insert A p (sk_num s) sk)"

definition OPENSSL_sk_pop :: "(stack option, u64) cfun" where
  "OPENSSL_sk_pop = on_sk 0 (bnd get_num (\<lambda>num. if num = 0 then ret 0 else sk_delete (num - 1)))"

text \<open>A copy has requests of its own, those of the structure and of the array.\<close>

definition OPENSSL_sk_dup :: "allocator \<Rightarrow> stack option \<Rightarrow> stack option" where
  "OPENSSL_sk_dup A sk =
     (case sk of None \<Rightarrow> None
      | Some s \<Rightarrow> if grant A 0 40 \<and> grant A 1 (size_mul (num_alloc s) 8) then Some (s\<lparr>sk_requests := 2\<rparr>) else None)"

text \<open>\<open>copy_func\<close> may fail, with NULL, and acts on the rest of the program.\<close>

fun copy_loop :: "(u64 \<Rightarrow> 'w \<Rightarrow> u64 \<times> 'w) \<Rightarrow> (u64 \<Rightarrow> 'w \<Rightarrow> 'w) \<Rightarrow> nat \<Rightarrow> nat \<Rightarrow> 'w \<Rightarrow> (stack, bool \<times> 'w) cfun" where
  "copy_loop copy_func free_func i 0 w = ret (True, w)"
| "copy_loop copy_func free_func i (Suc n) w =
     bnd (data_at i) (\<lambda>p.
     if p = 0 then copy_loop copy_func free_func (i + 1) n w
     else case copy_func p w of (q, w) \<Rightarrow>
          bnd (set_data i q) (\<lambda>_.
          if q = 0 then bnd (free_loop free_func 0 i w) (\<lambda>w. ret (False, w))
          else copy_loop copy_func free_func (i + 1) n w))"

definition OPENSSL_sk_deep_copy ::
  "allocator \<Rightarrow> (u64 \<Rightarrow> 'w \<Rightarrow> u64 \<times> 'w) \<Rightarrow> (u64 \<Rightarrow> 'w \<Rightarrow> 'w) \<Rightarrow> stack option \<Rightarrow> 'w \<Rightarrow> (stack option \<times> 'w) res" where
  "OPENSSL_sk_deep_copy A copy_func free_func sk w =
     (case OPENSSL_sk_dup A sk of
        None \<Rightarrow> Ok (None, w)
      | Some s \<Rightarrow> (case copy_loop copy_func free_func 0 (sk_num s) w s of
            (Ok (True, w), s) \<Rightarrow> Ok (Some s, w)
          | (Ok (False, w), s) \<Rightarrow> Ok (None, w)
          | (Fail, _) \<Rightarrow> Fail
          | (Undef, _) \<Rightarrow> Undef))"

text \<open>\<open>OPENSSL_sk_is_sorted\<close> and \<open>OPENSSL_sk_set_cmp_func\<close>; the latter has no use for NULL.\<close>

definition sk_is_sorted :: "stack \<Rightarrow> bool" where
  "sk_is_sorted s \<longleftrightarrow> sk_sorted s \<or> sk_comp s \<noteq> 0 \<and> sk_num s < 2"

definition OPENSSL_sk_is_sorted :: "(stack option, bool) cfun" where
  "OPENSSL_sk_is_sorted = on_sk True (\<lambda>s. (Ok (sk_is_sorted s), s))"

definition OPENSSL_sk_set_cmp_func :: "u64 \<Rightarrow> (stack option, u64) cfun" where
  "OPENSSL_sk_set_cmp_func cmp sk =
     (case sk of None \<Rightarrow> (Undef, None)
      | Some s \<Rightarrow> (Ok (sk_comp s), Some (s\<lparr>sk_sorted := (sk_sorted s \<and> sk_comp s = cmp), sk_comp := cmp\<rparr>)))"

subsection \<open>Elements\<close>

text \<open>The elements of a stack, and that its fields fit: there is always room for one more.\<close>

definition elements :: "stack \<Rightarrow> u64 list" where
  "elements s = take (sk_num s) (sk_data s)"

definition stack_ok :: "stack \<Rightarrow> bool" where
  "stack_ok s \<longleftrightarrow> length (sk_data s) = num_alloc s \<and> kMinSize \<le> num_alloc s \<and> num_alloc s < 2 ^ 33 \<and>
     sk_num s < num_alloc s \<and> sk_num s \<le> max_int"

lemma stack_okD:
  assumes "stack_ok s"
  shows "sk_num s < length (sk_data s)" "length (elements s) = sk_num s" "sk_num s \<le> max_int"
  using assms by (simp_all add: stack_ok_def elements_def)

lemma element_at: "i < sk_num s \<Longrightarrow> elements s ! i = sk_data s ! i"
  by (simp add: elements_def)

lemma data_at_ok: "stack_ok s \<Longrightarrow> i < sk_num s \<Longrightarrow> data_at i s = (Ok (elements s ! i), s)"
  using stack_okD(1) [of s] by (simp add: data_at_def element_at)

lemma on_sk_Some [simp]: "m s = (r, t) \<Longrightarrow> on_sk null m (Some s) = (r, Some t)"
  by (simp add: on_sk_def)

lemma bnd_get_num [simp]: "bnd get_num f s = f (sk_num s) s"
  by (simp add: bnd_def get_num_def)

lemma bnd_set_num [simp]: "bnd (set_num n) f s = f () (s\<lparr>sk_num := n\<rparr>)"
  by (simp add: bnd_def set_num_def)

lemma new_ok: "OPENSSL_sk_new A cmp = Some s \<Longrightarrow> stack_ok s \<and> elements s = []"
  by (auto simp: OPENSSL_sk_new_def stack_ok_def elements_def split: if_splits)

text \<open>Growth keeps the elements; it fails only when the allocator does.\<close>

lemma realloc_more:
  assumes "realloc_pointers A k old (8 * n) = Some new" "length old \<le> n"
  shows "length new = n" "take (length old) new = old"
  using assms by (auto simp: realloc_pointers_def split: if_splits)

lemma sk_grow_cases:
  assumes s: "stack_ok s" "sk_num s < max_int"
  obtains (grown) t where "sk_grow A s = (Ok True, t)" "stack_ok t" "sk_num t = sk_num s" "take (sk_num s) (sk_data t) = elements s"
      "sk_num s + 1 < num_alloc t" "sk_comp t = sk_comp s" "sk_sorted t = sk_sorted s"
  | (refused) k where "sk_grow A s = (Ok False, s\<lparr>sk_requests := k\<rparr>)" "\<not> always_grants A"
proof (cases "num_alloc s \<le> sk_num s + 1")
  case True
  have n: "num_alloc s = sk_num s + 1" using True s(1) by (simp add: stack_ok_def)
  let ?n = "num_alloc s * 2"
  have small: "size_mul (num_alloc s) 2 = ?n" "size_mul ?n 8 = 16 * num_alloc s" "16 * num_alloc s div 8 = ?n"
    using n s(2) by (simp_all add: size_mul_def)
  have g: "sk_grow A s = (case realloc_pointers A (sk_requests s) (sk_data s) (8 * ?n) of
          None \<Rightarrow> (Ok False, s\<lparr>sk_requests := sk_requests s + 1\<rparr>)
        | Some data \<Rightarrow> (Ok True, s\<lparr>sk_data := data, num_alloc := ?n, sk_requests := sk_requests s + 1\<rparr>))"
    using True by (simp add: sk_grow_def Let_def small cong: option.case_cong)
  show ?thesis
  proof (cases "realloc_pointers A (sk_requests s) (sk_data s) (8 * ?n)")
    case None
    then show ?thesis using g refused by (auto simp: realloc_pointers_def always_grants_def split: if_splits)
  next
    case (Some data)
    have l: "length (sk_data s) \<le> ?n" using s(1) by (simp add: stack_ok_def)
    note m = realloc_more [OF Some l]
    have "take (sk_num s) data = take (sk_num s) (take (length (sk_data s)) data)"
      using stack_okD(1) [OF s(1)] by (simp add: min_def)
    then have e: "take (sk_num s) data = elements s" by (simp add: m(2) elements_def)
    show ?thesis
      by (rule grown [of "s\<lparr>sk_data := data, num_alloc := ?n, sk_requests := sk_requests s + 1\<rparr>"])
        (use g Some m(1) e n s in \<open>simp_all add: stack_ok_def\<close>)
  qed
next
  case False
  show ?thesis by (rule grown [of s]) (use False s in \<open>simp_all add: sk_grow_def elements_def\<close>)
qed

subsection \<open>Operations on the elements\<close>

text \<open>What a stack is after an operation, with its elements given.\<close>

definition stack_with :: "stack \<Rightarrow> u64 list \<Rightarrow> bool" where
  "stack_with s xs \<longleftrightarrow> stack_ok s \<and> elements s = xs"

lemma stack_withI: "stack_ok s \<Longrightarrow> stack_with s (elements s)"
  by (simp add: stack_with_def)

lemma stack_with_num: "stack_with s xs \<Longrightarrow> sk_num s = length xs"
  by (auto simp: stack_with_def stack_okD(2))

lemma insert_elements:
  assumes "i \<le> n" "n + 1 < length d"
  shows "take (n + 1) ((take (i + 1) d @ take (n - i) (drop i d) @ drop (n + 1) d)[i := p]) = take i (take n d) @ p # drop i (take n d)"
proof (rule nth_equalityI)
  fix j
  assume j: "j < length (take (n + 1) ((take (i + 1) d @ take (n - i) (drop i d) @ drop (n + 1) d)[i := p]))"
  consider "j < i" | "j = i" | "i < j" by linarith
  then show "take (n + 1) ((take (i + 1) d @ take (n - i) (drop i d) @ drop (n + 1) d)[i := p]) ! j =
      (take i (take n d) @ p # drop i (take n d)) ! j"
  proof cases
    case 3
    then have "j = Suc (j - 1)" "i + (j - Suc i) = j - 1" "j - Suc i < n - i" using j assms by simp_all
    then show ?thesis using 3 j assms by (simp add: nth_append nth_Cons' algebra_simps)
  qed (use j assms in \<open>simp_all add: nth_append\<close>)
qed (use assms in simp)

lemma delete_elements:
  assumes "i < n" "n \<le> length d"
  shows "take (n - 1) (take i d @ take (n - i - 1) (drop (i + 1) d) @ drop (n - 1) d) = take i (take n d) @ drop (i + 1) (take n d)"
  by (rule nth_equalityI) (use assms in \<open>auto simp: nth_append\<close>)

lemma set_elements:
  assumes "stack_with s xs" "i < length xs"
  shows "\<exists>t. set_data i p s = (Ok (), t) \<and> stack_with t (xs[i := p]) \<and> sk_comp t = sk_comp s \<and> sk_sorted t = sk_sorted s"
proof -
  have "i < sk_num s" "sk_num s < length (sk_data s)" using assms stack_okD by (auto simp: stack_with_def)
  then show ?thesis using assms by (auto simp: set_data_def stack_with_def stack_ok_def elements_def take_update_swap)
qed

lemma data_at_elements:
  assumes "stack_with s xs" "i < length xs"
  shows "data_at i s = (Ok (xs ! i), s)"
  using assms data_at_ok stack_with_num by (metis stack_with_def)

lemma sk_delete_elements:
  assumes s: "stack_with s xs"
  shows "\<exists>t. sk_delete i s = (Ok (if i < length xs then xs ! i else 0), t) \<and> stack_with t (take i xs @ drop (i + 1) xs)
       \<and> sk_comp t = sk_comp s \<and> sk_sorted t = sk_sorted s"
proof (cases "i < length xs")
  case False
  then show ?thesis using s by (simp add: sk_delete_def stack_with_num)
next
  case True
  let ?n = "sk_num s" and ?d = "sk_data s"
  have l: "i < ?n" "?n < length ?d" "xs = take ?n ?d" using s True stack_okD(1) by (auto simp: stack_with_def elements_def)
  have p: "data_at i s = (Ok (xs ! i), s)" using data_at_elements [OF s True] .
  show ?thesis
  proof (cases "i = ?n - 1")
    case last: True
    have "take (?n - 1) ?d = take i xs @ drop (i + 1) xs" using l last by simp
    then show ?thesis using True l p s last
      by (simp add: sk_delete_def stack_with_def stack_ok_def elements_def p seq_simps set_num_def)
  next
    case False
    obtain d where m: "move_data i (Suc i) (?n - Suc i) s = (Ok (), s\<lparr>sk_data := d\<rparr>)" "length d = length ?d"
        "take (?n - 1) d = take i xs @ drop (i + 1) xs"
    proof
      let ?e = "take i ?d @ take (?n - i - 1) (drop (i + 1) ?d) @ drop (?n - 1) ?d"
      show "move_data i (Suc i) (?n - Suc i) s = (Ok (), s\<lparr>sk_data := ?e\<rparr>)" using l by (simp add: move_data_def)
      show "length ?e = length ?d" using l by simp
      show "take (?n - 1) ?e = take i xs @ drop (i + 1) xs" using delete_elements [of i ?n ?d] l by simp
    qed
    show ?thesis using True l(1) p s False m(2,3)
      by (auto simp: sk_delete_def stack_with_def stack_ok_def elements_def p m(1) seq_simps set_num_def)
  qed
qed

text \<open>Insertion: at the end for an index behind it, and nowhere with a full stack or without memory.\<close>

lemma insert_room:
  assumes t: "stack_ok t" "sk_num t + 1 < num_alloc t" "elements t = xs" "sk_num t < max_int"
  obtains u where "(if i \<ge> sk_num t then set_data (sk_num t) p
                    else bnd (move_data (i + 1) i (sk_num t - i)) (\<lambda>_. set_data i p)) t = (Ok (), u)"
    "stack_with (u\<lparr>sk_num := sk_num t + 1, sk_sorted := False\<rparr>) (take i xs @ p # drop i xs)" "sk_comp u = sk_comp t"
proof (cases "sk_num t \<le> i")
  case True
  have l: "length xs = sk_num t" using t stack_okD(2) by blast
  have e: "take (Suc (sk_num t)) ((sk_data t)[sk_num t := p]) = take i xs @ p # drop i xs"
    using t True l by (auto simp: take_Suc_conv_app_nth elements_def stack_ok_def)
  show ?thesis
    by (rule that [of "t\<lparr>sk_data := (sk_data t)[sk_num t := p]\<rparr>"])
      (use True t e in \<open>simp_all add: set_data_def stack_with_def stack_ok_def elements_def\<close>)
next
  case False
  let ?n = "sk_num t" and ?d = "sk_data t"
  let ?d' = "take (i + 1) ?d @ take (?n - i) (drop i ?d) @ drop (?n + 1) ?d"
  have l: "i < ?n" "?n + 1 < length ?d" "xs = take ?n ?d" using False t by (auto simp: stack_ok_def elements_def)
  have e: "take (?n + 1) (?d'[i := p]) = take i xs @ p # drop i xs"
    using insert_elements [of i ?n ?d p] l by simp
  have d: "length (?d'[i := p]) = length ?d" using l by simp
  have m: "move_data (i + 1) i (?n - i) t = (Ok (), t\<lparr>sk_data := ?d'\<rparr>)" using l by (simp add: move_data_def)
  have v: "set_data i p (t\<lparr>sk_data := ?d'\<rparr>) = (Ok (), t\<lparr>sk_data := ?d'[i := p]\<rparr>)" using l by (simp add: set_data_def)
  show ?thesis
  proof (rule that [of "t\<lparr>sk_data := ?d'[i := p]\<rparr>"])
    show "(if i \<ge> ?n then set_data ?n p else bnd (move_data (i + 1) i (?n - i)) (\<lambda>_. set_data i p)) t = (Ok (), t\<lparr>sk_data := ?d'[i := p]\<rparr>)"
      using False by (simp only: if_False bnd_simps(1) [where m = "move_data (i + 1) i (?n - i)", OF m] v)
    show "stack_with (t\<lparr>sk_data := ?d'[i := p]\<rparr>\<lparr>sk_num := ?n + 1, sk_sorted := False\<rparr>) (take i xs @ p # drop i xs)"
      using t d e by (simp add: stack_with_def stack_ok_def elements_def)
  qed simp
qed

lemma sk_insert_elements:
  assumes s: "stack_with s xs"
  shows "\<exists>t. OPENSSL_sk_insert A p i (Some s) = (Ok (length xs + 1), Some t) \<and> length xs < max_int \<and>
           stack_with t (take i xs @ p # drop i xs) \<and> sk_comp t = sk_comp s \<and> \<not> sk_sorted t
       \<or> OPENSSL_sk_insert A p i (Some s) = (Ok 0, Some t) \<and> (length xs < max_int \<longrightarrow> \<not> always_grants A) \<and>
           stack_with t xs \<and> sk_comp t = sk_comp s \<and> sk_sorted t = sk_sorted s"
proof (cases "sk_num s < max_int")
  case False
  then show ?thesis using s stack_with_num [OF s] by (auto simp: OPENSSL_sk_insert_def)
next
  case True
  have ok: "stack_ok s" and e: "elements s = xs" using s by (simp_all add: stack_with_def)
  show ?thesis using ok True
  proof (cases rule: sk_grow_cases [where A = A])
    case (grown t)
    have "elements t = xs" "sk_num t < max_int" using grown e True by (simp_all add: elements_def)
    from insert_room [OF grown(2) _ this, of i p] grown(3,5) obtain u where
      u: "(if i \<ge> sk_num t then set_data (sk_num t) p
           else bnd (move_data (i + 1) i (sk_num t - i)) (\<lambda>_. set_data i p)) t = (Ok (), u)"
      "stack_with (u\<lparr>sk_num := sk_num t + 1, sk_sorted := False\<rparr>) (take i xs @ p # drop i xs)" "sk_comp u = sk_comp t"
      by metis
    have "OPENSSL_sk_insert A p i (Some s) = (Ok (sk_num s + 1), Some (u\<lparr>sk_num := sk_num t + 1, sk_sorted := False\<rparr>))"
      unfolding OPENSSL_sk_insert_def
      by (rule on_sk_Some) (use True u(1) grown(1,3) in \<open>cases "sk_num s \<le> i"; simp add: seq_simps\<close>)
    then show ?thesis using u(2,3) grown(6) True stack_with_num [OF s] by auto
  next
    case (refused k)
    have "OPENSSL_sk_insert A p i (Some s) = (Ok 0, Some (s\<lparr>sk_requests := k\<rparr>))"
      unfolding OPENSSL_sk_insert_def by (rule on_sk_Some) (use True refused in \<open>simp add: seq_simps\<close>)
    moreover have "stack_with (s\<lparr>sk_requests := k\<rparr>) xs" using s by (simp add: stack_with_def stack_ok_def elements_def)
    ultimately show ?thesis using refused(2) by auto
  qed
qed

text \<open>Searches and the deletions built on them.\<close>

lemma first_index_elements:
  assumes "stack_with s xs" "i + n = length xs"
  shows "first_index P i n s = (Ok (if \<exists>x \<in> set (drop i xs). P x then Some (i + length (takeWhile (Not \<circ> P) (drop i xs))) else None), s)"
  using assms(2)
proof (induction n arbitrary: i)
  case (Suc n)
  have d: "data_at i s = (Ok (xs ! i), s)" using data_at_elements [OF assms(1)] Suc.prems by simp
  have x: "drop i xs = xs ! i # drop (Suc i) xs" using Suc.prems by (simp add: Cons_nth_drop_Suc)
  show ?case using Suc.IH [of "i + 1"] Suc.prems unfolding x by (simp add: d seq_simps)
qed simp

lemma remove1_take_drop:
  "remove1 p xs = (let i = length (takeWhile (\<lambda>x. x \<noteq> p) xs) in take i xs @ drop (i + 1) xs)"
  by (induction xs) (simp_all add: Let_def)

lemma delete_ptr_elements:
  assumes s: "stack_with s xs"
  shows "\<exists>t. OPENSSL_sk_delete_ptr p (Some s) = (Ok (if p \<in> set xs then p else 0), Some t) \<and> stack_with t (remove1 p xs) \<and>
       sk_comp t = sk_comp s \<and> sk_sorted t = sk_sorted s"
proof (cases "p \<in> set xs")
  case False
  then show ?thesis using s first_index_elements [OF s, of 0 "length xs" "\<lambda>x. x = p"] stack_with_num [OF s]
    by (auto simp: OPENSSL_sk_delete_ptr_def on_sk_def seq_simps remove1_idem)
next
  case True
  let ?i = "length (takeWhile (\<lambda>x. x \<noteq> p) xs)"
  have i: "?i < length xs" "xs ! ?i = p" using True by (induction xs) auto
  have f: "first_index (\<lambda>x. x = p) 0 (sk_num s) s = (Ok (Some ?i), s)"
    using first_index_elements [OF s, of 0 "length xs" "\<lambda>x. x = p"] True stack_with_num [OF s] by (simp add: comp_def)
  obtain t where t: "sk_delete ?i s = (Ok p, t)" "stack_with t (remove1 p xs)" "sk_comp t = sk_comp s" "sk_sorted t = sk_sorted s"
    using sk_delete_elements [OF s, of ?i] i by (auto simp: remove1_take_drop Let_def)
  show ?thesis using t True by (intro exI [of _ t]) (simp add: OPENSSL_sk_delete_ptr_def on_sk_def f seq_simps)
qed

text \<open>What a stateful function keeps of a list, and what becomes of its argument.\<close>

fun filter_state :: "('a \<Rightarrow> 'd \<Rightarrow> bool \<times> 'd) \<Rightarrow> 'a list \<Rightarrow> 'd \<Rightarrow> 'a list \<times> 'd" where
  "filter_state f [] d = ([], d)"
| "filter_state f (x # xs) d =
     (case f x d of (del, d) \<Rightarrow> case filter_state f xs d of (ys, d) \<Rightarrow> (if del then ys else x # ys, d))"


lemma delete_if_loop_elements:
  assumes "stack_with s xs" "i + n = length xs" "k \<le> i" "filter_state f (drop i xs) d = (F, d')"
  shows "\<exists>t ys. delete_if_loop f i n k d s = (Ok (k + length F, d'), t) \<and> stack_with t ys \<and> length ys = length xs \<and>
       take (k + length F) ys = take k xs @ F \<and> sk_comp t = sk_comp s \<and> sk_sorted t = sk_sorted s"
  using assms
proof (induction n arbitrary: i k d s xs F)
  case 0
  then show ?case by (intro exI [of _ s] exI [of _ xs]) simp
next
  case (Suc n)
  have p: "data_at i s = (Ok (xs ! i), s)" using data_at_elements [OF Suc.prems(1)] Suc.prems(2) by simp
  have x: "drop i xs = xs ! i # drop (Suc i) xs" using Suc.prems(2) by (simp add: Cons_nth_drop_Suc)
  obtain del d1 where f: "f (xs ! i) d = (del, d1)" by fastforce
  obtain G where G: "filter_state f (drop (Suc i) xs) d1 = (G, d')" "F = (if del then G else xs ! i # G)"
    using Suc.prems(4) unfolding x by (auto simp: f split: prod.splits)
  show ?case
  proof (cases del)
    case True
    then show ?thesis using Suc.IH [OF Suc.prems(1), of "Suc i" k d1 G] Suc.prems(2,3) G by (simp add: p f seq_simps)
  next
    case False
    obtain u where u: "set_data k (xs ! i) s = (Ok (), u)" "stack_with u (xs[k := xs ! i])" "sk_comp u = sk_comp s" "sk_sorted u = sk_sorted s"
      using set_elements [OF Suc.prems(1), of k "xs ! i"] Suc.prems(2,3) by auto
    have "drop (Suc i) (xs[k := xs ! i]) = drop (Suc i) xs" using Suc.prems(3) by simp
    then obtain t ys where t: "delete_if_loop f (Suc i) n (Suc k) d1 u = (Ok (Suc k + length G, d'), t)" "stack_with t ys" "length ys = length xs"
        "take (Suc k + length G) ys = take (Suc k) (xs[k := xs ! i]) @ G" "sk_comp t = sk_comp u" "sk_sorted t = sk_sorted u"
      using Suc.IH [OF u(2), of "Suc i" "Suc k" d1 G] Suc.prems(2,3) G(1) by auto
    have "take (Suc k) (xs[k := xs ! i]) = take k xs @ [xs ! i]" using Suc.prems(2,3) by (simp add: take_Suc_conv_app_nth)
    then show ?thesis using t u False G(2)
      by (intro exI [of _ t] exI [of _ ys]) (simp add: p f seq_simps)
  qed
qed

lemma delete_if_elements:
  assumes s: "stack_with s xs" and f: "filter_state f xs d = (ys, d')"
  shows "\<exists>t. OPENSSL_sk_delete_if f d (Some s) = (Ok d', Some t) \<and> stack_with t ys \<and>
       sk_comp t = sk_comp s \<and> sk_sorted t = sk_sorted s"
proof -
  obtain t zs where t: "delete_if_loop f 0 (sk_num s) 0 d s = (Ok (length ys, d'), t)" "stack_with t zs" "length zs = length xs"
      "take (length ys) zs = ys" "sk_comp t = sk_comp s" "sk_sorted t = sk_sorted s"
    using delete_if_loop_elements [OF s, of 0 "length xs" 0 f d ys d'] f stack_with_num [OF s] by auto
  have l: "length ys \<le> sk_num t" using t(3,4) stack_with_num [OF t(2)] by (metis length_take min.cobounded1)
  have "stack_with (t\<lparr>sk_num := length ys\<rparr>) ys"
    using t(2,4) l by (auto simp: stack_with_def stack_ok_def elements_def min_def split: if_splits)
  then show ?thesis using t(1,5,6)
    by (intro exI [of _ "t\<lparr>sk_num := length ys\<rparr>"]) (simp add: OPENSSL_sk_delete_if_def on_sk_def seq_simps set_num_def)
qed

text \<open>Copies and the release of a stack.\<close>

lemma free_loop_elements:
  assumes "stack_with s xs" "i + n \<le> length xs"
  shows "free_loop free_func i n w s = (Ok (fold free_func (filter (\<lambda>p. p \<noteq> 0) (take n (drop i xs))) w), s)"
  using assms(2)
proof (induction n arbitrary: i w)
  case (Suc n)
  have d: "data_at i s = (Ok (xs ! i), s)" using data_at_elements [OF assms(1)] Suc.prems by simp
  have "drop i xs = xs ! i # drop (Suc i) xs" using Suc.prems by (simp add: Cons_nth_drop_Suc)
  then have x: "take (Suc n) (drop i xs) = xs ! i # take n (drop (Suc i) xs)" by simp
  show ?case using Suc.IH [of "i + 1"] Suc.prems unfolding x by (simp add: d seq_simps)
qed simp

lemma pop_free_elements:
  "stack_with s xs \<Longrightarrow> OPENSSL_sk_pop_free_ex free_func w (Some s) = (Ok (fold free_func (filter (\<lambda>p. p \<noteq> 0) xs) w), None)"
  using free_loop_elements [of s xs 0 "length xs" free_func w]
  by (simp add: OPENSSL_sk_pop_free_ex_def on_sk_def seq_simps stack_with_num OPENSSL_sk_free_def)

lemma dup_elements:
  "stack_with s xs \<Longrightarrow> OPENSSL_sk_dup A (Some s) = Some t \<Longrightarrow> stack_with t xs \<and> sk_comp t = sk_comp s \<and> sk_sorted t = sk_sorted s"
  by (auto simp: OPENSSL_sk_dup_def stack_with_def stack_ok_def elements_def split: if_splits)

text \<open>A copy of the elements in order, and what is left of the program when one of them fails: the copies made
  so far have been freed again.\<close>

fun copy_list :: "(u64 \<Rightarrow> 'w \<Rightarrow> u64 \<times> 'w) \<Rightarrow> (u64 \<Rightarrow> 'w \<Rightarrow> 'w) \<Rightarrow> u64 list \<Rightarrow> u64 list \<Rightarrow> 'w \<Rightarrow> u64 list option \<times> 'w" where
  "copy_list copy_func free_func ys [] w = (Some ys, w)"
| "copy_list copy_func free_func ys (x # xs) w =
     (if x = 0 then copy_list copy_func free_func (ys @ [0]) xs w
      else case copy_func x w of (q, w) \<Rightarrow>
        if q = 0 then (None, fold free_func (filter (\<lambda>p. p \<noteq> 0) ys) w)
        else copy_list copy_func free_func (ys @ [q]) xs w)"

lemma copy_loop_elements:
  assumes "stack_with s (ys @ xs)"
  shows "\<exists>t. copy_loop copy_func free_func (length ys) (length xs) w s =
           (Ok (fst (copy_list copy_func free_func ys xs w) \<noteq> None, snd (copy_list copy_func free_func ys xs w)), t) \<and>
         (\<forall>zs. fst (copy_list copy_func free_func ys xs w) = Some zs \<longrightarrow> stack_with t zs \<and> sk_comp t = sk_comp s \<and> sk_sorted t = sk_sorted s)"
  using assms
proof (induction xs arbitrary: ys w s)
  case (Cons x xs)
  have d: "data_at (length ys) s = (Ok x, s)" using data_at_elements [OF Cons.prems, of "length ys"] by simp
  show ?case
  proof (cases "x = 0")
    case True
    then show ?thesis using Cons.IH [of s "ys @ [0]" w] Cons.prems by (simp add: d seq_simps)
  next
    case False
    obtain q w1 where c: "copy_func x w = (q, w1)" by fastforce
    obtain u where u: "set_data (length ys) q s = (Ok (), u)" "stack_with u (ys @ q # xs)" "sk_comp u = sk_comp s" "sk_sorted u = sk_sorted s"
      using set_elements [OF Cons.prems, of "length ys" q] by auto
    show ?thesis
    proof (cases "q = 0")
      case True
      have "free_loop free_func 0 (length ys) w1 u = (Ok (fold free_func (filter (\<lambda>p. p \<noteq> 0) ys) w1), u)"
        using free_loop_elements [OF u(2), of 0 "length ys" free_func w1] by simp
      then show ?thesis using False True u(1) by (simp add: d c seq_simps)
    next
      case q: False
      show ?thesis using Cons.IH [of u "ys @ [q]" w1] u False q by (simp add: d c seq_simps)
    qed
  qed
qed simp

lemma deep_copy_elements:
  assumes s: "stack_with s xs" and A: "OPENSSL_sk_dup A (Some s) = Some t"
  shows "\<exists>r. OPENSSL_sk_deep_copy A copy_func free_func (Some s) w = Ok (r, snd (copy_list copy_func free_func [] xs w)) \<and>
     (case fst (copy_list copy_func free_func [] xs w) of None \<Rightarrow> r = None
      | Some ys \<Rightarrow> \<exists>u. r = Some u \<and> stack_with u ys \<and> sk_comp u = sk_comp s \<and> sk_sorted u = sk_sorted s)"
proof -
  have t: "stack_with t ([] @ xs)" "sk_num t = length xs" "sk_comp t = sk_comp s" "sk_sorted t = sk_sorted s"
    using dup_elements [OF s A] stack_with_num by auto
  show ?thesis using copy_loop_elements [OF t(1), of copy_func free_func w] t(2-4)
    by (cases "copy_list copy_func free_func [] xs w"; cases "fst (copy_list copy_func free_func [] xs w)")
      (auto simp: OPENSSL_sk_deep_copy_def A)
qed

subsection \<open>Stacks as lists\<close>

datatype sk_op = Num | Value nat | Set_Value nat u64 | Push u64 | Insert u64 nat | Delete nat | Delete_Ptr u64
  | Delete_If "u64 \<Rightarrow> bool" | Shift | Pop | Zero

text \<open>An operation of the code on a stack, with its result as a number, and the same operation on a list of pointers.\<close>

fun sk_step :: "allocator \<Rightarrow> sk_op \<Rightarrow> (stack option, nat) cfun" where
  "sk_step A Num = OPENSSL_sk_num"
| "sk_step A (Value i) = bnd (OPENSSL_sk_value i) (\<lambda>p. ret (unat p))"
| "sk_step A (Set_Value i p) = bnd (OPENSSL_sk_set i p) (\<lambda>p. ret (unat p))"
| "sk_step A (Push p) = OPENSSL_sk_push A p"
| "sk_step A (Insert p i) = OPENSSL_sk_insert A p i"
| "sk_step A (Delete i) = bnd (OPENSSL_sk_delete i) (\<lambda>p. ret (unat p))"
| "sk_step A (Delete_Ptr p) = bnd (OPENSSL_sk_delete_ptr p) (\<lambda>p. ret (unat p))"
| "sk_step A (Delete_If P) = bnd (OPENSSL_sk_delete_if (\<lambda>p d. (P p, d)) ()) (\<lambda>_. ret 0)"
| "sk_step A Shift = bnd OPENSSL_sk_shift (\<lambda>p. ret (unat p))"
| "sk_step A Pop = bnd OPENSSL_sk_pop (\<lambda>p. ret (unat p))"
| "sk_step A Zero = bnd OPENSSL_sk_zero (\<lambda>_. ret 0)"

fun list_insert :: "u64 \<Rightarrow> nat \<Rightarrow> u64 list \<Rightarrow> nat \<times> u64 list" where
  "list_insert p i xs = (if length xs < max_int then (length xs + 1, take i xs @ p # drop i xs) else (0, xs))"

fun list_step :: "sk_op \<Rightarrow> u64 list \<Rightarrow> nat \<times> u64 list" where
  "list_step Num xs = (length xs, xs)"
| "list_step (Value i) xs = (if i < length xs then unat (xs ! i) else 0, xs)"
| "list_step (Set_Value i p) xs = (if i < length xs then unat p else 0, xs[i := p])"
| "list_step (Push p) xs = list_insert p (length xs) xs"
| "list_step (Insert p i) xs = list_insert p i xs"
| "list_step (Delete i) xs = (if i < length xs then unat (xs ! i) else 0, take i xs @ drop (i + 1) xs)"
| "list_step (Delete_Ptr p) xs = (if p \<in> set xs then unat p else 0, remove1 p xs)"
| "list_step (Delete_If P) xs = (0, filter (\<lambda>p. \<not> P p) xs)"
| "list_step Shift xs = (case xs of [] \<Rightarrow> 0 | x # _ \<Rightarrow> unat x, tl xs)"
| "list_step Pop xs = (if xs = [] then 0 else unat (last xs), butlast xs)"
| "list_step Zero xs = (0, [])"

lemma step_result:
  assumes "\<exists>t. m (Some s) = (Ok p, Some t) \<and> P t"
  shows "\<exists>t. bnd m (\<lambda>p. ret (f p)) (Some s) = (Ok (f p), Some t) \<and> P t"
  using assms by (auto simp: seq_simps)

lemma filter_state_pure: "filter_state (\<lambda>p d. (P p, d)) xs d = (filter (\<lambda>p. \<not> P p) xs, d)"
  by (induction xs) auto

lemma on_sk_step: "\<exists>t. m s = (r, t) \<and> P t \<Longrightarrow> \<exists>t. on_sk null m (Some s) = (r, Some t) \<and> P t"
  by (auto simp: on_sk_def)

text \<open>Every operation acts on the elements as the list operation does, and leaves the comparison function and,
  but for insertion and \<open>OPENSSL_sk_zero\<close>, the flag.\<close>

lemma sk_step_list:
  assumes s: "stack_with s xs" and A: "always_grants A"
  shows "\<exists>t. sk_step A op (Some s) = (Ok (fst (list_step op xs)), Some t) \<and> stack_with t (snd (list_step op xs)) \<and>
       sk_comp t = sk_comp s \<and> (sk_sorted t \<longrightarrow> sk_sorted s \<and> (\<forall>p i. op \<noteq> Push p \<and> op \<noteq> Insert p i \<or> length xs \<ge> max_int))"
proof -
  have n: "sk_num s = length xs" by (rule stack_with_num [OF s])
  have ins: "\<exists>t. OPENSSL_sk_insert A p i (Some s) = (Ok (fst (list_insert p i xs)), Some t) \<and> stack_with t (snd (list_insert p i xs)) \<and>
       sk_comp t = sk_comp s \<and> (sk_sorted t \<longrightarrow> sk_sorted s \<and> length xs \<ge> max_int)" for p i
    using sk_insert_elements [OF s, of A p i] A by auto
  have del: "\<exists>t. sk_delete i s = (Ok (if i < length xs then xs ! i else 0), t) \<and> stack_with t (take i xs @ drop (i + 1) xs)
       \<and> sk_comp t = sk_comp s \<and> sk_sorted t = sk_sorted s" for i
    by (rule sk_delete_elements [OF s])
  show ?thesis
  proof (cases op)
    case Num
    then show ?thesis using s n by (auto simp: OPENSSL_sk_num_def on_sk_def get_num_def)
  next
    case (Value i)
    then show ?thesis using s n data_at_elements [OF s, of i]
      by (auto simp: OPENSSL_sk_value_def on_sk_def seq_simps)
  next
    case (Set_Value i p)
    then show ?thesis using s n set_elements [OF s, of i p]
      by (cases "i < length xs") (auto simp: OPENSSL_sk_set_def on_sk_def seq_simps list_update_beyond)
  next
    case (Push p)
    then show ?thesis using ins [of p "length xs"] n by (auto simp: OPENSSL_sk_push_def)
  next
    case (Insert p i)
    then show ?thesis using ins [of p i] by auto
  next
    case (Delete i)
    then show ?thesis using del [of i] by (auto simp: OPENSSL_sk_delete_def on_sk_def seq_simps)
  next
    case (Delete_Ptr p)
    then show ?thesis using delete_ptr_elements [OF s, of p] by (auto simp: seq_simps)
  next
    case (Delete_If P)
    then show ?thesis using delete_if_elements [OF s filter_state_pure, of P "()"] by (auto simp: seq_simps)
  next
    case Shift
    then show ?thesis using del [of 0] s n by (cases xs) (auto simp: OPENSSL_sk_shift_def on_sk_def seq_simps)
  next
    case Pop
    show ?thesis
    proof (cases "xs = []")
      case False
      then show ?thesis using Pop del [of "length xs - 1"] n
        by (auto simp: OPENSSL_sk_pop_def on_sk_def seq_simps last_conv_nth butlast_conv_take)
    qed (use Pop s n in \<open>simp add: OPENSSL_sk_pop_def on_sk_def seq_simps\<close>)
  next
    case Zero
    then show ?thesis using s n by (auto simp: OPENSSL_sk_zero_def on_sk_def bnd_def stack_with_def stack_ok_def elements_def)
  qed
qed

fun sk_run :: "allocator \<Rightarrow> sk_op list \<Rightarrow> (stack option, nat list) cfun" where
  "sk_run A [] = ret []"
| "sk_run A (op # ops) = bnd (sk_step A op) (\<lambda>r. bnd (sk_run A ops) (\<lambda>rs. ret (r # rs)))"

fun list_run :: "sk_op list \<Rightarrow> u64 list \<Rightarrow> nat list \<times> u64 list" where
  "list_run [] xs = ([], xs)"
| "list_run (op # ops) xs = (case list_step op xs of (r, xs) \<Rightarrow> case list_run ops xs of (rs, xs) \<Rightarrow> (r # rs, xs))"

lemma sk_run_list:
  assumes "stack_with s xs" and A: "always_grants A"
  shows "\<exists>t. sk_run A ops (Some s) = (Ok (fst (list_run ops xs)), Some t) \<and> stack_with t (snd (list_run ops xs))"
  using assms(1)
proof (induction ops arbitrary: s xs)
  case (Cons op ops)
  obtain t where t: "sk_step A op (Some s) = (Ok (fst (list_step op xs)), Some t)" "stack_with t (snd (list_step op xs))"
    using sk_step_list [OF Cons.prems A] by blast
  obtain u where "sk_run A ops (Some t) = (Ok (fst (list_run ops (snd (list_step op xs)))), Some u)"
      "stack_with u (snd (list_run ops (snd (list_step op xs))))"
    using Cons.IH [OF t(2)] by blast
  then show ?case using t(1) by (auto simp: seq_simps split: prod.splits)
qed simp

end
