(* ===== verification/Stack_Sort.thy ===== *)
theory Stack_Sort
  imports Stack Cbb_Oid
begin

text \<open>
  Sorting and searching of stacks, \<^verbatim>\<open>crypto/stack/stack.c\<close>: the heap sort of \<^verbatim>\<open>OPENSSL_sk_sort\<close> and the binary
  search of \<^verbatim>\<open>OPENSSL_sk_find\<close>. The comparison function of a stack is an address, and \<open>call_cmp_func\<close> says
  what the function at an address does with two elements.
\<close>

lemma bnd_cong [fundef_cong]:
  "m s = m' s' \<Longrightarrow> (\<And>a t. m' s' = (Ok a, t) \<Longrightarrow> f a t = f' a t) \<Longrightarrow> bnd m f s = bnd m' f' s'"
  by (auto simp: bnd_def split: res.splits prod.splits)

subsection \<open>Search\<close>

function find_loop :: "(u64 \<Rightarrow> u64 \<Rightarrow> int) \<Rightarrow> u64 \<Rightarrow> nat \<Rightarrow> nat \<Rightarrow> (stack, nat option) cfun" where
  "find_loop cmp p lo hi =
     (if lo < hi then
        let mid = lo + (hi - lo - 1) div 2
        in bnd (c_assert (lo \<le> mid \<and> mid < hi)) (\<lambda>_.
           bnd (data_at mid) (\<lambda>x.
           let r = cmp p x
           in if r > 0 then find_loop cmp p (mid + 1) hi
              else if r < 0 then find_loop cmp p lo mid
              else if hi - lo = 1 then ret (Some mid)
              else bnd (c_assert (mid + 1 < hi)) (\<lambda>_. find_loop cmp p lo (mid + 1))))
      else bnd (c_assert (lo = hi)) (\<lambda>_. ret None))"
  by pat_completeness auto
termination by (relation "measure (\<lambda>(cmp, p, lo, hi). hi - lo)") auto

declare find_loop.simps [simp del]

text \<open>\<^verbatim>\<open>OPENSSL_sk_find\<close> returns the index that the code leaves in \<^verbatim>\<open>*out_index\<close> when it returns one.\<close>

definition OPENSSL_sk_find :: "(u64 \<Rightarrow> u64 \<Rightarrow> u64 \<Rightarrow> int) \<Rightarrow> u64 \<Rightarrow> (stack option, nat option) cfun" where
  "OPENSSL_sk_find call_cmp_func p = on_sk None (\<lambda>s.
     if sk_comp s = 0 then first_index (\<lambda>x. x = p) 0 (sk_num s) s
     else if p = 0 then (Ok None, s)
     else if \<not> sk_is_sorted s then first_index (\<lambda>x. call_cmp_func (sk_comp s) p x = 0) 0 (sk_num s) s
     else find_loop (call_cmp_func (sk_comp s)) p 0 (sk_num s) s)"

subsection \<open>Heap sort\<close>

definition parent_idx :: "nat \<Rightarrow> (stack, nat) cfun" where
  "parent_idx idx = bnd (c_assert (idx > 0)) (\<lambda>_. ret ((idx - 1) div 2))"

definition left_idx :: "nat \<Rightarrow> (stack, nat) cfun" where
  "left_idx idx = bnd (c_assert (idx < 2 ^ 63)) (\<lambda>_. ret (2 * idx + 1))"

definition swap_data :: "nat \<Rightarrow> nat \<Rightarrow> (stack, unit) cfun" where
  "swap_data i j = bnd (data_at i) (\<lambda>tmp. bnd (data_at j) (\<lambda>x. bnd (set_data i x) (\<lambda>_. set_data j tmp)))"

text \<open>The larger one of two elements, and the child that the loop of \<^verbatim>\<open>down_heap\<close> goes on with, if it does.\<close>

definition larger_of :: "(u64 \<Rightarrow> u64 \<Rightarrow> int) \<Rightarrow> nat \<Rightarrow> nat \<Rightarrow> (stack, nat) cfun" where
  "larger_of cmp i j = bnd (data_at i) (\<lambda>x. bnd (data_at j) (\<lambda>y. ret (if cmp x y < 0 then j else i)))"

definition next_child :: "(u64 \<Rightarrow> u64 \<Rightarrow> int) \<Rightarrow> nat \<Rightarrow> nat \<Rightarrow> (stack, nat option) cfun" where
  "next_child cmp num i =
     bnd (left_idx i) (\<lambda>left.
     if left \<ge> num then ret None
     else bnd (larger_of cmp i left) (\<lambda>next.
          bnd (if left + 1 < num then larger_of cmp next (left + 1) else ret next) (\<lambda>next.
          ret (if i = next then None else Some next))))"

lemma larger_of_index: "larger_of cmp i j s = (Ok k, t) \<Longrightarrow> k = i \<or> k = j"
  by (auto simp: larger_of_def bnd_Ok_iff split: if_splits)

lemma next_child_index:
  assumes "next_child cmp num i s = (Ok (Some k), t)"
  shows "i < k \<and> k < num"
  using assms
  by (auto simp: next_child_def left_idx_def bnd_Ok_iff split: if_splits dest!: larger_of_index)

function down_heap_loop :: "(u64 \<Rightarrow> u64 \<Rightarrow> int) \<Rightarrow> nat \<Rightarrow> nat \<Rightarrow> (stack, unit) cfun" where
  "down_heap_loop cmp num i s =
     bnd (next_child cmp num i) (\<lambda>child s.
       case child of None \<Rightarrow> (Ok (), s)
       | Some next \<Rightarrow> bnd (swap_data i next) (\<lambda>_ s. down_heap_loop cmp num next s) s) s"
  by pat_completeness auto
termination
  by (relation "measure (\<lambda>(cmp, num, i, s). num - i)") (auto dest!: next_child_index)

declare down_heap_loop.simps [simp del]

definition down_heap :: "(u64 \<Rightarrow> u64 \<Rightarrow> int) \<Rightarrow> nat \<Rightarrow> nat \<Rightarrow> (stack, unit) cfun" where
  "down_heap cmp i num =
     bnd get_num (\<lambda>n. bnd (c_assert (i < num \<and> num \<le> n)) (\<lambda>_. down_heap_loop cmp num i))"

text \<open>The first loop counts down to 0 and ends when the index wraps around.\<close>

fun build_heap :: "(u64 \<Rightarrow> u64 \<Rightarrow> int) \<Rightarrow> nat \<Rightarrow> (stack, unit) cfun" where
  "build_heap cmp i =
     bnd get_num (\<lambda>num.
     if i < num then bnd (down_heap cmp i num) (\<lambda>_. if i = 0 then ret () else build_heap cmp (i - 1))
     else ret ())"

fun pop_heap :: "(u64 \<Rightarrow> u64 \<Rightarrow> int) \<Rightarrow> nat \<Rightarrow> (stack, unit) cfun" where
  "pop_heap cmp 0 = ret ()"
| "pop_heap cmp (Suc i) =
     bnd (swap_data 0 (Suc i)) (\<lambda>_. bnd (down_heap cmp 0 (Suc i)) (\<lambda>_. pop_heap cmp i))"

declare build_heap.simps [simp del]

definition OPENSSL_sk_sort :: "(u64 \<Rightarrow> u64 \<Rightarrow> u64 \<Rightarrow> int) \<Rightarrow> (stack option, unit) cfun" where
  "OPENSSL_sk_sort call_cmp_func = on_sk () (\<lambda>s.
     if sk_comp s = 0 \<or> sk_sorted s then (Ok (), s)
     else bnd get_num (\<lambda>num.
          bnd (if num \<ge> 2
               then bnd (parent_idx (num - 1)) (\<lambda>i.
                    bnd (build_heap (call_cmp_func (sk_comp s)) i) (\<lambda>_. pop_heap (call_cmp_func (sk_comp s)) (num - 1)))
               else ret ()) (\<lambda>_ s. (Ok (), s\<lparr>sk_sorted := True\<rparr>))) s)"

subsection \<open>Comparison functions\<close>

text \<open>What the sort and the search need of a comparison: it is a total preorder, and the two ways to ask agree.\<close>

locale comparison =
  fixes cmp :: "'a \<Rightarrow> 'a \<Rightarrow> int"
  assumes swapped: "cmp a b < 0 \<longleftrightarrow> 0 < cmp b a"
    and transitive: "cmp a b \<le> 0 \<Longrightarrow> cmp b c \<le> 0 \<Longrightarrow> cmp a c \<le> 0"
begin

lemma reflexive: "cmp a a = 0"
  using swapped [of a a] by linarith

lemma not_less: "\<not> cmp a b < 0 \<longleftrightarrow> cmp b a \<le> 0"
  using swapped [of a b] by linarith

lemma total: "cmp a b \<le> 0 \<or> cmp b a \<le> 0"
  using not_less [of a b] by linarith

lemma less_trans_left: "cmp a b < 0 \<Longrightarrow> cmp b c \<le> 0 \<Longrightarrow> cmp a c < 0"
  using transitive [of b c a] swapped [of a b] swapped [of a c] not_less [of a c] by linarith

lemma equal_left: "cmp a b = 0 \<Longrightarrow> cmp a c < 0 \<longleftrightarrow> cmp b c < 0"
  by (smt (verit) less_trans_left swapped transitive)

end

text \<open>The heap property of the first \<open>num\<close> elements, from index \<open>k\<close> on, everywhere or but for the children of \<open>i\<close>,
  which are then not above the parent of \<open>i\<close>.\<close>

definition heap_child :: "nat \<Rightarrow> nat \<Rightarrow> bool" where
  "heap_child p c \<longleftrightarrow> c = 2 * p + 1 \<or> c = 2 * p + 2"

definition heap_from :: "('a \<Rightarrow> 'a \<Rightarrow> int) \<Rightarrow> nat \<Rightarrow> nat \<Rightarrow> 'a list \<Rightarrow> bool" where
  "heap_from cmp k num xs \<longleftrightarrow> (\<forall>p c. k \<le> p \<longrightarrow> c < num \<longrightarrow> heap_child p c \<longrightarrow> cmp (xs ! c) (xs ! p) \<le> 0)"

definition heap_but :: "('a \<Rightarrow> 'a \<Rightarrow> int) \<Rightarrow> nat \<Rightarrow> nat \<Rightarrow> nat \<Rightarrow> 'a list \<Rightarrow> bool" where
  "heap_but cmp k num i xs \<longleftrightarrow>
     (\<forall>p c. k \<le> p \<longrightarrow> p \<noteq> i \<longrightarrow> c < num \<longrightarrow> heap_child p c \<longrightarrow> cmp (xs ! c) (xs ! p) \<le> 0) \<and>
     (\<forall>p c. k \<le> p \<longrightarrow> heap_child p i \<longrightarrow> heap_child i c \<longrightarrow> c < num \<longrightarrow> cmp (xs ! c) (xs ! p) \<le> 0)"

lemma child_unique: "heap_child p c \<Longrightarrow> heap_child q c \<Longrightarrow> p = q"
  by (auto simp: heap_child_def)

lemma child_less: "heap_child p c \<Longrightarrow> p < c"
  by (auto simp: heap_child_def)

text \<open>The effect of the loop of \<^verbatim>\<open>down_heap\<close> on the elements.\<close>

definition largest_child :: "('a \<Rightarrow> 'a \<Rightarrow> int) \<Rightarrow> nat \<Rightarrow> nat \<Rightarrow> 'a list \<Rightarrow> nat" where
  "largest_child cmp num i xs =
     (let next = (if cmp (xs ! i) (xs ! (2 * i + 1)) < 0 then 2 * i + 1 else i)
      in if 2 * i + 2 < num \<and> cmp (xs ! next) (xs ! (2 * i + 2)) < 0 then 2 * i + 2 else next)"

lemma largest_child_cases: "largest_child cmp num i xs \<in> {i, 2 * i + 1, 2 * i + 2}"
  by (auto simp: largest_child_def Let_def)

lemma largest_child_room: "2 * i + 1 < num \<Longrightarrow> largest_child cmp num i xs < num"
  by (auto simp: largest_child_def Let_def)

definition swap_at :: "nat \<Rightarrow> nat \<Rightarrow> 'a list \<Rightarrow> 'a list" where
  "swap_at i j xs = xs[i := xs ! j, j := xs ! i]"

lemma length_swap_at [simp]: "length (swap_at i j xs) = length xs"
  by (simp add: swap_at_def)

lemma mset_swap_at [simp]: "i < length xs \<Longrightarrow> j < length xs \<Longrightarrow> mset (swap_at i j xs) = mset xs"
  unfolding swap_at_def by (rule mset_swap)

lemma nth_swap_at:
  "i < length xs \<Longrightarrow> j < length xs \<Longrightarrow> swap_at i j xs ! k = (if k = i then xs ! j else if k = j then xs ! i else xs ! k)"
  by (auto simp: swap_at_def nth_list_update)

lemma swap_at_top:
  "j < length xs \<Longrightarrow> mset (swap_at 0 j xs) = mset xs"
  "j < length xs \<Longrightarrow> swap_at 0 j xs ! k = (if k = 0 then xs ! j else if k = j then xs ! 0 else xs ! k)"
  using mset_swap_at [of 0 xs j] nth_swap_at [of 0 xs j k] by (cases xs; simp)+

lemma drop_swap_at: "i < n \<Longrightarrow> j < n \<Longrightarrow> drop n (swap_at i j xs) = drop n xs"
  by (simp add: swap_at_def)

function sift :: "('a \<Rightarrow> 'a \<Rightarrow> int) \<Rightarrow> nat \<Rightarrow> nat \<Rightarrow> 'a list \<Rightarrow> 'a list" where
  "sift cmp num i xs =
     (if num \<le> 2 * i + 1 \<or> largest_child cmp num i xs = i then xs
      else sift cmp num (largest_child cmp num i xs) (swap_at i (largest_child cmp num i xs) xs))"
  by pat_completeness auto
termination
proof (relation "measure (\<lambda>(cmp, num, i, xs). num - i)", goal_cases)
  case (2 cmp num i xs)
  then show ?case using largest_child_cases [of cmp num i xs] by auto
qed simp

declare sift.simps [simp del]

lemma sift_keeps:
  "num \<le> length xs \<Longrightarrow> length (sift cmp num i xs) = length xs \<and> mset (sift cmp num i xs) = mset xs \<and> drop num (sift cmp num i xs) = drop num xs"
proof (induction cmp num i xs rule: sift.induct)
  case (1 cmp num i xs)
  show ?case
  proof (cases "num \<le> 2 * i + 1 \<or> largest_child cmp num i xs = i")
    case True
    then show ?thesis by (subst (1 2 3) sift.simps) simp
  next
    case False
    let ?j = "largest_child cmp num i xs"
    have "?j < num" "i < num" using False largest_child_room [of i num cmp xs] by auto
    then show ?thesis using 1 False by (subst (1 2 3) sift.simps) (simp add: drop_swap_at)
  qed
qed

context comparison
begin

lemma largest_child_max:
  assumes "heap_child i c" "c < num"
  shows "cmp (xs ! c) (xs ! largest_child cmp num i xs) \<le> 0"
  using assms reflexive swapped transitive not_less total
  unfolding heap_child_def largest_child_def Let_def
  by (smt (verit, ccfv_threshold) add_2_eq_Suc')

lemma largest_child_above: "cmp (xs ! i) (xs ! largest_child cmp num i xs) \<le> 0"
  unfolding largest_child_def Let_def using reflexive transitive
  by (smt (verit, ccfv_threshold))

text \<open>Swapping an element with its largest child moves the gap down.\<close>

lemma swap_heap_but:
  assumes h: "heap_but cmp k num i xs" and k: "k \<le> i" and len: "num \<le> length xs" "2 * i + 1 < num"
    and j: "j = largest_child cmp num i xs" "j \<noteq> i"
  shows "heap_but cmp k num j (swap_at i j xs)"
proof -
  have ij: "j < num" "i < j" "heap_child i j"
    using largest_child_room [OF len(2), of cmp xs] largest_child_cases [of cmp num i xs] j by (auto simp: heap_child_def)
  have nth: "swap_at i j xs ! c = (if c = i then xs ! j else if c = j then xs ! i else xs ! c)" for c
    using ij len by (simp add: nth_swap_at)
  have out: "cmp (xs ! c) (xs ! p) \<le> 0" if "k \<le> p" "p \<noteq> i" "c < num" "heap_child p c" for p c
    using h that by (simp add: heap_but_def)
  have up: "cmp (xs ! c) (xs ! p) \<le> 0" if "k \<le> p" "heap_child p i" "heap_child i c" "c < num" for p c
    using h that by (auto simp: heap_but_def)
  show ?thesis
    unfolding heap_but_def
  proof (intro conjI allI impI)
    fix p c
    assume c: "k \<le> p" "p \<noteq> j" "c < num" "heap_child p c"
    show "cmp (swap_at i j xs ! c) (swap_at i j xs ! p) \<le> 0"
    proof (cases "p = i")
      case True
      then show ?thesis
        using c child_less [of i c] largest_child_above [of xs i num] largest_child_max [of i c num xs]
        unfolding j(1) [symmetric] by (auto simp: nth)
    next
      case False
      then have "c \<noteq> j" using c(4) child_unique ij(3) by blast
      then show ?thesis using False c out [of p c] up [of p j] ij by (auto simp: nth)
    qed
  next
    fix p c
    assume c: "k \<le> p" "heap_child p j" "heap_child j c" "c < num"
    then have "p = i" using child_unique ij(3) by blast
    then show "cmp (swap_at i j xs ! c) (swap_at i j xs ! p) \<le> 0"
      using c out [of j c] ij child_less [of j c] k by (simp add: nth)
  qed
qed

lemma largest_child_done:
  assumes h: "heap_but cmp k num i xs" and i: "num \<le> 2 * i + 1 \<or> largest_child cmp num i xs = i"
  shows "heap_from cmp k num xs"
  unfolding heap_from_def
proof (intro allI impI)
  fix p c
  assume c: "k \<le> p" "c < num" "heap_child p c"
  show "cmp (xs ! c) (xs ! p) \<le> 0"
  proof (cases "p = i")
    case True
    then show ?thesis using largest_child_max [of i c num xs] i c by (auto simp: heap_child_def)
  next
    case False
    then show ?thesis using h c by (simp add: heap_but_def)
  qed
qed

lemma sift_heap:
  assumes "num \<le> length xs" "heap_but cmp k num i xs" "k \<le> i"
  shows "heap_from cmp k num (sift cmp num i xs)"
  using assms
proof (induction "num - i" arbitrary: i xs rule: less_induct)
  case less
  show ?case
  proof (cases "num \<le> 2 * i + 1 \<or> largest_child cmp num i xs = i")
    case True
    then show ?thesis using largest_child_done [OF less.prems(2)] by (subst sift.simps) simp
  next
    case False
    let ?j = "largest_child cmp num i xs"
    have j: "i < ?j" "?j < num" using False largest_child_room [of i num cmp xs] largest_child_cases [of cmp num i xs] by auto
    have "heap_from cmp k num (sift cmp num ?j (swap_at i ?j xs))"
      by (rule less.hyps) (use j False less.prems swap_heap_but [OF less.prems(2,3,1) _ refl] in auto)
    then show ?thesis using False by (subst sift.simps) simp
  qed
qed

text \<open>The top of a heap is its maximum.\<close>

lemma heap_top:
  assumes "heap_from cmp 0 num xs" "c < num"
  shows "cmp (xs ! c) (xs ! 0) \<le> 0"
  using assms(2)
proof (induction c rule: less_induct)
  case (less c)
  show ?case
  proof (cases "c = 0")
    case False
    let ?p = "(c - 1) div 2"
    have "heap_child ?p c" "?p < c" using False by (auto simp: heap_child_def)
    then have "cmp (xs ! c) (xs ! ?p) \<le> 0" "cmp (xs ! ?p) (xs ! 0) \<le> 0"
      using assms(1) less by (auto simp: heap_from_def)
    then show ?thesis by (rule transitive)
  qed (simp add: reflexive)
qed

end

text \<open>The two loops of \<^verbatim>\<open>OPENSSL_sk_sort\<close> on the elements.\<close>

fun heapify :: "('a \<Rightarrow> 'a \<Rightarrow> int) \<Rightarrow> nat \<Rightarrow> nat \<Rightarrow> 'a list \<Rightarrow> 'a list" where
  "heapify cmp num 0 xs = sift cmp num 0 xs"
| "heapify cmp num (Suc i) xs = heapify cmp num i (sift cmp num (Suc i) xs)"

fun unheap :: "('a \<Rightarrow> 'a \<Rightarrow> int) \<Rightarrow> nat \<Rightarrow> 'a list \<Rightarrow> 'a list" where
  "unheap cmp 0 xs = xs"
| "unheap cmp (Suc i) xs = unheap cmp i (sift cmp (Suc i) 0 (swap_at 0 (Suc i) xs))"

definition heap_sort :: "('a \<Rightarrow> 'a \<Rightarrow> int) \<Rightarrow> 'a list \<Rightarrow> 'a list" where
  "heap_sort cmp xs =
     (if length xs \<ge> 2 then unheap cmp (length xs - 1) (heapify cmp (length xs) ((length xs - 2) div 2) xs) else xs)"

lemma heapify_keeps:
  "length xs = num \<Longrightarrow> length (heapify cmp num i xs) = num \<and> mset (heapify cmp num i xs) = mset xs"
  by (induction i arbitrary: xs) (simp_all add: sift_keeps)

lemma unheap_keeps:
  "i < length xs \<Longrightarrow> length (unheap cmp i xs) = length xs \<and> mset (unheap cmp i xs) = mset xs"
  by (induction i arbitrary: xs) (simp_all add: sift_keeps swap_at_top)

lemma mset_heap_sort: "mset (heap_sort cmp xs) = mset xs"
  using heapify_keeps [of xs "length xs" cmp "(length xs - 2) div 2"]
    unheap_keeps [of "length xs - 1" "heapify cmp (length xs) ((length xs - 2) div 2) xs" cmp]
  by (auto simp: heap_sort_def)

context comparison
begin

lemma heapify_heap:
  "length xs = num \<Longrightarrow> heap_from cmp (Suc i) num xs \<Longrightarrow> heap_from cmp 0 num (heapify cmp num i xs)"
proof (induction i arbitrary: xs)
  case 0
  have "heap_but cmp 0 num 0 xs" using 0 by (auto simp: heap_but_def heap_from_def heap_child_def)
  then show ?case using sift_heap [of num xs 0 0] 0 by simp
next
  case (Suc i)
  have "heap_but cmp (Suc i) num (Suc i) xs" using Suc.prems by (auto simp: heap_but_def heap_from_def heap_child_def)
  then show ?case using Suc.IH sift_heap [of num xs "Suc i" "Suc i"] sift_keeps [of num xs cmp "Suc i"] Suc.prems by simp
qed

abbreviation below :: "'a \<Rightarrow> 'a \<Rightarrow> bool" where
  "below a b \<equiv> cmp a b \<le> 0"

lemma unheap_sorted:
  assumes "i < length xs" "heap_from cmp 0 (Suc i) xs" "sorted_wrt below (drop (Suc i) xs)"
    "\<forall>a \<in> set (take (Suc i) xs). \<forall>b \<in> set (drop (Suc i) xs). below a b"
  shows "sorted_wrt below (unheap cmp i xs)"
  using assms
proof (induction i arbitrary: xs)
  case 0
  then have "sorted_wrt below (xs ! 0 # drop (Suc 0) xs)" by (cases xs) auto
  then show ?case using 0(1) by (cases xs) auto
next
  case (Suc i)
  let ?ys = "swap_at 0 (Suc i) xs"
  let ?zs = "sift cmp (Suc i) 0 ?ys"
  have len: "length ?zs = length xs" and drop: "drop (Suc i) ?zs = drop (Suc i) ?ys" and m: "mset ?zs = mset ?ys"
    using sift_keeps [of "Suc i" ?ys cmp 0] Suc.prems(1) by simp_all
  have nth: "?ys ! c = (if c = 0 then xs ! Suc i else if c = Suc i then xs ! 0 else xs ! c)" for c
    using Suc.prems(1) by (simp add: swap_at_top)
  have "below (?ys ! c) (?ys ! p)" if c: "p \<noteq> 0" "c < Suc i" "heap_child p c" for p c
  proof -
    have "below (xs ! c) (xs ! p)" using Suc.prems(2) c by (simp add: heap_from_def)
    then show ?thesis using c child_less [OF c(3)] by (simp add: nth)
  qed
  then have "heap_but cmp 0 (Suc i) 0 ?ys" by (auto simp: heap_but_def heap_child_def)
  then have heap: "heap_from cmp 0 (Suc i) ?zs" using sift_heap [of "Suc i" ?ys 0 0] Suc.prems(1) by simp
  have tail: "drop (Suc i) ?ys = xs ! 0 # drop (Suc (Suc i)) xs"
    using Suc.prems(1) by (subst Cons_nth_drop_Suc [symmetric]) (simp_all add: nth drop_swap_at)
  have "mset (take (Suc i) ?zs) + mset (drop (Suc i) ?zs) = mset (take (Suc i) ?ys) + mset (drop (Suc i) ?ys)"
    using m by (metis append_take_drop_id mset_append)
  then have front: "set (take (Suc i) ?zs) = set (take (Suc i) ?ys)"
    using drop by (metis add_right_cancel set_mset_mset)
  have mem: "xs ! k \<in> set (take (Suc (Suc i)) xs)" if "k < Suc (Suc i)" for k
    using that Suc.prems(1) by (force simp: in_set_conv_nth)
  have old: "set (take (Suc i) ?ys) \<subseteq> set (take (Suc (Suc i)) xs)"
  proof
    fix a
    assume "a \<in> set (take (Suc i) ?ys)"
    then obtain k where "k < Suc i" "a = ?ys ! k" using Suc.prems(1) by (auto simp: in_set_conv_nth)
    then show "a \<in> set (take (Suc (Suc i)) xs)" using mem [of k] mem [of "Suc i"] by (auto simp: nth)
  qed
  have top: "below a (xs ! 0)" if "a \<in> set (take (Suc (Suc i)) xs)" for a
    using that heap_top [OF Suc.prems(2)] by (auto simp: in_set_conv_nth)
  have "sorted_wrt below (unheap cmp i ?zs)"
    using Suc.IH [of ?zs] Suc.prems(1,3,4) heap len top old mem [of 0] by (auto simp: drop tail front)
  then show ?case by simp
qed

lemma heap_sort_sorted: "sorted_wrt below (heap_sort cmp xs)"
proof (cases "length xs \<ge> 2")
  case True
  let ?n = "length xs" and ?h = "heapify cmp (length xs) ((length xs - 2) div 2) xs"
  have "heap_from cmp (Suc ((?n - 2) div 2)) ?n xs" using True by (auto simp: heap_from_def heap_child_def)
  then have "heap_from cmp 0 ?n ?h" by (intro heapify_heap) simp_all
  moreover have "length ?h = ?n" using heapify_keeps [of xs ?n cmp] by simp
  moreover have "Suc (?n - 1) = ?n" using True by simp
  ultimately show ?thesis using True unheap_sorted [of "?n - 1" ?h] by (simp add: heap_sort_def)
next
  case False
  then show ?thesis by (cases xs; cases "tl xs") (auto simp: heap_sort_def)
qed

end

subsection \<open>The sort on a stack\<close>

text \<open>A stack after an operation, with new elements and all else as it was.\<close>

definition becomes :: "stack \<Rightarrow> u64 list \<Rightarrow> stack \<Rightarrow> bool" where
  "becomes s xs t \<longleftrightarrow> stack_with t xs \<and> sk_comp t = sk_comp s \<and> sk_sorted t = sk_sorted s"

lemma becomes_refl: "stack_with s xs \<Longrightarrow> becomes s xs s"
  by (simp add: becomes_def)

lemma becomes_trans: "becomes s xs t \<Longrightarrow> becomes t ys u \<Longrightarrow> becomes s ys u"
  by (simp add: becomes_def)

lemma becomes_with: "becomes s xs t \<Longrightarrow> stack_with t xs"
  by (simp add: becomes_def)

lemma larger_of_elements:
  assumes "stack_with s xs" "i < length xs" "j < length xs"
  shows "larger_of cmp i j s = (Ok (if cmp (xs ! i) (xs ! j) < 0 then j else i), s)"
  using data_at_elements [OF assms(1)] assms(2,3) by (simp add: larger_of_def seq_simps)

lemma next_child_elements:
  assumes s: "stack_with s xs" and n: "i < num" "num \<le> length xs"
  shows "next_child cmp num i s =
    (Ok (if num \<le> 2 * i + 1 \<or> largest_child cmp num i xs = i then None else Some (largest_child cmp num i xs)), s)"
proof -
  have "length xs \<le> max_int" using s stack_okD(3) [of s] stack_with_num [OF s] by (simp add: stack_with_def)
  then have l: "left_idx i s = (Ok (2 * i + 1), s)" using n by (simp add: left_idx_def)
  show ?thesis
  proof (cases "num \<le> 2 * i + 1")
    case True
    then show ?thesis by (simp add: next_child_def l seq_simps)
  next
    case False
    define k where "k = (if cmp (xs ! i) (xs ! (2 * i + 1)) < 0 then 2 * i + 1 else i)"
    have k: "larger_of cmp i (Suc (2 * i)) s = (Ok k, s)" "k < length xs"
      using larger_of_elements [OF s] n False by (simp_all add: k_def)
    have r: "(if Suc (Suc (2 * i)) < num then larger_of cmp k (Suc (Suc (2 * i))) else ret k) s = (Ok (largest_child cmp num i xs), s)"
      using larger_of_elements [OF s k(2), of "Suc (Suc (2 * i))"] n False by (simp add: largest_child_def Let_def k_def)
    show ?thesis using False r by (cases "Suc (Suc (2 * i)) < num") (auto simp: next_child_def l k(1) seq_simps)
  qed
qed

lemma swap_data_elements:
  assumes s: "stack_with s xs" and ij: "i < length xs" "j < length xs"
  shows "\<exists>t. swap_data i j s = (Ok (), t) \<and> becomes s (swap_at i j xs) t"
proof -
  obtain u where u: "set_data i (xs ! j) s = (Ok (), u)" "becomes s (xs[i := xs ! j]) u"
    using set_elements [OF s ij(1)] by (auto simp: becomes_def)
  obtain t where t: "set_data j (xs ! i) u = (Ok (), t)" "becomes u (swap_at i j xs) t"
    using set_elements [OF becomes_with [OF u(2)], of j "xs ! i"] ij by (auto simp: becomes_def swap_at_def)
  show ?thesis using becomes_trans [OF u(2) t(2)]
    by (auto simp: swap_data_def seq_simps data_at_elements [OF s ij(1)] data_at_elements [OF s ij(2)] u(1) t(1))
qed

lemma down_heap_loop_elements:
  assumes "stack_with s xs" "i < num" "num \<le> length xs"
  shows "\<exists>t. down_heap_loop cmp num i s = (Ok (), t) \<and> becomes s (sift cmp num i xs) t"
  using assms
proof (induction "num - i" arbitrary: i s xs rule: less_induct)
  case less
  note child = next_child_elements [OF less.prems, of cmp]
  show ?case
  proof (cases "num \<le> 2 * i + 1 \<or> largest_child cmp num i xs = i")
    case True
    then show ?thesis using becomes_refl [OF less.prems(1)]
      by (auto simp: down_heap_loop.simps [of cmp num i s] sift.simps [of cmp num i xs] child seq_simps)
  next
    case False
    let ?j = "largest_child cmp num i xs"
    have j: "i < ?j" "?j < num" using False largest_child_room [of i num cmp xs] largest_child_cases [of cmp num i xs] by auto
    then have smaller: "num - ?j < num - i" by simp
    obtain u where u: "swap_data i ?j s = (Ok (), u)" "becomes s (swap_at i ?j xs) u"
      using swap_data_elements [OF less.prems(1), of i ?j] j less.prems by auto
    obtain t where t: "down_heap_loop cmp num ?j u = (Ok (), t)" "becomes u (sift cmp num ?j (swap_at i ?j xs)) t"
      using less.hyps [OF smaller, of u "swap_at i ?j xs"] j less.prems becomes_with [OF u(2)] by auto
    show ?thesis using False becomes_trans [OF u(2) t(2)] t(1)
      by (auto simp: down_heap_loop.simps [of cmp num i s] sift.simps [of cmp num i xs] child seq_simps u(1))
  qed
qed

lemma down_heap_elements:
  assumes s: "stack_with s xs" and n: "i < num" "num \<le> length xs"
  shows "\<exists>t. down_heap cmp i num s = (Ok (), t) \<and> becomes s (sift cmp num i xs) t"
  using down_heap_loop_elements [OF s n] n stack_with_num [OF s] by (simp add: down_heap_def)

lemma build_heap_elements:
  "stack_with s xs \<Longrightarrow> i < length xs \<Longrightarrow>
     \<exists>t. build_heap cmp i s = (Ok (), t) \<and> becomes s (heapify cmp (length xs) i xs) t"
proof (induction i arbitrary: s xs)
  case 0
  then show ?case using down_heap_elements [OF 0(1), of 0 "length xs" cmp] stack_with_num [OF 0(1)]
    by (auto simp: build_heap.simps [of cmp 0] seq_simps)
next
  case (Suc i)
  obtain u where u: "down_heap cmp (Suc i) (length xs) s = (Ok (), u)" "becomes s (sift cmp (length xs) (Suc i) xs) u"
    using down_heap_elements [OF Suc.prems, of cmp] by auto
  obtain t where "build_heap cmp i u = (Ok (), t)" "becomes u (heapify cmp (length xs) i (sift cmp (length xs) (Suc i) xs)) t"
    using Suc.IH [OF becomes_with [OF u(2)]] Suc.prems(2) sift_keeps [of "length xs" xs cmp "Suc i"] by auto
  then show ?case using becomes_trans [OF u(2)] u(1) Suc.prems(2) stack_with_num [OF Suc.prems(1)]
    by (auto simp: build_heap.simps [of cmp "Suc i"] seq_simps)
qed

lemma pop_heap_elements:
  "stack_with s xs \<Longrightarrow> i < length xs \<Longrightarrow> \<exists>t. pop_heap cmp i s = (Ok (), t) \<and> becomes s (unheap cmp i xs) t"
proof (induction i arbitrary: s xs)
  case 0
  then show ?case using becomes_refl by auto
next
  case (Suc i)
  obtain u where u: "swap_data 0 (Suc i) s = (Ok (), u)" "becomes s (swap_at 0 (Suc i) xs) u"
    using swap_data_elements [OF Suc.prems(1), of 0 "Suc i"] Suc.prems(2) by (cases xs) auto
  let ?ys = "sift cmp (Suc i) 0 (swap_at 0 (Suc i) xs)"
  obtain v where v: "down_heap cmp 0 (Suc i) u = (Ok (), v)" "becomes u ?ys v"
    using down_heap_elements [OF becomes_with [OF u(2)], of 0 "Suc i" cmp] Suc.prems(2) by auto
  have "i < length ?ys" using Suc.prems(2) by (simp add: sift_keeps)
  then obtain t where "pop_heap cmp i v = (Ok (), t)" "becomes v (unheap cmp i ?ys) t"
    using Suc.IH [OF becomes_with [OF v(2)]] by auto
  then show ?case using becomes_trans [OF u(2) becomes_trans [OF v(2)]] u(1) v(1) by (auto simp: seq_simps)
qed

lemma sort_elements:
  assumes s: "stack_with s xs" and c: "sk_comp s \<noteq> 0" "\<not> sk_sorted s"
  shows "\<exists>t. OPENSSL_sk_sort call_cmp_func (Some s) = (Ok (), Some t) \<and>
    stack_with t (heap_sort (call_cmp_func (sk_comp s)) xs) \<and> sk_comp t = sk_comp s \<and> sk_sorted t"
proof -
  let ?cmp = "call_cmp_func (sk_comp s)"
  have n: "sk_num s = length xs" by (rule stack_with_num [OF s])
  have flag: "stack_with (t\<lparr>sk_sorted := True\<rparr>) ys" if "becomes s ys t" for t ys
    using that by (simp add: becomes_def stack_with_def stack_ok_def elements_def)
  show ?thesis
  proof (cases "length xs \<ge> 2")
    case False
    then show ?thesis using flag [OF becomes_refl [OF s]] c n
      by (auto simp: OPENSSL_sk_sort_def on_sk_def heap_sort_def)
  next
    case True
    let ?i = "(length xs - 2) div 2"
    have i: "?i < length xs" using True by linarith
    have p: "parent_idx (length xs - 1) s = (Ok ?i, s)"
      using True by (simp add: parent_idx_def numeral_2_eq_2)
    obtain u where u: "build_heap ?cmp ?i s = (Ok (), u)" "becomes s (heapify ?cmp (length xs) ?i xs) u"
      using build_heap_elements [OF s, of ?i ?cmp] i by auto
    have last: "length xs - 1 < length (heapify ?cmp (length xs) ?i xs)" using True heapify_keeps [of xs "length xs" ?cmp ?i] by linarith
    obtain t where t: "pop_heap ?cmp (length xs - 1) u = (Ok (), t)"
        "becomes u (unheap ?cmp (length xs - 1) (heapify ?cmp (length xs) ?i xs)) t"
      using pop_heap_elements [OF becomes_with [OF u(2)] last] by blast
    have r: "becomes s (heap_sort ?cmp xs) t" using becomes_trans [OF u(2) t(2)] True by (simp add: heap_sort_def)
    have "OPENSSL_sk_sort call_cmp_func (Some s) = (Ok (), Some (t\<lparr>sk_sorted := True\<rparr>))"
      unfolding OPENSSL_sk_sort_def by (rule on_sk_Some) (use c n True p u(1) t(1) in \<open>simp add: seq_simps\<close>)
    then show ?thesis using flag [OF r] r by (auto simp: becomes_def)
  qed
qed

subsection \<open>The binary search on a stack\<close>

context comparison
begin

text \<open>In a sorted list the elements equal to \<open>p\<close> come behind those that are smaller and before those that are
  larger.\<close>

lemma sorted_sides:
  assumes "sorted_wrt below xs" "i < j" "j < length xs"
  shows "cmp p (xs ! j) > 0 \<Longrightarrow> cmp p (xs ! i) > 0" "cmp p (xs ! i) < 0 \<Longrightarrow> cmp p (xs ! j) < 0"
proof -
  have b: "below (xs ! i) (xs ! j)" using sorted_wrt_nth_less [OF assms] .
  show "cmp p (xs ! i) > 0" if "cmp p (xs ! j) > 0"
    using that b transitive [of "p" "xs ! i" "xs ! j"] by linarith
  show "cmp p (xs ! j) < 0" if "cmp p (xs ! i) < 0"
    by (rule less_trans_left [OF that b])
qed

end

text \<open>The first index of \<open>lo..<hi\<close> with an element equal to \<open>p\<close>.\<close>

definition first_in :: "('a \<Rightarrow> 'a \<Rightarrow> int) \<Rightarrow> 'a \<Rightarrow> 'a list \<Rightarrow> nat \<Rightarrow> nat \<Rightarrow> nat option" where
  "first_in cmp p xs lo hi = List.find (\<lambda>i. cmp p (xs ! i) = 0) [lo..<hi]"

lemma find_append: "List.find P (xs @ ys) = (case List.find P xs of None \<Rightarrow> List.find P ys | Some x \<Rightarrow> Some x)"
  by (induction xs) simp_all

lemma first_in_split:
  assumes "lo \<le> m" "m \<le> hi"
  shows "first_in cmp p xs lo hi = (case first_in cmp p xs lo m of None \<Rightarrow> first_in cmp p xs m hi | Some i \<Rightarrow> Some i)"
proof -
  have "[lo..<hi] = [lo..<m] @ [m..<hi]" using assms upt_add_eq_append [of lo m "hi - m"] by simp
  then show ?thesis by (simp add: first_in_def find_append cong: option.case_cong)
qed

lemma first_in_None: "first_in cmp p xs lo hi = None \<longleftrightarrow> (\<forall>i. lo \<le> i \<and> i < hi \<longrightarrow> cmp p (xs ! i) \<noteq> 0)"
  by (auto simp: first_in_def find_None_iff)

lemma first_in_skip:
  "lo \<le> m \<Longrightarrow> m \<le> hi \<Longrightarrow> (\<And>i. lo \<le> i \<Longrightarrow> i < m \<Longrightarrow> cmp p (xs ! i) \<noteq> 0) \<Longrightarrow> first_in cmp p xs lo hi = first_in cmp p xs m hi"
  using first_in_split [of lo m hi cmp p xs] first_in_None [of cmp p xs lo m] by auto

lemma first_in_cut:
  "lo \<le> m \<Longrightarrow> m \<le> hi \<Longrightarrow> (\<And>i. m \<le> i \<Longrightarrow> i < hi \<Longrightarrow> cmp p (xs ! i) \<noteq> 0) \<Longrightarrow> first_in cmp p xs lo hi = first_in cmp p xs lo m"
  using first_in_split [of lo m hi cmp p xs] first_in_None [of cmp p xs m hi] by (auto split: option.splits)

lemma first_in_match:
  assumes "lo \<le> m" "m < hi" "cmp p (xs ! m) = 0"
  shows "first_in cmp p xs lo hi = first_in cmp p xs lo (m + 1)"
proof -
  have "first_in cmp p xs lo (m + 1) \<noteq> None" using assms by (auto simp: first_in_None)
  then show ?thesis using first_in_split [of lo "m + 1" hi cmp p xs] assms by (auto split: option.splits)
qed

lemma first_in_elements:
  "first_in cmp p xs 0 (length xs) =
     (if \<exists>x \<in> set xs. cmp p x = 0 then Some (length (takeWhile (\<lambda>x. cmp p x \<noteq> 0) xs)) else None)"
proof (cases "\<exists>x \<in> set xs. cmp p x = 0")
  case True
  let ?i = "length (takeWhile (\<lambda>x. cmp p x \<noteq> 0) xs)"
  have i: "?i < length xs" "cmp p (xs ! ?i) = 0" using True by (induction xs) auto
  have "cmp p (xs ! j) \<noteq> 0" if "j < ?i" for j
    using set_takeWhileD [OF nth_mem [OF that]] takeWhile_nth [OF that] by simp
  then have "first_in cmp p xs 0 (length xs) = first_in cmp p xs ?i (length xs)"
    using i by (intro first_in_skip) auto
  moreover have "[?i..<length xs] = ?i # [Suc ?i..<length xs]" using i(1) by (rule upt_conv_Cons)
  ultimately show ?thesis using True i(2) by (simp add: first_in_def)
next
  case False
  then have "first_in cmp p xs 0 (length xs) = None" by (auto simp: first_in_None)
  then show ?thesis using False by simp
qed

context comparison
begin

lemma narrow_right:
  assumes "sorted_wrt below xs" "lo \<le> mid" "mid < hi" "hi \<le> length xs" and m: "cmp p (xs ! mid) > 0"
  shows "first_in cmp p xs lo hi = first_in cmp p xs (mid + 1) hi"
proof (rule first_in_skip)
  fix i
  assume "lo \<le> i" "i < mid + 1"
  then show "cmp p (xs ! i) \<noteq> 0" using sorted_sides(1) [OF assms(1), of i mid p] assms(3,4) m by (cases "i = mid") auto
qed (use assms in auto)

lemma narrow_left:
  assumes "sorted_wrt below xs" "lo \<le> mid" "mid < hi" "hi \<le> length xs" and m: "cmp p (xs ! mid) < 0"
  shows "first_in cmp p xs lo hi = first_in cmp p xs lo mid"
proof (rule first_in_cut)
  fix i
  assume "mid \<le> i" "i < hi"
  then show "cmp p (xs ! i) \<noteq> 0" using sorted_sides(2) [OF assms(1), of mid i p] assms(3,4) m by (cases "i = mid") auto
qed (use assms in auto)

end

lemma find_loop_elements:
  assumes c: "comparison cmp" and s: "stack_with s xs" and o: "sorted_wrt (\<lambda>a b. cmp a b \<le> 0) xs"
  shows "lo \<le> hi \<Longrightarrow> hi \<le> length xs \<Longrightarrow> find_loop cmp p lo hi s = (Ok (first_in cmp p xs lo hi), s)"
proof (induction "hi - lo" arbitrary: lo hi rule: less_induct)
  case less
  show ?case
  proof (cases "lo < hi")
    case False
    then show ?thesis using less.prems by (subst find_loop.simps) (simp add: first_in_def)
  next
    case True
    define mid where "mid = lo + (hi - lo - 1) div 2"
    have mid: "lo \<le> mid" "mid < hi" "hi - lo \<noteq> 1 \<Longrightarrow> mid + 1 < hi" using True by (auto simp: mid_def)
    have d: "data_at mid s = (Ok (xs ! mid), s)" using data_at_elements [OF s] mid less.prems by simp
    note loop = find_loop.simps [of cmp p lo hi, folded mid_def]
    consider "cmp p (xs ! mid) > 0" | "cmp p (xs ! mid) < 0" | (here) "cmp p (xs ! mid) = 0" by linarith
    then show ?thesis
    proof cases
      case 1
      have "find_loop cmp p (mid + 1) hi s = (Ok (first_in cmp p xs (mid + 1) hi), s)"
        by (rule less.hyps) (use mid less.prems in auto)
      then show ?thesis using 1 True mid comparison.narrow_right [OF c o mid(1,2) less.prems(2) 1]
        by (simp add: loop Let_def d seq_simps)
    next
      case 2
      have "find_loop cmp p lo mid s = (Ok (first_in cmp p xs lo mid), s)"
        by (rule less.hyps) (use mid less.prems in auto)
      then show ?thesis using 2 True mid comparison.narrow_left [OF c o mid(1,2) less.prems(2) 2]
        by (simp add: loop Let_def d seq_simps)
    next
      case here
      show ?thesis
      proof (cases "hi - lo = 1")
        case one: True
        then have "hi = Suc lo" "mid = lo" by (simp_all add: mid_def)
        then have "first_in cmp p xs lo hi = Some mid" using here by (simp add: first_in_def)
        then show ?thesis using here True mid one by (simp add: loop Let_def d seq_simps)
      next
        case False
        have "find_loop cmp p lo (mid + 1) s = (Ok (first_in cmp p xs lo (mid + 1)), s)"
          by (rule less.hyps) (use mid False less.prems in auto)
        then show ?thesis using here True mid False first_in_match [where cmp = cmp and p = p and xs = xs, OF mid(1,2) here]
          by (simp add: loop Let_def d seq_simps)
      qed
    qed
  qed
qed

subsection \<open>The flag, and what a search finds\<close>

definition first_where :: "('a \<Rightarrow> bool) \<Rightarrow> 'a list \<Rightarrow> nat option" where
  "first_where P xs = (if \<exists>x \<in> set xs. P x then Some (length (takeWhile (Not \<circ> P) xs)) else None)"

text \<open>The flag of a stack is true: where it is set, the elements are in the order of the comparison function.\<close>

definition flag_true :: "(u64 \<Rightarrow> u64 \<Rightarrow> u64 \<Rightarrow> int) \<Rightarrow> stack \<Rightarrow> bool" where
  "flag_true call_cmp_func s \<longleftrightarrow>
     (sk_sorted s \<longrightarrow> sorted_wrt (\<lambda>a b. call_cmp_func (sk_comp s) a b \<le> 0) (elements s))"

text \<open>What \<open>OPENSSL_sk_find\<close> takes for a match.\<close>

definition matches :: "(u64 \<Rightarrow> u64 \<Rightarrow> u64 \<Rightarrow> int) \<Rightarrow> u64 \<Rightarrow> u64 \<Rightarrow> u64 \<Rightarrow> bool" where
  "matches call_cmp_func c p x \<longleftrightarrow> (if c = 0 then x = p else p \<noteq> 0 \<and> call_cmp_func c p x = 0)"

lemma first_index_where: "stack_with s xs \<Longrightarrow> first_index P 0 (sk_num s) s = (Ok (first_where P xs), s)"
  using first_index_elements [of s xs 0 "length xs" P] stack_with_num [of s xs] by (simp add: first_where_def)

lemma find_elements:
  assumes s: "stack_with s xs" and c: "sk_comp s \<noteq> 0 \<Longrightarrow> comparison (call_cmp_func (sk_comp s))" and f: "flag_true call_cmp_func s"
  shows "OPENSSL_sk_find call_cmp_func p (Some s) = (Ok (first_where (matches call_cmp_func (sk_comp s) p) xs), Some s)"
proof -
  note first = first_index_where [OF s]
  have m: "matches call_cmp_func (sk_comp s) p = (\<lambda>x. x = p)" if "sk_comp s = 0" using that by (simp add: fun_eq_iff matches_def)
  have m0: "first_where (matches call_cmp_func (sk_comp s) p) xs = None" if "sk_comp s \<noteq> 0" "p = 0"
    using that by (simp add: first_where_def matches_def)
  have m1: "matches call_cmp_func (sk_comp s) p = (\<lambda>x. call_cmp_func (sk_comp s) p x = 0)" if "sk_comp s \<noteq> 0" "p \<noteq> 0"
    using that by (simp add: fun_eq_iff matches_def)
  consider (ptr) "sk_comp s = 0" | (null) "sk_comp s \<noteq> 0" "p = 0" | (linear) "sk_comp s \<noteq> 0" "p \<noteq> 0" "\<not> sk_is_sorted s"
    | (binary) "sk_comp s \<noteq> 0" "p \<noteq> 0" "sk_is_sorted s" by blast
  then show ?thesis
  proof cases
    case ptr
    then show ?thesis by (simp add: OPENSSL_sk_find_def on_sk_def first m [OF ptr, unfolded ptr])
  next
    case null
    then show ?thesis by (simp add: OPENSSL_sk_find_def on_sk_def m0 [unfolded null(2)])
  next
    case linear
    then show ?thesis by (simp add: OPENSSL_sk_find_def on_sk_def first m1)
  next
    case binary
    let ?cmp = "call_cmp_func (sk_comp s)"
    have o: "sorted_wrt (\<lambda>a b. ?cmp a b \<le> 0) xs"
    proof (cases "sk_sorted s")
      case True
      then show ?thesis using f s by (simp add: flag_true_def stack_with_def)
    next
      case False
      then have "length xs < 2" using binary(3) stack_with_num [OF s] by (simp add: sk_is_sorted_def)
      then show ?thesis by (cases xs; cases "tl xs") auto
    qed
    have "find_loop ?cmp p 0 (sk_num s) s = (Ok (first_in ?cmp p xs 0 (length xs)), s)"
      using find_loop_elements [OF c [OF binary(1)] s o, of 0 "length xs" p] stack_with_num [OF s] by simp
    then show ?thesis using binary by (simp add: OPENSSL_sk_find_def on_sk_def m1 first_in_elements first_where_def comp_def)
  qed
qed

text \<open>Every operation but \<open>OPENSSL_sk_set\<close> keeps the flag true, because what it leaves of the elements is a
  part of them in the same order, or the flag is reset.\<close>

lemma sorted_wrt_subseq: "subseq ys xs \<Longrightarrow> sorted_wrt P xs \<Longrightarrow> sorted_wrt P ys"
  by (induction rule: list_emb.induct) (auto dest: list_emb_set)

lemma subseq_take_drop: "subseq (take i xs @ drop (i + 1) xs) xs"
proof -
  have "subseq (drop (i + 1) xs) (drop i xs)"
    using suffix_drop [of 1 "drop i xs"] by (intro suffix_imp_subseq) simp
  then have "subseq (take i xs @ drop (i + 1) xs) (take i xs @ drop i xs)" by (intro list_emb_append_mono) simp_all
  then show ?thesis by simp
qed

lemma list_step_subseq:
  assumes "\<And>i p. op \<noteq> Set_Value i p" "\<And>p. op \<noteq> Push p" "\<And>p i. op \<noteq> Insert p i"
  shows "subseq (snd (list_step op xs)) xs"
proof (cases op)
  case (Delete i)
  then show ?thesis using subseq_take_drop [of i xs] by simp
next
  case (Delete_Ptr p)
  then show ?thesis using subseq_take_drop [of "length (takeWhile (\<lambda>x. x \<noteq> p) xs)" xs] by (simp add: remove1_take_drop Let_def)
next
  case Shift
  then show ?thesis by (cases xs) auto
next
  case Pop
  then show ?thesis by (auto intro: prefix_imp_subseq prefixeq_butlast)
qed (use assms in \<open>auto simp: subseq_filter_left\<close>)

definition granting :: allocator where
  "granting = \<lparr>grant = \<lambda>k n. True, garbage = \<lambda>k i. 0\<rparr>"

lemma sk_step_any:
  assumes s: "stack_with s xs"
  shows "\<exists>r t ys. sk_step A op (Some s) = (Ok r, Some t) \<and> stack_with t ys \<and> sk_comp t = sk_comp s \<and>
     (sk_sorted t \<longrightarrow> sk_sorted s \<and> (ys = xs \<or> subseq ys xs \<or> (\<exists>i p. op = Set_Value i p)))"
proof -
  have ins: "\<exists>r t ys. OPENSSL_sk_insert A p i (Some s) = (Ok r, Some t) \<and> stack_with t ys \<and> sk_comp t = sk_comp s \<and>
     (sk_sorted t \<longrightarrow> sk_sorted s \<and> ys = xs)" for p i
    using sk_insert_elements [OF s, of A p i] by blast
  show ?thesis
  proof (cases "(\<exists>p. op = Push p) \<or> (\<exists>p i. op = Insert p i)")
    case True
    then show ?thesis using ins by (fastforce simp: OPENSSL_sk_push_def)
  next
    case False
    then have A: "sk_step A op = sk_step granting op" by (cases op) auto
    obtain t where "sk_step granting op (Some s) = (Ok (fst (list_step op xs)), Some t)" "stack_with t (snd (list_step op xs))"
        "sk_comp t = sk_comp s" "sk_sorted t \<longrightarrow> sk_sorted s"
      using sk_step_list [OF s, of granting op] by (auto simp: always_grants_def granting_def)
    then show ?thesis using False list_step_subseq [of op xs] unfolding A by blast
  qed
qed

text \<open>The stacks that a program makes, with any comparison functions, as long as it does not overwrite an
  element (\<^verbatim>\<open>OPENSSL_sk_set\<close>) while the flag is set.\<close>

inductive stack_made :: "allocator \<Rightarrow> (u64 \<Rightarrow> u64 \<Rightarrow> u64 \<Rightarrow> int) \<Rightarrow> stack \<Rightarrow> bool"
  for A call_cmp_func where
  made_new: "OPENSSL_sk_new A c = Some s \<Longrightarrow> stack_made A call_cmp_func s"
| made_step: "stack_made A call_cmp_func s \<Longrightarrow> sk_sorted s \<longrightarrow> (\<forall>i p. op \<noteq> Set_Value i p) \<Longrightarrow>
    sk_step A op (Some s) = (r, Some t) \<Longrightarrow> stack_made A call_cmp_func t"
| made_sort: "stack_made A call_cmp_func s \<Longrightarrow> OPENSSL_sk_sort call_cmp_func (Some s) = (r, Some t) \<Longrightarrow>
    stack_made A call_cmp_func t"
| made_dup: "stack_made A call_cmp_func s \<Longrightarrow> OPENSSL_sk_dup A (Some s) = Some t \<Longrightarrow> stack_made A call_cmp_func t"
| made_cmp: "stack_made A call_cmp_func s \<Longrightarrow> OPENSSL_sk_set_cmp_func c (Some s) = (r, Some t) \<Longrightarrow>
    stack_made A call_cmp_func t"

lemma sk_step_None: "sk_step A op None = (r, u) \<Longrightarrow> u = None"
  by (cases op)
    (auto simp: on_sk_def bnd_def OPENSSL_sk_num_def OPENSSL_sk_value_def OPENSSL_sk_set_def OPENSSL_sk_push_def OPENSSL_sk_insert_def
      OPENSSL_sk_delete_def OPENSSL_sk_delete_ptr_def OPENSSL_sk_delete_if_def OPENSSL_sk_shift_def OPENSSL_sk_pop_def OPENSSL_sk_zero_def)

lemma sk_run_None: "sk_run A ops None = (r, u) \<Longrightarrow> u = None"
proof (induction ops arbitrary: r)
  case (Cons op ops)
  from Cons.prems have "bnd (sk_step A op) (\<lambda>r. bnd (sk_run A ops) (\<lambda>rs. ret (r # rs))) None = (r, u)" by simp
  then show ?case using Cons.IH by (cases rule: bnd_cases) (auto elim!: bnd_cases dest: sk_step_None)
qed simp

lemma stack_made_run:
  "sk_run A ops (Some s) = (Ok r, Some t) \<Longrightarrow> \<forall>op \<in> set ops. \<forall>i p. op \<noteq> Set_Value i p \<Longrightarrow>
     stack_made A call_cmp_func s \<Longrightarrow> stack_made A call_cmp_func t"
proof (induction ops arbitrary: s r)
  case (Cons op ops)
  obtain a u b where u: "sk_step A op (Some s) = (Ok a, u)" "sk_run A ops u = (Ok b, Some t)"
    using Cons.prems(1) by (auto simp: bnd_Ok_iff)
  then obtain v where v: "u = Some v" using sk_run_None by (cases u) blast+
  have "stack_made A call_cmp_func v" by (rule stack_made.made_step [OF Cons.prems(3)]) (use Cons.prems(2) u(1) v in auto)
  then show ?case using Cons.IH [OF u(2) [unfolded v]] Cons.prems(2) by simp
qed simp

lemma stack_made_ok:
  assumes "stack_made A call_cmp_func s" and c: "\<And>c. c \<noteq> 0 \<Longrightarrow> comparison (call_cmp_func c)"
  shows "stack_ok s \<and> flag_true call_cmp_func s"
  using assms(1)
proof induction
  case (made_new c s)
  then show ?case by (auto simp: OPENSSL_sk_new_def stack_ok_def flag_true_def split: if_splits)
next
  case (made_step s op r t)
  then have "stack_with s (elements s)" by (simp add: stack_with_def)
  from sk_step_any [OF this, of A op] made_step obtain ys where
    "stack_with t ys" "sk_comp t = sk_comp s" "sk_sorted t \<longrightarrow> sk_sorted s \<and> subseq ys (elements s)" by fastforce
  then show ?case using made_step.IH sorted_wrt_subseq by (auto simp: stack_with_def flag_true_def)
next
  case (made_sort s r t)
  then have s: "stack_with s (elements s)" by (simp add: stack_with_def)
  show ?case
  proof (cases "sk_comp s = 0 \<or> sk_sorted s")
    case True
    then show ?thesis using made_sort by (auto simp: OPENSSL_sk_sort_def on_sk_def)
  next
    case False
    then show ?thesis using sort_elements [OF s, of call_cmp_func] made_sort.hyps
        comparison.heap_sort_sorted [OF c, of "sk_comp s" "elements s"]
      by (auto simp: stack_with_def flag_true_def)
  qed
next
  case (made_dup s t)
  then have "stack_with s (elements s)" by (simp add: stack_with_def)
  from dup_elements [OF this made_dup.hyps(2)] made_dup.IH show ?case by (auto simp: stack_with_def flag_true_def)
next
  case (made_cmp s c r t)
  then show ?case by (auto simp: OPENSSL_sk_set_cmp_func_def stack_ok_def flag_true_def elements_def)
qed

text \<open>Overwriting an element under the flag: the search is sent to the right of it, and does not find it.\<close>

lemma find_loop_misses:
  assumes s: "stack_with s xs"
  shows "lo \<le> hi \<Longrightarrow> hi \<le> length xs \<Longrightarrow> \<forall>j. lo \<le> j \<and> j < hi \<longrightarrow> cmp p (xs ! j) > 0 \<Longrightarrow>
    find_loop cmp p lo hi s = (Ok None, s)"
proof (induction "hi - lo" arbitrary: lo rule: less_induct)
  case less
  show ?case
  proof (cases "lo < hi")
    case True
    define mid where "mid = lo + (hi - lo - 1) div 2"
    have mid: "lo \<le> mid" "mid < hi" using True by (auto simp: mid_def)
    have d: "data_at mid s = (Ok (xs ! mid), s)" using data_at_elements [OF s] mid less.prems by simp
    have "find_loop cmp p (mid + 1) hi s = (Ok None, s)" by (rule less.hyps) (use mid less.prems in auto)
    then show ?thesis using True mid less.prems(3)
      by (simp add: find_loop.simps [of cmp p lo hi, folded mid_def] Let_def d seq_simps)
  next
    case False
    then show ?thesis using less.prems by (subst find_loop.simps) simp
  qed
qed

lemma set_hides:
  assumes s: "stack_with s xs" and f: "sk_sorted s" "sk_comp s \<noteq> 0" "p \<noteq> 0"
    and i: "i < (length xs - 1) div 2" and above: "\<forall>x\<in>set xs. call (sk_comp s) p x > 0"
  shows "\<exists>u. OPENSSL_sk_set i p (Some s) = (Ok p, Some u) \<and> elements u = xs[i := p] \<and> sk_comp u = sk_comp s \<and>
    OPENSSL_sk_find call p (Some u) = (Ok None, Some u)"
proof -
  have l: "i < length xs" using i by simp
  obtain u where u: "OPENSSL_sk_set i p (Some s) = (Ok p, Some u)" "stack_with u (xs[i := p])" "sk_comp u = sk_comp s" "sk_sorted u"
    using set_elements [OF s l, of p] l f stack_with_num [OF s] by (auto simp: OPENSSL_sk_set_def on_sk_def seq_simps)
  define mid where "mid = 0 + (length xs - 0 - 1) div 2"
  have mid: "mid < length xs" "i < mid" "xs[i := p] ! mid = xs ! mid" using i by (auto simp: mid_def)
  have d: "data_at mid u = (Ok (xs ! mid), u)" using data_at_elements [OF u(2), of mid] mid by simp
  have g: "call (sk_comp s) p (xs ! mid) > 0" using above mid(1) by simp
  have "find_loop (call (sk_comp s)) p (mid + 1) (length xs) u = (Ok None, u)"
    by (rule find_loop_misses [OF u(2)]) (use above mid in auto)
  then have "find_loop (call (sk_comp s)) p 0 (length xs) u = (Ok None, u)"
    using mid(1) g by (simp add: find_loop.simps [of "call (sk_comp s)" p 0 "length xs", folded mid_def] Let_def d seq_simps)
  then have "OPENSSL_sk_find call p (Some u) = (Ok None, Some u)"
    using u f stack_with_num [OF u(2)] by (simp add: OPENSSL_sk_find_def on_sk_def sk_is_sorted_def)
  then show ?thesis using u by (auto simp: stack_with_def)
qed

lemma after_last:
  assumes c: "comparison cmp" and o: "sorted_wrt (\<lambda>a b. cmp a b \<le> 0) xs" and l: "xs \<noteq> []" "cmp p (last xs) > 0"
  shows "\<forall>x\<in>set xs. cmp p x > 0"
proof (rule ballI, rule ccontr)
  fix x assume x: "x \<in> set xs" "\<not> cmp p x > 0"
  have "x = last xs \<or> cmp x (last xs) \<le> 0"
    using o x(1) l(1) by (cases xs rule: rev_cases) (auto simp: sorted_wrt_append)
  then have "cmp p (last xs) \<le> 0" using x(2) comparison.transitive [OF c, of p x "last xs"] by auto
  then show False using l(2) by simp
qed

subsection \<open>The comparison of encoded elements\<close>

text \<open>Comparisons that the code has are such: the order of DER elements, and any of them behind pointers.\<close>

lemma memcmp_swapped: "compare_set_of_element a b < 0 \<longleftrightarrow> 0 < compare_set_of_element b a"
proof (induction a b rule: bytes_le.induct)
  case (1 b)
  then show ?case by (cases b) (simp_all add: compare_set_of_element_def Let_def)
qed (auto simp: compare_Cons compare_set_of_element_def [of "_ # _" "[]"] compare_set_of_element_def [of "[]" "_ # _"] Let_def)

interpretation set_of: comparison compare_set_of_element
  by unfold_locales (use memcmp_swapped compare_bytes_le bytes_le_trans in \<open>blast+\<close>)

lemma comparison_behind: "comparison cmp \<Longrightarrow> comparison (\<lambda>a b. cmp (f a) (f b))"
  by (simp add: comparison_def)

end
