(* ===== verification/Lhash.thy ===== *)
theory Lhash
  imports "HOL-Library.Multiset" Internal Cbb_Oid
begin

text \<open>
  BoringSSL's hash table, \<^verbatim>\<open>crypto/lhash/lhash.c\<close>: an array of chains of items, which grows and shrinks with
  the number of the items. What a table says is a map that takes an element to the one in the table that is
  equal to it.
\<close>

subsection \<open>The state\<close>

text \<open>\<^verbatim>\<open>LHASH_ITEM\<close>; a its is the list of its items, and an item is known by the number of the request to the
  allocator that made it, which is its address here.\<close>

record lhash_item =
  it_data :: u64
  it_hash :: u32
  it_addr :: nat

text \<open>\<^verbatim>\<open>struct lhash_st\<close>, with the functions of the application known by their addresses, and the count of the
  requests to the allocator.\<close>

record lhash =
  num_items :: nat
  buckets :: "lhash_item list list"
  num_buckets :: nat
  callback_depth :: u32
  lh_comp :: u64
  lh_hash :: u64
  lh_requests :: nat

abbreviation (input) kMinNumBuckets :: nat where "kMinNumBuckets \<equiv> 16"
abbreviation (input) kMaxAverageChainLength :: nat where "kMaxAverageChainLength \<equiv> 2"
abbreviation (input) kMinAverageChainLength :: nat where "kMinAverageChainLength \<equiv> 1"

text \<open>What the helpers of a type do with the functions at an address.\<close>

record lhash_funcs =
  call_hash_func :: "u64 \<Rightarrow> u64 \<Rightarrow> u32"
  call_cmp_func :: "u64 \<Rightarrow> u64 \<Rightarrow> u64 \<Rightarrow> int"

subsection \<open>Operations\<close>

text \<open>The structure has 56 bytes, an item 24.\<close>

definition OPENSSL_lh_new :: "allocator \<Rightarrow> u64 \<Rightarrow> u64 \<Rightarrow> lhash option" where
  "OPENSSL_lh_new A hash cmp =
     (if grant A 0 56 \<and> grant A 1 (kMinNumBuckets * 8)
      then Some \<lparr>num_items = 0, buckets = replicate kMinNumBuckets [], num_buckets = kMinNumBuckets, callback_depth = 0,
                 lh_comp = cmp, lh_hash = hash, lh_requests = 2\<rparr>
      else None)"

text \<open>The items belong to the table: to free them and the buckets is to drop it. The elements stay.\<close>

definition OPENSSL_lh_free :: "(lhash option, unit) cfun" where
  "OPENSSL_lh_free _ = (Ok (), None)"

definition OPENSSL_lh_num_items :: "(lhash, nat) cfun" where
  "OPENSSL_lh_num_items lh = (Ok (num_items lh), lh)"

text \<open>A pointer to a pointer to an item, as the searches return it: a bucket and a position in its chain. The
  position is the length of the chain when there is no such item, and the pointer is then NULL.\<close>

definition chain_at :: "nat \<Rightarrow> (lhash, lhash_item list) cfun" where
  "chain_at b lh = (if b < length (buckets lh) then (Ok (buckets lh ! b), lh) else (Undef, lh))"

definition bucket_of :: "u32 \<Rightarrow> (lhash, nat) cfun" where
  "bucket_of hash lh = (if num_buckets lh = 0 then (Undef, lh) else (Ok (unat hash mod num_buckets lh), lh))"

fun chain_search :: "(u64 \<Rightarrow> bool) \<Rightarrow> lhash_item list \<Rightarrow> nat" where
  "chain_search eq [] = 0"
| "chain_search eq (cur # rest) = (if eq (it_data cur) then 0 else chain_search eq rest + 1)"

definition get_next_ptr_by_key :: "u32 \<Rightarrow> (u64 \<Rightarrow> int) \<Rightarrow> (lhash, nat \<times> nat) cfun" where
  "get_next_ptr_by_key key_hash cmp_key =
     bnd (bucket_of key_hash) (\<lambda>b. bnd (chain_at b) (\<lambda>its. ret (b, chain_search (\<lambda>x. cmp_key x = 0) its)))"

definition get_next_ptr_and_hash :: "lhash_funcs \<Rightarrow> u64 \<Rightarrow> (lhash, u32 \<times> nat \<times> nat) cfun" where
  "get_next_ptr_and_hash funcs data lh =
     (let hash = call_hash_func funcs (lh_hash lh) data
      in bnd (bucket_of hash) (\<lambda>b. bnd (chain_at b) (\<lambda>its.
         ret (hash, b, chain_search (\<lambda>x. call_cmp_func funcs (lh_comp lh) x data = 0) its))) lh)"

definition item_here :: "nat \<Rightarrow> nat \<Rightarrow> (lhash, lhash_item option) cfun" where
  "item_here b i = bnd (chain_at b) (\<lambda>its. ret (if i < length its then Some (its ! i) else None))"

definition set_chain :: "nat \<Rightarrow> lhash_item list \<Rightarrow> (lhash, unit) cfun" where
  "set_chain b its lh = (Ok (), lh\<lparr>buckets := (buckets lh)[b := its]\<rparr>)"

definition OPENSSL_lh_retrieve :: "lhash_funcs \<Rightarrow> u64 \<Rightarrow> (lhash, u64) cfun" where
  "OPENSSL_lh_retrieve funcs data =
     bnd (get_next_ptr_and_hash funcs data) (\<lambda>(hash, b, i). bnd (item_here b i) (\<lambda>item.
     ret (case item of None \<Rightarrow> 0 | Some it \<Rightarrow> it_data it)))"

definition OPENSSL_lh_retrieve_key :: "u32 \<Rightarrow> (u64 \<Rightarrow> int) \<Rightarrow> (lhash, u64) cfun" where
  "OPENSSL_lh_retrieve_key key_hash cmp_key =
     bnd (get_next_ptr_by_key key_hash cmp_key) (\<lambda>(b, i). bnd (item_here b i) (\<lambda>item.
     ret (case item of None \<Rightarrow> 0 | Some it \<Rightarrow> it_data it)))"

text \<open>The items move one by one, from the first chain to the last, to the front of their new chains.\<close>

definition rehash_item :: "nat \<Rightarrow> lhash_item \<Rightarrow> lhash_item list list \<Rightarrow> lhash_item list list" where
  "rehash_item new_num_buckets cur new_buckets =
     (let new_bucket = unat (it_hash cur) mod new_num_buckets
      in new_buckets[new_bucket := cur # new_buckets ! new_bucket])"

definition lh_rebucket :: "allocator \<Rightarrow> nat \<Rightarrow> (lhash, unit) cfun" where
  "lh_rebucket A new_num_buckets lh =
     (let alloc_size = size_mul 8 new_num_buckets
      in if alloc_size div 8 \<noteq> new_num_buckets then (Ok (), lh)
         else if \<not> grant A (lh_requests lh) alloc_size then (Ok (), lh\<lparr>lh_requests := lh_requests lh + 1\<rparr>)
         else (Ok (), lh\<lparr>buckets := fold (fold (rehash_item new_num_buckets)) (take (num_buckets lh) (buckets lh))
                                       (replicate new_num_buckets []),
                        num_buckets := new_num_buckets, lh_requests := lh_requests lh + 1\<rparr>))"

definition lh_maybe_resize :: "allocator \<Rightarrow> (lhash, unit) cfun" where
  "lh_maybe_resize A lh =
     (if callback_depth lh > 0 then (Ok (), lh)
      else bnd (c_assert (num_buckets lh \<ge> kMinNumBuckets)) (\<lambda>_ lh.
        let avg_chain_length = num_items lh div num_buckets lh
        in if avg_chain_length > kMaxAverageChainLength then
             let new_num_buckets = size_mul (num_buckets lh) 2
             in if new_num_buckets > num_buckets lh then lh_rebucket A new_num_buckets lh else (Ok (), lh)
           else if avg_chain_length < kMinAverageChainLength \<and> num_buckets lh > kMinNumBuckets then
             let new_num_buckets = num_buckets lh div 2
             in lh_rebucket A (if new_num_buckets < kMinNumBuckets then kMinNumBuckets else new_num_buckets) lh
           else (Ok (), lh)) lh)"

text \<open>The result of an insertion is the value that the function returns and \<^verbatim>\<open>*old_data\<close>.\<close>

definition OPENSSL_lh_insert :: "allocator \<Rightarrow> lhash_funcs \<Rightarrow> u64 \<Rightarrow> (lhash, bool \<times> u64) cfun" where
  "OPENSSL_lh_insert A funcs data =
     bnd (get_next_ptr_and_hash funcs data) (\<lambda>(hash, b, i).
     bnd (item_here b i) (\<lambda>item. bnd (chain_at b) (\<lambda>its.
     case item of
       Some it \<Rightarrow> bnd (set_chain b (its[i := it\<lparr>it_data := data\<rparr>])) (\<lambda>_. ret (True, it_data it))
     | None \<Rightarrow> (\<lambda>lh.
         if \<not> grant A (lh_requests lh) 24 then (Ok (False, 0), lh\<lparr>lh_requests := lh_requests lh + 1\<rparr>)
         else bnd (set_chain b (its @ [\<lparr>it_data = data, it_hash = hash, it_addr = lh_requests lh\<rparr>])) (\<lambda>_ lh.
              bnd (lh_maybe_resize A) (\<lambda>_. ret (True, 0))
                (lh\<lparr>num_items := size_add (num_items lh) 1, lh_requests := lh_requests lh + 1\<rparr>)) lh))))"

definition OPENSSL_lh_delete :: "allocator \<Rightarrow> lhash_funcs \<Rightarrow> u64 \<Rightarrow> (lhash, u64) cfun" where
  "OPENSSL_lh_delete A funcs data =
     bnd (get_next_ptr_and_hash funcs data) (\<lambda>(hash, b, i).
     bnd (item_here b i) (\<lambda>item. bnd (chain_at b) (\<lambda>its.
     case item of
       None \<Rightarrow> ret 0
     | Some it \<Rightarrow> bnd (set_chain b (take i its @ drop (i + 1) its)) (\<lambda>_ lh.
         bnd (lh_maybe_resize A) (\<lambda>_. ret (it_data it))
           (lh\<lparr>num_items := (if num_items lh = 0 then 2 ^ 64 - 1 else num_items lh - 1)\<rparr>)))))"

text \<open>The iteration. The function that is called may change the table, and the rest of the program, \<open>w\<close>; the
  loop keeps the address of the next item meanwhile. Reading an item that is no longer there is undefined.
  Resizing is suppressed, so a its is always that of its bucket. A function that adds items forever keeps
  the loop going forever: \<open>fuel\<close> bounds the items of one its, and the result is \<open>None\<close> when it does not
  suffice.\<close>

type_synonym 'w lh_call = "u64 \<Rightarrow> (lhash \<times> 'w, unit) cfun"

definition after_item :: "nat \<Rightarrow> lhash_item list \<Rightarrow> (lhash_item \<times> nat option) option" where
  "after_item addr its =
     (case dropWhile (\<lambda>it. it_addr it \<noteq> addr) its of
        [] \<Rightarrow> None
      | cur # rest \<Rightarrow> Some (cur, case rest of [] \<Rightarrow> None | next # _ \<Rightarrow> Some (it_addr next)))"

fun doall_chain :: "nat \<Rightarrow> 'w lh_call \<Rightarrow> nat \<Rightarrow> nat option \<Rightarrow> lhash \<times> 'w \<Rightarrow> (unit res \<times> lhash \<times> 'w) option" where
  "doall_chain fuel func b None s = Some (Ok (), s)"
| "doall_chain 0 func b (Some addr) s = None"
| "doall_chain (Suc fuel) func b (Some addr) s =
     (case chain_at b (fst s) of
        (Ok its, _) \<Rightarrow> (case after_item addr its of
            None \<Rightarrow> Some (Undef, s)
          | Some (cur, next) \<Rightarrow> (case func (it_data cur) s of
                (Ok _, s) \<Rightarrow> doall_chain fuel func b next s
              | (r, s) \<Rightarrow> Some (r, s)))
      | _ \<Rightarrow> Some (Undef, s))"

text \<open>\<open>n\<close> is the number of buckets left, which no call changes.\<close>

fun doall_buckets :: "nat \<Rightarrow> 'w lh_call \<Rightarrow> nat \<Rightarrow> nat \<Rightarrow> lhash \<times> 'w \<Rightarrow> (unit res \<times> lhash \<times> 'w) option" where
  "doall_buckets fuel func b 0 s = Some (Ok (), s)"
| "doall_buckets fuel func b (Suc n) s =
     (case chain_at b (fst s) of
        (Ok its, _) \<Rightarrow> (case doall_chain fuel func b (case its of [] \<Rightarrow> None | cur # _ \<Rightarrow> Some (it_addr cur)) s of
            None \<Rightarrow> None
          | Some (Ok _, s) \<Rightarrow> doall_buckets fuel func (b + 1) n s
          | Some (r, s) \<Rightarrow> Some (r, s))
      | _ \<Rightarrow> Some (Undef, s))"

definition OPENSSL_lh_doall_arg ::
  "allocator \<Rightarrow> nat \<Rightarrow> 'w lh_call \<Rightarrow> lhash option \<Rightarrow> 'w \<Rightarrow> (unit res \<times> lhash option \<times> 'w) option" where
  "OPENSSL_lh_doall_arg A fuel func lh w =
     (case lh of None \<Rightarrow> Some (Ok (), None, w)
      | Some lh \<Rightarrow>
        (let enter = (\<lambda>lh. if callback_depth lh < 0xFFFFFFFF then lh\<lparr>callback_depth := callback_depth lh + 1\<rparr> else lh);
             leave = (\<lambda>lh. if callback_depth lh < 0xFFFFFFFF then lh\<lparr>callback_depth := callback_depth lh - 1\<rparr> else lh)
         in case doall_buckets fuel func 0 (num_buckets lh) (enter lh, w) of
              None \<Rightarrow> None
            | Some (Ok _, lh, w) \<Rightarrow> (case lh_maybe_resize A (leave lh) of (r, lh) \<Rightarrow> Some (r, Some lh, w))
            | Some (r, lh, w) \<Rightarrow> Some (r, Some lh, w)))"

subsection \<open>Items, and when a table is in order\<close>

text \<open>What a table needs of a hash function and a comparison.\<close>

locale hashing =
  fixes hash :: "'a \<Rightarrow> u32" and eq :: "'a \<Rightarrow> 'a \<Rightarrow> bool"
  assumes eq_refl: "eq a a"
    and eq_sym: "eq a b \<Longrightarrow> eq b a"
    and eq_trans: "eq a b \<Longrightarrow> eq b c \<Longrightarrow> eq a c"
    and eq_hash: "eq a b \<Longrightarrow> hash a = hash b"
begin

lemma eq_cong: "eq a b \<Longrightarrow> eq a c = eq b c"
  using eq_sym eq_trans by blast

end

abbreviation lh_eq :: "lhash_funcs \<Rightarrow> u64 \<Rightarrow> u64 \<Rightarrow> u64 \<Rightarrow> bool" where
  "lh_eq funcs c x y \<equiv> call_cmp_func funcs c x y = 0"

definition items :: "lhash \<Rightarrow> lhash_item list" where
  "items s = concat (buckets s)"

text \<open>Every item is in the bucket of its hash, no two are equal, and they are counted.\<close>

definition lh_ok :: "lhash_funcs \<Rightarrow> lhash \<Rightarrow> bool" where
  "lh_ok funcs s \<longleftrightarrow>
     length (buckets s) = num_buckets s \<and> kMinNumBuckets \<le> num_buckets s \<and> num_items s = length (items s) \<and>
     (\<forall>b < num_buckets s. \<forall>it \<in> set (buckets s ! b). unat (it_hash it) mod num_buckets s = b) \<and>
     (\<forall>it \<in> set (items s). it_hash it = call_hash_func funcs (lh_hash s) (it_data it) \<and> it_addr it < lh_requests s) \<and>
     distinct (map it_data (items s)) \<and> distinct (map it_addr (items s)) \<and>
     (\<forall>x \<in> it_data ` set (items s). \<forall>y \<in> it_data ` set (items s). lh_eq funcs (lh_comp s) x y \<longrightarrow> x = y)"

lemma lh_new_ok: "OPENSSL_lh_new A hash cmp = Some s \<Longrightarrow> lh_ok funcs s \<and> items s = [] \<and> lh_hash s = hash \<and> lh_comp s = cmp \<and> callback_depth s = 0"
  by (auto simp: OPENSSL_lh_new_def lh_ok_def items_def split: if_splits)

lemma concat_update:
  assumes "b < length bs"
  obtains pre post where "concat bs = pre @ bs ! b @ post" "\<And>c. concat (bs[b := c]) = pre @ c @ post"
proof
  have "bs = take b bs @ bs ! b # drop (Suc b) bs" using assms by (rule id_take_nth_drop)
  then show "concat bs = concat (take b bs) @ bs ! b @ concat (drop (Suc b) bs)" by (metis concat.simps(2) concat_append)
  show "concat (bs[b := c]) = concat (take b bs) @ c @ concat (drop (Suc b) bs)" for c
    using assms by (simp add: upd_conv_take_nth_drop)
qed

lemma chain_search_length: "chain_search eq its \<le> length its"
  by (induction its) auto

lemma chain_search_here: "chain_search eq its < length its \<Longrightarrow> eq (it_data (its ! chain_search eq its))"
  by (induction its) (auto split: if_splits)

lemma chain_search_none: "chain_search eq its = length its \<longleftrightarrow> (\<forall>it \<in> set its. \<not> eq (it_data it))"
  by (induction its) auto

text \<open>A search looks at one chain, and finds what there is in the table.\<close>

lemma bucket_searched:
  assumes ok: "lh_ok funcs s" and it: "it \<in> set (items s)" and h: "it_hash it = h"
  shows "it \<in> set (buckets s ! (unat h mod num_buckets s))"
proof -
  obtain its where "its \<in> set (buckets s)" "it \<in> set its" using it by (auto simp: items_def)
  then obtain b where "b < length (buckets s)" "it \<in> set (buckets s ! b)" by (auto simp: in_set_conv_nth [of its])
  then show ?thesis using ok h by (auto simp: lh_ok_def)
qed

lemma get_next_ptr_cases:
  fixes d :: u64
  assumes ok: "lh_ok funcs s" and law: "hashing (call_hash_func funcs (lh_hash s)) (lh_eq funcs (lh_comp s))"
  defines "h \<equiv> call_hash_func funcs (lh_hash s) d"
  defines "b \<equiv> unat h mod num_buckets s"
  obtains (found) i where "get_next_ptr_and_hash funcs d s = (Ok (h, b, i), s)" "i < length (buckets s ! b)"
      "lh_eq funcs (lh_comp s) (it_data (buckets s ! b ! i)) d" "b < num_buckets s"
  | (absent) "get_next_ptr_and_hash funcs d s = (Ok (h, b, length (buckets s ! b)), s)"
      "\<forall>it \<in> set (items s). \<not> lh_eq funcs (lh_comp s) (it_data it) d" "b < num_buckets s"
proof -
  let ?eq = "\<lambda>x. lh_eq funcs (lh_comp s) x d" and ?its = "buckets s ! b"
  have n: "0 < num_buckets s" using ok by (simp add: lh_ok_def)
  then have b: "b < num_buckets s" "b < length (buckets s)" using ok by (simp_all add: b_def lh_ok_def)
  have g: "get_next_ptr_and_hash funcs d s = (Ok (h, b, chain_search ?eq ?its), s)"
    using n b by (simp add: get_next_ptr_and_hash_def bucket_of_def chain_at_def Let_def seq_simps flip: h_def b_def)
  show ?thesis
  proof (cases "chain_search ?eq ?its < length ?its")
    case True
    show ?thesis by (rule found [OF g True chain_search_here [OF True] b(1)])
  next
    case False
    then have l: "chain_search ?eq ?its = length ?its" using chain_search_length [of ?eq ?its] by simp
    have "\<not> ?eq (it_data it)" if it: "it \<in> set (items s)" for it
    proof
      assume e: "?eq (it_data it)"
      then have "it_hash it = h" using ok it hashing.eq_hash [OF law e] by (auto simp: lh_ok_def h_def)
      then have "it \<in> set ?its" using bucket_searched [OF ok it] by (simp add: b_def)
      then show False using e l by (simp add: chain_search_none)
    qed
    then show ?thesis using absent g l b(1) by metis
  qed
qed

subsection \<open>Resizing\<close>

text \<open>Resizing moves every item to the bucket of its hash among the new ones, and loses none.\<close>

lemma fold_fold_concat: "fold (fold f) xss acc = fold f (concat xss) acc"
  by (induction xss arbitrary: acc) simp_all

lemma mset_concat_update:
  "b < length bs \<Longrightarrow> mset (concat (bs[b := x # bs ! b])) = add_mset x (mset (concat bs))"
  by (rule concat_update [of b bs]) simp_all

definition hashed :: "nat \<Rightarrow> lhash_item list list \<Rightarrow> bool" where
  "hashed n bs \<longleftrightarrow> length bs = n \<and> (\<forall>b < n. \<forall>it \<in> set (bs ! b). unat (it_hash it) mod n = b)"

lemma rehash_items:
  "hashed n bs \<Longrightarrow> 0 < n \<Longrightarrow>
     hashed n (fold (rehash_item n) xs bs) \<and> mset (concat (fold (rehash_item n) xs bs)) = mset xs + mset (concat bs)"
proof (induction xs arbitrary: bs)
  case (Cons x xs)
  let ?b = "unat (it_hash x) mod n"
  have b: "?b < length bs" using Cons.prems by (simp add: hashed_def)
  have "hashed n (rehash_item n x bs)"
    using Cons.prems b by (auto simp: hashed_def rehash_item_def Let_def nth_list_update)
  then show ?case using Cons.IH [of "rehash_item n x bs"] Cons.prems(2) mset_concat_update [OF b, of x]
    by (simp add: rehash_item_def Let_def)
qed simp

text \<open>What resizing leaves as it was, and how the requirements of a table follow from it.\<close>

definition same_items :: "lhash \<Rightarrow> lhash \<Rightarrow> bool" where
  "same_items s t \<longleftrightarrow> mset (items t) = mset (items s) \<and> lh_hash t = lh_hash s \<and> lh_comp t = lh_comp s \<and>
     callback_depth t = callback_depth s \<and> num_items t = num_items s \<and> lh_requests s \<le> lh_requests t"

lemma same_items_refl: "same_items s s"
  by (simp add: same_items_def)

lemma same_items_ok:
  assumes ok: "lh_ok funcs s" and t: "same_items s t" and n: "hashed (num_buckets t) (buckets t)" "kMinNumBuckets \<le> num_buckets t"
  shows "lh_ok funcs t"
proof -
  have m: "mset (items t) = mset (items s)" using t by (simp add: same_items_def)
  then have "set (items t) = set (items s)" "length (items t) = length (items s)"
    using mset_eq_setD mset_eq_length by blast+
  moreover have "distinct (map it_data (items t)) = distinct (map it_data (items s))"
      "distinct (map it_addr (items t)) = distinct (map it_addr (items s))"
    using m by (auto intro!: mset_eq_imp_distinct_iff)
  ultimately show ?thesis using ok t n by (auto simp: lh_ok_def same_items_def hashed_def)
qed

lemma lh_ok_hashed: "lh_ok funcs s \<Longrightarrow> hashed (num_buckets s) (buckets s) \<and> kMinNumBuckets \<le> num_buckets s"
  by (simp add: lh_ok_def hashed_def)

lemma lh_rebucket_ok:
  assumes ok: "lh_ok funcs s" and n: "kMinNumBuckets \<le> n"
  shows "\<exists>t. lh_rebucket A n s = (Ok (), t) \<and> lh_ok funcs t \<and> same_items s t"
proof -
  let ?bs = "fold (rehash_item n) (items s) (replicate n [])"
  have h: "hashed n (replicate n [])" by (simp add: hashed_def)
  have "concat (replicate n []) = ([] :: lhash_item list)" by (induction n) simp_all
  then have r: "hashed n ?bs" "mset (concat ?bs) = mset (items s)"
    using rehash_items [OF h, of "items s"] n by simp_all
  have b: "fold (fold (rehash_item n)) (take (num_buckets s) (buckets s)) (replicate n []) = ?bs"
    using ok by (simp add: lh_ok_def fold_fold_concat items_def)
  let ?t = "s\<lparr>buckets := ?bs, num_buckets := n, lh_requests := lh_requests s + 1\<rparr>"
  have t: "same_items s ?t" using r by (simp add: same_items_def items_def)
  let ?u = "s\<lparr>lh_requests := lh_requests s + 1\<rparr>"
  have u: "same_items s ?u" by (simp add: same_items_def items_def)
  have "lh_ok funcs ?u" by (rule same_items_ok [OF ok u]) (use lh_ok_hashed [OF ok] in simp_all)
  moreover have "lh_ok funcs ?t" by (rule same_items_ok [OF ok t]) (use r n in simp_all)
  ultimately show ?thesis using ok t u same_items_refl by (auto simp: lh_rebucket_def Let_def b)
qed

lemma lh_maybe_resize_ok:
  assumes ok: "lh_ok funcs s"
  shows "\<exists>t. lh_maybe_resize A s = (Ok (), t) \<and> lh_ok funcs t \<and> same_items s t"
proof -
  have n: "kMinNumBuckets \<le> num_buckets s" using ok by (simp add: lh_ok_def)
  note rebucket = lh_rebucket_ok [OF ok, where A = A]
  show ?thesis
  proof (cases "callback_depth s > 0")
    case True
    then show ?thesis using ok same_items_refl by (simp add: lh_maybe_resize_def)
  next
    case False
    then show ?thesis using n ok same_items_refl rebucket by (auto simp: lh_maybe_resize_def Let_def)
  qed
qed

text \<open>The buckets stay as they are while the table is iterated over.\<close>

lemma lh_maybe_resize_suppressed: "callback_depth s > 0 \<Longrightarrow> lh_maybe_resize A s = (Ok (), s)"
  by (simp add: lh_maybe_resize_def)

subsection \<open>Operations as operations on a list of elements\<close>

text \<open>The elements of a table in some order, no two of them equal.\<close>

definition lh_holds :: "lhash_funcs \<Rightarrow> lhash \<Rightarrow> u64 list \<Rightarrow> bool" where
  "lh_holds funcs s xs \<longleftrightarrow> lh_ok funcs s \<and> mset (map it_data (items s)) = mset xs"

definition list_find :: "('a \<Rightarrow> 'a \<Rightarrow> bool) \<Rightarrow> 'a::zero \<Rightarrow> 'a list \<Rightarrow> 'a" where
  "list_find eq d xs = (case List.find (\<lambda>x. eq x d) xs of None \<Rightarrow> 0 | Some x \<Rightarrow> x)"

definition others :: "('a \<Rightarrow> 'a \<Rightarrow> bool) \<Rightarrow> 'a \<Rightarrow> 'a list \<Rightarrow> 'a list" where
  "others eq d xs = filter (\<lambda>x. \<not> eq x d) xs"

lemma find_the_one:
  assumes x: "x \<in> set xs" "P x" and unique: "\<forall>y \<in> set xs. P y \<longrightarrow> y = x"
  shows "List.find P xs = Some x"
proof -
  have "List.find P xs \<noteq> None" using x by (auto simp: find_None_iff)
  then obtain y where y: "List.find P xs = Some y" by blast
  then have "y \<in> set xs" "P y" using nth_mem by (fastforce simp: find_Some_iff)+
  then have "y = x" using unique by blast
  then show ?thesis using y by simp
qed

text \<open>An element that is there, and the item that holds it.\<close>

lemma item_split:
  assumes "b < length bs" "i < length (bs ! b)"
  obtains L R where "concat bs = L @ bs ! b ! i # R" "\<And>it. concat (bs[b := (bs ! b)[i := it]]) = L @ it # R"
    "concat (bs[b := take i (bs ! b) @ drop (i + 1) (bs ! b)]) = L @ R"
proof (rule concat_update [OF assms(1)])
  fix pre post
  assume c: "concat bs = pre @ bs ! b @ post" "\<And>c. concat (bs[b := c]) = pre @ c @ post"
  have i: "bs ! b = take i (bs ! b) @ bs ! b ! i # drop (Suc i) (bs ! b)" using assms(2) by (rule id_take_nth_drop)
  have u: "(bs ! b)[i := it] = take i (bs ! b) @ it # drop (Suc i) (bs ! b)" for it
    using assms(2) by (rule upd_conv_take_nth_drop)
  have e: "concat bs = pre @ (take i (bs ! b) @ bs ! b ! i # drop (Suc i) (bs ! b)) @ post"
    by (simp only: c(1) i [symmetric])
  show thesis
  proof (rule that)
    show "concat bs = (pre @ take i (bs ! b)) @ bs ! b ! i # (drop (Suc i) (bs ! b) @ post)"
      using e by (simp only: append_assoc append_Cons)
    show "concat (bs[b := (bs ! b)[i := it]]) = (pre @ take i (bs ! b)) @ it # (drop (Suc i) (bs ! b) @ post)" for it
      by (simp only: c(2) u append_assoc append_Cons)
    show "concat (bs[b := take i (bs ! b) @ drop (i + 1) (bs ! b)]) = (pre @ take i (bs ! b)) @ (drop (Suc i) (bs ! b) @ post)"
      by (simp only: c(2) append_assoc Suc_eq_plus1)
  qed
qed

lemma hashed_update:
  "hashed n bs \<Longrightarrow> (\<And>it. it \<in> set c \<Longrightarrow> unat (it_hash it) mod n = b) \<Longrightarrow> hashed n (bs[b := c])"
  by (cases "b < length bs") (auto simp: hashed_def nth_list_update list_update_beyond)

lemma lh_okI:
  assumes "hashed (num_buckets s) (buckets s)" "kMinNumBuckets \<le> num_buckets s" "num_items s = length (items s)"
    "\<And>it. it \<in> set (items s) \<Longrightarrow> it_hash it = call_hash_func funcs (lh_hash s) (it_data it) \<and> it_addr it < lh_requests s"
    "distinct (map it_data (items s))" "distinct (map it_addr (items s))"
    "\<And>x y. x \<in> it_data ` set (items s) \<Longrightarrow> y \<in> it_data ` set (items s) \<Longrightarrow> lh_eq funcs (lh_comp s) x y \<Longrightarrow> x = y"
  shows "lh_ok funcs s"
  unfolding lh_ok_def using assms by (fastforce simp: hashed_def)

lemma lh_okD:
  assumes "lh_ok funcs s"
  shows "hashed (num_buckets s) (buckets s)" "kMinNumBuckets \<le> num_buckets s" "num_items s = length (items s)"
    "\<And>it. it \<in> set (items s) \<Longrightarrow> it_hash it = call_hash_func funcs (lh_hash s) (it_data it)"
    "\<And>it. it \<in> set (items s) \<Longrightarrow> it_addr it < lh_requests s"
    "distinct (map it_data (items s))" "distinct (map it_addr (items s))"
    "\<And>x y. x \<in> it_data ` set (items s) \<Longrightarrow> y \<in> it_data ` set (items s) \<Longrightarrow> lh_eq funcs (lh_comp s) x y \<Longrightarrow> x = y"
  using assms unfolding lh_ok_def hashed_def by blast+

text \<open>The one item that is equal to \<open>d\<close>, among the others.\<close>

lemma equal_item:
  assumes ok: "lh_ok funcs s" and law: "hashing (call_hash_func funcs (lh_hash s)) (lh_eq funcs (lh_comp s))"
    and i: "items s = L @ it # R" "lh_eq funcs (lh_comp s) (it_data it) d"
  shows "\<forall>x \<in> it_data ` set (L @ R). \<not> lh_eq funcs (lh_comp s) x d"
proof
  fix x
  assume x: "x \<in> it_data ` set (L @ R)"
  show "\<not> lh_eq funcs (lh_comp s) x d"
  proof
    assume "lh_eq funcs (lh_comp s) x d"
    then have "lh_eq funcs (lh_comp s) x (it_data it)"
      using hashing.eq_trans [OF law] hashing.eq_sym [OF law] i(2) by blast
    moreover have "x \<in> it_data ` set (items s)" "it_data it \<in> it_data ` set (items s)" using x unfolding i(1) by auto
    ultimately have "x = it_data it" by (intro lh_okD(8) [OF ok])
    moreover have "it_data it \<notin> it_data ` set (L @ R)" using lh_okD(6) [OF ok] unfolding i(1) by auto
    ultimately show False using x by simp
  qed
qed

lemma equal_element:
  assumes "mset (map it_data (L @ it # R)) = mset xs" "eq (it_data it) d" "\<forall>x \<in> it_data ` set (L @ R). \<not> eq x d"
  shows "list_find eq d xs = it_data it" "mset (others eq d xs) = mset (map it_data (L @ R))"
proof -
  have "set xs = set (map it_data (L @ it # R))" by (rule mset_eq_setD [OF assms(1) [symmetric]])
  then have set: "set xs = insert (it_data it) (it_data ` set (L @ R))" by (simp add: image_Un)
  have "List.find (\<lambda>x. eq x d) xs = Some (it_data it)"
    by (rule find_the_one) (use assms(2,3) in \<open>simp_all add: set\<close>)
  then show "list_find eq d xs = it_data it" by (simp add: list_find_def)
  have "mset (others eq d xs) = filter_mset (\<lambda>x. \<not> eq x d) (mset (map it_data (L @ it # R)))"
    unfolding others_def mset_filter assms(1) ..
  also have "\<dots> = mset (filter (\<lambda>x. \<not> eq x d) (map it_data (L @ R)))" using assms(2) by simp
  also have "filter (\<lambda>x. \<not> eq x d) (map it_data (L @ R)) = map it_data (L @ R)"
    using assms(3) by (intro filter_True) auto
  finally show "mset (others eq d xs) = mset (map it_data (L @ R))" .
qed

lemma no_equal_element:
  assumes "mset (map it_data (items s)) = mset xs" "\<forall>it \<in> set (items s). \<not> eq (it_data it) d"
  shows "list_find eq d xs = 0" "others eq d xs = xs"
proof -
  have "set xs = set (map it_data (items s))" by (rule mset_eq_setD [OF assms(1) [symmetric]])
  then have none: "\<forall>x \<in> set xs. \<not> eq x d" using assms(2) by simp
  then have "List.find (\<lambda>x. eq x d) xs = None" by (simp add: find_None_iff)
  then show "list_find eq d xs = 0" by (simp add: list_find_def)
  show "others eq d xs = xs" using none by (simp add: others_def filter_id_conv)
qed

text \<open>The three changes of a chain: a new element in an item, one item less, one item more.\<close>

lemma chain_hashed: "lh_ok funcs s \<Longrightarrow> b < num_buckets s \<Longrightarrow> it \<in> set (buckets s ! b) \<Longrightarrow> unat (it_hash it) mod num_buckets s = b"
  using lh_okD(1) [of funcs s] by (simp add: hashed_def)

lemma length_buckets: "lh_ok funcs s \<Longrightarrow> length (buckets s) = num_buckets s"
  by (simp add: lh_ok_def)

lemma replace_ok:
  assumes ok: "lh_ok funcs s" and law: "hashing (call_hash_func funcs (lh_hash s)) (lh_eq funcs (lh_comp s))"
    and b: "b < num_buckets s" "i < length (buckets s ! b)" and eq: "lh_eq funcs (lh_comp s) (it_data (buckets s ! b ! i)) d"
    and xs: "mset (map it_data (items s)) = mset xs"
  defines "it \<equiv> buckets s ! b ! i"
  defines "t \<equiv> s\<lparr>buckets := (buckets s)[b := (buckets s ! b)[i := it\<lparr>it_data := d\<rparr>]]\<rparr>"
  shows "lh_ok funcs t" "mset (map it_data (items t)) = add_mset d (mset (others (lh_eq funcs (lh_comp s)) d xs))"
    "list_find (lh_eq funcs (lh_comp s)) d xs = it_data it"
proof -
  have b': "b < length (buckets s)" using b length_buckets [OF ok] by simp
  obtain L R where i: "items s = L @ it # R" "items t = L @ it\<lparr>it_data := d\<rparr> # R"
    by (rule item_split [OF b' b(2)], rule that) (simp_all add: items_def t_def it_def)
  have eq': "lh_eq funcs (lh_comp s) (it_data it) d" using eq by (simp add: it_def)
  have others: "\<forall>x \<in> it_data ` set (L @ R). \<not> lh_eq funcs (lh_comp s) x d" by (rule equal_item [OF ok law i(1) eq'])
  have m: "mset (map it_data (L @ it # R)) = mset xs" using xs by (simp add: i(1))
  show "list_find (lh_eq funcs (lh_comp s)) d xs = it_data it" by (rule equal_element(1) [where eq = "lh_eq funcs (lh_comp s)", OF m eq' others])
  show "mset (map it_data (items t)) = add_mset d (mset (others (lh_eq funcs (lh_comp s)) d xs))"
    using equal_element(2) [where eq = "lh_eq funcs (lh_comp s)", OF m eq' others] by (simp add: i(2))
  have other: "x \<noteq> d \<and> \<not> lh_eq funcs (lh_comp s) x d \<and> \<not> lh_eq funcs (lh_comp s) d x" if "x \<in> it_data ` set (L @ R)" for x
    using others that hashing.eq_refl [OF law] hashing.eq_sym [OF law] by blast
  have old: "x = y" if "x \<in> it_data ` set (L @ R)" "y \<in> it_data ` set (L @ R)" "lh_eq funcs (lh_comp s) x y" for x y
    by (rule lh_okD(8) [OF ok _ _ that(3)]) (use that in \<open>auto simp: i(1)\<close>)
  have c: "lh_comp t = lh_comp s" "lh_hash t = lh_hash s" "num_buckets t = num_buckets s" "lh_requests t = lh_requests s"
    "num_items t = num_items s" "buckets t = (buckets s)[b := (buckets s ! b)[i := it\<lparr>it_data := d\<rparr>]]" by (simp_all add: t_def)
  have h: "unat (it_hash x) mod num_buckets s = b" if "x \<in> set ((buckets s ! b)[i := it\<lparr>it_data := d\<rparr>])" for x
    using set_update_subset_insert [of "buckets s ! b" i "it\<lparr>it_data := d\<rparr>"] that chain_hashed [OF ok b(1)] nth_mem [OF b(2)]
    by (auto simp: it_def)
  show "lh_ok funcs t"
  proof (rule lh_okI)
    show "hashed (num_buckets t) (buckets t)"
      unfolding c by (rule hashed_update [OF lh_okD(1) [OF ok] h])
    fix it'
    assume "it' \<in> set (items t)"
    then consider "it' \<in> set (items s)" | "it' = it\<lparr>it_data := d\<rparr>" by (auto simp: i)
    then show "it_hash it' = call_hash_func funcs (lh_hash t) (it_data it') \<and> it_addr it' < lh_requests t"
      by cases (use lh_okD(4,5) [OF ok] hashing.eq_hash [OF law eq'] in \<open>simp_all add: c i(1)\<close>)
  next
    fix x y
    assume "x \<in> it_data ` set (items t)" "y \<in> it_data ` set (items t)" "lh_eq funcs (lh_comp t) x y"
    then have "x = d \<or> x \<in> it_data ` set (L @ R)" "y = d \<or> y \<in> it_data ` set (L @ R)" "lh_eq funcs (lh_comp s) x y"
      by (auto simp: i(2) c)
    then show "x = y" using old other by blast
  next
    have "distinct (map it_data (L @ R))" using lh_okD(6) [OF ok] by (simp add: i(1))
    moreover have "d \<notin> it_data ` set (L @ R)" using other by blast
    ultimately show "distinct (map it_data (items t))" by (auto simp: i(2))
  qed (use lh_okD(2,3,7) [OF ok] in \<open>simp_all add: c i\<close>)
qed

lemma remove_ok:
  assumes ok: "lh_ok funcs s" and law: "hashing (call_hash_func funcs (lh_hash s)) (lh_eq funcs (lh_comp s))"
    and b: "b < num_buckets s" "i < length (buckets s ! b)" and eq: "lh_eq funcs (lh_comp s) (it_data (buckets s ! b ! i)) d"
    and xs: "mset (map it_data (items s)) = mset xs"
  defines "t \<equiv> s\<lparr>buckets := (buckets s)[b := take i (buckets s ! b) @ drop (i + 1) (buckets s ! b)], num_items := num_items s - 1\<rparr>"
  shows "lh_ok funcs t" "mset (map it_data (items t)) = mset (others (lh_eq funcs (lh_comp s)) d xs)"
    "list_find (lh_eq funcs (lh_comp s)) d xs = it_data (buckets s ! b ! i)" "num_items s \<noteq> 0"
proof -
  have b': "b < length (buckets s)" using b length_buckets [OF ok] by simp
  let ?it = "buckets s ! b ! i"
  obtain L R where i: "items s = L @ ?it # R" "items t = L @ R"
    by (rule item_split [OF b' b(2)], rule that) (simp_all add: items_def t_def)
  have others: "\<forall>x \<in> it_data ` set (L @ R). \<not> lh_eq funcs (lh_comp s) x d" by (rule equal_item [OF ok law i(1) eq])
  have m: "mset (map it_data (L @ ?it # R)) = mset xs" using xs by (simp add: i(1))
  show "list_find (lh_eq funcs (lh_comp s)) d xs = it_data ?it" by (rule equal_element(1) [where eq = "lh_eq funcs (lh_comp s)", OF m eq others])
  show "mset (map it_data (items t)) = mset (others (lh_eq funcs (lh_comp s)) d xs)"
    using equal_element(2) [where eq = "lh_eq funcs (lh_comp s)", OF m eq others] by (simp add: i(2))
  show "num_items s \<noteq> 0" using lh_okD(3) [OF ok] i(1) by simp
  have sub: "set (items t) \<subseteq> set (items s)" by (auto simp: i)
  have c: "lh_comp t = lh_comp s" "lh_hash t = lh_hash s" "num_buckets t = num_buckets s" "lh_requests t = lh_requests s"
    "num_items t = num_items s - 1" "buckets t = (buckets s)[b := take i (buckets s ! b) @ drop (i + 1) (buckets s ! b)]" by (simp_all add: t_def)
  have h: "unat (it_hash x) mod num_buckets s = b" if "x \<in> set (take i (buckets s ! b) @ drop (i + 1) (buckets s ! b))" for x
    using that chain_hashed [OF ok b(1)] by (auto dest: in_set_takeD in_set_dropD)
  show "lh_ok funcs t"
  proof (rule lh_okI)
    show "hashed (num_buckets t) (buckets t)"
      unfolding c by (rule hashed_update [OF lh_okD(1) [OF ok] h])
    fix x y
    assume "x \<in> it_data ` set (items t)" "y \<in> it_data ` set (items t)" "lh_eq funcs (lh_comp t) x y"
    then show "x = y" using sub lh_okD(8) [OF ok, of x y] by (auto simp: c)
  next
    fix it'
    assume "it' \<in> set (items t)"
    then show "it_hash it' = call_hash_func funcs (lh_hash t) (it_data it') \<and> it_addr it' < lh_requests t"
      using sub lh_okD(4,5) [OF ok] by (auto simp: c)
  qed (use lh_okD(2,3,6,7) [OF ok] in \<open>simp_all add: c i\<close>)
qed

lemma add_ok:
  fixes d :: u64
  assumes ok: "lh_ok funcs s" and law: "hashing (call_hash_func funcs (lh_hash s)) (lh_eq funcs (lh_comp s))"
    and absent: "\<forall>it \<in> set (items s). \<not> lh_eq funcs (lh_comp s) (it_data it) d"
  defines "h \<equiv> call_hash_func funcs (lh_hash s) d"
  defines "b \<equiv> unat h mod num_buckets s"
  defines "t \<equiv> s\<lparr>buckets := (buckets s)[b := buckets s ! b @ [\<lparr>it_data = d, it_hash = h, it_addr = lh_requests s\<rparr>]],
                 num_items := num_items s + 1, lh_requests := lh_requests s + 1\<rparr>"
  shows "lh_ok funcs t" "mset (map it_data (items t)) = add_mset d (mset (map it_data (items s)))"
proof -
  have n: "0 < num_buckets s" using lh_okD(2) [OF ok] by simp
  then have b: "b < num_buckets s" "b < length (buckets s)" using length_buckets [OF ok] by (simp_all add: b_def)
  let ?new = "\<lparr>it_data = d, it_hash = h, it_addr = lh_requests s\<rparr>"
  obtain pre post where "concat (buckets s) = pre @ buckets s ! b @ post" "\<And>c. concat ((buckets s)[b := c]) = pre @ c @ post"
    using concat_update [OF b(2)] by metis
  then obtain L R where i: "items s = L @ R" "items t = L @ ?new # R" by (simp add: items_def t_def) (metis append.assoc)
  show "mset (map it_data (items t)) = add_mset d (mset (map it_data (items s)))" by (simp add: i)
  have other: "x \<noteq> d \<and> \<not> lh_eq funcs (lh_comp s) x d \<and> \<not> lh_eq funcs (lh_comp s) d x" if "x \<in> it_data ` set (L @ R)" for x
    using absent that hashing.eq_refl [OF law] hashing.eq_sym [OF law] unfolding i(1) by blast
  have old: "x = y" if "x \<in> it_data ` set (L @ R)" "y \<in> it_data ` set (L @ R)" "lh_eq funcs (lh_comp s) x y" for x y
    using lh_okD(8) [OF ok _ _ that(3)] that(1,2) by (simp add: i(1))
  have c: "lh_comp t = lh_comp s" "lh_hash t = lh_hash s" "num_buckets t = num_buckets s" "lh_requests t = lh_requests s + 1"
    "num_items t = num_items s + 1" "buckets t = (buckets s)[b := buckets s ! b @ [?new]]" by (simp_all add: t_def)
  have hb: "unat (it_hash x) mod num_buckets s = b" if "x \<in> set (buckets s ! b @ [?new])" for x
    using that chain_hashed [OF ok b(1)] by (auto simp: b_def)
  show "lh_ok funcs t"
  proof (rule lh_okI)
    show "hashed (num_buckets t) (buckets t)"
      unfolding c by (rule hashed_update [OF lh_okD(1) [OF ok] hb])
    fix it'
    assume "it' \<in> set (items t)"
    then consider "it' \<in> set (items s)" | "it' = ?new" by (auto simp: i)
    then show "it_hash it' = call_hash_func funcs (lh_hash t) (it_data it') \<and> it_addr it' < lh_requests t"
      by cases (use lh_okD(4,5) [OF ok] in \<open>auto simp: c h_def less_Suc_eq\<close>)
  next
    fix x y
    assume "x \<in> it_data ` set (items t)" "y \<in> it_data ` set (items t)" "lh_eq funcs (lh_comp t) x y"
    then have "x = d \<or> x \<in> it_data ` set (L @ R)" "y = d \<or> y \<in> it_data ` set (L @ R)" "lh_eq funcs (lh_comp s) x y"
      by (auto simp: i(2) c)
    then show "x = y" using old other by blast
  next
    have "d \<notin> it_data ` set (L @ R)" using other by blast
    then show "distinct (map it_data (items t))" using lh_okD(6) [OF ok] by (auto simp: i)
    have "lh_requests s \<notin> it_addr ` set (L @ R)" using lh_okD(5) [OF ok] by (fastforce simp: i(1))
    then show "distinct (map it_addr (items t))" using lh_okD(7) [OF ok] by (auto simp: i)
  qed (use lh_okD(2,3) [OF ok] in \<open>simp_all add: c i\<close>)
qed

subsection \<open>What the operations do\<close>

definition lh_lawful :: "lhash_funcs \<Rightarrow> lhash \<Rightarrow> bool" where
  "lh_lawful funcs s \<longleftrightarrow> hashing (call_hash_func funcs (lh_hash s)) (lh_eq funcs (lh_comp s))"

lemma lawful_same: "same_items s t \<Longrightarrow> lh_lawful funcs t = lh_lawful funcs s"
  by (simp add: lh_lawful_def same_items_def)

lemma holds_resized:
  assumes "lh_ok funcs u" "mset (map it_data (items u)) = mset xs"
  obtains t where "lh_maybe_resize A u = (Ok (), t)" "lh_holds funcs t xs" "lh_comp t = lh_comp u" "lh_hash t = lh_hash u"
    "callback_depth t = callback_depth u"
  using lh_maybe_resize_ok [OF assms(1), of A] assms(2) by (auto simp: lh_holds_def same_items_def)

lemma item_here_found: "b < length (buckets s) \<Longrightarrow> i < length (buckets s ! b) \<Longrightarrow> item_here b i s = (Ok (Some (buckets s ! b ! i)), s)"
  by (simp add: item_here_def chain_at_def seq_simps)

lemma item_here_absent: "b < length (buckets s) \<Longrightarrow> item_here b (length (buckets s ! b)) s = (Ok None, s)"
  by (simp add: item_here_def chain_at_def seq_simps)

lemma chain_at_ok: "b < length (buckets s) \<Longrightarrow> chain_at b s = (Ok (buckets s ! b), s)"
  by (simp add: chain_at_def)

lemma lh_retrieve_elements:
  assumes s: "lh_holds funcs s xs" and law: "lh_lawful funcs s"
  shows "OPENSSL_lh_retrieve funcs d s = (Ok (list_find (lh_eq funcs (lh_comp s)) d xs), s)"
proof -
  have ok: "lh_ok funcs s" and m: "mset (map it_data (items s)) = mset xs" using s by (simp_all add: lh_holds_def)
  note law = law [unfolded lh_lawful_def]
  show ?thesis using ok law
  proof (cases rule: get_next_ptr_cases [where d = d])
    case (found i)
    then show ?thesis using replace_ok(3) [OF ok law found(4,2,3) m] length_buckets [OF ok]
      by (simp add: OPENSSL_lh_retrieve_def item_here_found seq_simps)
  next
    case absent
    then show ?thesis using no_equal_element(1) [where eq = "lh_eq funcs (lh_comp s)", OF m absent(2)] length_buckets [OF ok]
      by (simp add: OPENSSL_lh_retrieve_def item_here_absent seq_simps)
  qed
qed

text \<open>A key of another type finds the element that it matches, when its hash is that of the element.\<close>

lemma lh_retrieve_key_elements:
  assumes s: "lh_holds funcs s xs" and law: "lh_lawful funcs s"
    and key: "\<And>x. cmp_key x = 0 \<longleftrightarrow> lh_eq funcs (lh_comp s) x d" "key_hash = call_hash_func funcs (lh_hash s) d"
  shows "OPENSSL_lh_retrieve_key key_hash cmp_key s = (Ok (list_find (lh_eq funcs (lh_comp s)) d xs), s)"
proof -
  have "OPENSSL_lh_retrieve_key key_hash cmp_key s = OPENSSL_lh_retrieve funcs d s"
    by (auto simp: OPENSSL_lh_retrieve_key_def OPENSSL_lh_retrieve_def get_next_ptr_by_key_def get_next_ptr_and_hash_def
      key Let_def bnd_def split: res.splits prod.splits)
  then show ?thesis using lh_retrieve_elements [OF s law] by simp
qed

lemma lh_insert_elements:
  assumes s: "lh_holds funcs s xs" and law: "lh_lawful funcs s" and room: "length xs + 1 < 2 ^ 64"
  defines "eq \<equiv> lh_eq funcs (lh_comp s)"
  shows "\<exists>r t ys. OPENSSL_lh_insert A funcs d s = (Ok r, t) \<and> lh_holds funcs t ys \<and> lh_comp t = lh_comp s \<and> lh_hash t = lh_hash s \<and>
    callback_depth t = callback_depth s \<and>
    (r = (True, list_find eq d xs) \<and> ys = others eq d xs @ [d] \<or> r = (False, 0) \<and> ys = xs \<and> \<not> always_grants A)"
proof -
  have ok: "lh_ok funcs s" and m: "mset (map it_data (items s)) = mset xs" using s by (simp_all add: lh_holds_def)
  note law = law [unfolded lh_lawful_def]
  show ?thesis using ok law
  proof (cases rule: get_next_ptr_cases [where d = d])
    case (found i)
    let ?b = "unat (call_hash_func funcs (lh_hash s) d) mod num_buckets s"
    let ?it = "buckets s ! ?b ! i"
    let ?t = "s\<lparr>buckets := (buckets s)[?b := (buckets s ! ?b)[i := ?it\<lparr>it_data := d\<rparr>]]\<rparr>"
    note r = replace_ok [OF ok law found(4,2,3) m]
    have "OPENSSL_lh_insert A funcs d s = (Ok (True, it_data ?it), ?t)"
      using found length_buckets [OF ok]
      by (simp add: OPENSSL_lh_insert_def item_here_found chain_at_ok seq_simps set_chain_def)
    moreover have "lh_holds funcs ?t (others eq d xs @ [d])" using r by (simp add: lh_holds_def eq_def)
    ultimately show ?thesis using r(3)
      by (intro exI [of _ "(True, it_data ?it)"] exI [of _ ?t] exI [of _ "others eq d xs @ [d]"]) (simp add: eq_def)
  next
    case absent
    let ?h = "call_hash_func funcs (lh_hash s) d"
    let ?b = "unat ?h mod num_buckets s"
    let ?n = "\<lparr>it_data = d, it_hash = ?h, it_addr = lh_requests s\<rparr>"
    let ?u = "s\<lparr>buckets := (buckets s)[?b := buckets s ! ?b @ [?n]], num_items := num_items s + 1, lh_requests := lh_requests s + 1\<rparr>"
    note none = no_equal_element [where eq = "lh_eq funcs (lh_comp s)", OF m absent(2)]
    show ?thesis
    proof (cases "grant A (lh_requests s) 24")
      case False
      let ?t = "s\<lparr>lh_requests := lh_requests s + 1\<rparr>"
      have "OPENSSL_lh_insert A funcs d s = (Ok (False, 0), ?t)" using False absent length_buckets [OF ok]
        by (simp add: OPENSSL_lh_insert_def item_here_absent chain_at_ok seq_simps)
      moreover have "same_items s ?t" by (simp add: same_items_def items_def)
      then have "lh_ok funcs ?t" by (rule same_items_ok [OF ok]) (use lh_okD(1,2) [OF ok] in simp_all)
      then have "lh_holds funcs ?t xs" using m by (simp add: lh_holds_def items_def)
      ultimately show ?thesis using False
        by (intro exI [of _ "(False, 0)"] exI [of _ ?t] exI [of _ xs]) (auto simp: always_grants_def)
    next
      case True
      note a = add_ok [OF ok law absent(2)]
      have "length (items s) = length xs" using m by (metis length_map mset_eq_length)
      then have size: "size_add (num_items s) 1 = num_items s + 1" using room lh_okD(3) [OF ok] by (simp add: size_add_def)
      obtain t where t: "lh_maybe_resize A ?u = (Ok (), t)" "lh_holds funcs t (xs @ [d])" "lh_comp t = lh_comp ?u" "lh_hash t = lh_hash ?u"
          "callback_depth t = callback_depth ?u"
        by (rule holds_resized [OF a(1), of "xs @ [d]"]) (use a(2) m in simp_all)
      have "OPENSSL_lh_insert A funcs d s = (Ok (True, 0), t)" using True absent length_buckets [OF ok] t(1) size
        by (simp add: OPENSSL_lh_insert_def item_here_absent chain_at_ok seq_simps set_chain_def)
      then show ?thesis using t none by (intro exI [of _ "(True, 0)"] exI [of _ t] exI [of _ "xs @ [d]"]) (simp add: eq_def)
    qed
  qed
qed

lemma lh_delete_elements:
  assumes s: "lh_holds funcs s xs" and law: "lh_lawful funcs s"
  defines "eq \<equiv> lh_eq funcs (lh_comp s)"
  shows "\<exists>t. OPENSSL_lh_delete A funcs d s = (Ok (list_find eq d xs), t) \<and> lh_holds funcs t (others eq d xs) \<and>
    lh_comp t = lh_comp s \<and> lh_hash t = lh_hash s \<and> callback_depth t = callback_depth s"
proof -
  have ok: "lh_ok funcs s" and m: "mset (map it_data (items s)) = mset xs" using s by (simp_all add: lh_holds_def)
  note law = law [unfolded lh_lawful_def]
  show ?thesis using ok law
  proof (cases rule: get_next_ptr_cases [where d = d])
    case (found i)
    let ?b = "unat (call_hash_func funcs (lh_hash s) d) mod num_buckets s"
    let ?u = "s\<lparr>buckets := (buckets s)[?b := take i (buckets s ! ?b) @ drop (i + 1) (buckets s ! ?b)], num_items := num_items s - 1\<rparr>"
    note r = remove_ok [OF ok law found(4,2,3) m]
    obtain t where t: "lh_maybe_resize A ?u = (Ok (), t)" "lh_holds funcs t (others eq d xs)" "lh_comp t = lh_comp ?u" "lh_hash t = lh_hash ?u"
        "callback_depth t = callback_depth ?u"
      by (rule holds_resized [OF r(1,2)]) (simp add: eq_def)
    have "OPENSSL_lh_delete A funcs d s = (Ok (it_data (buckets s ! ?b ! i)), t)"
      using found length_buckets [OF ok] t(1) r(4)
      by (simp add: OPENSSL_lh_delete_def item_here_found chain_at_ok seq_simps set_chain_def)
    then show ?thesis using t r(3) by (intro exI [of _ t]) (simp add: eq_def)
  next
    case absent
    note none = no_equal_element [where eq = "lh_eq funcs (lh_comp s)", OF m absent(2)]
    have "OPENSSL_lh_delete A funcs d s = (Ok 0, s)" using absent length_buckets [OF ok]
      by (simp add: OPENSSL_lh_delete_def item_here_absent chain_at_ok seq_simps)
    then show ?thesis using none s by (intro exI [of _ s]) (simp add: eq_def)
  qed
qed

subsection \<open>Tables as lists\<close>

datatype lh_op = Lh_Insert u64 | Lh_Retrieve u64 | Lh_Delete u64 | Lh_Count

text \<open>An operation of the code, with its results as a truth value and a number, and the operation on a list.\<close>

fun lh_step :: "allocator \<Rightarrow> lhash_funcs \<Rightarrow> lh_op \<Rightarrow> (lhash, bool \<times> nat) cfun" where
  "lh_step A funcs (Lh_Insert d) = bnd (OPENSSL_lh_insert A funcs d) (\<lambda>(ok, old). ret (ok, unat old))"
| "lh_step A funcs (Lh_Retrieve d) = bnd (OPENSSL_lh_retrieve funcs d) (\<lambda>p. ret (True, unat p))"
| "lh_step A funcs (Lh_Delete d) = bnd (OPENSSL_lh_delete A funcs d) (\<lambda>p. ret (True, unat p))"
| "lh_step A funcs Lh_Count = bnd OPENSSL_lh_num_items (\<lambda>n. ret (True, n))"

fun lh_list_step :: "(u64 \<Rightarrow> u64 \<Rightarrow> bool) \<Rightarrow> lh_op \<Rightarrow> u64 list \<Rightarrow> (bool \<times> nat) \<times> u64 list" where
  "lh_list_step eq (Lh_Insert d) xs = ((True, unat (list_find eq d xs)), others eq d xs @ [d])"
| "lh_list_step eq (Lh_Retrieve d) xs = ((True, unat (list_find eq d xs)), xs)"
| "lh_list_step eq (Lh_Delete d) xs = ((True, unat (list_find eq d xs)), others eq d xs)"
| "lh_list_step eq Lh_Count xs = ((True, length xs), xs)"

fun lh_run :: "allocator \<Rightarrow> lhash_funcs \<Rightarrow> lh_op list \<Rightarrow> (lhash, (bool \<times> nat) list) cfun" where
  "lh_run A funcs [] = ret []"
| "lh_run A funcs (op # ops) = bnd (lh_step A funcs op) (\<lambda>r. bnd (lh_run A funcs ops) (\<lambda>rs. ret (r # rs)))"

fun lh_list_run :: "(u64 \<Rightarrow> u64 \<Rightarrow> bool) \<Rightarrow> lh_op list \<Rightarrow> u64 list \<Rightarrow> (bool \<times> nat) list \<times> u64 list" where
  "lh_list_run eq [] xs = ([], xs)"
| "lh_list_run eq (op # ops) xs =
     (case lh_list_step eq op xs of (r, xs) \<Rightarrow> case lh_list_run eq ops xs of (rs, xs) \<Rightarrow> (r # rs, xs))"

lemma lh_step_list:
  assumes s: "lh_holds funcs s xs" and law: "lh_lawful funcs s" and room: "length xs + 1 < 2 ^ 64" and A: "always_grants A"
  defines "eq \<equiv> lh_eq funcs (lh_comp s)"
  shows "\<exists>t. lh_step A funcs op s = (Ok (fst (lh_list_step eq op xs)), t) \<and> lh_holds funcs t (snd (lh_list_step eq op xs)) \<and>
    lh_comp t = lh_comp s \<and> lh_hash t = lh_hash s \<and> callback_depth t = callback_depth s"
proof (cases op)
  case (Lh_Insert d)
  then show ?thesis using lh_insert_elements [OF s law room, of A d] A by (auto simp: seq_simps eq_def)
next
  case (Lh_Retrieve d)
  then show ?thesis using lh_retrieve_elements [OF s law, of d] s by (auto simp: seq_simps eq_def)
next
  case (Lh_Delete d)
  then show ?thesis using lh_delete_elements [OF s law, of A d] by (auto simp: seq_simps eq_def)
next
  case Lh_Count
  have "mset (map it_data (items s)) = mset xs" "num_items s = length (items s)" using s by (simp_all add: lh_holds_def lh_ok_def)
  then have "num_items s = length xs" by (metis length_map mset_eq_length)
  then show ?thesis using Lh_Count s by (simp add: OPENSSL_lh_num_items_def seq_simps)
qed

lemma lh_list_step_length: "length (snd (lh_list_step eq op xs)) \<le> length xs + 1"
  by (cases op) (auto simp: others_def le_SucI)

lemma lh_run_list:
  assumes "lh_holds funcs s xs" "lh_lawful funcs s" "length xs + length ops < 2 ^ 64" and A: "always_grants A"
  shows "\<exists>t. lh_run A funcs ops s = (Ok (fst (lh_list_run (lh_eq funcs (lh_comp s)) ops xs)), t) \<and>
    lh_holds funcs t (snd (lh_list_run (lh_eq funcs (lh_comp s)) ops xs)) \<and>
    lh_comp t = lh_comp s \<and> lh_hash t = lh_hash s \<and> callback_depth t = callback_depth s"
  using assms(1-3)
proof (induction ops arbitrary: s xs)
  case (Cons op ops)
  let ?eq = "lh_eq funcs (lh_comp s)"
  have room: "length xs + 1 < 2 ^ 64" using Cons.prems(3) by simp
  obtain t where t: "lh_step A funcs op s = (Ok (fst (lh_list_step ?eq op xs)), t)" "lh_holds funcs t (snd (lh_list_step ?eq op xs))"
      "lh_comp t = lh_comp s" "lh_hash t = lh_hash s" "callback_depth t = callback_depth s"
    using lh_step_list [OF Cons.prems(1,2) room A] by blast
  have "lh_lawful funcs t" using Cons.prems(2) t(3,4) by (simp add: lh_lawful_def)
  moreover have "length (snd (lh_list_step ?eq op xs)) + length ops < 2 ^ 64"
    using lh_list_step_length [of ?eq op xs] Cons.prems(3) by simp
  ultimately obtain u where
    "lh_run A funcs ops t = (Ok (fst (lh_list_run ?eq ops (snd (lh_list_step ?eq op xs)))), u)"
    "lh_holds funcs u (snd (lh_list_run ?eq ops (snd (lh_list_step ?eq op xs))))"
    "lh_comp u = lh_comp t" "lh_hash u = lh_hash t" "callback_depth u = callback_depth t"
    using Cons.IH [OF t(2)] t(3) by auto
  then show ?case using t(1,3-5) by (auto simp: seq_simps split: prod.splits)
qed (simp add: lh_holds_def)

subsection \<open>Iteration\<close>

text \<open>A function that notes what it is called with, and removes some of the elements from the table.\<close>

definition visit :: "allocator \<Rightarrow> lhash_funcs \<Rightarrow> (u64 \<Rightarrow> bool) \<Rightarrow> u64 list lh_call" where
  "visit A funcs del p s =
     (if del p then case OPENSSL_lh_delete A funcs p (fst s) of (r, t) \<Rightarrow> (res_map (\<lambda>_. ()) r, (t, snd s @ [p]))
      else (Ok (), (fst s, snd s @ [p])))"

lemma distinct_chain: "b < length bs \<Longrightarrow> distinct (map f (concat bs)) \<Longrightarrow> distinct (map f (bs ! b))"
  by (rule concat_update [of b bs]) simp_all

text \<open>Without resizing, the item leaves its chain and nothing else changes.\<close>

lemma lh_delete_here:
  assumes ok: "lh_ok funcs s" and law: "lh_lawful funcs s" and d: "callback_depth s > 0"
    and b: "b < num_buckets s" "buckets s ! b = pre @ it # rest"
  defines "t \<equiv> s\<lparr>buckets := (buckets s)[b := pre @ rest], num_items := num_items s - 1\<rparr>"
  shows "OPENSSL_lh_delete A funcs (it_data it) s = (Ok (it_data it), t)" "lh_ok funcs t"
proof -
  note law = law [unfolded lh_lawful_def]
  let ?h = "call_hash_func funcs (lh_hash s) (it_data it)"
  have lb: "b < length (buckets s)" using b(1) length_buckets [OF ok] by simp
  have "it \<in> set (buckets s ! b)" using b(2) by simp
  then have it: "it \<in> set (items s)" using nth_mem [OF lb] by (auto simp: items_def)
  have hb: "unat ?h mod num_buckets s = b" using chain_hashed [OF ok b(1), of it] lh_okD(4) [OF ok it] b(2) by simp
  have dist: "distinct (map it_data (pre @ it # rest))"
    using distinct_chain [OF lb] lh_okD(6) [OF ok] unfolding b(2) items_def by blast
  have sub: "set (buckets s ! b) \<subseteq> set (items s)" using nth_mem [OF lb] by (auto simp: items_def)
  show g: "OPENSSL_lh_delete A funcs (it_data it) s = (Ok (it_data it), t)"
    using ok law
  proof (cases rule: get_next_ptr_cases [where d = "it_data it"])
    case (found i)
    note f = found [unfolded hb]
    have "it_data (buckets s ! b ! i) = it_data it"
      by (rule lh_okD(8) [OF ok _ _ f(3)]) (use f(2) it sub nth_mem in auto)
    then have "map it_data (pre @ it # rest) ! i = map it_data (pre @ it # rest) ! length pre"
      using f(2) unfolding b(2) by (subst (1 2) nth_map) simp_all
    then have i: "i = length pre"
      by (subst (asm) nth_eq_iff_index_eq [OF dist]) (use f(2) b(2) in simp_all)
    have "lh_maybe_resize A t = (Ok (), t)" using d by (intro lh_maybe_resize_suppressed) (simp add: t_def)
    then show ?thesis using f(1,2) lb i b(2) remove_ok(4) [OF ok law b(1) f(2,3) refl]
      by (simp add: OPENSSL_lh_delete_def item_here_found chain_at_ok seq_simps set_chain_def t_def)
  next
    case absent
    then show ?thesis using it hashing.eq_refl [OF law] by blast
  qed
  show "lh_ok funcs t"
    using remove_ok(1) [OF ok law b(1), of "length pre" "it_data it" "map it_data (items s)"] hashing.eq_refl [OF law]
    by (simp add: t_def b(2) nth_append)
qed

lemma after_item_here:
  assumes "distinct (map it_addr (pre @ it # rest))"
  shows "after_item (it_addr it) (pre @ it # rest) = Some (it, case rest of [] \<Rightarrow> None | next # _ \<Rightarrow> Some (it_addr next))"
proof -
  have "dropWhile (\<lambda>i. it_addr i \<noteq> it_addr it) (pre @ it # rest) = it # rest"
    using assms by (subst dropWhile_append2) (simp_all, metis imageI)
  then show ?thesis by (simp add: after_item_def)
qed

text \<open>Fields that an iteration leaves alone.\<close>

definition same_table :: "lhash \<Rightarrow> lhash \<Rightarrow> bool" where
  "same_table s t \<longleftrightarrow> lh_comp t = lh_comp s \<and> lh_hash t = lh_hash s \<and> callback_depth t = callback_depth s \<and> num_buckets t = num_buckets s"

lemma doall_chain_visits:
  assumes "lh_ok funcs s" "lh_lawful funcs s" "callback_depth s > 0" "b < num_buckets s" "buckets s ! b = pre @ rest" "length rest \<le> fuel"
  shows "\<exists>t. doall_chain fuel (visit A funcs del) b (case rest of [] \<Rightarrow> None | cur # _ \<Rightarrow> Some (it_addr cur)) (s, w) =
      Some (Ok (), t, w @ map it_data rest) \<and> lh_ok funcs t \<and> same_table s t \<and>
      buckets t = (buckets s)[b := pre @ filter (\<lambda>it. \<not> del (it_data it)) rest]"
  using assms
proof (induction rest arbitrary: s pre fuel w)
  case Nil
  then have "(buckets s)[b := pre @ []] = buckets s" by (metis list_update_id)
  then show ?case using Nil by (intro exI [of _ s]) (simp add: same_table_def)
next
  case (Cons it rest)
  let ?next = "case rest of [] \<Rightarrow> None | next # _ \<Rightarrow> Some (it_addr next)"
  obtain n where n: "fuel = Suc n" "length rest \<le> n" using Cons.prems(6) by (cases fuel) auto
  have lb: "b < length (buckets s)" using Cons.prems(4) length_buckets [OF Cons.prems(1)] by simp
  have c: "chain_at b s = (Ok (pre @ it # rest), s)" using chain_at_ok [OF lb] Cons.prems(5) by simp
  have "distinct (map it_addr (pre @ it # rest))"
    using distinct_chain [OF lb] lh_okD(7) [OF Cons.prems(1)] unfolding Cons.prems(5) items_def by metis
  note a = after_item_here [OF this]
  have step: "doall_chain fuel (visit A funcs del) b (Some (it_addr it)) (s, w) =
      (case visit A funcs del (it_data it) (s, w) of
         (Ok _, u) \<Rightarrow> doall_chain n (visit A funcs del) b ?next u | (r, u) \<Rightarrow> Some (r, u))"
    unfolding n(1) by (simp add: c a)
  show ?case
  proof (cases "del (it_data it)")
    case False
    have "buckets s ! b = (pre @ [it]) @ rest" using Cons.prems(5) by simp
    moreover have "visit A funcs del (it_data it) (s, w) = (Ok (), s, w @ [it_data it])" using False by (simp add: visit_def)
    ultimately show ?thesis using False Cons.IH [OF Cons.prems(1-4) _ n(2), of "pre @ [it]" "w @ [it_data it]"] by (simp add: step)
  next
    case True
    let ?u = "s\<lparr>buckets := (buckets s)[b := pre @ rest], num_items := num_items s - 1\<rparr>"
    note d = lh_delete_here [OF Cons.prems(1-5)]
    have "lh_lawful funcs ?u" "callback_depth ?u > 0" "b < num_buckets ?u" "buckets ?u ! b = pre @ rest"
      using Cons.prems lb by (simp_all add: lh_lawful_def)
    moreover have "visit A funcs del (it_data it) (s, w) = (Ok (), ?u, w @ [it_data it])" using True by (simp add: visit_def d(1))
    ultimately show ?thesis using True Cons.IH [OF d(2) _ _ _ _ n(2), of pre "w @ [it_data it]"] by (auto simp: step same_table_def)
  qed
qed

lemma doall_buckets_visits:
  assumes "lh_ok funcs s" "lh_lawful funcs s" "callback_depth s > 0" "b + n = num_buckets s" "\<forall>c \<in> set (buckets s). length c \<le> fuel"
  shows "\<exists>t. doall_buckets fuel (visit A funcs del) b n (s, w) = Some (Ok (), t, w @ map it_data (concat (drop b (buckets s)))) \<and>
      lh_ok funcs t \<and> same_table s t \<and>
      buckets t = take b (buckets s) @ map (filter (\<lambda>it. \<not> del (it_data it))) (drop b (buckets s))"
  using assms
proof (induction n arbitrary: s b w)
  case 0
  then show ?case using length_buckets [OF 0(1)] by (intro exI [of _ s]) (simp add: same_table_def)
next
  case (Suc n)
  let ?keep = "filter (\<lambda>it. \<not> del (it_data it))"
  have b: "b < num_buckets s" "b < length (buckets s)" using Suc.prems(4) length_buckets [OF Suc.prems(1)] by simp_all
  obtain u where u: "doall_chain fuel (visit A funcs del) b (case buckets s ! b of [] \<Rightarrow> None | cur # _ \<Rightarrow> Some (it_addr cur)) (s, w) =
      Some (Ok (), u, w @ map it_data (buckets s ! b))" "lh_ok funcs u" "same_table s u" "buckets u = (buckets s)[b := ?keep (buckets s ! b)]"
    using doall_chain_visits [OF Suc.prems(1-3) b(1), of "[]" "buckets s ! b" fuel A del w] Suc.prems(5) b(2) by auto
  have x: "drop b (buckets s) = buckets s ! b # drop (Suc b) (buckets s)" using b(2) by (simp add: Cons_nth_drop_Suc)
  have du: "drop (Suc b) (buckets u) = drop (Suc b) (buckets s)" "take (Suc b) (buckets u) = take b (buckets s) @ [?keep (buckets s ! b)]"
    using b(2) by (simp_all add: u(4) take_Suc_conv_app_nth)
  have "length (?keep (buckets s ! b)) \<le> fuel"
    using Suc.prems(5) nth_mem [OF b(2)] le_trans [OF length_filter_le] by blast
  then have "\<forall>c \<in> set (buckets u). length c \<le> fuel"
    using Suc.prems(5) set_update_subset_insert [of "buckets s" b "?keep (buckets s ! b)"] unfolding u(4) by blast
  moreover have "lh_lawful funcs u" "callback_depth u > 0" "Suc b + n = num_buckets u"
    using u(3) Suc.prems(2-4) by (simp_all add: same_table_def lh_lawful_def)
  ultimately obtain t where t: "doall_buckets fuel (visit A funcs del) (Suc b) n (u, w @ map it_data (buckets s ! b)) =
      Some (Ok (), t, (w @ map it_data (buckets s ! b)) @ map it_data (concat (drop (Suc b) (buckets s))))"
      "lh_ok funcs t" "same_table u t" "buckets t = take (Suc b) (buckets u) @ map ?keep (drop (Suc b) (buckets s))"
    using Suc.IH [OF u(2), of "Suc b" "w @ map it_data (buckets s ! b)"] du by auto
  have "same_table s t" using u(3) t(3) by (simp add: same_table_def)
  then show ?case using t u(1) chain_at_ok [OF b(2)] by (intro exI [of _ t]) (simp add: x du)
qed

text \<open>An iteration visits every element once, also when it removes elements on its way; afterwards the table is
  in order and has the elements that were not removed.\<close>

lemma doall_visits:
  assumes s: "lh_holds funcs s xs" and law: "lh_lawful funcs s" and d: "callback_depth s = 0" and fuel: "length xs \<le> fuel"
  shows "\<exists>t ys. OPENSSL_lh_doall_arg A fuel (visit A funcs del) (Some s) [] = Some (Ok (), Some t, ys) \<and> mset ys = mset xs \<and>
    lh_holds funcs t (filter (\<lambda>p. \<not> del p) ys)"
proof -
  let ?e = "s\<lparr>callback_depth := 1\<rparr>" and ?keep = "filter (\<lambda>it. \<not> del (it_data it))"
  have ok: "lh_ok funcs s" and m: "mset (map it_data (items s)) = mset xs" using s by (simp_all add: lh_holds_def)
  have len: "length (items s) = length xs" using m by (metis length_map mset_eq_length)
  have e: "lh_ok funcs ?e" "lh_lawful funcs ?e" using ok law by (simp_all add: lh_ok_def lh_lawful_def items_def)
  have "length c \<le> length (items s)" if "c \<in> set (buckets s)" for c
    using member_le_sum_list [of "length c" "map length (buckets s)"] that by (simp add: items_def length_concat)
  then have f: "\<forall>c \<in> set (buckets ?e). length c \<le> fuel" using len fuel by force
  obtain u where u: "doall_buckets fuel (visit A funcs del) 0 (num_buckets s) (?e, []) = Some (Ok (), u, map it_data (items s))"
      "lh_ok funcs u" "same_table ?e u" "buckets u = map ?keep (buckets s)"
    using doall_buckets_visits [OF e _ _ f, of 0 "num_buckets s" A del "[]"] by (auto simp: items_def)
  let ?u = "u\<lparr>callback_depth := 0\<rparr>"
  have cd: "callback_depth u = 1" using u(3) by (simp add: same_table_def)
  have "items ?u = ?keep (items s)" by (simp add: items_def u(4) filter_concat)
  then have "mset (map it_data (items ?u)) = mset (filter (\<lambda>p. \<not> del p) (map it_data (items s)))"
    by (simp add: filter_map comp_def)
  then have f: "mset (map it_data (items ?u)) = mset (filter (\<lambda>p. \<not> del p) (map it_data (items s)))" .
  have "lh_ok funcs ?u" using u(2) by (simp add: lh_ok_def items_def)
  then obtain t where t: "lh_maybe_resize A ?u = (Ok (), t)" "lh_holds funcs t (filter (\<lambda>p. \<not> del p) (map it_data (items s)))"
    by (rule holds_resized [OF _ f])
  have "OPENSSL_lh_doall_arg A fuel (visit A funcs del) (Some s) [] = Some (Ok (), Some t, map it_data (items s))"
    using d cd u(1) t(1) by (simp add: OPENSSL_lh_doall_arg_def Let_def)
  then show ?thesis using t(2) m by blast
qed

subsection \<open>Hashes of bytes\<close>

text \<open>\<^verbatim>\<open>OPENSSL_hash32\<close> of \<^verbatim>\<open>mem.c\<close>, and the functions that \<^verbatim>\<open>obj.c\<close> gives to its table of objects by their
  encodings: an object is the bytes of its encoding here.\<close>

definition OPENSSL_hash32 :: "bytes \<Rightarrow> u32" where
  "OPENSSL_hash32 ptr = foldl (\<lambda>h c. (h XOR ucast c) * 16777619) 2166136261 ptr"

definition hash_data :: "bytes \<Rightarrow> u32" where
  "hash_data obj = OPENSSL_hash32 obj"

definition OBJ_cmp :: "bytes \<Rightarrow> bytes \<Rightarrow> int" where
  "OBJ_cmp a b =
     (if length a < length b then - 1
      else if length a > length b then 1
      else OPENSSL_memcmp a b (length a))"

lemma memcmp_equal:
  assumes "length a = length b"
  shows "OPENSSL_memcmp a b (length a) = 0 \<longleftrightarrow> a = b"
  using assms by (induction a b rule: list_induct2) auto

lemma OBJ_cmp_equal: "OBJ_cmp a b = 0 \<longleftrightarrow> a = b"
proof (cases "length a = length b")
  case True
  then have "OBJ_cmp a b = OPENSSL_memcmp a b (length a)" by (simp add: OBJ_cmp_def)
  then show ?thesis using memcmp_equal [OF True] by simp
qed (auto simp: OBJ_cmp_def)

interpretation objects: hashing hash_data "\<lambda>a b. OBJ_cmp a b = 0"
  by unfold_locales (simp_all add: OBJ_cmp_equal)

lemma hashing_behind: "hashing hash eq \<Longrightarrow> hashing (\<lambda>a. hash (f a)) (\<lambda>a b. eq (f a) (f b))"
  unfolding hashing_def by blast

end
