(* ===== verification/Spec2Isabelle.thy ===== *)
theory Spec2Isabelle
  imports C_Prelude Posix_Time Cbs Der Der_Int Cbb Cbb_Oid Cbb_Asn1 Cbb_Safe Cbs_Time Utf Ber Internal Base64 Base64_Stream Pb_Decode Pb_Safe Pb_Wire Pb_Encode Pb_Fields Pb_Iter Pb_Message C_Memory Pb_Release Pb_Message_Decode Pb_Static Pb_Static_Message Pb_Faults Stack Stack_Sort Lhash
begin

text \<open>
  \<^bold>\<open>SpendCraft: the encodings under its iOS client\<close>

  SpendCraft is an expense tracker. Its screens are Kotlin and Swift; the C code of the repository is what its
  iOS client is linked with, under \<^verbatim>\<open>iosApp/Pods\<close>. This development models the two places where that code
  turns untrusted bytes into values and back: the byte-string layer of BoringSSL (certificates and keys are
  DER, read and written with \<^verbatim>\<open>crypto/bytestring\<close>, their times with \<^verbatim>\<open>crypto/asn1/posix_time.c\<close>, PEM with
  \<^verbatim>\<open>crypto/base64\<close>), and nanopb, which codes the Firestore messages. To these it adds the containers in which
  BoringSSL keeps what it has read, \<^verbatim>\<open>crypto/stack\<close> and \<^verbatim>\<open>crypto/lhash\<close>.

  \<^bold>\<open>How C is modelled\<close>

  An operation is a function from the state to a result and a state, \<open>('s, 'a) cfun\<close> of \<open>C_Prelude\<close>. A result is
  \<open>Ok a\<close>, \<open>Fail\<close> (the code returns 0, false or NULL) or \<open>Undef\<close>: an access outside its object, a failing
  \<^verbatim>\<open>assert\<close>, or undefined behaviour. So memory safety is that a result is not \<open>Undef\<close>. \<open>bnd\<close> is the early return.
  Integers have their width; \<^verbatim>\<open>size_t\<close> is a number below \<^verbatim>\<open>2^64\<close> with the wrap-around written out (\<open>size_add\<close>,
  \<open>size_mul\<close>). The target is a 64-bit little-endian machine. The allocator is a parameter: which request is
  granted, and what fresh memory holds (\<open>allocator\<close>). So are the streams of an application in nanopb.

  \<^bold>\<open>The theories\<close>

  \<^item> \<open>C_Prelude\<close>: results, states, sizes, the allocator, words as bytes, readers that take a prefix of their
    input, and the locale \<open>codec\<close>: what an encoder and a decoder promise each other (a round trip, one value
    or many), interpreted for every pair below.
  \<^item> \<open>Cbs\<close> (\<^verbatim>\<open>cbs.c\<close>): a \<^verbatim>\<open>CBS\<close> is the list of bytes left. Every reader, the tag, length and element parsers, in
    DER and BER, integers, bit strings, OIDs, decimals. \<open>Der\<close> and \<open>Der_Int\<close>: DER as a grammar (\<open>der_element\<close>,
    \<open>der_unsigned\<close>, \<open>der_signed\<close>), and that the parsers accept exactly it.
  \<^item> \<open>Cbb\<close> (\<^verbatim>\<open>cbb.c\<close>): the builder is one record, the shared buffer with the chain of open children; a \<^verbatim>\<open>CBB\<close>
    is a depth in the chain. \<open>writes\<close> says what an operation appends and when it fails; \<open>close_children\<close> is the
    specification of \<^verbatim>\<open>CBB_flush\<close>. \<open>Cbb_Oid\<close>, \<open>Cbb_Asn1\<close>: OIDs, \<^verbatim>\<open>SET OF\<close>, and the bytes of the ASN.1 writers.
    \<open>Cbb_Safe\<close>: the calls as a step function \<open>run_op\<close>, the reachable states, and their invariant.
  \<^item> \<open>Ber\<close> (\<^verbatim>\<open>ber.c\<close>, \<^verbatim>\<open>asn1_compat.c\<close>): the scan for BER and the conversion, against a reference conversion on
    bytes, \<open>ber_content\<close>, and a notion of DER, \<open>der_items\<close>. The functions carry fuel; one more than the length of
    the input is enough, which the lemmas on \<open>Undef\<close> say.
  \<^item> \<open>Posix_Time\<close> (\<^verbatim>\<open>posix_time.c\<close>) and \<open>Cbs_Time\<close> (the time parser of \<^verbatim>\<open>cbs.c\<close>): the calendar on integers, with
    the ranges of \<^verbatim>\<open>int64_t\<close> and \<^verbatim>\<open>int\<close> checked, against a day-by-day calendar.
  \<^item> \<open>Utf\<close> (\<^verbatim>\<open>unicode.c\<close>), \<open>Internal\<close> (\<^verbatim>\<open>internal.h\<close>): code points; constant-time masks, byte order, carries.
  \<^item> \<open>Base64\<close>, \<open>Base64_Stream\<close> (\<^verbatim>\<open>base64.c\<close>): blocks, and the streaming coders with their context.
  \<^item> \<open>C_Memory\<close>: memory as code with pointers sees it, bytes at 64-bit addresses with the blocks of the
    allocator; reading what is not there and freeing what is not a block is \<open>Undef\<close>. Messages live in it.
  \<^item> \<open>Pb_Decode\<close> (\<^verbatim>\<open>pb_decode.c\<close>): streams, integers, tags, skipping, substreams. \<open>Pb_Safe\<close>: the locale
    \<open>pb_contract\<close>, what the decoder asks of a source of bytes and what it then promises, interpreted for buffers.
    \<open>Pb_Wire\<close>: the wire format as functions to bytes, and the round trips.
  \<^item> \<open>Pb_Encode\<close> (\<^verbatim>\<open>pb_encode.c\<close>): output streams and encoders; \<open>emits\<close> says at once what is counted, written and
    refused. \<open>Pb_Message\<close>: arrays, oneofs, submessages and \<^verbatim>\<open>pb_encode\<close>, over a memory that does not change;
    \<open>message_fields\<close> is the specification, what a message in memory says, with \<open>field_there\<close> for the
    optional fields without a flag; callbacks are parameters.
  \<^item> \<open>Pb_Fields\<close>, \<open>Pb_Release\<close>, \<open>Pb_Message_Decode\<close> (\<^verbatim>\<open>pb_decode.c\<close>): the decoder of messages, over a machine of
    memory and stream, \<open>pb_machine\<close>. The table of decoders; defaults and release; static, pointer and callback
    fields, extensions, the loop over the stream and \<^verbatim>\<open>pb_decode\<close> with its callers. The program around the decoder,
    \<open>pb_host\<close>, is a parameter: tables by address, reader, allocator with the addresses it picks (one that
    overlaps what is in use counts as a refusal), the address of the local variable \<^verbatim>\<open>fixed_count_size\<close> of a
    call, and the functions an application registers. The locale \<open>pb_nested\<close> extends \<open>pb_contract\<close> to sources within
    sources; \<open>confined\<close> is a step that is defined and stays in a region. \<open>Pb_Static\<close>, \<open>Pb_Static_Message\<close>: all
    of the decoder is confined to a message without pointers. \<open>Pb_Faults\<close>: two messages it does not stay in.
  \<^item> \<open>Pb_Iter\<close> (\<^verbatim>\<open>pb_common.c\<close>): the iterator over the fields of a message.
  \<^item> \<open>Stack\<close>, \<open>Stack_Sort\<close> (\<^verbatim>\<open>stack.c\<close>): BoringSSL's arrays of pointers, against operations on lists; heap sort and
    binary search, with the locale \<open>comparison\<close> for what they need of a comparison function, interpreted for
    the order of DER elements. \<open>Lhash\<close> (\<^verbatim>\<open>lhash.c\<close>): hash tables with resizing and iteration, against lists without
    equal elements; the locale \<open>hashing\<close> is interpreted for the encodings of objects (\<^verbatim>\<open>obj.c\<close>). The addresses of
    items are the numbers of the requests that made them; an iteration has fuel for the items of one chain.

  \<^bold>\<open>What the theorems show\<close>

  The properties below are in the order of the theories: the builder is memory safe in every reachable state
  and flushing refines its specification; the parsers accept exactly DER, and the elements
  of a sequence are unique; a \<^verbatim>\<open>SET OF\<close> is sorted in the lexicographic order, stated without the comparison of the code; the
  writers and readers are inverse; BER conversion refines the reference, comes back on every input, and gives DER; times are
  those of the calendar, with every accepted text listed; UTF-8 and Base64 are inverse to their decoders,
  however the stream is cut; nanopb's encoder refines its specification, with an exact
  sizing pass, and its readers read back what it writes; its decoder never leaves its source, nor a message without pointers, and comes to an end on
  all inputs; two faults of it with other messages are proved on examples. Stacks and hash tables behave as lists
  through all growth and resizing; sorting sorts, and searching finds the first match unless an element was
  overwritten in place while the stack was marked as sorted.

  Fuel: the loops of nanopb take one more than \<^verbatim>\<open>bytes_left\<close>, since every round reads a byte; \<open>pb_field_iter_find\<close>
  takes one more than the entries of the table, a loop over fields takes the entries; \<^verbatim>\<open>pb_decode\<close> takes the depth
  of nesting, and \<open>static_table\<close> says what depth a table has; a
  callback that reads nothing is called forever, which is \<open>Undef\<close>; \<^verbatim>\<open>pb_encode\<close> takes the depth of the message, and the same fuel makes
  \<open>message_fields\<close> say what it says; the nested calls of \<^verbatim>\<open>ber.c\<close> one more than the bytes. That
  these are enough is proved where a theorem says that a result is defined. Lists of extensions have no bound in the
  code, and a circular one is never left: they are followed up to a number that is a parameter (\<open>e_extensions\<close>,
  \<open>h_extensions\<close>), and a longer list is \<open>Undef\<close>; no theorem is about messages with extensions that are there.

  \<^bold>\<open>Not modelled\<close>

  Of the files above: \<^verbatim>\<open>CBS_parse_generalized_time\<close> and its like leave the fields of \<^verbatim>\<open>struct tm\<close> that they do not
  set as they were; the model has the six they set. When a read fails, the bytes that the application's
  reader stored before it failed. \<^verbatim>\<open>CBB_discard_child\<close> detaches the descendants of the child with it, where the code
  leaves them pointing at the buffer. Of \<^verbatim>\<open>internal.h\<close>: threads, reference
  counts, CPU features. Allocation contexts (\<^verbatim>\<open>EVP_ENCODE_CTX_new\<close>) and the error queue. The rest of BoringSSL
  (X.509, ASN.1 templates, ciphers, TLS, I/O), gRPC, abseil, leveldb and the Firebase pods, which are C++,
  Objective-C or generated, and the Kotlin and Swift application.
\<close>

subsection \<open>Witness inputs\<close>

text \<open>An allocator that grants every request, and hands out zero bytes.\<close>

definition calm :: allocator where
  "calm = \<lparr>grant = (\<lambda>_ _. True), garbage = (\<lambda>_ _. 0)\<rparr>"

lemma calm_grants [simp]: "always_grants calm" "grant calm k n"
  by (simp_all add: calm_def always_grants_def)

text \<open>A builder that is given the memory it asks for writes, and finishes with, the bytes of its calls.\<close>

lemma builder_run:
  assumes "writes A 0 bs r m" "n < 2 ^ 64" "always_grants A" "length bs < 2 ^ 64"
  shows "\<exists>s s'. CBB_init A n = Ok s \<and> m s = (Ok r, s') \<and> fst (CBB_finish A 0 True s') = Ok bs"
  using assms(1,2) by (cases rule: writes_run) (use assms in auto)

lemma short_element: "length body \<le> 9 \<Longrightarrow> length (der_element tag body) < 2 ^ 64"
  using der_tag_length [of tag] by (simp add: element_length der_length_def)

lemma der_signed_length: "length (der_signed v) \<le> 9"
  using der_unsigned_length [of v] signed_top_le [of v 7] by (simp add: der_signed_def)

section \<open>The byte-string builder\<close>

text \<open>C1: memory safety of the builder. From every state that a sequence of calls reaches, on growing or
  fixed buffers, with any nesting of children, whatever allocations the allocator refuses, the next call
  neither leaves the buffer nor violates an \<^verbatim>\<open>assert\<close>, and keeps the invariant of the state. All calls keep
  to the contract \<open>op_ok\<close> of the API: the CBB they name is still attached, sizes are \<^verbatim>\<open>size_t\<close> values,
  and \<^verbatim>\<open>CBB_discard_child\<close> and \<^verbatim>\<open>CBB_did_write\<close> are not called after a failure.\<close>

theorem builder_memory_safe:
  assumes "reachable A s" "op_ok op s"
  shows "fst (run_op A op s) \<noteq> Undef \<and> cbb_ok (snd (run_op A op s))"
  using run_op_good [OF reachable_ok [OF assms(1)] assms(2)] by (simp add: good_outcome_def)

theorem builder_memory_safe_witness:
  "fst (run_op calm (Op_asn1 0 CBS_ASN1_INTEGER) (cbb_init [0, 0] 2 False CBB_zero)) \<noteq> Undef \<and>
   cbb_ok (snd (run_op calm (Op_asn1 0 CBS_ASN1_INTEGER) (cbb_init [0, 0] 2 False CBB_zero)))"
  by (rule builder_memory_safe, rule reachable.fixed [of "[0, 0]"])
    (simp_all add: CBB_init_fixed_def attached_def cbb_init_def CBB_zero_def)

text \<open>C2: flushing refines its specification. \<open>CBB_flush\<close> at any depth of a live builder closes the open
  children innermost first, so that the buffer holds the bytes \<open>close_children\<close> gives; it fails
  only where a length does not fit its prefix or the buffer cannot grow.\<close>

theorem flush_closes_children:
  assumes "reachable A s" "\<not> error s" "attached d s"
  shows "(\<exists>s'. CBB_flush A d s = (Ok (), s') \<and> close_children (drop d (chain s)) (out s) = Some (out s') \<and>
            chain s' = take d (chain s)) \<or>
         (\<exists>s'. CBB_flush A d s = (Fail, s') \<and> error s' \<and>
            (\<forall>bs. close_children (drop d (chain s)) (out s) = Some bs \<longrightarrow> \<not> room A s (length bs - len s)))"
proof -
  have ok: "shape s" "nested 0 (chain s) (len s)" using reachable_ok [OF assms(1)] assms(2) by (simp_all add: cbb_ok_def)
  obtain lo where "nested lo (drop d (chain s)) (len s)" using nested_drop [OF ok(2)] by blast
  from CBB_flush_spec [OF ok(1) assms(2) _ this] assms(3) show ?thesis by (auto simp: attached_def failed_def)
qed

theorem flush_closes_children_witness:
  "(\<exists>s'. CBB_flush calm 0 (cbb_init [0, 0] 2 False CBB_zero) = (Ok (), s') \<and>
        close_children (drop 0 (chain (cbb_init [0, 0] 2 False CBB_zero))) (out (cbb_init [0, 0] 2 False CBB_zero)) = Some (out s') \<and>
        chain s' = take 0 (chain (cbb_init [0, 0] 2 False CBB_zero))) \<or>
   (\<exists>s'. CBB_flush calm 0 (cbb_init [0, 0] 2 False CBB_zero) = (Fail, s') \<and> error s' \<and>
        (\<forall>bs. close_children (drop 0 (chain (cbb_init [0, 0] 2 False CBB_zero))) (out (cbb_init [0, 0] 2 False CBB_zero)) = Some bs \<longrightarrow>
           \<not> room calm (cbb_init [0, 0] 2 False CBB_zero) (length bs - len (cbb_init [0, 0] 2 False CBB_zero))))"
  by (rule flush_closes_children, rule reachable.fixed [of "[0, 0]"])
    (simp_all add: CBB_init_fixed_def attached_def cbb_init_def CBB_zero_def)

section \<open>DER\<close>

text \<open>C3: the parser of elements accepts exactly the DER encodings: a tag in minimal form, a definite
  length in minimal form, and that many bytes.\<close>

theorem get_any_asn1_iff_der:
  "CBS_get_any_asn1 s = (Ok (tag, body), rest) \<longleftrightarrow>
     valid_tag tag \<and> length body \<le> max_der_len \<and> s = der_element tag body @ rest"
  by (rule CBS_get_any_asn1_Ok)

text \<open>C4: the loops over the elements of a SET OF are complete and unambiguous. The first loop counts \<open>n\<close> elements
  exactly when the bytes are, in exactly one way, a sequence of \<open>n\<close> DER elements, and the second loop, asked
  for \<open>n\<close> elements, uses up the bytes exactly then, and collects the encodings of these elements in their order.\<close>

theorem der_sequence_unique:
  "(count_elements cs = Ok n) = (\<exists>!es. der_sequence cs es \<and> length es = n) \<and>
   (collect_elements n cs = (Ok els, [])) =
     (\<exists>!es. der_sequence cs es \<and> length es = n \<and> els = map (\<lambda>(tag, body). SetElement (der_element tag body)) es)"
  unfolding count_elements_iff collect_elements_iff the_elements_def using der_sequence_inj [of cs] by blast

text \<open>C5: an integer written by the builder is read back by the parser, whatever follows it.\<close>

theorem uint64_round_trip:
  assumes "always_grants A" "n < 2 ^ 64"
  shows "\<exists>s s' bs. CBB_init A n = Ok s \<and> CBB_add_asn1_uint64 A 0 v s = (Ok (), s') \<and>
    fst (CBB_finish A 0 True s') = Ok bs \<and> CBS_get_asn1_uint64 (bs @ rest) = (Ok v, rest)"
proof -
  have "length (der_element CBS_ASN1_INTEGER (der_unsigned v)) < 2 ^ 64"
    by (rule short_element) (rule der_unsigned_length)
  with builder_run [OF writes_uint64_with_tag assms(2,1), of CBS_ASN1_INTEGER v]
  obtain s s' where "CBB_init A n = Ok s" "CBB_add_asn1_uint64_with_tag A 0 v CBS_ASN1_INTEGER s = (Ok (), s')"
    "fst (CBB_finish A 0 True s') = Ok (der_element CBS_ASN1_INTEGER (der_unsigned v))" by blast
  then show ?thesis unfolding CBB_add_asn1_uint64_def CBS_get_asn1_uint64_Ok by blast
qed

theorem uint64_round_trip_witness:
  "\<exists>s s' bs. CBB_init calm 4 = Ok s \<and> CBB_add_asn1_uint64 calm 0 0xff s = (Ok (), s') \<and>
    fst (CBB_finish calm 0 True s') = Ok bs \<and> CBS_get_asn1_uint64 (bs @ [7]) = (Ok 0xff, [7])"
  by (rule uint64_round_trip) simp_all

text \<open>C6: the same for signed integers; \<open>v\<close> is the bit pattern of the \<^verbatim>\<open>int64_t\<close>.\<close>

theorem int64_round_trip:
  assumes "always_grants A" "n < 2 ^ 64"
  shows "\<exists>s s' bs. CBB_init A n = Ok s \<and> CBB_add_asn1_int64 A 0 v s = (Ok (), s') \<and>
    fst (CBB_finish A 0 True s') = Ok bs \<and> CBS_get_asn1_int64 (bs @ rest) = (Ok v, rest)"
proof -
  have "length (der_element CBS_ASN1_INTEGER (der_signed v)) < 2 ^ 64"
    by (rule short_element) (rule der_signed_length)
  with builder_run [OF writes_int64_with_tag assms(2,1), of CBS_ASN1_INTEGER v]
  obtain s s' where "CBB_init A n = Ok s" "CBB_add_asn1_int64_with_tag A 0 v CBS_ASN1_INTEGER s = (Ok (), s')"
    "fst (CBB_finish A 0 True s') = Ok (der_element CBS_ASN1_INTEGER (der_signed v))" by blast
  then show ?thesis unfolding CBB_add_asn1_int64_def CBS_get_asn1_int64_Ok by blast
qed

theorem int64_round_trip_witness:
  "\<exists>s s' bs. CBB_init calm 4 = Ok s \<and> CBB_add_asn1_int64 calm 0 (- 129) s = (Ok (), s') \<and>
    fst (CBB_finish calm 0 True s') = Ok bs \<and> CBS_get_asn1_int64 (bs @ []) = (Ok (- 129), [])"
  by (rule int64_round_trip) simp_all

text \<open>C7: object identifiers. The text written into a builder gives contents which, printed, give the text
  back, with its terminating NUL.\<close>

theorem oid_text_round_trip:
  assumes "oid_ok a b" "always_grants A" "n < 2 ^ 64"
    and "length (oid_content (a # b # vs)) < 2 ^ 64" "length (dotted (a # b # vs)) + 1 < 2 ^ 64"
  shows "\<exists>s s' bs. CBB_init A n = Ok s \<and> CBB_add_asn1_oid_from_text A 0 (dotted (a # b # vs)) s = (Ok (), s') \<and>
    fst (CBB_finish A 0 True s') = Ok bs \<and> CBS_asn1_oid_to_text A bs = Ok (dotted (a # b # vs) @ [0])"
  using builder_run [OF writes_oid_from_text [OF assms(1)] assms(3,2,4)] oid_to_text [OF assms(1), of A vs] assms(2,5)
  by blast

theorem oid_text_round_trip_witness:
  "\<exists>s s' bs. CBB_init calm 8 = Ok s \<and> CBB_add_asn1_oid_from_text calm 0 (dotted [1, 2, 3]) s = (Ok (), s') \<and>
    fst (CBB_finish calm 0 True s') = Ok bs \<and> CBS_asn1_oid_to_text calm bs = Ok (dotted [1, 2, 3] @ [0])"
proof (rule oid_text_round_trip)
  show "length (oid_content [1, 2, 3]) < 2 ^ 64"
    by (simp add: base128_def base128_len.simps)
  show "length (dotted [1, 2, 3]) + 1 < 2 ^ 64"
    by (simp add: decimal_digits.simps)
qed (simp_all add: oid_ok_def)

text \<open>The decimal reader accepts exactly the numbers below 2^64 without leading zeros, and takes all
  their digits.\<close>

theorem u64_decimal_iff:
  "CBS_get_u64_decimal s = (Ok v, rest) \<longleftrightarrow> s = decimal_digits (unat v) @ rest \<and> no_digit rest"
  by (rule get_decimal_Ok)




section \<open>BER\<close>

text \<open>C9: the scan for BER answers no exactly on the sequences of nested DER elements without constructed
  strings, nested at most \<open>kMaxDepth\<close> deep.\<close>

theorem find_ber_iff_der:
  "cbs_find_ber 0 inp = Ok False \<longleftrightarrow> der_items kMaxDepth inp"
  using find_ber_items [of 0 inp] items_find_ber [of kMaxDepth inp] by auto

text \<open>C10: the conversion, which writes through nested children of a builder, refines the conversion on
  bytes: it appends the bytes \<open>ber_content\<close> gives and leaves the input it leaves, and fails
  where it fails or where the builder runs out of room.\<close>

theorem convert_ber_refines:
  assumes "length inp < 2 ^ 64" "shape s" "\<not> error s" "chain s = []" "length inp < n"
  shows "case ber_content n 0 eoc depth inp of
      (Ok bs, rest) \<Rightarrow> (\<exists>s'. cbs_convert_ber A n 0 0 eoc depth (inp, s) = (Ok (), rest, s') \<and> out s' = out s @ bs) \<or>
         (\<exists>s'. fst (cbs_convert_ber A n 0 0 eoc depth (inp, s)) = Fail \<and> \<not> room A s (length bs))
    | (Fail, _) \<Rightarrow> fst (cbs_convert_ber A n 0 0 eoc depth (inp, s)) = Fail
    | (Undef, _) \<Rightarrow> False"
proof -
  have t: "tracks A 0 (ber_content n 0 eoc depth inp) (view (cbs_convert_ber A n 0 0 eoc depth) inp)"
    using assms(1) by (rule convert_tracks [rotated]) simp
  have "fst (ber_content n 0 eoc depth inp) \<noteq> Undef" using assms(5) by (rule ber_content_enough)
  then show ?thesis
    using t assms(2-4) unfolding tracks_def view_def writes_def refuses_def
    by (cases "ber_content n 0 eoc depth inp"; cases "fst (ber_content n 0 eoc depth inp)";
        cases "cbs_convert_ber A n 0 0 eoc depth (inp, s)"; cases "fst (cbs_convert_ber A n 0 0 eoc depth (inp, s))")
      (auto simp: ext_def dest!: spec [of _ s])
qed

theorem convert_ber_refines_witness:
  "case ber_content 3 0 False 0 [5, 0] of
      (Ok bs, rest) \<Rightarrow>
         (\<exists>s'. cbs_convert_ber calm 3 0 0 False 0 ([5, 0], cbb_init [0, 0] 2 False CBB_zero) = (Ok (), rest, s') \<and>
            out s' = out (cbb_init [0, 0] 2 False CBB_zero) @ bs) \<or>
         (\<exists>s'. fst (cbs_convert_ber calm 3 0 0 False 0 ([5, 0], cbb_init [0, 0] 2 False CBB_zero)) = Fail \<and>
            \<not> room calm (cbb_init [0, 0] 2 False CBB_zero) (length bs))
    | (Fail, _) \<Rightarrow> fst (cbs_convert_ber calm 3 0 0 False 0 ([5, 0], cbb_init [0, 0] 2 False CBB_zero)) = Fail
    | (Undef, _) \<Rightarrow> False"
  by (rule convert_ber_refines) (simp_all add: cbb_init_def CBB_zero_def shape_def)

text \<open>C11: what the conversion returns needs no conversion: it is nested DER, and the scan says so.\<close>

theorem ber_to_der_is_der:
  assumes "length inp < 2 ^ 64" "CBS_asn1_ber_to_der A inp = (Ok (der, owned), rest)"
  shows "der_items kMaxDepth der \<and> cbs_find_ber 0 der = Ok False"
  using ber_to_der_result [OF assms] by blast

theorem ber_to_der_is_der_witness:
  "der_items kMaxDepth [0x30, 0, 5, 0] \<and> cbs_find_ber 0 [0x30, 0, 5, 0] = Ok False"
  by (rule ber_to_der_is_der [OF _ ber_example_result [of calm]]) simp_all

text \<open>C12: the conversion and the reader of strings in fragments come back on every input of less than 2^64 bytes, of any nesting and
  with any allocator: with an answer or a failure, never by running out of the fuel they give their loops, nor with a
  violated \<^verbatim>\<open>assert\<close>, as long as the tags are what the reader of strings asks for.\<close>

theorem ber_terminates:
  assumes "length inp < 2 ^ 64" "\<not> is_constructed outer" "\<not> is_constructed inner" "is_string_type inner"
  shows "fst (CBS_asn1_ber_to_der A inp) \<noteq> Undef \<and> fst (CBS_get_asn1_implicit_string A outer inner inp) \<noteq> Undef"
  using ber_to_der_defined [OF assms(1)] implicit_string_defined [OF assms] by blast

theorem ber_terminates_witness:
  "fst (CBS_asn1_ber_to_der calm [0x24, 0x80, 4]) \<noteq> Undef \<and>
   fst (CBS_get_asn1_implicit_string calm CBS_ASN1_OCTETSTRING CBS_ASN1_OCTETSTRING [0x24, 0x80, 4]) \<noteq> Undef"
  by (rule ber_terminates) (simp_all add: is_constructed_def is_string_type_def CBS_ASN1_OCTETSTRING_def CBS_ASN1_CONSTRUCTED_def)

text \<open>A string in fragments, under an implicit constructed tag, is read as its concatenation.\<close>

theorem implicit_string_joins:
  assumes "valid_tag outer" "\<not> is_constructed outer" "valid_tag inner" "\<not> is_constructed inner" "is_string_type inner"
    and "\<forall>c\<in>set chunks. length c \<le> max_der_len" "length (concat (map (der_element inner) chunks)) \<le> max_der_len"
    and "length rest < 2 ^ 63" "always_grants A"
  shows "CBS_get_asn1_implicit_string A outer inner
      (der_element (outer OR CBS_ASN1_CONSTRUCTED) (concat (map (der_element inner) chunks)) @ rest) = (Ok (concat chunks, True), rest)"
  using implicit_string_fragments [OF assms(1-8), of A] assms(9) by blast

theorem implicit_string_joins_witness:
  "CBS_get_asn1_implicit_string calm CBS_ASN1_OCTETSTRING CBS_ASN1_OCTETSTRING
      (der_element (CBS_ASN1_OCTETSTRING OR CBS_ASN1_CONSTRUCTED) (concat (map (der_element CBS_ASN1_OCTETSTRING) [[1]])) @ [9]) =
    (Ok (concat [[1]], True), [9])"
proof (rule implicit_string_joins)
  show "length (concat (map (der_element CBS_ASN1_OCTETSTRING) [[1 :: u8]])) \<le> max_der_len"
    using der_tag_length(2) [of CBS_ASN1_OCTETSTRING] by (simp add: element_length der_length_def)
qed (simp_all add: valid_tag_def is_constructed_def is_string_type_def CBS_ASN1_OCTETSTRING_def CBS_ASN1_CONSTRUCTED_def)

section \<open>Time\<close>

text \<open>Midnight of February 29, 2024.\<close>

definition leap_day :: tm where
  "leap_day = \<lparr>tm_sec = 0, tm_min = 0, tm_hour = 0, tm_mday = 29, tm_mon = 1, tm_year = 124\<rparr>"

text \<open>C13: broken-down time and POSIX time are in bijection: each conversion succeeds exactly where the
  other gives it back.\<close>

theorem tm_posix_round_trip:
  "OPENSSL_tm_to_posix t = Ok x \<longleftrightarrow> OPENSSL_posix_to_tm x = Ok t"
  by (rule tm_of_posix_of_tm)

text \<open>The day count of the conversion advances by one from each day of the calendar to the next, over
  the ends of months, years and leap years.\<close>

theorem calendar_steps:
  assumes "is_valid_date year month day" "next_day (year, month, day) = (year', month', day')"
  shows "posix_days_from_civil (march_year year' month') month' day' =
     posix_days_from_civil (march_year year month) month day + 1"
  using assms by (rule next_day_posix)

theorem calendar_steps_witness:
  "posix_days_from_civil (march_year 2024 2) 2 29 = posix_days_from_civil (march_year 2024 2) 2 28 + 1"
  by (rule calendar_steps) (simp_all add: is_valid_date_iff next_day_def month_length_def is_leap_def)

text \<open>C14: adjusting a time by days and seconds is addition of POSIX times, within the years 0 to 9999; the
  result has no wrap-around, although the code adds in \<^verbatim>\<open>int64_t\<close>.\<close>

theorem gmtime_adj_adds:
  assumes "INT_MIN \<le> offset_day" "offset_day \<le> INT_MAX" "INT64_MIN \<le> offset_sec" "offset_sec \<le> INT64_MAX"
  shows "OPENSSL_gmtime_adj t offset_day offset_sec = Ok t' \<longleftrightarrow>
    (\<exists>x. OPENSSL_tm_to_posix t = Ok x \<and> OPENSSL_tm_to_posix t' = Ok (x + offset_day * 86400 + offset_sec))"
proof (cases "OPENSSL_tm_to_posix t")
  case (Ok x)
  then show ?thesis
    using OPENSSL_tm_to_posix_range [of t' "x + offset_day * 86400 + offset_sec"]
    by (auto simp: OPENSSL_gmtime_adj_eq [OF assms] Let_def is_valid_posix_time_def tm_of_posix_of_tm [symmetric])
qed (simp_all add: OPENSSL_gmtime_adj_eq [OF assms])

theorem gmtime_adj_adds_witness:
  "OPENSSL_gmtime_adj leap_day 1 60 = Ok leap_day \<longleftrightarrow>
    (\<exists>x. OPENSSL_tm_to_posix leap_day = Ok x \<and> OPENSSL_tm_to_posix leap_day = Ok (x + 1 * 86400 + 60))"
  by (rule gmtime_adj_adds) (simp_all add: INT_MIN_def INT_MAX_def INT64_MIN_def INT64_MAX_def)

text \<open>The difference of two times, added to the first, gives the second; its seconds are less than a
  day.\<close>

theorem gmtime_diff_adj:
  assumes "OPENSSL_gmtime_diff from_tm to_tm = Ok (days, secs)"
  shows "OPENSSL_gmtime_adj from_tm days secs = Ok to_tm \<and> \<bar>secs\<bar> < 86400"
  using OPENSSL_gmtime_adj_diff_lemma [OF assms] by blast

theorem gmtime_diff_adj_witness:
  "OPENSSL_gmtime_adj leap_day 1 3600 = Ok (leap_day\<lparr>tm_mday := 1, tm_mon := 2, tm_hour := 1\<rparr>) \<and> \<bar>3600 :: int\<bar> < 86400"
proof (rule gmtime_diff_adj)
  show "OPENSSL_gmtime_diff leap_day (leap_day\<lparr>tm_mday := 1, tm_mon := 2, tm_hour := 1\<rparr>) = Ok (1, 3600)"
    unfolding leap_day_def by code_simp
qed

text \<open>C15: a GeneralizedTime without offset is read as \<open>t\<close> exactly when it is the text of the valid time
  \<open>t\<close>, ending in Z.\<close>

theorem generalized_time_iff:
  "CBS_parse_generalized_time cbs True False = Ok (Some t) \<longleftrightarrow> valid_tm t \<and> cbs = gentime_text t @ [Zulu]"
  by (rule generalized_time_Ok)

text \<open>C16: the same for UTCTime, whose two-digit years stand for 1950 to 2049.\<close>

theorem utc_time_iff:
  "CBS_parse_utc_time cbs True False = Ok (Some t) \<longleftrightarrow>
     valid_tm t \<and> 50 \<le> tm_year t \<and> tm_year t \<le> 149 \<and> cbs = utctime_text t @ [Zulu]"
  by (rule utc_time_Ok)

text \<open>C17: with an offset allowed, a time with an offset is read as the local time plus the offset. UTC
  is the local time minus the offset, so the result is not in UTC.\<close>

theorem zone_offset_added:
  assumes "valid_tm t" "sign = 1 \<or> sign = - 1" "0 \<le> h" "h \<le> 23" "0 \<le> m" "m \<le> 59" "h * 3600 + m * 60 \<noteq> 0"
  shows "CBS_parse_generalized_time (gentime_text t @ zone_text sign h m) True True =
    res_map Some (OPENSSL_gmtime_adj t 0 (sign * (h * 3600 + m * 60)))"
  using assms by (rule generalized_time_offset)

theorem zone_offset_added_witness:
  "CBS_parse_generalized_time (gentime_text leap_day @ zone_text 1 1 0) True True = res_map Some (OPENSSL_gmtime_adj leap_day 0 (1 * (1 * 3600 + 0 * 60)))"
proof (rule zone_offset_added)
  show "valid_tm leap_day" unfolding leap_day_def by code_simp
qed simp_all

section \<open>Unicode\<close>

text \<open>C18: the UTF-8 reader accepts exactly the encodings of valid code points: no overlong form, no
  surrogate, no noncharacter, nothing above U+10FFFF.\<close>

theorem utf8_iff:
  "CBS_get_utf8 s = (Ok u, rest) \<longleftrightarrow> is_valid_code_point u \<and> s = utf8 u @ rest"
  by (rule utf8_Ok)

text \<open>C19: a code point written by the builder takes \<open>CBB_get_utf8_len\<close> bytes and is read back.\<close>

theorem utf8_round_trip:
  assumes "is_valid_code_point u" "always_grants A" "n < 2 ^ 64"
  shows "\<exists>s s' bs. CBB_init A n = Ok s \<and> CBB_add_utf8 A 0 u s = (Ok (), s') \<and> fst (CBB_finish A 0 True s') = Ok bs \<and>
    length bs = CBB_get_utf8_len u \<and> CBS_get_utf8 (bs @ rest) = (Ok u, rest)"
proof -
  have "length (utf8 u) < 2 ^ 64" unfolding utf8_length by (simp add: CBB_get_utf8_len_def)
  from builder_run [OF writes_utf8 [OF assms(1)] assms(3,2) this] show ?thesis
    using utf8_Ok [of "utf8 u @ rest" u rest] assms(1) utf8_length by blast
qed

theorem utf8_round_trip_witness:
  "\<exists>s s' bs. CBB_init calm 0 = Ok s \<and> CBB_add_utf8 calm 0 0x20ac s = (Ok (), s') \<and> fst (CBB_finish calm 0 True s') = Ok bs \<and>
    length bs = CBB_get_utf8_len 0x20ac \<and> CBS_get_utf8 (bs @ [0]) = (Ok 0x20ac, [0])"
  by (rule utf8_round_trip) (simp_all add: valid_code_point_iff)

section \<open>Words\<close>

text \<open>The branch-free selection by a branch-free comparison is the conditional expression, for every
  pair of words.\<close>

theorem constant_time_choice:
  "constant_time_select_w (constant_time_lt_w a b) x y = (if a < b then x else y) \<and>
   constant_time_select_w (constant_time_eq_w a b) x y = (if a = b then x else y) \<and>
   constant_time_select_w (constant_time_is_zero_w a) x y = (if a = 0 then x else y)"
  unfolding lt_w eq_w is_zero_w select_w by blast

text \<open>Addition with carry is exact: sum and carry out together are the sum of the operands.\<close>

theorem addc_exact:
  assumes "carry \<le> 1"
  shows "\<exists>r c. CRYPTO_addc_u64 x y carry = Ok (r, c) \<and> c \<le> 1 \<and> unat r + 2 ^ 64 * unat c = unat x + unat y + unat carry"
  using assms by (rule addc_u64)

theorem addc_exact_witness:
  "\<exists>r c. CRYPTO_addc_u64 (- 1) 1 1 = Ok (r, c) \<and> c \<le> 1 \<and>
     unat r + 2 ^ 64 * unat c = unat (- 1 :: u64) + unat (1 :: u64) + unat (1 :: u64)"
  by (rule addc_exact) simp

text \<open>C20: big-endian stores hold the digits of the number, and loads give it back.\<close>

theorem big_endian_memory:
  "CRYPTO_store_u64_be v = be_bytes 8 v \<and> CRYPTO_load_u64_be (CRYPTO_store_u64_be v @ rest) = v \<and>
   CRYPTO_store_u32_be w = be_bytes 4 (ucast w) \<and> CRYPTO_load_u32_be (CRYPTO_store_u32_be w @ rest) = w"
  using store_u64_be store_u32_be load_store_be by blast

section \<open>Base64\<close>

text \<open>The branch-free alphabet is the table of RFC 4648: the encoder of a 6-bit value looks it up, and the
  decoder gives a value below 64 exactly for the characters of the table and for the padding character, of
  which it inverts the table.\<close>

theorem base64_alphabet:
  "conv_bin2ascii a = b64_char (unat a mod 64) \<and>
   (base64_ascii_to_bin c \<noteq> 0xff \<and> c \<noteq> byte_of_char CHR ''='' \<longleftrightarrow> (\<exists>n<64. c = b64_char n \<and> base64_ascii_to_bin c = of_nat n))"
proof -
  have "unat (base64_ascii_to_bin c) = n \<Longrightarrow> n < 64 \<Longrightarrow> base64_ascii_to_bin c \<noteq> 0xff" for n by (auto simp: word_unat_eq_iff)
  moreover have "base64_ascii_to_bin c = of_nat (unat (base64_ascii_to_bin c))" by simp
  ultimately show ?thesis unfolding conv_b64 ascii using bin_inverse [of c] bin_b64 by metis
qed

text \<open>C21: a block is written in the number of bytes announced, with its NUL, and is decoded to what was
  encoded wherever the output buffer has the size the decoder asks for.\<close>

theorem base64_block_round_trip:
  assumes "EVP_EncodedLength (length s) = Ok n" "length s < 2 ^ 64" "EVP_EncodeBlock s = (block, m)"
    and "EVP_DecodedLength m = Ok k" "k \<le> max_out"
  shows "length block = n \<and> n = m + 1 \<and> EVP_DecodeBase64 max_out (take m block) = Ok s"
proof -
  have b: "block = encode_loop s @ [0]" "m = length (encode_loop s)" using assms(3) by (simp_all add: EVP_EncodeBlock_def)
  have "EVP_DecodeBase64 max_out (encode_loop s) = Ok s"
    by (rule decode_base64_encode) (use assms(4,5) in \<open>auto simp: b(2) EVP_DecodedLength_def split: if_splits\<close>)
  moreover have "n = m + 1" using assms(1) encoded_length [OF assms(2)] by (auto simp: b(2) length_encode_loop split: if_splits)
  ultimately show ?thesis by (simp add: b)
qed

theorem base64_block_round_trip_witness:
  "length (encode_loop [1, 2] @ [0]) = 5 \<and> 5 = 4 + (1 :: nat) \<and> EVP_DecodeBase64 3 (take 4 (encode_loop [1, 2] @ [0])) = Ok [1, 2]"
proof (rule base64_block_round_trip)
  show "EVP_EncodedLength (length [1, 2 :: u8]) = Ok 5" by (simp add: encoded_length)
  show "EVP_EncodeBlock [1, 2] = (encode_loop [1, 2] @ [0], 4)" by (simp add: EVP_EncodeBlock_def length_encode_loop del: encode_loop.simps)
  show "EVP_DecodedLength 4 = Ok 3" by (simp add: EVP_DecodedLength_def)
qed simp_all

text \<open>C22: the streaming encoder: however the input is cut into calls, the outputs together are the lines of
  48 bytes each of the whole input. The output has to fit in an \<^verbatim>\<open>int\<close>.\<close>

theorem encode_stream_lines:
  assumes "65 * (length (concat chunks) div 48) \<le> 2 ^ 31 - 1"
  shows "encode_all EVP_EncodeInit chunks = Ok (pem_lines (concat chunks))"
  using encode_all_lines [OF enc_ok_init(1), of chunks] assms by (simp add: enc_ok_init)

theorem encode_stream_lines_witness:
  "encode_all EVP_EncodeInit [[1], [2, 3]] = Ok (pem_lines (concat [[1], [2, 3]]))"
  by (rule encode_stream_lines) simp

text \<open>C23: the streaming decoder: cutting the input into calls does not change the result, be it the bytes or
  an error; the array of the context is never overrun. The input has to fit in an \<^verbatim>\<open>int\<close>.\<close>

theorem decode_stream_chunks:
  assumes "length (concat chunks) \<le> 2 ^ 31 - 1"
  shows "decode_all EVP_DecodeInit chunks = decode_all EVP_DecodeInit [concat chunks] \<and> decode_all EVP_DecodeInit chunks \<noteq> Undef"
proof -
  have d: "data_used EVP_DecodeInit = 0" by (simp add: EVP_DecodeInit_def)
  obtain c new k where "decode_chars (concat chunks) EVP_DecodeInit [] = Ok (c, [] @ new, k)"
    using decode_chars_facts [OF dec_ok_init] by blast
  then show ?thesis
    using decode_all_chunks [OF dec_ok_init, of chunks] decode_all_chunks [OF dec_ok_init, of "[concat chunks]"] assms d
    by (simp del: decode_all.simps)
qed

theorem decode_stream_chunks_witness:
  "decode_all EVP_DecodeInit [[65], [66, 67]] = decode_all EVP_DecodeInit [concat [[65], [66, 67]]] \<and>
   decode_all EVP_DecodeInit [[65], [66, 67]] \<noteq> Undef"
  by (rule decode_stream_chunks) simp

text \<open>C24: encoding in any chunks and decoding the output in any chunks gives the input back, as long as the
  encoded text fits in an \<^verbatim>\<open>int\<close>.\<close>

theorem base64_stream_round_trip:
  assumes "65 * (length (concat chunks) div 48) + 65 \<le> 2 ^ 31 - 1"
    and "encode_all EVP_EncodeInit chunks = Ok pem" "concat outs = pem"
  shows "decode_all EVP_DecodeInit outs = Ok (concat chunks)"
proof -
  have "65 * (length (concat chunks) div 48) \<le> 2 ^ 31 - 1" using assms(1) by simp
  from encode_all_lines [OF enc_ok_init(1), of chunks] this have "pem = pem_lines (concat chunks)"
    using assms(2) by (simp add: enc_ok_init)
  moreover have "length (pem_lines (concat chunks)) \<le> 2 ^ 31 - 1" using length_pem_le assms(1) by (rule le_trans)
  ultimately show ?thesis using assms(3) by (intro stream_round_trip) simp_all
qed

theorem base64_stream_round_trip_witness:
  "decode_all EVP_DecodeInit [pem_lines [1, 2, 3]] = Ok (concat [[1], [2, 3]])"
  by (rule base64_stream_round_trip [where pem = "pem_lines [1, 2, 3]"])
    (use encode_all_lines [OF enc_ok_init(1), of "[[1], [2, 3]]"] in \<open>simp_all add: enc_ok_init del: encode_all.simps\<close>)

section \<open>Protocol buffers on the wire\<close>

text \<open>In the witnesses no application reads or writes: the streams are buffers.\<close>

definition no_reader :: "unit pb_io" where
  "no_reader _ = undef"

definition no_writer :: "unit pb_oio" where
  "no_writer _ = undef"

definition stream_of :: "bytes \<Rightarrow> unit pb_istream" where
  "stream_of bs = pb_istream_from_buffer bs (length bs)"

lemma stream_of_ok: "buffer_ok (stream_of bs)"
  by (simp add: stream_of_def from_buffer_ok)

text \<open>A message in memory, from address 64: a flag, an array of up to three bytes with its count before it, and a
  submessage of a flag and an array, its table at address 4096; the array of the submessage is empty.\<close>

definition inner_table :: "pb_field list" where
  "inner_table = [field_entry 5 0x00 0 0 1 0 0, field_entry 3 0x22 7 (- 4) 1 3 0, field_entry 0 0 0 0 0 0 0]"

definition sample_table :: "pb_field list" where
  "sample_table = [field_entry 5 0x00 0 0 1 0 0, field_entry 3 0x22 7 (- 4) 1 3 0, field_entry 9 0x08 5 0 16 0 4096, field_entry 0 0 0 0 0 0 0]"

definition sample_bytes :: bytes where
  "sample_bytes = [1, 0, 0, 0, 2, 0, 0, 0, 7, 200, 0, 0, 0, 0, 0, 0, 1, 0, 0, 0, 0, 0, 0, 0, 0, 0, 0, 0, 0, 0, 0, 0]"

definition sample :: "unit pb_env" where
  "sample = \<lparr>tables = (\<lambda>a. if a = 4096 then Some inner_table else None), encode_callback = (\<lambda>_ _ _. undef),
     encode_extension = (\<lambda>_ _. undef),
     message_memory = (\<lambda>a. if a - 64 < 32 then Some (sample_bytes ! unat (a - 64)) else None), e_extensions = 8, writer = no_writer\<rparr>"

definition sample_fields :: pb_fields where
  "sample_fields = [(5, Uint 1), (3, Data (varint 7 @ varint 200)), (9, Data (message_bytes [(5, Uint 1)]))]"

lemma sample_memory:
  "memory_bytes (message_memory sample) 64 (Suc 0) = Some [1]" "memory_bytes (message_memory sample) 68 4 = Some [2, 0, 0, 0]"
  "memory_bytes (message_memory sample) 72 (Suc 0) = Some [7]" "memory_bytes (message_memory sample) 73 (Suc 0) = Some [200]"
  "memory_bytes (message_memory sample) 80 (Suc 0) = Some [1]" "memory_bytes (message_memory sample) 84 4 = Some [0, 0, 0, 0]"
  by (simp_all add: memory_bytes_def sample_def sample_bytes_def upt_rec)

lemma sample_tables:
  "tables sample 4096 = Some inner_table" "entries sample_table = 3" "entries inner_table = 2"
  "length inner_table = 3" "length sample_table = 4"
  "sample_table ! 0 = field_entry 5 0x00 0 0 1 0 0" "sample_table ! Suc 0 = field_entry 3 0x22 7 (- 4) 1 3 0"
  "sample_table ! Suc (Suc 0) = field_entry 9 0x08 5 0 16 0 4096"
  "inner_table ! 0 = field_entry 5 0x00 0 0 1 0 0" "inner_table ! Suc 0 = field_entry 3 0x22 7 (- 4) 1 3 0"
  by (simp_all add: sample_def sample_table_def inner_table_def entries_def field_entry_def)

lemma sample_offsets:
  "field_offset inner_table 0 = 0" "field_offset inner_table (Suc 0) = 8"
  "field_offset sample_table 0 = 0" "field_offset sample_table (Suc 0) = 8" "field_offset sample_table (Suc (Suc 0)) = 16"
  by (simp_all add: sample_tables field_entry_def prev_size_def in_union_def PB_ATYPE_def PB_HTYPE_def)

lemmas reading = field_fields_def basic_fields_def Let_def PB_ATYPE_def PB_HTYPE_def PB_LTYPE_def field_entry_def
  implicitly_there_def item_value_def array_fields_def number_at_def integer_at_def upt_rec
  sample_memory sample_tables sample_offsets

lemma two_values: "values_from f step 2 p = values_from f step (Suc (Suc 0)) p"
  by (simp only: numeral_2_eq_2)

lemma inner_message: "message_fields sample (Suc 0) inner_table 80 = Some [(5, Uint 1)]"
  by (simp add: reading del: field_offset.simps)

lemma sample_message: "message_fields sample (Suc (Suc 0)) sample_table 64 = Some sample_fields"
  by (simp add: reading two_values inner_message message_fields.simps(2) [of _ "Suc 0"] sample_fields_def
    del: field_offset.simps message_fields.simps message_bytes.simps)

lemma sample_length: "length (message_bytes sample_fields) = 11"
  by (simp add: sample_fields_def varint.simps tag_bytes_def delimited_def)

text \<open>C25: the encoder meets its specification. If by the table the message in memory says the fields \<open>fs\<close>, the
  sizing pass counts their bytes, whatever nesting, arrays and optional fields there are; a buffer with room
  for them receives them and nothing else, and with less room the encoder fails. The same holds with the
  length in front and with the terminator behind. Which optional fields without a flag are written is part of the
  specification: those that \<open>field_there\<close> finds on the memory to differ from an empty value. Messages with
  callbacks or extensions that are present, or of 2^63 bytes and more, are left out.\<close>

theorem encoder_refines:
  assumes "message_fields E d tab src = Some fs" "length (message_bytes fs) < 2 ^ 63"
  shows "pb_get_encoded_size E d tab src = Ok (length (message_bytes fs)) \<and>
    delivers (pb_encode E d tab src) (message_bytes fs) \<and>
    delivers (pb_encode_delimited E d tab src) (delimited (message_bytes fs)) \<and>
    delivers (pb_encode_nullterminated E d tab src) (message_bytes fs @ [0])"
proof -
  let ?bs = "message_bytes fs"
  have l: "length ?bs < 2 ^ 64" "length (delimited ?bs) < 2 ^ 64" "length (?bs @ [0]) < 2 ^ 64"
    using assms(2) varint_length [of "of_nat (length ?bs)"] by (simp_all add: delimited_def)
  have "pb_get_encoded_size E d tab src = Ok (length ?bs)"
    by (simp add: pb_get_encoded_size_def encode_sizing [OF l(1) emits_message [OF assms(1) l(1)]])
  moreover note emits_delivers [OF emits_message [OF assms(1) l(1)] l(1)]
    emits_delivers [OF emits_delimited_message [OF assms(1) l(1)] l(2)]
    emits_delivers [OF emits_nullterminated_message [OF assms(1) l(1)] l(3)]
  ultimately show ?thesis by blast
qed

theorem encoder_refines_witness:
  "pb_get_encoded_size sample (Suc (Suc 0)) sample_table 64 = Ok (length (message_bytes sample_fields)) \<and>
    delivers (pb_encode sample (Suc (Suc 0)) sample_table 64) (message_bytes sample_fields) \<and>
    delivers (pb_encode_delimited sample (Suc (Suc 0)) sample_table 64) (delimited (message_bytes sample_fields)) \<and>
    delivers (pb_encode_nullterminated sample (Suc (Suc 0)) sample_table 64) (message_bytes sample_fields @ [0])"
  by (rule encoder_refines [OF sample_message]) (simp add: sample_length)

text \<open>C26: what the encoder writes to a buffer, the decoder reads back: field by field the tags and values that the
  message in memory says, and a reader that knows none of the fields gets past each of them to the end.\<close>

theorem message_round_trip:
  fixes io :: "'t pb_io"
  assumes "message_fields E d tab src = Some fs" "fields_ok fs" "length (message_bytes fs) \<le> n" "n \<le> length mem" "n < 2 ^ 63"
  shows "\<exists>t out. pb_encode E d tab src (pb_ostream_from_buffer mem n) = (Ok (), t) \<and> sink t = Memory out (bytes_written t) \<and>
     (let s = pb_istream_from_buffer out (bytes_written t) :: 't pb_istream
      in fst (read_fields io fs s) = Ok fs \<and>
         scan_fields io (Suc (length fs)) s = Ok (map (\<lambda>(tag, v). (tag, value_wire v)) fs))"
proof -
  let ?bs = "message_bytes fs" and ?s = "pb_istream_from_buffer (drop (length (message_bytes fs)) mem) 0"
  have l: "length ?bs < 2 ^ 64" using assms(3,5) by simp
  obtain t where t: "pb_encode E d tab src (pb_ostream_from_buffer mem n) = (Ok (), t)" "bytes_written t = length ?bs"
      "sink t = Memory (?bs @ drop (length ?bs) mem) (length ?bs)"
    using encode_to_buffer [OF assms(3-5) emits_message [OF assms(1) l]] .
  have s: "buffer_ok ?s" "bytes_left ?s = 0" by (simp_all add: from_buffer_ok) (simp add: pb_istream_from_buffer_def)
  have f: "pb_istream_from_buffer (?bs @ drop (length ?bs) mem) (length ?bs) = feed ?bs ?s" by (simp add: feed_from_buffer)
  show ?thesis
    using t read_fields_feed [OF s(1) assms(2), of io] scan_message [OF s assms(2), of io]
    by (simp add: Let_def f del: scan_fields.simps)
qed

theorem message_round_trip_witness:
  "\<exists>t out. pb_encode sample (Suc (Suc 0)) sample_table 64 (pb_ostream_from_buffer (replicate 12 0) 12) = (Ok (), t) \<and>
     sink t = Memory out (bytes_written t) \<and>
     (let s = pb_istream_from_buffer out (bytes_written t)
      in fst (read_fields no_reader sample_fields s) = Ok sample_fields \<and>
         scan_fields no_reader (Suc (length sample_fields)) s = Ok (map (\<lambda>(tag, v). (tag, value_wire v)) sample_fields))"
proof (rule message_round_trip [OF sample_message, where n = 12 and mem = "replicate 12 0" and io = no_reader])
  show "fields_ok sample_fields"
    by (simp add: fields_ok_def sample_fields_def varint.simps tag_bytes_def)
qed (simp_all add: sample_length)

text \<open>C27: whatever the bytes, and whatever source keeps the contract of \<open>pb_contract\<close> (a buffer does), reading a
  tag or a number, skipping a field, fetching its raw bytes and opening a substream stay within the source,
  return, leave the source intact, and only shrink what is left.\<close>

theorem decoder_keeps_source:
  assumes "pb_contract io good" "good s"
  shows "(\<lambda>(r, eof, t). r \<noteq> Undef \<and> good t \<and> bytes_left t \<le> bytes_left s) (pb_decode_tag io s) \<and>
    (\<lambda>(r, t). r \<noteq> Undef \<and> good t \<and> bytes_left t \<le> bytes_left s) (pb_decode_varint io s) \<and>
    (\<lambda>(r, t). r \<noteq> Undef \<and> good t \<and> bytes_left t \<le> bytes_left s) (pb_decode_svarint io s) \<and>
    (\<lambda>(r, t). r \<noteq> Undef \<and> good t \<and> bytes_left t \<le> bytes_left s) (pb_skip_field io w s) \<and>
    (\<lambda>(r, t). r \<noteq> Undef \<and> good t \<and> bytes_left t \<le> bytes_left s) (read_raw_value io w m s) \<and>
    (\<lambda>(r, t). r \<noteq> Undef \<and> good t \<and> bytes_left t \<le> bytes_left s) (pb_make_string_substream io s)"
  using pb_contract.kept_tag [OF assms] pb_contract.fineD [OF assms(1) pb_contract.fine_decode_varint [OF assms(1)] assms(2)]
    pb_contract.fineD [OF assms(1) pb_contract.fine_integers(1) [OF assms(1)] assms(2)]
    pb_contract.fineD [OF assms(1) pb_contract.fine_skip_field [OF assms(1)] assms(2), of w]
    pb_contract.fineD [OF assms(1) pb_contract.fine_raw_value [OF assms(1)] assms(2), of w m]
    pb_contract.substream(1) [OF assms]
  by (auto simp: pb_contract.kept_def [OF assms(1)] split: prod.splits)

theorem decoder_keeps_source_witness:
  "(\<lambda>(r, eof, t). r \<noteq> Undef \<and> buffer_ok t \<and> bytes_left t \<le> bytes_left (stream_of [8, 1]))
     (pb_decode_tag no_reader (stream_of [8, 1]))"
  by (rule decoder_keeps_source [THEN conjunct1]) (simp_all add: buffer.pb_contract_axioms stream_of_ok)

text \<open>C28: reading tags and skipping the fields behind them comes to an end on any bytes, within one step more than
  there are bytes.\<close>

theorem scan_always_ends:
  assumes "pb_contract io good" "good s"
  shows "scan_fields io (Suc (bytes_left s)) s = Fail \<or> (\<exists>fs. scan_fields io (Suc (bytes_left s)) s = Ok fs)"
  using pb_contract.scan_ends [OF assms lessI] by (cases "scan_fields io (Suc (bytes_left s)) s") auto

theorem scan_always_ends_witness:
  "scan_fields no_reader (Suc (bytes_left (stream_of [8, 255]))) (stream_of [8, 255]) = Fail \<or>
   (\<exists>fs. scan_fields no_reader (Suc (bytes_left (stream_of [8, 255]))) (stream_of [8, 255]) = Ok fs)"
  by (rule scan_always_ends [where good = buffer_ok]) (simp_all add: buffer.pb_contract_axioms stream_of_ok del: scan_fields.simps)

text \<open>The 32-bit reader takes the numbers below \<^verbatim>\<open>2^32\<close> and the negative 32-bit numbers sent as 64 bits.\<close>

theorem varint32_reads:
  assumes "buffer_ok s" "unat w < 2 ^ 32 \<or> - (2 ^ 31) \<le> sint w \<and> sint w < 0"
  shows "pb_decode_varint32 io (feed (varint w) s) = (Ok (ucast w), s)"
proof -
  have "drop_bit 31 w = mask 33" if "- (2 ^ 31) \<le> sint w" "sint w < 0"
    using negative_32 [of w] that by blast
  then have "unat w < 2 ^ 32 \<or> drop_bit 31 w = mask 33" using assms(2) by blast
  from decode_varint32_feed [OF assms(1) this] show ?thesis by (simp add: pb_decode_varint32_def)
qed

theorem varint32_reads_witness:
  "pb_decode_varint32 no_reader (feed (varint (- 1)) (stream_of [])) =
     (Ok (ucast (- 1 :: u64)), stream_of [])"
  by (rule varint32_reads) (simp_all add: stream_of_ok)

text \<open>C29: too long a varint. The 64-bit reader refuses ten bytes that all announce another one; the 32-bit reader
  does not: its bit position wraps at 256, and after 36 empty bytes the payload of the 38th byte enters the number at bit 3.\<close>

theorem overlong_varints:
  assumes "is_buffer s" "length bs = 10" "\<forall>b \<in> set bs. b AND 0x80 \<noteq> 0"
  shows "(\<exists>t. pb_decode_varint io (feed bs s) = (Fail, t) \<and> errmsg t = Some (case errmsg s of None \<Rightarrow> ''varint overflow'' | Some m \<Rightarrow> m)) \<and>
    pb_decode_varint32 io (feed (replicate 37 0x80 @ [0x7f]) s) = (Ok 0x3f8, s)"
  using varint_overlong [OF assms(1,3), of 0 io 0] assms(2) overlong_varint32 [OF assms(1)]
  by (simp add: pb_decode_varint_def)

theorem overlong_varints_witness:
  "pb_decode_varint32 no_reader (feed (replicate 37 0x80 @ [0x7f]) (stream_of [])) =
     (Ok 0x3f8, stream_of [])"
  using overlong_varints [of "stream_of []" "replicate 10 0x80"]
  by (simp add: buffer_ok_is_buffer stream_of_ok)

text \<open>A substream holds exactly the announced bytes, and closing it after any of them were read leaves the
  parent right behind them.\<close>

theorem substream_exact:
  assumes "buffer_ok s" "data = xs @ ys" "length data < 2 ^ 32"
  shows "\<exists>sub t. pb_make_string_substream io (feed (delimited data) s) = (Ok sub, t) \<and> bytes_left sub = length data \<and>
     (\<exists>u. pb_read io (length xs) sub = (Ok xs, u) \<and> (\<exists>v. pb_close_string_substream io u t = (Ok v, s)))"
  using substream_close [OF assms(1), of xs ys io] assms(2,3) by simp

theorem substream_exact_witness:
  "\<exists>sub t. pb_make_string_substream no_reader (feed (delimited [1, 2, 3]) (stream_of [9])) = (Ok sub, t) \<and>
     bytes_left sub = length [1, 2, 3 :: u8] \<and>
     (\<exists>u. pb_read no_reader (length [1 :: u8]) sub = (Ok [1], u) \<and>
       (\<exists>v. pb_close_string_substream no_reader u t = (Ok v, stream_of [9])))"
  by (rule substream_exact [where ys = "[2, 3]"]) (simp_all add: stream_of_ok)

section \<open>Fields of messages\<close>

text \<open>In the witnesses a message is at address 64, the local variables of the decoder are from 1024 on, all with
  the same byte in them, and the table of submessages is at 4096. The allocator grants every block.\<close>

definition host :: "pb_field list \<Rightarrow> unit pb_host" where
  "host tab = \<lparr>h_tables = (\<lambda>a. if a = 4096 then Some tab else None), reader = no_reader, h_alloc = calm,
     h_pick = (\<lambda>k _. 0x10000 + 0x1000 * of_nat k), h_frame = (\<lambda>n. 1024 + 8 * of_nat n), h_extensions = 8,
     decode_callback = (\<lambda>_ _ _. undef), decode_extension_with = (\<lambda>_ _ _ _. undef)\<rparr>"

definition memory_of :: "u8 \<Rightarrow> memory" where
  "memory_of b = (\<lambda>a. if a \<in> region 64 32 \<or> a \<in> region 1024 32 then Some b else None)"

definition machine :: "u8 \<Rightarrow> bytes \<Rightarrow> unit pb_machine" where
  "machine b bs = \<lparr>ram = memory_of b, blocks = (\<lambda>_. None), requests = 0, m_stream = stream_of bs\<rparr>"

lemma machine_facts:
  "reader (host tab) = no_reader" "h_tables (host tab) 4096 = Some tab" "h_frame (host tab) n = 1024 + 8 * of_nat n"
  "m_stream (machine b bs) = stream_of bs" "blocks (machine b bs) p = None" "dom (ram (machine b bs)) = region 64 32 \<union> region 1024 32"
  by (auto simp: host_def machine_def memory_of_def split: if_splits)

lemma machine_bytes: "region p n \<subseteq> region 64 32 \<Longrightarrow> memory_bytes (ram (machine b bs)) p n = Some (replicate n b)"
  using nat_in_region [of _ n p] by (auto simp: memory_bytes_map machine_def memory_of_def)

lemma eight_bytes: "replicate 8 b = [b, b, b, b, b, b, b, b]"
  by (simp add: numeral_eq_Suc)

lemma host_frames: "frames (host tab) 2 \<subseteq> region 1024 32"
proof -
  have "region (1024 + 8 * of_nat i) 4 \<subseteq> region 1024 32" if "i < 2" for i
    using that by (intro region_inside) (auto simp: less_2_cases_iff)
  then show ?thesis by (auto simp: frames_def machine_facts)
qed

text \<open>C30: the decoders of the table are typed: given a destination of the kind that the field's type calls for, a
  decoder reads and writes within it on every input, also when it fails, and leaves a destination of that
  kind, whatever the allocator answers; its source keeps its contract. For a string behind a pointer the
  destination is the pointer and the block it owns.\<close>

theorem decoders_keep_types:
  assumes "pb_nested io good" "reader E = io" "good (m_stream s)" "dest_ok field p s"
    and "PB_LTYPE (f_type field) < PB_LTYPE_SUBMESSAGE \<or> PB_LTYPE (f_type field) = PB_LTYPE_FIXED_LENGTH_BYTES"
  shows "case PB_DECODERS E sub (PB_LTYPE (f_type field)) field p s of
    (r, t) \<Rightarrow> r \<noteq> Undef \<and> dest_ok field p t \<and> good (m_stream t) \<and> bytes_left (m_stream t) \<le> bytes_left (m_stream s) \<and>
      untouched (dest_region field p s) s t"
proof (cases "PB_DECODERS E sub (PB_LTYPE (f_type field)) field p s")
  case (Pair r t)
  note good = pb_nested.good_def [OF assms(1)]
  have "pb_nested.good good 0 (m_stream s)" using assms(3) by (simp add: good)
  from pb_nested.decoders_kept [OF assms(1,2,5) this assms(4) Pair] Pair show ?thesis by (simp add: good)
qed

theorem decoders_keep_types_witness:
  "case PB_DECODERS (host []) (\<lambda>_ _. undef) PB_LTYPE_STRING (field_entry 1 0x97 0 0 0 0 0) 64 (machine 0 [2, 72, 105]) of
    (r, t) \<Rightarrow> r \<noteq> Undef \<and> dest_ok (field_entry 1 0x97 0 0 0 0 0) 64 t \<and> buffer_ok (m_stream t) \<and>
      bytes_left (m_stream t) \<le> bytes_left (m_stream (machine 0 [2, 72, 105])) \<and>
      untouched (dest_region (field_entry 1 0x97 0 0 0 0 0) 64 (machine 0 [2, 72, 105])) (machine 0 [2, 72, 105]) t"
proof -
  have r: "region 64 8 \<subseteq> region 64 32" by (rule region_mono) simp
  have "le_value (replicate 8 0) = 0" by (simp add: eight_bytes)
  then have "number_at (ram (machine 0 [2, 72, 105])) 64 8 = Some 0" by (simp add: number_at_def machine_bytes [OF r])
  then have "cell_ok 64 (machine 0 [2, 72, 105])" "heap_ok (machine 0 [2, 72, 105])"
    using r by (auto simp: cell_ok_def heap_ok_def machine_facts)
  then have "dest_ok (field_entry 1 0x97 0 0 0 0 0) 64 (machine 0 [2, 72, 105])"
    by (simp add: dest_ok_def behind_pointer_def name_types)
  from decoders_keep_types [OF buffer_nested.pb_nested_axioms machine_facts(1) _ this, of "[]" "\<lambda>_ _. undef"]
  show ?thesis by (simp add: name_types machine_facts stream_of_ok)
qed

lemmas placed = sample_tables sample_offsets static_field_def field_room_def Let_def PB_ATYPE_def PB_HTYPE_def PB_LTYPE_def upt_rec
  size_at.simps

lemma inner_static: "static_table E D (Suc 0) inner_table 16"
  by (simp add: placed in_union_def del: field_offset.simps)

text \<open>C31: decoding a message without pointers is memory safe: whatever the bytes and wherever they end, whatever
  source they come from, and whatever the message held before, \<open>pb_decode\<close> comes to an end and writes nothing
  but the message and its own local variables. The table has to place its fields in the message, with four
  bytes for the count even of an array of fixed size; it may nest, and have arrays, unions and defaults.\<close>

theorem static_decode_safe:
  assumes "pb_nested io good" "reader E = io" "good (m_stream s)" "static_table E D n tab sz" "p \<noteq> 0" "unat p + sz < 2 ^ 64"
    and "region p sz \<union> frames E n \<union> D \<subseteq> dom (ram s)"
  shows "case pb_decode E n tab p s of
    (r, t) \<Rightarrow> r \<noteq> Undef \<and> (\<forall>a. ram t a = ram s a \<or> a \<in> region p sz \<union> frames E n) \<and> dom (ram t) = dom (ram s) \<and>
      blocks t = blocks s \<and> good (m_stream t) \<and> bytes_left (m_stream t) \<le> bytes_left (m_stream s)"
proof -
  note good = pb_nested.good_def [OF assms(1)] and stays = pb_nested.stays_def [OF assms(1)]
  have "pb_nested.good good 0 (m_stream s)" using assms(3) by (simp add: good)
  from pb_nested.static_message_safe [OF assms(1,2,4-7) this] show ?thesis
    unfolding good stays by (cases "pb_decode E n tab p s") (simp, blast)
qed

theorem static_decode_safe_witness:
  "case pb_decode (host inner_table) 2 sample_table 64 (machine 0xAA [0x28, 1, 0x4A, 3, 0x1A]) of
    (r, t) \<Rightarrow> r \<noteq> Undef \<and> (\<forall>a. ram t a = ram (machine 0xAA [0x28, 1, 0x4A, 3, 0x1A]) a \<or> a \<in> region 64 32 \<union> frames (host inner_table) 2) \<and>
      dom (ram t) = dom (ram (machine 0xAA [0x28, 1, 0x4A, 3, 0x1A])) \<and> blocks t = blocks (machine 0xAA [0x28, 1, 0x4A, 3, 0x1A]) \<and>
      buffer_ok (m_stream t) \<and> bytes_left (m_stream t) \<le> bytes_left (m_stream (machine 0xAA [0x28, 1, 0x4A, 3, 0x1A]))"
proof (rule static_decode_safe [OF buffer_nested.pb_nested_axioms machine_facts(1)])
  show "buffer_ok (m_stream (machine 0xAA [0x28, 1, 0x4A, 3, 0x1A]))" by (simp add: machine_facts stream_of_ok)
  show "static_table (host inner_table) {} 2 sample_table 32"
    unfolding numeral_2_eq_2 static_table.simps(2) [of _ _ "Suc 0"]
    by (simp add: placed inner_static machine_facts in_union_def del: static_table.simps field_offset.simps)
  show "region 64 32 \<union> frames (host inner_table) 2 \<union> {} \<subseteq> dom (ram (machine 0xAA [0x28, 1, 0x4A, 3, 0x1A]))"
    using host_frames by (auto simp: machine_facts)
qed simp_all

text \<open>C32: but an array of submessages is not safe when the entries have pointers. Its count goes up before the
  new entry is prepared; when the stream ends there, the release of the message takes the entry for a
  submessage, and gives to \<^verbatim>\<open>free\<close> whatever its bytes were before.\<close>

theorem cut_off_entry_freed:
  assumes "h_tables E 4096 = Some name_table" "m_stream s = pb_istream_from_buffer [0x0A] 1" "p \<noteq> 0" "p + 8 \<noteq> 0"
    and "region p 16 \<union> region (h_frame E 1) 4 \<subseteq> dom (ram s)" "region p 16 \<inter> region (h_frame E 1) 4 = {}"
    and "number_at (ram s) (p + 8) 8 = Some q" "q \<noteq> 0" "blocks s q = None"
  shows "fst (pb_decode E 2 names_table p s) = Undef"
  by (rule cut_off_entry [OF assms])

theorem cut_off_entry_freed_witness:
  "fst (pb_decode (host name_table) 2 names_table 64 (machine 0xAA [0x0A])) = Undef"
proof (rule cut_off_entry_freed [OF machine_facts(2)])
  have r: "region (64 + 8) 8 \<subseteq> region 64 32" by (rule region_inside) simp
  show "number_at (ram (machine 0xAA [0x0A])) (64 + 8) 8 = Some (le_value (replicate 8 0xAA))"
    by (simp only: number_at_def machine_bytes [OF r] option.map)
  show "le_value (replicate 8 0xAA) \<noteq> 0" by (simp add: eight_bytes)
  show "region 64 16 \<inter> region (h_frame (host name_table) 1) 4 = {}"
    by (rule region_apart) (simp_all add: machine_facts)
qed (use region_mono [of 16 32 64] region_inside [of 8 4 32 1024] in \<open>auto simp: machine_facts stream_of_def\<close>)

text \<open>C33: and an array of fixed size, which has no count, is taken to have one: preparing a message that is two
  booleans clears the two bytes behind it.\<close>

theorem small_array_overrun:
  assumes "p \<noteq> 0" "region p 4 \<subseteq> dom (ram s)"
  shows "\<exists>t. pb_message_set_to_defaults E 1 flags_table p s = (Ok (), t) \<and> ram t (p + 2) = Some 0 \<and> ram t (p + 3) = Some 0"
  by (rule small_array [OF assms])

theorem small_array_overrun_witness:
  "\<exists>t. pb_message_set_to_defaults (host []) 1 flags_table 64 (machine 0xAA []) = (Ok (), t) \<and> ram t (64 + 2) = Some 0 \<and> ram t (64 + 3) = Some 0"
  by (rule small_array_overrun) (use region_mono [of 4 32 64] in \<open>auto simp: machine_facts\<close>)



section \<open>Stacks and hash tables\<close>

text \<open>C35: a stack is a list. From an empty stack, any sequence of operations gives the results of the same
  operations on lists, and leaves the same elements; a stack that is full refuses, and nothing is undefined.
  The allocator grants the memory that the stack asks for to grow.\<close>

theorem stack_refines_list:
  assumes "OPENSSL_sk_new A cmp = Some s" "always_grants A"
  shows "\<exists>t. sk_run A ops (Some s) = (Ok (fst (list_run ops [])), Some t) \<and> elements t = snd (list_run ops [])"
proof -
  have "stack_with s []" using new_ok [OF assms(1)] by (simp add: stack_with_def)
  from sk_run_list [OF this assms(2), of ops] show ?thesis by (auto simp: stack_with_def)
qed

theorem stack_refines_list_witness:
  "\<exists>t. sk_run calm [Push 1, Push 2, Insert 3 1, Push 4, Delete 0, Pop, Value 7] (Some \<lparr>sk_num = 0, sk_data = replicate 4 0,
        sk_sorted = False, num_alloc = 4, sk_comp = 0, sk_requests = 2\<rparr>) =
      (Ok (fst (list_run [Push 1, Push 2, Insert 3 1, Push 4, Delete 0, Pop, Value 7] [])), Some t) \<and>
     elements t = snd (list_run [Push 1, Push 2, Insert 3 1, Push 4, Delete 0, Pop, Value 7] [])"
  by (rule stack_refines_list [of calm 0]) (simp_all add: OPENSSL_sk_new_def)

text \<open>C36: sorting never leaves the array, keeps the elements, and orders them by the comparison function, for
  every stack that a program can make without overwriting an element (\<^verbatim>\<open>OPENSSL_sk_set\<close>) while its flag is set, with comparison
  functions that are total preorders.\<close>

theorem stack_sort_sorts:
  assumes "stack_made A call s" "\<forall>c. c \<noteq> 0 \<longrightarrow> comparison (call c)" "sk_comp s \<noteq> 0"
  shows "\<exists>t. OPENSSL_sk_sort call (Some s) = (Ok (), Some t) \<and> mset (elements t) = mset (elements s) \<and>
     sorted_wrt (\<lambda>a b. call (sk_comp s) a b \<le> 0) (elements t) \<and> sk_sorted t"
proof (cases "sk_sorted s")
  case True
  have "flag_true call s" using stack_made_ok [OF assms(1)] assms(2) by blast
  then show ?thesis using True by (simp add: OPENSSL_sk_sort_def on_sk_def flag_true_def)
next
  case False
  have "stack_with s (elements s)" using stack_made_ok [OF assms(1)] assms(2) by (simp add: stack_with_def)
  from sort_elements [OF this assms(3) False, of call] comparison.heap_sort_sorted [of "call (sk_comp s)"] show ?thesis
    using assms(2,3) by (auto simp: stack_with_def mset_heap_sort)
qed

text \<open>Pointers to encodings of one byte, compared as elements of a \<^verbatim>\<open>SET OF\<close>, and a stack of them.\<close>

definition by_bytes :: "u64 \<Rightarrow> u64 \<Rightarrow> u64 \<Rightarrow> int" where
  "by_bytes c a b = compare_set_of_element [ucast a] [ucast b]"

lemma by_bytes_lawful: "comparison (by_bytes c)"
  using comparison_behind [OF set_of.comparison_axioms, of "\<lambda>a :: u64. [ucast a]"] by (simp add: by_bytes_def [abs_def])

lemma by_bytes_code [code]:
  "by_bytes c a b = (if (ucast a :: u8) < ucast b then - 1 else if (ucast b :: u8) < ucast a then 1 else 0)"
  by (simp add: by_bytes_def compare_Cons) (simp add: compare_set_of_element_def Let_def)

definition three :: stack where
  "three = \<lparr>sk_num = 3, sk_data = [3, 1, 2, 0], sk_sorted = False, num_alloc = 4, sk_comp = 1, sk_requests = 2\<rparr>"

lemma three_made: "stack_made calm by_bytes three"
proof (rule stack_made_run)
  show "sk_run calm [Push 3, Push 1, Push 2] (Some \<lparr>sk_num = 0, sk_data = replicate 4 0, sk_sorted = False, num_alloc = 4,
        sk_comp = 1, sk_requests = 2\<rparr>) = (Ok [1, 2, 3], Some three)"
    by code_simp
  show "stack_made calm by_bytes \<lparr>sk_num = 0, sk_data = replicate 4 0, sk_sorted = False, num_alloc = 4, sk_comp = 1, sk_requests = 2\<rparr>"
    by (rule stack_made.made_new [of calm 1]) (simp add: OPENSSL_sk_new_def)
qed simp

theorem stack_sort_sorts_witness:
  "\<exists>t. OPENSSL_sk_sort by_bytes (Some three) = (Ok (), Some t) \<and> mset (elements t) = mset (elements three) \<and>
     sorted_wrt (\<lambda>a b. by_bytes (sk_comp three) a b \<le> 0) (elements t) \<and> sk_sorted t"
  by (rule stack_sort_sorts [OF three_made]) (simp_all add: by_bytes_lawful three_def)

text \<open>C37: on every stack that a program can make without overwriting an element (\<^verbatim>\<open>OPENSSL_sk_set\<close>) while its flag is set,
  with comparison functions that are total preorders, a search, which is binary once the stack is sorted, gives what
  looking at every element in turn gives: the index of the first match. The next property shows why the overwriting
  has to be excluded.\<close>

theorem stack_find_first:
  assumes "stack_made A call s" "\<forall>c. c \<noteq> 0 \<longrightarrow> comparison (call c)"
  shows "OPENSSL_sk_find call p (Some s) = (Ok (first_where (matches call (sk_comp s) p) (elements s)), Some s)"
  by (rule find_elements) (use stack_made_ok [OF assms(1)] assms(2) in \<open>auto simp: stack_with_def\<close>)

theorem stack_find_first_witness:
  "OPENSSL_sk_find by_bytes 2 (Some three) = (Ok (first_where (matches by_bytes (sk_comp three) 2) (elements three)), Some three)"
  by (rule stack_find_first [OF three_made]) (simp add: by_bytes_lawful)

text \<open>C38: overwriting an element does not reset the flag. In any stack that a program can make, with comparison functions that are
  total preorders, whose flag and comparison function are set, let an element before the middle where the search
  starts be overwritten by a pointer, not NULL, that compares greater than the last element. Then
  the pointer is in the stack and matches itself, but the search for it finds nothing.\<close>

theorem stack_set_hides:
  assumes "stack_made A call s" "\<forall>c. c \<noteq> 0 \<longrightarrow> comparison (call c)" "sk_sorted s" "sk_comp s \<noteq> 0" "p \<noteq> 0"
    and "i < (length (elements s) - 1) div 2" "call (sk_comp s) p (last (elements s)) > 0"
  shows "\<exists>u. OPENSSL_sk_set i p (Some s) = (Ok p, Some u) \<and> elements u = (elements s)[i := p] \<and>
     matches call (sk_comp u) p (elements u ! i) \<and> OPENSSL_sk_find call p (Some u) = (Ok None, Some u)"
proof -
  have c: "comparison (call (sk_comp s))" using assms(2,4) by simp
  have s: "stack_with s (elements s)" "flag_true call s" using stack_made_ok [OF assms(1)] assms(2) by (simp_all add: stack_with_def)
  have "sorted_wrt (\<lambda>a b. call (sk_comp s) a b \<le> 0) (elements s)" using s(2) assms(3) by (simp add: flag_true_def)
  from after_last [OF c this _ assms(7)] assms(6) have "\<forall>x\<in>set (elements s). call (sk_comp s) p x > 0" by fastforce
  from set_hides [where call = call, OF s(1) assms(3-6) this] obtain u where
    u: "OPENSSL_sk_set i p (Some s) = (Ok p, Some u)" "elements u = (elements s)[i := p]" "sk_comp u = sk_comp s"
      "OPENSSL_sk_find call p (Some u) = (Ok None, Some u)" by blast
  have "elements u ! i = p" using assms(6) by (simp add: u(2))
  then have "matches call (sk_comp u) p (elements u ! i)"
    using assms(4,5) comparison.reflexive [OF c, of p] by (simp add: matches_def u(3))
  then show ?thesis using u(1,2,4) by blast
qed

definition three_sorted :: stack where
  "three_sorted = three\<lparr>sk_data := [1, 2, 3, 0], sk_sorted := True\<rparr>"

theorem stack_set_hides_witness:
  "\<exists>u. OPENSSL_sk_set 0 9 (Some three_sorted) = (Ok 9, Some u) \<and> elements u = (elements three_sorted)[0 := 9] \<and>
     matches by_bytes (sk_comp u) 9 (elements u ! 0) \<and> OPENSSL_sk_find by_bytes 9 (Some u) = (Ok None, Some u)"
proof (rule stack_set_hides)
  have "OPENSSL_sk_sort by_bytes (Some three) = (Ok (), Some three_sorted)" by code_simp
  then show "stack_made calm by_bytes three_sorted" by (rule stack_made.made_sort [OF three_made])
  show "0 < (length (elements three_sorted) - 1) div 2" by code_simp
  show "by_bytes (sk_comp three_sorted) 9 (last (elements three_sorted)) > 0" by code_simp
qed (simp_all add: by_bytes_lawful three_sorted_def three_def)

text \<open>C39: a hash table is a list of elements, no two of them equal. From an empty table, any sequence of operations gives the
  results of the same operations on lists, through all resizing, and leaves the same elements. The allocator grants
  what the table asks for, equality is an equivalence, and equal elements have the same hash; there are less than 2^64 operations.\<close>

theorem hash_table_refines:
  assumes "OPENSSL_lh_new A hash cmp = Some s" "lh_lawful funcs s" "always_grants A" "length ops < 2 ^ 64"
  shows "\<exists>t. lh_run A funcs ops s = (Ok (fst (lh_list_run (lh_eq funcs cmp) ops [])), t) \<and> lh_ok funcs t \<and>
     mset (map it_data (items t)) = mset (snd (lh_list_run (lh_eq funcs cmp) ops []))"
proof -
  have s: "lh_holds funcs s []" "lh_comp s = cmp" using lh_new_ok [OF assms(1), of funcs] by (simp_all add: lh_holds_def)
  from lh_run_list [OF s(1) assms(2) _ assms(3), of ops] assms(4) s(2) show ?thesis by (auto simp: lh_holds_def)
qed

text \<open>Pointers to objects whose encoding has one byte.\<close>

definition object_funcs :: lhash_funcs where
  "object_funcs = \<lparr>call_hash_func = \<lambda>h p. hash_data [ucast p], call_cmp_func = \<lambda>c a b. OBJ_cmp [ucast a] [ucast b]\<rparr>"

definition empty_table :: lhash where
  "empty_table = \<lparr>num_items = 0, buckets = replicate 16 [], num_buckets = 16, callback_depth = 0, lh_comp = 1, lh_hash = 2, lh_requests = 2\<rparr>"

lemma empty_table_new: "OPENSSL_lh_new calm 2 1 = Some empty_table" "lh_lawful object_funcs s"
  using hashing_behind [OF objects.hashing_axioms, of "\<lambda>a :: u64. [ucast a]"]
  by (simp_all add: OPENSSL_lh_new_def empty_table_def lh_lawful_def object_funcs_def)

theorem hash_table_refines_witness:
  "\<exists>t. lh_run calm object_funcs [Lh_Insert 1, Lh_Insert 0x101, Lh_Insert 2, Lh_Retrieve 1, Lh_Delete 1, Lh_Count] empty_table =
      (Ok (fst (lh_list_run (lh_eq object_funcs 1) [Lh_Insert 1, Lh_Insert 0x101, Lh_Insert 2, Lh_Retrieve 1, Lh_Delete 1, Lh_Count] [])), t) \<and>
     lh_ok object_funcs t \<and> mset (map it_data (items t)) =
       mset (snd (lh_list_run (lh_eq object_funcs 1) [Lh_Insert 1, Lh_Insert 0x101, Lh_Insert 2, Lh_Retrieve 1, Lh_Delete 1, Lh_Count] []))"
  by (rule hash_table_refines [OF empty_table_new(1)]) (simp_all add: empty_table_new(2))

text \<open>C40: an iteration calls its function once for every element, also when the function removes the element that it
  is called with; the table then has those that were not removed.\<close>

theorem hash_iteration_visits:
  assumes "lh_holds funcs s xs" "lh_lawful funcs s" "callback_depth s = 0" "length xs \<le> fuel"
  shows "\<exists>t ys. OPENSSL_lh_doall_arg A fuel (visit A funcs del) (Some s) [] = Some (Ok (), Some t, ys) \<and> mset ys = mset xs \<and>
    lh_holds funcs t (filter (\<lambda>p. \<not> del p) ys)"
  by (rule doall_visits [OF assms])

theorem hash_iteration_visits_witness:
  "\<exists>s. lh_holds object_funcs s [1, 2] \<and>
    (\<exists>t ys. OPENSSL_lh_doall_arg calm 2 (visit calm object_funcs (\<lambda>p. p = 1)) (Some s) [] = Some (Ok (), Some t, ys) \<and>
      mset ys = mset [1, 2] \<and> lh_holds object_funcs t (filter (\<lambda>p. \<not> p = 1) ys))"
proof -
  have e: "lh_holds object_funcs empty_table []" "callback_depth empty_table = 0"
    using lh_new_ok [OF empty_table_new(1), of object_funcs] by (simp_all add: lh_holds_def)
  have "snd (lh_list_run (lh_eq object_funcs (lh_comp empty_table)) [Lh_Insert 1, Lh_Insert 2] []) = [1, 2]"
    by (simp add: others_def object_funcs_def OBJ_cmp_equal)
  then obtain s where s: "lh_holds object_funcs s [1, 2]" "callback_depth s = 0"
    using lh_run_list [OF e(1) empty_table_new(2), of "[Lh_Insert 1, Lh_Insert 2]" calm] e(2) by auto
  then show ?thesis using hash_iteration_visits [OF s(1) empty_table_new(2) s(2), of 2] by auto
qed

end
